(* ===== verification/Prelude.thy ===== *)
theory Prelude
  imports Main "HOL-Library.Word"
begin

text \<open>
  Shared vocabulary of the development: the machine integer types of the C sources, the faults
  a C statement can run into, the result type of every fallible operation together with its
  sequencing operator, and generic lemmas on lists and results that the components share.
\<close>

unbundle bit_operations_syntax

section \<open>Machine types\<close>

type_synonym u8 = "8 word"
type_synonym u32 = "32 word"
type_synonym u64 = "64 word"

text \<open>Pointers are 64-bit values; the null pointer is zero.\<close>

abbreviation NULL :: u64 where
  "NULL \<equiv> 0"

section \<open>Faults and results\<close>

text \<open>
  The ways in which a C statement of the sources fails to produce a value: a dereference of
  memory that is not (or no longer) mapped, a failed \<open>assert\<close>, a failed \<open>BUG_ON\<close>, a write
  through an indeterminate pointer, an array access outside its bounds, and a division by zero.
\<close>

datatype fault =
    BadDeref u64
  | UseAfterFree u64
  | AssertFail
  | BugOn
  | WildWrite
  | OutOfBounds
  | DivByZero

type_synonym 'a res = "fault + 'a"

definition rbind :: "'a res \<Rightarrow> ('a \<Rightarrow> 'b res) \<Rightarrow> 'b res" where
  "rbind m f = (case m of Inl e \<Rightarrow> Inl e | Inr x \<Rightarrow> f x)"

lemma rbind_Inl [simp]: "rbind (Inl e) f = Inl e"
  by (simp add: rbind_def)

lemma rbind_Inr [simp]: "rbind (Inr x) f = f x"
  by (simp add: rbind_def)

lemma rbind_eq_Inr [simp]: "rbind m f = Inr y \<longleftrightarrow> (\<exists>x. m = Inr x \<and> f x = Inr y)"
  by (cases m) auto

lemma rbind_eq_Inl: "rbind m f = Inl e \<longleftrightarrow> m = Inl e \<or> (\<exists>x. m = Inr x \<and> f x = Inl e)"
  by (cases m) auto

definition check :: "bool \<Rightarrow> fault \<Rightarrow> unit res" where
  "check b e = (if b then Inr () else Inl e)"

lemma check_True [simp]: "check True e = Inr ()"
  by (simp add: check_def)

lemma check_False [simp]: "check False e = Inl e"
  by (simp add: check_def)

lemma check_eq_Inr [simp]: "check b e = Inr u \<longleftrightarrow> b"
  by (simp add: check_def)

text \<open>A fallible step for every element of a list, in order, stopping at the first fault.\<close>

fun rfold :: "('b \<Rightarrow> 'a \<Rightarrow> 'a res) \<Rightarrow> 'b list \<Rightarrow> 'a \<Rightarrow> 'a res" where
  "rfold f [] s = Inr s"
| "rfold f (x # xs) s = rbind (f x s) (rfold f xs)"

text \<open>
  A loop of the sources need not end.  A run is \<open>None\<close> when it never returns, and otherwise
  the result of the code, which is a fault or a value.
\<close>

type_synonym 'a run = "'a res option"

abbreviation ret :: "'a \<Rightarrow> 'a run" where
  "ret x \<equiv> Some (Inr x)"

abbreviation fail :: "fault \<Rightarrow> 'a run" where
  "fail e \<equiv> Some (Inl e)"

definition pbind :: "'a run \<Rightarrow> ('a \<Rightarrow> 'b run) \<Rightarrow> 'b run" where
  "pbind m f = (case m of None \<Rightarrow> None | Some (Inl e) \<Rightarrow> fail e | Some (Inr x) \<Rightarrow> f x)"

lemma pbind_simps [simp]:
  "pbind None f = None" "pbind (fail e) f = fail e" "pbind (ret x) f = f x"
  by (simp_all add: pbind_def)

lemma pbind_eq_ret [simp]: "pbind m f = ret y \<longleftrightarrow> (\<exists>x. m = ret x \<and> f x = ret y)"
  by (auto simp: pbind_def split: option.splits sum.splits)

text \<open>Loops may be defined through \<^const>\<open>pbind\<close>.\<close>

lemma pbind_mono [partial_function_mono]:
  fixes m :: "('x \<Rightarrow> 'y option) \<Rightarrow> 'a run"
  assumes m: "mono_option m" and g: "\<And>y. mono_option (\<lambda>f. g y f)"
  shows "mono_option (\<lambda>f. pbind (m f) (\<lambda>y. g y f))"
proof (rule monotoneI)
  fix f f' :: "'x \<Rightarrow> 'y option" assume le: "option.le_fun f f'"
  have mf: "m f = None \<or> m f = m f'" and gf: "g y f = None \<or> g y f = g y f'" for y
    using m g le unfolding monotone_def flat_ord_def by blast+
  show "option_ord (pbind (m f) (\<lambda>y. g y f)) (pbind (m f') (\<lambda>y. g y f'))"
  proof (cases "m f")
    case None
    then show ?thesis by (simp add: flat_ord_def)
  next
    case (Some r)
    then have e: "m f' = Some r" using mf by auto
    show ?thesis
    proof (cases r)
      case (Inl x)
      then show ?thesis using Some e by (simp add: flat_ord_def)
    next
      case (Inr y)
      then show ?thesis using Some e gf [of y] by (simp add: flat_ord_def)
    qed
  qed
qed

text \<open>Normal termination of a fallible step.\<close>

definition ok :: "'a res \<Rightarrow> bool" where
  "ok m = (case m of Inl _ \<Rightarrow> False | Inr _ \<Rightarrow> True)"

lemma ok_simps [simp]: "ok (Inr x)" "\<not> ok (Inl e)"
  by (simp_all add: ok_def)

section \<open>Words\<close>

lemma unat_u32_less: "unat (w :: u32) < 4294967296"
  using unsigned_less [of w] by simp

lemma unat_u64_less: "unat (w :: u64) < 18446744073709551616"
  using unsigned_less [of w] by simp

lemma unat_of_nat_u64: "x < 2 ^ 64 \<Longrightarrow> unat (of_nat x :: u64) = x"
  by (simp add: unat_of_nat)

lemma unat_of_nat_u32: "x < 2 ^ 32 \<Longrightarrow> unat (of_nat x :: u32) = x"
  by (simp add: unat_of_nat)

lemma unat_pow2_u64:
  assumes "n < 64"
  shows "unat (2 ^ n :: u64) = 2 ^ n"
proof -
  have "(2 :: nat) ^ n < 2 ^ 64" using assms by (intro power_strict_increasing) simp_all
  then show ?thesis using unat_of_nat_u64 [of "2 ^ n"] by simp
qed

section \<open>Lists\<close>

lemma remove1_split: "x \<notin> set ys \<Longrightarrow> remove1 x (ys @ x # zs) = ys @ zs"
  by (simp add: remove1_append)

lemma in_set_splitE:
  assumes "x \<in> set xs"
  obtains ys zs where "xs = ys @ x # zs" and "x \<notin> set ys"
  using assms by (meson split_list_first)

lemma upt_split: "[m..<n] = pre @ i # post \<Longrightarrow> post = [Suc i..<n]"
  by (induction pre arbitrary: m) (auto simp: upt_eq_Cons_conv)

lemma butlast_distinct:
  assumes "distinct (a # ys)" and "x \<in> set (butlast (a # ys))"
  shows "x \<noteq> last (a # ys)" and "x \<in> set (a # ys)"
proof -
  have "a # ys = butlast (a # ys) @ [last (a # ys)]" by simp
  with assms(1) have "distinct (butlast (a # ys) @ [last (a # ys)])" by (simp only:)
  with assms(2) show "x \<noteq> last (a # ys)" by auto
  show "x \<in> set (a # ys)" using assms(2) by (rule in_set_butlastD)
qed

end
