(* ===== verification/PetList.thy ===== *)
theory PetList
  imports Prelude
begin

text \<open>
  The intrusive doubly linked list of \<open>src/Threads/pet_list.h\<close>, on an explicit store.  A
  store maps the address of every live \<open>struct list_head\<close> to its two pointers; an address
  outside its domain (the null pointer, the poison values, freed memory) faults when it is
  dereferenced.  Each inline function of the header is one definition that performs the
  header's loads and stores in the header's order.  The abstraction \<open>dlist\<close> reads a circular
  list as a HOL list of node addresses; the lemmas show that every operation returns without
  a fault on a well-formed list, what it does to the abstract list, and what it leaves alone.
\<close>

section \<open>The store\<close>

record list_head =
  lh_next :: u64
  lh_prev :: u64

type_synonym list_store = "u64 \<Rightarrow> list_head option"

definition LIST_POISON1 :: u64 where
  "LIST_POISON1 = 0x00100100"

definition LIST_POISON2 :: u64 where
  "LIST_POISON2 = 0x00200200"

definition rd_next :: "list_store \<Rightarrow> u64 \<Rightarrow> u64 res" where
  "rd_next s a = (case s a of None \<Rightarrow> Inl (BadDeref a) | Some l \<Rightarrow> Inr (lh_next l))"

definition rd_prev :: "list_store \<Rightarrow> u64 \<Rightarrow> u64 res" where
  "rd_prev s a = (case s a of None \<Rightarrow> Inl (BadDeref a) | Some l \<Rightarrow> Inr (lh_prev l))"

definition wr_next :: "list_store \<Rightarrow> u64 \<Rightarrow> u64 \<Rightarrow> list_store res" where
  "wr_next s a v =
     (case s a of None \<Rightarrow> Inl (BadDeref a) | Some l \<Rightarrow> Inr (s(a \<mapsto> l\<lparr>lh_next := v\<rparr>)))"

definition wr_prev :: "list_store \<Rightarrow> u64 \<Rightarrow> u64 \<Rightarrow> list_store res" where
  "wr_prev s a v =
     (case s a of None \<Rightarrow> Inl (BadDeref a) | Some l \<Rightarrow> Inr (s(a \<mapsto> l\<lparr>lh_prev := v\<rparr>)))"

section \<open>The operations\<close>

definition INIT_LIST_HEAD :: "list_store \<Rightarrow> u64 \<Rightarrow> list_store res" where
  "INIT_LIST_HEAD s l = rbind (wr_next s l l) (\<lambda>s. wr_prev s l l)"

definition list_head_init :: "list_store \<Rightarrow> u64 \<Rightarrow> list_store res" where
  "list_head_init s l = INIT_LIST_HEAD s l"

text \<open>\<open>__list_add(new, prev, next)\<close>.\<close>

definition list_add_between :: "list_store \<Rightarrow> u64 \<Rightarrow> u64 \<Rightarrow> u64 \<Rightarrow> list_store res" where
  "list_add_between s new prv nxt =
     rbind (wr_prev s nxt new) (\<lambda>s.
     rbind (wr_next s new nxt) (\<lambda>s.
     rbind (wr_prev s new prv) (\<lambda>s.
     wr_next s prv new)))"

definition list_add :: "list_store \<Rightarrow> u64 \<Rightarrow> u64 \<Rightarrow> list_store res" where
  "list_add s new head = rbind (rd_next s head) (\<lambda>n. list_add_between s new head n)"

definition list_add_tail :: "list_store \<Rightarrow> u64 \<Rightarrow> u64 \<Rightarrow> list_store res" where
  "list_add_tail s new head = rbind (rd_prev s head) (\<lambda>p. list_add_between s new p head)"

text \<open>\<open>__list_del(prev, next)\<close>.\<close>

definition list_del_between :: "list_store \<Rightarrow> u64 \<Rightarrow> u64 \<Rightarrow> list_store res" where
  "list_del_between s prv nxt = rbind (wr_prev s nxt prv) (\<lambda>s. wr_next s prv nxt)"

definition list_del :: "list_store \<Rightarrow> u64 \<Rightarrow> list_store res" where
  "list_del s e =
     rbind (rd_prev s e) (\<lambda>p.
     rbind (rd_next s e) (\<lambda>n.
     rbind (list_del_between s p n) (\<lambda>s.
     rbind (wr_next s e LIST_POISON1) (\<lambda>s.
     wr_prev s e LIST_POISON2))))"

definition list_del_init :: "list_store \<Rightarrow> u64 \<Rightarrow> list_store res" where
  "list_del_init s e =
     rbind (rd_prev s e) (\<lambda>p.
     rbind (rd_next s e) (\<lambda>n.
     rbind (list_del_between s p n) (\<lambda>s.
     INIT_LIST_HEAD s e)))"

definition list_move :: "list_store \<Rightarrow> u64 \<Rightarrow> u64 \<Rightarrow> list_store res" where
  "list_move s l head =
     rbind (rd_prev s l) (\<lambda>p.
     rbind (rd_next s l) (\<lambda>n.
     rbind (list_del_between s p n) (\<lambda>s.
     list_add s l head)))"

definition list_move_tail :: "list_store \<Rightarrow> u64 \<Rightarrow> u64 \<Rightarrow> list_store res" where
  "list_move_tail s l head =
     rbind (rd_prev s l) (\<lambda>p.
     rbind (rd_next s l) (\<lambda>n.
     rbind (list_del_between s p n) (\<lambda>s.
     list_add_tail s l head)))"

definition list_empty :: "list_store \<Rightarrow> u64 \<Rightarrow> bool res" where
  "list_empty s head = rbind (rd_next s head) (\<lambda>n. Inr (n = head))"

definition list_empty_careful :: "list_store \<Rightarrow> u64 \<Rightarrow> bool res" where
  "list_empty_careful s head =
     rbind (rd_next s head) (\<lambda>n.
     if n = head then rbind (rd_prev s head) (\<lambda>p. Inr (n = p)) else Inr False)"

text \<open>\<open>__list_splice(list, head)\<close>.\<close>

definition list_splice_raw :: "list_store \<Rightarrow> u64 \<Rightarrow> u64 \<Rightarrow> list_store res" where
  "list_splice_raw s l head =
     rbind (rd_next s l) (\<lambda>first.
     rbind (rd_prev s l) (\<lambda>last.
     rbind (rd_next s head) (\<lambda>at.
     rbind (wr_prev s first head) (\<lambda>s.
     rbind (wr_next s head first) (\<lambda>s.
     rbind (wr_next s last at) (\<lambda>s.
     wr_prev s at last))))))"

definition list_splice :: "list_store \<Rightarrow> u64 \<Rightarrow> u64 \<Rightarrow> list_store res" where
  "list_splice s l head =
     rbind (list_empty s l) (\<lambda>b. if \<not> b then list_splice_raw s l head else Inr s)"

definition list_splice_init :: "list_store \<Rightarrow> u64 \<Rightarrow> u64 \<Rightarrow> list_store res" where
  "list_splice_init s l head =
     rbind (list_empty s l) (\<lambda>b.
     if \<not> b then rbind (list_splice_raw s l head) (\<lambda>s. INIT_LIST_HEAD s l) else Inr s)"

text \<open>
  The iteration macros.  \<open>list_for_each\<close> starts at \<open>head->next\<close> and stops when it is back at
  the head; the value is the sequence of nodes the loop body sees.  The macro evaluates
  \<open>pos->next\<close> before it compares (\<open>prefetch(x)\<close> is \<open>(x)\<close>), so the load can fault even on
  the last test.  \<open>None\<close> is a loop that never comes back to the head.
\<close>

partial_function (option) list_for_each_from ::
  "list_store \<Rightarrow> u64 \<Rightarrow> u64 \<Rightarrow> u64 list \<Rightarrow> u64 list res option" where
  "list_for_each_from s head pos acc =
     (case s pos of
        None \<Rightarrow> Some (Inl (BadDeref pos))
      | Some l \<Rightarrow>
          if pos = head then Some (Inr (rev acc))
          else list_for_each_from s head (lh_next l) (pos # acc))"

definition list_for_each :: "list_store \<Rightarrow> u64 \<Rightarrow> u64 list res option" where
  "list_for_each s head =
     (case s head of
        None \<Rightarrow> Some (Inl (BadDeref head))
      | Some l \<Rightarrow> list_for_each_from s head (lh_next l) [])"

partial_function (option) list_for_each_prev_from ::
  "list_store \<Rightarrow> u64 \<Rightarrow> u64 \<Rightarrow> u64 list \<Rightarrow> u64 list res option" where
  "list_for_each_prev_from s head pos acc =
     (case s pos of
        None \<Rightarrow> Some (Inl (BadDeref pos))
      | Some l \<Rightarrow>
          if pos = head then Some (Inr (rev acc))
          else list_for_each_prev_from s head (lh_prev l) (pos # acc))"

definition list_for_each_prev :: "list_store \<Rightarrow> u64 \<Rightarrow> u64 list res option" where
  "list_for_each_prev s head =
     (case s head of
        None \<Rightarrow> Some (Inl (BadDeref head))
      | Some l \<Rightarrow> list_for_each_prev_from s head (lh_prev l) [])"


section \<open>Circular lists in a store\<close>

definition nx :: "list_store \<Rightarrow> u64 \<Rightarrow> u64 option" where
  "nx s a = map_option lh_next (s a)"

definition pv :: "list_store \<Rightarrow> u64 \<Rightarrow> u64 option" where
  "pv s a = map_option lh_prev (s a)"

text \<open>
  \<open>lseg s a xs b\<close>: following \<open>next\<close> from \<open>a\<close> passes through exactly the nodes \<open>xs\<close> and ends at
  \<open>b\<close>, and every \<open>prev\<close> pointer on the way points back.
\<close>

fun lseg :: "list_store \<Rightarrow> u64 \<Rightarrow> u64 list \<Rightarrow> u64 \<Rightarrow> bool" where
  "lseg s a [] b \<longleftrightarrow> nx s a = Some b \<and> pv s b = Some a"
| "lseg s a (x # xs) b \<longleftrightarrow> nx s a = Some x \<and> pv s x = Some a \<and> lseg s x xs b"

definition dlist :: "list_store \<Rightarrow> u64 \<Rightarrow> u64 list \<Rightarrow> bool" where
  "dlist s h xs \<longleftrightarrow> distinct (h # xs) \<and> lseg s h xs h"

lemma nx_upd [simp]: "nx (s(a \<mapsto> l)) b = (if b = a then Some (lh_next l) else nx s b)"
  by (simp add: nx_def)

lemma pv_upd [simp]: "pv (s(a \<mapsto> l)) b = (if b = a then Some (lh_prev l) else pv s b)"
  by (simp add: pv_def)

lemma nx_SomeD: "nx s a = Some b \<Longrightarrow> \<exists>l. s a = Some l \<and> lh_next l = b"
  by (auto simp: nx_def)

lemma pv_SomeD: "pv s a = Some b \<Longrightarrow> \<exists>l. s a = Some l \<and> lh_prev l = b"
  by (auto simp: pv_def)

lemma lseg_append:
  "lseg s a (xs @ x # ys) b \<longleftrightarrow> lseg s a xs x \<and> lseg s x ys b"
  by (induction xs arbitrary: a) auto

lemma lseg_cong:
  assumes "\<And>c. c \<in> insert a (set xs) \<Longrightarrow> nx s' c = nx s c"
    and "\<And>c. c \<in> insert b (set xs) \<Longrightarrow> pv s' c = pv s c"
  shows "lseg s' a xs b \<longleftrightarrow> lseg s a xs b"
  using assms by (induction xs arbitrary: a) auto

lemma lseg_upd_other [simp]:
  "c \<notin> insert a (set xs) \<Longrightarrow> c \<notin> insert b (set xs) \<Longrightarrow> lseg (s(c \<mapsto> l)) a xs b \<longleftrightarrow> lseg s a xs b"
  by (rule lseg_cong) auto

lemma lseg_last: "lseg s a xs b \<Longrightarrow> pv s b = Some (last (a # xs))"
  by (induction xs arbitrary: a) auto

lemma lseg_first: "lseg s a xs b \<Longrightarrow> nx s a = Some (hd (xs @ [b]))"
  by (cases xs) auto

lemma lseg_mapped: "lseg s a xs b \<Longrightarrow> c \<in> insert a (insert b (set xs)) \<Longrightarrow> s c \<noteq> None"
  by (induction xs arbitrary: a) (auto simp: nx_def pv_def)

lemma dlist_frame:
  assumes "\<And>c. c \<in> insert h (set xs) \<Longrightarrow> s' c = s c"
  shows "dlist s' h xs \<longleftrightarrow> dlist s h xs"
proof -
  have "lseg s' h xs h \<longleftrightarrow> lseg s h xs h"
    by (rule lseg_cong) (use assms in \<open>auto simp: nx_def pv_def\<close>)
  then show ?thesis by (simp add: dlist_def)
qed

text \<open>
  The seams of a segment: the operations only replace its last \<open>next\<close> or its first \<open>prev\<close>
  pointer, so these two lemmas are all that their proofs need.
\<close>

lemma lseg_drop: "lseg s a (ys @ zs) b \<Longrightarrow> lseg s (last (a # ys)) zs b"
  by (induction ys arbitrary: a) auto

lemma lseg_relink_last:
  assumes "lseg s a (ys @ zs) b"
    and "nx s' (last (a # ys)) = Some c" and "pv s' c = Some (last (a # ys))"
    and "\<And>x. x \<in> set (butlast (a # ys)) \<Longrightarrow> nx s' x = nx s x"
    and "\<And>x. x \<in> set ys \<Longrightarrow> pv s' x = pv s x"
  shows "lseg s' a ys c"
  using assms by (induction ys arbitrary: a) auto

lemma lseg_relink_first:
  assumes "lseg s a (ys @ zs) b"
    and "nx s' c = Some (hd (zs @ [b]))" and "pv s' (hd (zs @ [b])) = Some c"
    and "\<And>x. x \<in> set zs \<Longrightarrow> nx s' x = nx s x"
    and "\<And>x. x \<in> set (tl (zs @ [b])) \<Longrightarrow> pv s' x = pv s x"
  shows "lseg s' c zs b"
proof (cases zs)
  case Nil
  with assms show ?thesis by simp
next
  case (Cons z zs')
  from lseg_drop [OF assms(1)] Cons have "lseg s z zs' b" by simp
  moreover have "lseg s' z zs' b \<longleftrightarrow> lseg s z zs' b"
    by (rule lseg_cong) (use assms(4,5) Cons in auto)
  ultimately show ?thesis using assms(2,3) Cons by simp
qed

lemma lseg_cut:
  assumes "lseg s a (ys @ e # zs) b"
    and "nx s' (last (a # ys)) = Some (hd (zs @ [b]))"
    and "pv s' (hd (zs @ [b])) = Some (last (a # ys))"
    and "\<And>x. x \<in> set (butlast (a # ys)) \<Longrightarrow> nx s' x = nx s x"
    and "\<And>x. x \<in> set ys \<Longrightarrow> pv s' x = pv s x"
    and "\<And>x. x \<in> set zs \<Longrightarrow> nx s' x = nx s x"
    and "\<And>x. x \<in> set (tl (zs @ [b])) \<Longrightarrow> pv s' x = pv s x"
  shows "lseg s' a (ys @ zs) b"
  using assms
proof (induction ys arbitrary: a)
  case Nil
  then show ?case using lseg_relink_first [of s a "[e]" zs b s' a] by simp
next
  case (Cons y ys)
  then show ?case by simp
qed

section \<open>What the operations do to the two pointer fields\<close>

lemma rd_next_eq [simp]: "nx s a = Some b \<Longrightarrow> rd_next s a = Inr b"
  by (auto simp: rd_next_def nx_def)

lemma rd_prev_eq [simp]: "pv s a = Some b \<Longrightarrow> rd_prev s a = Inr b"
  by (auto simp: rd_prev_def pv_def)

text \<open>
  \<open>relinked s s' N P D\<close>: the store \<open>s'\<close> is \<open>s\<close> with the \<open>next\<close> pointers of \<open>N\<close> and the \<open>prev\<close>
  pointers of \<open>P\<close> written, and no other cell touched.
\<close>

definition relinked :: "list_store \<Rightarrow> list_store \<Rightarrow> (u64 \<Rightarrow> u64 option) \<Rightarrow> (u64 \<Rightarrow> u64 option) \<Rightarrow> bool" where
  "relinked s s' N P \<longleftrightarrow>
     nx s' = nx s ++ N \<and> pv s' = pv s ++ P \<and> dom s' = dom s
     \<and> (\<forall>a. a \<notin> dom N \<union> dom P \<longrightarrow> s' a = s a)"

lemma relinked_refl: "relinked s s Map.empty Map.empty"
  by (simp add: relinked_def)

lemma relinked_wr_next:
  assumes "relinked s t N P" and "s a \<noteq> None"
  shows "\<exists>u. wr_next t a v = Inr u \<and> relinked s u (N(a \<mapsto> v)) P"
proof -
  from assms obtain l where l: "t a = Some l" by (metis domIff not_None_eq relinked_def)
  have "nx (t(a \<mapsto> l\<lparr>lh_next := v\<rparr>)) = nx s ++ N(a \<mapsto> v)"
    using assms(1) by (auto simp: relinked_def fun_eq_iff map_add_def)
  moreover have "pv (t(a \<mapsto> l\<lparr>lh_next := v\<rparr>)) = pv t"
    by (rule ext) (simp add: pv_def l)
  ultimately show ?thesis
    using assms l by (auto simp: wr_next_def relinked_def)
qed

lemma relinked_wr_prev:
  assumes "relinked s t N P" and "s a \<noteq> None"
  shows "\<exists>u. wr_prev t a v = Inr u \<and> relinked s u N (P(a \<mapsto> v))"
proof -
  from assms obtain l where l: "t a = Some l" by (metis domIff not_None_eq relinked_def)
  have "pv (t(a \<mapsto> l\<lparr>lh_prev := v\<rparr>)) = pv s ++ P(a \<mapsto> v)"
    using assms(1) by (auto simp: relinked_def fun_eq_iff map_add_def)
  moreover have "nx (t(a \<mapsto> l\<lparr>lh_prev := v\<rparr>)) = nx t"
    by (rule ext) (simp add: nx_def l)
  ultimately show ?thesis
    using assms l by (auto simp: wr_prev_def relinked_def)
qed

lemma list_add_between_eff:
  assumes "relinked s t N P" and "s nxt \<noteq> None" and "s new \<noteq> None" and "s prv \<noteq> None"
  shows "\<exists>u. list_add_between t new prv nxt = Inr u \<and>
             relinked s u (N(new \<mapsto> nxt, prv \<mapsto> new)) (P(nxt \<mapsto> new, new \<mapsto> prv))"
proof -
  obtain s1 where 1: "wr_prev t nxt new = Inr s1" "relinked s s1 N (P(nxt \<mapsto> new))"
    using relinked_wr_prev assms(1,2) by blast
  obtain s2 where 2: "wr_next s1 new nxt = Inr s2"
    "relinked s s2 (N(new \<mapsto> nxt)) (P(nxt \<mapsto> new))"
    using relinked_wr_next 1 assms(3) by blast
  obtain s3 where 3: "wr_prev s2 new prv = Inr s3"
    "relinked s s3 (N(new \<mapsto> nxt)) (P(nxt \<mapsto> new, new \<mapsto> prv))"
    using relinked_wr_prev 2 assms(3) by blast
  obtain s4 where 4: "wr_next s3 prv new = Inr s4"
    "relinked s s4 (N(new \<mapsto> nxt, prv \<mapsto> new)) (P(nxt \<mapsto> new, new \<mapsto> prv))"
    using relinked_wr_next 3 assms(4) by blast
  show ?thesis using 1 2 3 4 by (auto simp: list_add_between_def)
qed

lemma list_del_between_eff:
  assumes "relinked s t N P" and "s nxt \<noteq> None" and "s prv \<noteq> None"
  shows "\<exists>u. list_del_between t prv nxt = Inr u \<and> relinked s u (N(prv \<mapsto> nxt)) (P(nxt \<mapsto> prv))"
proof -
  obtain s1 where 1: "wr_prev t nxt prv = Inr s1" "relinked s s1 N (P(nxt \<mapsto> prv))"
    using relinked_wr_prev assms(1,2) by blast
  obtain s2 where 2: "wr_next s1 prv nxt = Inr s2" "relinked s s2 (N(prv \<mapsto> nxt)) (P(nxt \<mapsto> prv))"
    using relinked_wr_next 1 assms(3) by blast
  show ?thesis using 1 2 by (auto simp: list_del_between_def)
qed

lemma INIT_LIST_HEAD_eff:
  assumes "relinked s t N P" and "s l \<noteq> None"
  shows "\<exists>u. INIT_LIST_HEAD t l = Inr u \<and> relinked s u (N(l \<mapsto> l)) (P(l \<mapsto> l))"
proof -
  obtain s1 where 1: "wr_next t l l = Inr s1" "relinked s s1 (N(l \<mapsto> l)) P"
    using relinked_wr_next assms by blast
  obtain s2 where 2: "wr_prev s1 l l = Inr s2" "relinked s s2 (N(l \<mapsto> l)) (P(l \<mapsto> l))"
    using relinked_wr_prev 1 assms(2) by blast
  show ?thesis using 1 2 by (auto simp: INIT_LIST_HEAD_def)
qed

section \<open>Inserting and removing on the abstract list\<close>

lemma dlist_insert:
  assumes d: "dlist s h (ys @ zs)" and new: "new \<notin> set (h # ys @ zs)"
    and r: "relinked s s' [new \<mapsto> hd (zs @ [h]), last (h # ys) \<mapsto> new]
                          [hd (zs @ [h]) \<mapsto> new, new \<mapsto> last (h # ys)]"
  shows "dlist s' h (ys @ new # zs)"
proof -
  let ?p = "last (h # ys)" and ?n = "hd (zs @ [h])"
  have p: "?p \<in> set (h # ys)" by (rule last_in_set) simp
  have n: "?n \<in> insert h (set zs)" by (cases zs) auto
  have N: "nx s' x = (if x = ?p then Some new else if x = new then Some ?n else nx s x)" for x
    using r by (simp add: relinked_def)
  have P: "pv s' x = (if x = new then Some ?p else if x = ?n then Some new else pv s x)" for x
    using r by (simp add: relinked_def)
  from d have dis: "distinct (h # ys @ zs)" and seg: "lseg s h (ys @ zs) h"
    by (simp_all add: dlist_def)
  have butl: "x \<noteq> ?p \<and> x \<in> set (h # ys)" if "x \<in> set (butlast (h # ys))" for x
    using butlast_distinct [OF _ that] dis by simp
  have "lseg s' h ys new"
  proof (rule lseg_relink_last [OF seg])
    show "nx s' x = nx s x" if "x \<in> set (butlast (h # ys))" for x
      using butl[OF that] new by (auto simp: N)
    show "pv s' x = pv s x" if "x \<in> set ys" for x
      using that n dis new by (auto simp: P)
  qed (simp_all add: N P)
  moreover have "lseg s' new zs h"
  proof (rule lseg_relink_first [OF seg])
    show "nx s' new = Some ?n" using p new by (auto simp: N)
    show "pv s' ?n = Some new" using n new by (auto simp: P)
    show "nx s' x = nx s x" if "x \<in> set zs" for x
      using that p dis new by (auto simp: N)
    show "pv s' x = pv s x" if "x \<in> set (tl (zs @ [h]))" for x
      using that dis new by (cases zs) (auto simp: P)
  qed
  ultimately show ?thesis
    using dis new by (auto simp: dlist_def lseg_append)
qed

lemma dlist_delete:
  assumes d: "dlist s h (ys @ e # zs)"
    and r: "relinked s s' (N(last (h # ys) \<mapsto> hd (zs @ [h]))) (P(hd (zs @ [h]) \<mapsto> last (h # ys)))"
    and NP: "dom N \<subseteq> {e}" "dom P \<subseteq> {e}"
  shows "dlist s' h (ys @ zs)"
proof -
  let ?p = "last (h # ys)" and ?n = "hd (zs @ [h])"
  have p: "?p \<in> set (h # ys)" by (rule last_in_set) simp
  have n: "?n \<in> insert h (set zs)" by (cases zs) auto
  have N: "nx s' x = (if x = ?p then Some ?n else nx s x)" if "x \<noteq> e" for x
    using r NP that by (auto simp: relinked_def map_add_def split: option.splits)
  have P: "pv s' x = (if x = ?n then Some ?p else pv s x)" if "x \<noteq> e" for x
    using r NP that by (auto simp: relinked_def map_add_def split: option.splits)
  from d have dis: "distinct (h # ys @ e # zs)" and seg: "lseg s h (ys @ e # zs) h"
    by (simp_all add: dlist_def)
  have butl: "x \<noteq> ?p \<and> x \<in> set (h # ys)" if "x \<in> set (butlast (h # ys))" for x
    using butlast_distinct [OF _ that] dis by simp
  have "lseg s' h (ys @ zs) h"
  proof (rule lseg_cut [OF seg])
    show "nx s' ?p = Some ?n" using p dis by (subst N) auto
    show "pv s' ?n = Some ?p" using n dis by (subst P) auto
    show "nx s' x = nx s x" if "x \<in> set (butlast (h # ys))" for x
      using butl[OF that] dis by (subst N) auto
    show "pv s' x = pv s x" if "x \<in> set ys" for x
      using that n dis by (subst P) auto
    show "nx s' x = nx s x" if "x \<in> set zs" for x
      using that p dis by (subst N) auto
    show "pv s' x = pv s x" if "x \<in> set (tl (zs @ [h]))" for x
      using that dis by (cases zs; subst P) auto
  qed
  with dis show ?thesis by (simp add: dlist_def)
qed

section \<open>The operations on well-formed lists\<close>

text \<open>\<open>framed s s' A\<close>: the same cells are mapped, and cells outside \<open>A\<close> are unchanged.\<close>

definition framed :: "list_store \<Rightarrow> list_store \<Rightarrow> u64 set \<Rightarrow> bool" where
  "framed s s' A \<longleftrightarrow> dom s' = dom s \<and> (\<forall>a. a \<notin> A \<longrightarrow> s' a = s a)"

lemma framed_refl [simp]: "framed s s A"
  by (simp add: framed_def)

lemma framed_trans: "framed s t A \<Longrightarrow> framed t u B \<Longrightarrow> A \<subseteq> C \<Longrightarrow> B \<subseteq> C \<Longrightarrow> framed s u C"
  by (fastforce simp: framed_def)

lemma framed_mapped: "framed s s' A \<Longrightarrow> s a \<noteq> None \<Longrightarrow> s' a \<noteq> None"
  by (metis domIff framed_def)

lemma framed_dlist:
  "framed s s' A \<Longrightarrow> A \<inter> set (h # xs) = {} \<Longrightarrow> dlist s h xs \<Longrightarrow> dlist s' h xs"
  by (subst dlist_frame) (auto simp: framed_def)

lemma framed_mapped_eq: "framed s s' A \<Longrightarrow> (\<lambda>a. s' a \<noteq> None) = (\<lambda>a. s a \<noteq> None)"
  by (auto simp: framed_def fun_eq_iff domIff set_eq_iff)

lemma framed_others:
  "framed s s' A \<Longrightarrow> \<forall>g ys. dlist s g ys \<longrightarrow> set (g # ys) \<inter> A = {} \<longrightarrow> dlist s' g ys"
  using framed_dlist by (metis inf_commute)

lemma relinked_framed: "relinked s s' N P \<Longrightarrow> dom N \<union> dom P \<subseteq> A \<Longrightarrow> framed s s' A"
  unfolding relinked_def framed_def by blast

lemma dlist_mapped: "dlist s h xs \<Longrightarrow> a \<in> set (h # xs) \<Longrightarrow> s a \<noteq> None"
  unfolding dlist_def using lseg_mapped [of s h xs h a] by auto

lemma dlist_nx_head: "dlist s h xs \<Longrightarrow> nx s h = Some (hd (xs @ [h]))"
  by (auto simp: dlist_def dest: lseg_first)

lemma dlist_pv_head: "dlist s h xs \<Longrightarrow> pv s h = Some (last (h # xs))"
  unfolding dlist_def by (blast dest: lseg_last)

lemma dlist_links_at:
  assumes "dlist s h (ys @ e # zs)"
  shows "pv s e = Some (last (h # ys))" and "nx s e = Some (hd (zs @ [h]))"
  using assms lseg_first lseg_last by (auto simp: dlist_def lseg_append)

lemma list_add_between_dlist:
  assumes d: "dlist s h (ys @ zs)" and new: "new \<notin> set (h # ys @ zs)" "s new \<noteq> None"
  shows "\<exists>s'. list_add_between s new (last (h # ys)) (hd (zs @ [h])) = Inr s'
            \<and> dlist s' h (ys @ new # zs) \<and> framed s s' (set (new # h # ys @ zs))"
proof -
  have p: "last (h # ys) \<in> set (h # ys)" by (rule last_in_set) simp
  have n: "hd (zs @ [h]) \<in> set (zs @ [h])" by (rule hd_in_set) simp
  have "s (hd (zs @ [h])) \<noteq> None" "s (last (h # ys)) \<noteq> None"
    by (rule dlist_mapped [OF d]; use p n in auto)+
  from list_add_between_eff [OF relinked_refl this(1) new(2) this(2)]
  obtain s' where s': "list_add_between s new (last (h # ys)) (hd (zs @ [h])) = Inr s'"
    "relinked s s' [new \<mapsto> hd (zs @ [h]), last (h # ys) \<mapsto> new]
       [hd (zs @ [h]) \<mapsto> new, new \<mapsto> last (h # ys)]"
    by auto
  moreover have "framed s s' (set (new # h # ys @ zs))"
    by (rule relinked_framed [OF s'(2)]) (use p n in auto)
  ultimately show ?thesis using dlist_insert [OF d new(1)] by blast
qed

lemma list_add_dlist:
  assumes "dlist s h xs" and "new \<notin> set (h # xs)" and "s new \<noteq> None"
  shows "\<exists>s'. list_add s new h = Inr s' \<and> dlist s' h (new # xs) \<and> framed s s' (set (new # h # xs))"
  using list_add_between_dlist [of s h "[]" xs new] assms dlist_nx_head [OF assms(1)]
  by (simp add: list_add_def)

lemma list_add_tail_dlist:
  assumes "dlist s h xs" and "new \<notin> set (h # xs)" and "s new \<noteq> None"
  shows "\<exists>s'. list_add_tail s new h = Inr s' \<and> dlist s' h (xs @ [new])
            \<and> framed s s' (set (new # h # xs))"
  using list_add_between_dlist [of s h xs "[]" new] assms dlist_pv_head [OF assms(1)]
  by (simp add: list_add_tail_def)

text \<open>
  The common part of every removal: the neighbours are joined; what is written into the removed
  node afterwards (\<open>N\<close>, \<open>P\<close>) does not matter for the list.
\<close>

lemma list_del_between_dlist:
  assumes d: "dlist s h (ys @ e # zs)"
  shows "\<exists>s'. list_del_between s (last (h # ys)) (hd (zs @ [h])) = Inr s'
            \<and> relinked s s' [last (h # ys) \<mapsto> hd (zs @ [h])] [hd (zs @ [h]) \<mapsto> last (h # ys)]
            \<and> dlist s' h (ys @ zs) \<and> framed s s' (set (h # ys @ zs)) \<and> s' e = s e"
proof -
  have p: "last (h # ys) \<in> set (h # ys)" by (rule last_in_set) simp
  have n: "hd (zs @ [h]) \<in> set (zs @ [h])" by (rule hd_in_set) simp
  have "s (hd (zs @ [h])) \<noteq> None" "s (last (h # ys)) \<noteq> None"
    by (rule dlist_mapped [OF d]; use p n in auto)+
  from list_del_between_eff [OF relinked_refl this]
  obtain s' where s': "list_del_between s (last (h # ys)) (hd (zs @ [h])) = Inr s'"
    "relinked s s' [last (h # ys) \<mapsto> hd (zs @ [h])] [hd (zs @ [h]) \<mapsto> last (h # ys)]"
    by auto
  moreover have f: "framed s s' (set (h # ys @ zs))"
    by (rule relinked_framed [OF s'(2)]) (use p n in auto)
  moreover have "s' e = s e" using f d by (auto simp: framed_def dlist_def)
  ultimately show ?thesis using dlist_delete [OF d s'(2)] by auto
qed

lemma list_del_dlist:
  assumes d: "dlist s h xs" and e: "e \<in> set xs"
  shows "\<exists>s'. list_del s e = Inr s' \<and> dlist s' h (remove1 e xs) \<and> framed s s' (set (h # xs))
            \<and> s' e = Some \<lparr>lh_next = LIST_POISON1, lh_prev = LIST_POISON2\<rparr>"
proof -
  from e obtain ys zs where xs: "xs = ys @ e # zs" "e \<notin> set ys" by (rule in_set_splitE)
  from list_del_between_dlist d xs obtain s1 where
    s1: "list_del_between s (last (h # ys)) (hd (zs @ [h])) = Inr s1"
      "dlist s1 h (ys @ zs)" "framed s s1 (set (h # ys @ zs))" "s1 e = s e" by blast
  from dlist_mapped [OF d] e obtain l where l: "s e = Some l" by fastforce
  let ?s2 = "s1(e \<mapsto> \<lparr>lh_next = LIST_POISON1, lh_prev = LIST_POISON2\<rparr>)"
  have "list_del s e = Inr ?s2"
    using dlist_links_at [of s h ys e zs] d xs s1 l
    by (cases l) (simp add: list_del_def wr_next_def wr_prev_def)
  moreover have "framed s1 ?s2 {e}"
    using s1(4) l by (auto simp: framed_def)
  moreover have "dlist ?s2 h (ys @ zs)"
    using s1(2) d xs by (subst dlist_frame [where s = s1]) (auto simp: dlist_def)
  ultimately show ?thesis
    using s1(3) xs framed_trans [of s s1 _ ?s2 "{e}" "set (h # xs)"]
    by (auto simp: remove1_split)
qed

lemma dlist_INIT_LIST_HEAD:
  assumes "s l \<noteq> None"
  shows "\<exists>s'. INIT_LIST_HEAD s l = Inr s' \<and> dlist s' l [] \<and> framed s s' {l}"
proof -
  from INIT_LIST_HEAD_eff [OF relinked_refl, of s l] assms obtain s' where
    s': "INIT_LIST_HEAD s l = Inr s'" "relinked s s' [l \<mapsto> l] [l \<mapsto> l]" by auto
  have "dlist s' l []" using s'(2) by (simp add: dlist_def relinked_def)
  moreover have "framed s s' {l}" by (rule relinked_framed [OF s'(2)]) simp
  ultimately show ?thesis using s'(1) by blast
qed

lemma list_del_init_dlist:
  assumes d: "dlist s h xs" and e: "e \<in> set xs"
  shows "\<exists>s'. list_del_init s e = Inr s' \<and> dlist s' h (remove1 e xs) \<and> dlist s' e []
            \<and> framed s s' (set (h # xs))"
proof -
  from e obtain ys zs where xs: "xs = ys @ e # zs" "e \<notin> set ys" by (rule in_set_splitE)
  from list_del_between_dlist d xs obtain s1 where
    s1: "list_del_between s (last (h # ys)) (hd (zs @ [h])) = Inr s1"
      "dlist s1 h (ys @ zs)" "framed s s1 (set (h # ys @ zs))" "s1 e = s e" by blast
  from dlist_mapped [OF d] e s1(4) have "s1 e \<noteq> None" by auto
  from dlist_INIT_LIST_HEAD [of s1 e] this obtain s2 where
    s2: "INIT_LIST_HEAD s1 e = Inr s2" "dlist s2 e []" "framed s1 s2 {e}" by blast
  have "list_del_init s e = Inr s2"
    using dlist_links_at [of s h ys e zs] d xs s1 s2 by (simp add: list_del_init_def)
  moreover have "dlist s2 h (ys @ zs)"
    by (rule framed_dlist [OF s2(3) _ s1(2)]) (use d xs in \<open>auto simp: dlist_def\<close>)
  moreover have "framed s s2 (set (h # xs))"
    by (rule framed_trans [OF s1(3) s2(3)]) (use xs in auto)
  ultimately show ?thesis using s2(2) xs by (auto simp: remove1_split)
qed

text \<open>Unlinking, as the first half of both move operations.\<close>

lemma unlink_dlist:
  assumes d: "dlist s h xs" and e: "e \<in> set xs"
  shows "\<exists>p n s'. rd_prev s e = Inr p \<and> rd_next s e = Inr n \<and> list_del_between s p n = Inr s'
            \<and> dlist s' h (remove1 e xs) \<and> framed s s' (set (h # remove1 e xs)) \<and> s' e \<noteq> None"
proof -
  from e obtain ys zs where xs: "xs = ys @ e # zs" "e \<notin> set ys" by (rule in_set_splitE)
  from list_del_between_dlist d xs obtain s1 where
    s1: "list_del_between s (last (h # ys)) (hd (zs @ [h])) = Inr s1"
      "dlist s1 h (ys @ zs)" "framed s s1 (set (h # ys @ zs))" "s1 e = s e" by blast
  from dlist_mapped [OF d] e s1(4) have "s1 e \<noteq> None" by auto
  moreover have "rd_prev s e = Inr (last (h # ys))" "rd_next s e = Inr (hd (zs @ [h]))"
    using dlist_links_at [of s h ys e zs] d xs by auto
  ultimately show ?thesis
    using s1 xs by (auto simp: remove1_split)
qed

lemma list_move_dlist:
  assumes d: "dlist s h xs" and e: "e \<in> set xs"
    and g: "dlist s g ys" and dis: "set (h # xs) \<inter> set (g # ys) = {}"
  shows "\<exists>s'. list_move s e g = Inr s' \<and> dlist s' h (remove1 e xs) \<and> dlist s' g (e # ys)"
proof -
  from unlink_dlist [OF d e] obtain p n s1 where
    s1: "rd_prev s e = Inr p" "rd_next s e = Inr n" "list_del_between s p n = Inr s1"
      "dlist s1 h (remove1 e xs)" "framed s s1 (set (h # remove1 e xs))" "s1 e \<noteq> None" by blast
  have rem: "set (remove1 e xs) \<subseteq> set xs - {e}" using d by (simp add: dlist_def)
  have "dlist s1 g ys" by (rule framed_dlist [OF s1(5) _ g]) (use rem dis in auto)
  from list_add_dlist [OF this _ s1(6)] obtain s2 where
    s2: "list_add s1 e g = Inr s2" "dlist s2 g (e # ys)" "framed s1 s2 (set (e # g # ys))"
    using dis e by auto
  have "dlist s2 h (remove1 e xs)"
    by (rule framed_dlist [OF s2(3) _ s1(4)]) (use rem dis e d in \<open>auto simp: dlist_def\<close>)
  then show ?thesis using s1 s2 by (auto simp: list_move_def)
qed

lemma list_move_tail_dlist:
  assumes d: "dlist s h xs" and e: "e \<in> set xs"
    and g: "dlist s g ys" and dis: "set (h # xs) \<inter> set (g # ys) = {}"
  shows "\<exists>s'. list_move_tail s e g = Inr s' \<and> dlist s' h (remove1 e xs) \<and> dlist s' g (ys @ [e])"
proof -
  from unlink_dlist [OF d e] obtain p n s1 where
    s1: "rd_prev s e = Inr p" "rd_next s e = Inr n" "list_del_between s p n = Inr s1"
      "dlist s1 h (remove1 e xs)" "framed s s1 (set (h # remove1 e xs))" "s1 e \<noteq> None" by blast
  have rem: "set (remove1 e xs) \<subseteq> set xs - {e}" using d by (simp add: dlist_def)
  have "dlist s1 g ys" by (rule framed_dlist [OF s1(5) _ g]) (use rem dis in auto)
  from list_add_tail_dlist [OF this _ s1(6)] obtain s2 where
    s2: "list_add_tail s1 e g = Inr s2" "dlist s2 g (ys @ [e])" "framed s1 s2 (set (e # g # ys))"
    using dis e by auto
  have "dlist s2 h (remove1 e xs)"
    by (rule framed_dlist [OF s2(3) _ s1(4)]) (use rem dis e d in \<open>auto simp: dlist_def\<close>)
  then show ?thesis using s1 s2 by (auto simp: list_move_tail_def)
qed

lemma list_empty_dlist:
  assumes "dlist s h xs"
  shows "list_empty s h = Inr (xs = [])" and "list_empty_careful s h = Inr (xs = [])"
proof -
  from assms have "h \<notin> set xs" by (simp add: dlist_def)
  then show "list_empty s h = Inr (xs = [])" "list_empty_careful s h = Inr (xs = [])"
    using dlist_nx_head [OF assms] dlist_pv_head [OF assms]
    by (cases xs; auto simp: list_empty_def list_empty_careful_def)+
qed

section \<open>Traversal\<close>

lemma list_for_each_from_lseg:
  assumes "lseg s a xs h" and "h \<notin> set xs" and "nx s a = Some pos"
  shows "list_for_each_from s h pos acc = Some (Inr (rev acc @ xs))"
  using assms
proof (induction xs arbitrary: a pos acc)
  case Nil
  then show ?case by (subst list_for_each_from.simps) (auto simp: nx_def pv_def)
next
  case (Cons x xs)
  then obtain l where l: "s x = Some l" "nx s x = Some (lh_next l)"
    by (auto simp: nx_def pv_def)
  have "list_for_each_from s h pos acc = list_for_each_from s h (lh_next l) (x # acc)"
    using Cons.prems l by (subst list_for_each_from.simps) auto
  then show ?case using Cons.IH [of x "lh_next l" "x # acc"] Cons.prems l by auto
qed

lemma list_for_each_dlist:
  assumes "dlist s h xs"
  shows "list_for_each s h = Some (Inr xs)"
proof -
  obtain l where l: "s h = Some l" "nx s h = Some (lh_next l)"
    using dlist_mapped [OF assms] by (force simp: nx_def)
  show ?thesis
    using list_for_each_from_lseg [of s h xs h "lh_next l" "[]"] assms l
    by (simp add: list_for_each_def dlist_def)
qed

lemma list_for_each_prev_from_lseg:
  assumes "lseg s h xs b" and "h \<notin> set xs" and "pv s b = Some pos"
  shows "list_for_each_prev_from s h pos acc = Some (Inr (rev acc @ rev xs))"
  using assms
proof (induction xs arbitrary: b pos acc rule: rev_induct)
  case Nil
  then show ?case by (subst list_for_each_prev_from.simps) (auto simp: nx_def pv_def)
next
  case (snoc x xs)
  from snoc.prems have seg: "lseg s h xs x" and "nx s x = Some b" "pos = x" "x \<noteq> h"
    by (auto simp: lseg_append)
  then obtain l where l: "s x = Some l" by (auto simp: nx_def)
  have "list_for_each_prev_from s h pos acc = list_for_each_prev_from s h (lh_prev l) (x # acc)"
    using \<open>pos = x\<close> \<open>x \<noteq> h\<close> l by (subst list_for_each_prev_from.simps) auto
  then show ?case
    using snoc.IH [OF seg, of "lh_prev l" "x # acc"] snoc.prems l by (simp add: pv_def)
qed

lemma list_for_each_prev_dlist:
  assumes "dlist s h xs"
  shows "list_for_each_prev s h = Some (Inr (rev xs))"
proof -
  obtain l where l: "s h = Some l" "pv s h = Some (lh_prev l)"
    using dlist_mapped [OF assms] by (force simp: pv_def)
  show ?thesis
    using list_for_each_prev_from_lseg [of s h xs h "lh_prev l" "[]"] assms l
    by (simp add: list_for_each_prev_def dlist_def)
qed

section \<open>Splicing\<close>

lemma list_splice_raw_eff:
  assumes "nx s l = Some first" "pv s l = Some lst" "nx s h = Some at"
    and "s first \<noteq> None" "s h \<noteq> None" "s lst \<noteq> None" "s at \<noteq> None"
  shows "\<exists>s'. list_splice_raw s l h = Inr s' \<and>
           relinked s s' [h \<mapsto> first, lst \<mapsto> at] [first \<mapsto> h, at \<mapsto> lst]"
proof -
  obtain s1 where 1: "wr_prev s first h = Inr s1" "relinked s s1 Map.empty [first \<mapsto> h]"
    using relinked_wr_prev [OF relinked_refl, of s first] assms(4) by blast
  obtain s2 where 2: "wr_next s1 h first = Inr s2" "relinked s s2 [h \<mapsto> first] [first \<mapsto> h]"
    using relinked_wr_next [OF 1(2), of h] assms(5) by blast
  obtain s3 where 3: "wr_next s2 lst at = Inr s3"
    "relinked s s3 [h \<mapsto> first, lst \<mapsto> at] [first \<mapsto> h]"
    using relinked_wr_next [OF 2(2), of lst] assms(6) by blast
  obtain s4 where 4: "wr_prev s3 at lst = Inr s4"
    "relinked s s4 [h \<mapsto> first, lst \<mapsto> at] [first \<mapsto> h, at \<mapsto> lst]"
    using relinked_wr_prev [OF 3(2), of at] assms(7) by blast
  show ?thesis using 1 2 3 4 assms(1-3) by (auto simp: list_splice_raw_def)
qed

lemma dlist_splice:
  assumes d: "dlist s l (x # xs)" and g: "dlist s h ys"
    and dis: "set (l # x # xs) \<inter> set (h # ys) = {}"
    and r: "relinked s s' [h \<mapsto> x, last (x # xs) \<mapsto> hd (ys @ [h])]
                          [x \<mapsto> h, hd (ys @ [h]) \<mapsto> last (x # xs)]"
  shows "dlist s' h (x # xs @ ys)"
proof -
  let ?q = "last (x # xs)" and ?n = "hd (ys @ [h])"
  have q: "?q \<in> set (x # xs)" by (rule last_in_set) simp
  have n: "?n \<in> insert h (set ys)" by (cases ys) auto
  have N: "nx s' a = (if a = ?q then Some ?n else if a = h then Some x else nx s a)" for a
    using r by (simp add: relinked_def)
  have P: "pv s' a = (if a = ?n then Some ?q else if a = x then Some h else pv s a)" for a
    using r by (simp add: relinked_def)
  from d g dis have dist: "distinct (x # xs)" "distinct (h # ys)" "distinct (h # x # xs @ ys)"
    and seg: "lseg s x xs l" "lseg s h ys h"
    by (auto simp: dlist_def)
  have "lseg s' x xs ?n"
  proof (rule lseg_relink_last [where zs = "[]" and s = s and b = l])
    show "nx s' a = nx s a" if "a \<in> set (butlast (x # xs))" for a
      using butlast_distinct [OF dist(1) that] dist(3) by (auto simp: N)
    show "pv s' a = pv s a" if "a \<in> set xs" for a
      using that n dist(3) by (auto simp: P)
  qed (use seg q in \<open>auto simp: N P\<close>)
  moreover have "lseg s' y ys' h" if ys: "ys = y # ys'" for y ys'
    using seg(2) dist(3) q that by (subst lseg_cong [where s = s]) (auto simp: N P)
  ultimately have "lseg s' x (xs @ ys) h"
    by (cases ys) (auto simp: lseg_append)
  moreover have "nx s' h = Some x" "pv s' x = Some h"
    using q n dist(3) by (auto simp: N P)
  ultimately show ?thesis using dist(3) by (simp add: dlist_def)
qed

lemma list_splice_raw_dlist:
  assumes d: "dlist s l xs" and ne: "xs \<noteq> []" and g: "dlist s h ys"
    and dis: "set (l # xs) \<inter> set (h # ys) = {}"
  shows "\<exists>s'. list_splice_raw s l h = Inr s' \<and> dlist s' h (xs @ ys)
            \<and> framed s s' (set (h # xs @ ys))"
proof -
  obtain x xs' where xs: "xs = x # xs'" using ne by (cases xs) auto
  have q: "last (x # xs') \<in> set xs" using xs by simp
  have n: "hd (ys @ [h]) \<in> insert h (set ys)" by (cases ys) auto
  have "\<exists>s'. list_splice_raw s l h = Inr s' \<and>
         relinked s s' [h \<mapsto> x, last (x # xs') \<mapsto> hd (ys @ [h])] [x \<mapsto> h, hd (ys @ [h]) \<mapsto> last (x # xs')]"
    by (rule list_splice_raw_eff)
      (use dlist_nx_head [OF d] dlist_pv_head [OF d] dlist_nx_head [OF g] xs q n
        dlist_mapped [OF d] dlist_mapped [OF g] in auto)
  then obtain s' where s': "list_splice_raw s l h = Inr s'"
    "relinked s s' [h \<mapsto> x, last (x # xs') \<mapsto> hd (ys @ [h])] [x \<mapsto> h, hd (ys @ [h]) \<mapsto> last (x # xs')]"
    by blast
  have "dlist s' h (x # xs' @ ys)"
    by (rule dlist_splice [OF _ g _ s'(2)]) (use d dis xs in auto)
  moreover have "framed s s' (set (h # xs @ ys))"
    by (rule relinked_framed [OF s'(2)]) (use xs q n in auto)
  ultimately show ?thesis using s'(1) xs by auto
qed

lemma list_splice_init_dlist:
  assumes d: "dlist s l xs" and g: "dlist s h ys" and dis: "set (l # xs) \<inter> set (h # ys) = {}"
  shows "\<exists>s'. list_splice_init s l h = Inr s' \<and> dlist s' h (xs @ ys) \<and> dlist s' l []"
proof (cases "xs = []")
  case True
  then show ?thesis using d g list_empty_dlist(1) [OF d] by (simp add: list_splice_init_def)
next
  case False
  from list_splice_raw_dlist [OF d False g dis] obtain s1 where
    s1: "list_splice_raw s l h = Inr s1" "dlist s1 h (xs @ ys)" "framed s s1 (set (h # xs @ ys))"
    by blast
  have "s1 l \<noteq> None"
    using framed_mapped [OF s1(3), of l] dlist_mapped [OF d] by simp
  from dlist_INIT_LIST_HEAD [of s1 l] this obtain s2 where
    s2: "INIT_LIST_HEAD s1 l = Inr s2" "dlist s2 l []" "framed s1 s2 {l}" by blast
  have "dlist s2 h (xs @ ys)"
    by (rule framed_dlist [OF s2(3) _ s1(2)]) (use d dis in \<open>auto simp: dlist_def\<close>)
  then show ?thesis
    using s1 s2 False list_empty_dlist(1) [OF d] by (simp add: list_splice_init_def)
qed

section \<open>The interface of an intrusive list\<close>

text \<open>
  What the users of the header rely on: a list head represents a sequence, \<open>add_tail\<close> appends,
  \<open>del\<close> removes, \<open>walk\<close> visits the sequence in order, and lists that share no node do not
  influence each other.
\<close>

locale intrusive_list =
  fixes repr :: "'s \<Rightarrow> 'a \<Rightarrow> 'a list \<Rightarrow> bool"
    and mapped :: "'s \<Rightarrow> 'a \<Rightarrow> bool"
    and add_tail :: "'s \<Rightarrow> 'a \<Rightarrow> 'a \<Rightarrow> 's res"
    and del :: "'s \<Rightarrow> 'a \<Rightarrow> 's res"
    and walk :: "'s \<Rightarrow> 'a \<Rightarrow> 'a list res option"
  assumes add_tail_law:
      "repr s h xs \<Longrightarrow> n \<notin> set (h # xs) \<Longrightarrow> mapped s n \<Longrightarrow>
       \<exists>s'. add_tail s n h = Inr s' \<and> repr s' h (xs @ [n]) \<and> mapped s' = mapped s
          \<and> (\<forall>g ys. repr s g ys \<longrightarrow> set (g # ys) \<inter> set (n # h # xs) = {} \<longrightarrow> repr s' g ys)"
    and del_law:
      "repr s h xs \<Longrightarrow> n \<in> set xs \<Longrightarrow>
       \<exists>s'. del s n = Inr s' \<and> repr s' h (remove1 n xs) \<and> mapped s' = mapped s
          \<and> (\<forall>g ys. repr s g ys \<longrightarrow> set (g # ys) \<inter> set (h # xs) = {} \<longrightarrow> repr s' g ys)"
    and walk_law: "repr s h xs \<Longrightarrow> walk s h = Some (Inr xs)"
    and repr_distinct: "repr s h xs \<Longrightarrow> distinct (h # xs)"
    and repr_mapped: "repr s h xs \<Longrightarrow> n \<in> set (h # xs) \<Longrightarrow> mapped s n"
begin

lemma enqueue_all:
  assumes "repr s h xs" and "distinct (h # xs @ ns)" and "\<forall>n \<in> set ns. mapped s n"
  shows "\<exists>s'. rfold (\<lambda>n s. add_tail s n h) ns s = Inr s' \<and> repr s' h (xs @ ns)"
  using assms
proof (induction ns arbitrary: s xs)
  case Nil
  then show ?case by simp
next
  case (Cons n ns)
  from Cons.prems obtain s1 where
    s1: "add_tail s n h = Inr s1" "repr s1 h (xs @ [n])" "mapped s1 = mapped s"
    using add_tail_law [of s h xs n] by auto
  from Cons.IH [OF s1(2)] Cons.prems s1(3) show ?case
    using s1(1) by auto
qed

lemma enqueue_walk:
  assumes "repr s h []" and "distinct (h # ns)" and "\<forall>n \<in> set ns. mapped s n"
  shows "\<exists>s'. rfold (\<lambda>n s. add_tail s n h) ns s = Inr s' \<and> walk s' h = Some (Inr ns)"
  using enqueue_all [OF assms(1), of ns] assms(2,3) walk_law by fastforce

text \<open>A node changes lists, as the scheduler does when it wakes a blocked thread.\<close>

lemma transfer:
  assumes g: "repr s g ys" and n: "n \<in> set ys" and h: "repr s h xs"
    and dis: "set (g # ys) \<inter> set (h # xs) = {}"
  shows "\<exists>s'. rbind (del s n) (\<lambda>s. add_tail s n h) = Inr s' \<and> repr s' g (remove1 n ys)
            \<and> repr s' h (xs @ [n])"
proof -
  from del_law [OF g n] obtain s1 where
    s1: "del s n = Inr s1" "repr s1 g (remove1 n ys)" "mapped s1 = mapped s" "repr s1 h xs"
    using h dis by blast
  have "mapped s1 n" using repr_mapped [OF g] n s1(3) by simp
  moreover have "n \<notin> set (h # xs)" using n dis by auto
  ultimately obtain s2 where s2: "add_tail s1 n h = Inr s2" "repr s2 h (xs @ [n])"
    "\<And>g ys. repr s1 g ys \<Longrightarrow> set (g # ys) \<inter> set (n # h # xs) = {} \<Longrightarrow> repr s2 g ys"
    using add_tail_law [OF s1(4)] by blast
  have "set (g # remove1 n ys) \<inter> set (n # h # xs) = {}"
    using repr_distinct [OF g] n dis by (auto simp: set_remove1_eq)
  with s1(1,2) s2 show ?thesis by auto
qed

end

interpretation pl: intrusive_list dlist "\<lambda>s a. s a \<noteq> None" list_add_tail list_del list_for_each
proof
  show "\<exists>s'. list_add_tail s n h = Inr s' \<and> dlist s' h (xs @ [n])
      \<and> (\<lambda>a. s' a \<noteq> None) = (\<lambda>a. s a \<noteq> None)
      \<and> (\<forall>g ys. dlist s g ys \<longrightarrow> set (g # ys) \<inter> set (n # h # xs) = {} \<longrightarrow> dlist s' g ys)"
    if "dlist s h xs" "n \<notin> set (h # xs)" "s n \<noteq> None" for s h xs n
    using list_add_tail_dlist [OF that] framed_mapped_eq framed_others by meson
  show "\<exists>s'. list_del s n = Inr s' \<and> dlist s' h (remove1 n xs)
      \<and> (\<lambda>a. s' a \<noteq> None) = (\<lambda>a. s a \<noteq> None)
      \<and> (\<forall>g ys. dlist s g ys \<longrightarrow> set (g # ys) \<inter> set (h # xs) = {} \<longrightarrow> dlist s' g ys)"
    if "dlist s h xs" "n \<in> set xs" for s h xs n
    using list_del_dlist [OF that] framed_mapped_eq framed_others by meson
  show "list_for_each s h = Some (Inr xs)" if "dlist s h xs" for s h xs
    using that by (rule list_for_each_dlist)
  show "distinct (h # xs)" if "dlist s h xs" for s h xs
    using that by (simp add: dlist_def)
  show "s n \<noteq> None" if "dlist s h xs" "n \<in> set (h # xs)" for s h xs n
    using that by (rule dlist_mapped)
qed

section \<open>Properties\<close>

text \<open>
  Initialising a head and appending any number of distinct live nodes with
  \<open>list_add_tail\<close> never faults; afterwards \<open>list_for_each\<close> visits exactly these nodes in the
  order in which they were added.
\<close>

theorem list_fifo_roundtrip:
  assumes "\<forall>n \<in> set (h # ns). s n \<noteq> None" and "distinct (h # ns)"
  shows "\<exists>s1 s2. list_head_init s h = Inr s1
           \<and> rfold (\<lambda>n s. list_add_tail s n h) ns s1 = Inr s2
           \<and> list_for_each s2 h = Some (Inr ns)"
proof -
  from dlist_INIT_LIST_HEAD [of s h] assms(1) obtain s1 where
    s1: "INIT_LIST_HEAD s h = Inr s1" "dlist s1 h []" "framed s s1 {h}" by auto
  have "\<forall>n \<in> set ns. s1 n \<noteq> None"
    using framed_mapped [OF s1(3)] assms(1) by simp
  from pl.enqueue_walk [OF s1(2) assms(2) this] show ?thesis
    using s1(1) by (auto simp: list_head_init_def)
qed

theorem list_fifo_roundtrip_witness:
  "\<exists>s1 s2. list_head_init (\<lambda>_. Some \<lparr>lh_next = 0, lh_prev = 0\<rparr>) 0x10 = Inr s1
     \<and> rfold (\<lambda>n s. list_add_tail s n 0x10) [0x20, 0x30] s1 = Inr s2
     \<and> list_for_each s2 0x10 = Some (Inr [0x20, 0x30])"
  by (rule list_fifo_roundtrip) auto

text \<open>
  \<open>list_del\<close> on a member of a well-formed list takes exactly that node out, keeps the order
  of the others, and poisons the node: deleting the same node again dereferences
  \<open>LIST_POISON1\<close> and faults.
\<close>

theorem list_del_removes_and_poisons:
  assumes "dlist s h xs" and "e \<in> set xs" and "s LIST_POISON1 = None"
  shows "\<exists>s'. list_del s e = Inr s' \<and> list_for_each s' h = Some (Inr (remove1 e xs))
           \<and> list_del s' e = Inl (BadDeref LIST_POISON1)"
proof -
  from list_del_dlist [OF assms(1,2)] obtain s' where
    s': "list_del s e = Inr s'" "dlist s' h (remove1 e xs)" "framed s s' (set (h # xs))"
      "s' e = Some \<lparr>lh_next = LIST_POISON1, lh_prev = LIST_POISON2\<rparr>" by blast
  have "s' LIST_POISON1 = None"
    using s'(3) assms(3) by (metis domIff framed_def)
  then have "list_del s' e = Inl (BadDeref LIST_POISON1)"
    using s'(4) by (simp add: list_del_def rd_prev_def rd_next_def list_del_between_def wr_prev_def)
  then show ?thesis using s'(1) list_for_each_dlist [OF s'(2)] by blast
qed

theorem list_del_removes_and_poisons_witness:
  "\<exists>s'. list_del [0x10 \<mapsto> \<lparr>lh_next = 0x20, lh_prev = 0x20\<rparr>,
                  0x20 \<mapsto> \<lparr>lh_next = 0x10, lh_prev = 0x10\<rparr>] 0x20 = Inr s'
     \<and> list_for_each s' 0x10 = Some (Inr (remove1 0x20 [0x20]))
     \<and> list_del s' 0x20 = Inl (BadDeref LIST_POISON1)"
  by (rule list_del_removes_and_poisons)
    (simp_all add: dlist_def nx_def pv_def LIST_POISON1_def)

text \<open>
  \<open>list_splice_init\<close> moves all nodes of one list, in order, in front of the nodes of another
  one, leaves the source list empty, and the result can be traversed in both directions.
\<close>

theorem list_splice_init_concatenates:
  assumes "dlist s l xs" and "dlist s h ys" and "set (l # xs) \<inter> set (h # ys) = {}"
  shows "\<exists>s'. list_splice_init s l h = Inr s'
           \<and> list_for_each s' h = Some (Inr (xs @ ys))
           \<and> list_for_each_prev s' h = Some (Inr (rev ys @ rev xs))
           \<and> list_empty s' l = Inr True"
proof -
  from list_splice_init_dlist [OF assms] obtain s' where
    "list_splice_init s l h = Inr s'" "dlist s' h (xs @ ys)" "dlist s' l []" by blast
  then show ?thesis
    by (simp add: list_for_each_dlist list_for_each_prev_dlist list_empty_dlist(1))
qed

theorem list_splice_init_concatenates_witness:
  "\<exists>s'. list_splice_init [0x10 \<mapsto> \<lparr>lh_next = 0x20, lh_prev = 0x20\<rparr>,
                  0x20 \<mapsto> \<lparr>lh_next = 0x10, lh_prev = 0x10\<rparr>,
                  0x30 \<mapsto> \<lparr>lh_next = 0x40, lh_prev = 0x40\<rparr>,
                  0x40 \<mapsto> \<lparr>lh_next = 0x30, lh_prev = 0x30\<rparr>] 0x10 0x30 = Inr s'
     \<and> list_for_each s' 0x30 = Some (Inr ([0x20] @ [0x40]))
     \<and> list_for_each_prev s' 0x30 = Some (Inr (rev [0x40] @ rev [0x20]))
     \<and> list_empty s' 0x10 = Inr True"
  by (rule list_splice_init_concatenates) (simp_all add: dlist_def nx_def pv_def)

text \<open>
  \<open>list_move_tail\<close> takes a node out of one list and appends it to another one; both lists
  keep their other nodes in order.
\<close>

theorem list_move_tail_transfers:
  assumes "dlist s h xs" and "e \<in> set xs" and "dlist s g ys"
    and "set (h # xs) \<inter> set (g # ys) = {}"
  shows "\<exists>s'. list_move_tail s e g = Inr s'
           \<and> list_for_each s' h = Some (Inr (remove1 e xs))
           \<and> list_for_each s' g = Some (Inr (ys @ [e]))"
  using list_move_tail_dlist [OF assms] list_for_each_dlist by blast

theorem list_move_tail_transfers_witness:
  "\<exists>s'. list_move_tail [0x10 \<mapsto> \<lparr>lh_next = 0x20, lh_prev = 0x20\<rparr>,
                  0x20 \<mapsto> \<lparr>lh_next = 0x10, lh_prev = 0x10\<rparr>,
                  0x30 \<mapsto> \<lparr>lh_next = 0x40, lh_prev = 0x40\<rparr>,
                  0x40 \<mapsto> \<lparr>lh_next = 0x30, lh_prev = 0x30\<rparr>] 0x20 0x30 = Inr s'
     \<and> list_for_each s' 0x10 = Some (Inr (remove1 0x20 [0x20]))
     \<and> list_for_each s' 0x30 = Some (Inr ([0x40] @ [0x20]))"
  by (rule list_move_tail_transfers) (simp_all add: dlist_def nx_def pv_def)

end
