(* ===== verification/PetListIter.thy ===== *)
theory PetListIter
  imports PetList
begin

text \<open>
  The iteration macros of \<open>src/Threads/pet_list.h\<close> with a loop body that changes the lists, over entries
  that contain a node at the offset \<open>off\<close>.  \<open>rd\<close> is the link that is followed, \<open>rd_next\<close> or \<open>rd_prev\<close>.
  A safe iteration loads the link of the next entry before it runs the body, and so allows the
  body to delete the current entry; the plain ones do not.
\<close>

section \<open>Entries\<close>

definition list_entry :: "u64 \<Rightarrow> u64 \<Rightarrow> u64" where
  "list_entry off p = p - off"

definition member_of :: "u64 \<Rightarrow> u64 \<Rightarrow> u64" where
  "member_of off e = e + off"

lemma member_of_entry [simp]: "member_of off (list_entry off p) = p" "list_entry off (member_of off e) = e"
  by (simp_all add: member_of_def list_entry_def)

definition list_first_entry :: "u64 \<Rightarrow> list_store \<Rightarrow> u64 \<Rightarrow> u64 res" where
  "list_first_entry off s head = rbind (rd_next s head) (\<lambda>p. Inr (list_entry off p))"

text \<open>\<open>list_prepare_entry\<close>: the head as an entry when there is no position.\<close>

definition list_prepare_entry :: "u64 \<Rightarrow> u64 \<Rightarrow> u64 \<Rightarrow> u64" where
  "list_prepare_entry off pos head = (if pos \<noteq> NULL then pos else list_entry off head)"

type_synonym link = "list_store \<Rightarrow> u64 \<Rightarrow> u64 res"
type_synonym body = "u64 \<Rightarrow> list_store \<Rightarrow> list_store res"

section \<open>Plain iteration\<close>

text \<open>The test loads the link of the current entry (\<open>prefetch\<close>) before it compares.\<close>

partial_function (option) entry_loop :: "link \<Rightarrow> u64 \<Rightarrow> body \<Rightarrow> u64 \<Rightarrow> u64 \<Rightarrow> list_store \<Rightarrow> list_store run" where
  "entry_loop rd off f head pos s =
     pbind (Some (rd s (member_of off pos))) (\<lambda>_.
     if member_of off pos = head then ret s
     else pbind (Some (f pos s)) (\<lambda>s.
          pbind (Some (rd s (member_of off pos))) (\<lambda>p.
          entry_loop rd off f head (list_entry off p) s)))"

definition list_for_each_entry :: "u64 \<Rightarrow> body \<Rightarrow> u64 \<Rightarrow> list_store \<Rightarrow> list_store run" where
  "list_for_each_entry off f head s =
     pbind (Some (rd_next s head)) (\<lambda>p. entry_loop rd_next off f head (list_entry off p) s)"

definition list_for_each_entry_reverse :: "u64 \<Rightarrow> body \<Rightarrow> u64 \<Rightarrow> list_store \<Rightarrow> list_store run" where
  "list_for_each_entry_reverse off f head s =
     pbind (Some (rd_prev s head)) (\<lambda>p. entry_loop rd_prev off f head (list_entry off p) s)"

definition list_for_each_entry_continue :: "u64 \<Rightarrow> body \<Rightarrow> u64 \<Rightarrow> u64 \<Rightarrow> list_store \<Rightarrow> list_store run" where
  "list_for_each_entry_continue off f head pos s =
     pbind (Some (rd_next s (member_of off pos))) (\<lambda>p. entry_loop rd_next off f head (list_entry off p) s)"

definition list_for_each_entry_from :: "u64 \<Rightarrow> body \<Rightarrow> u64 \<Rightarrow> u64 \<Rightarrow> list_store \<Rightarrow> list_store run" where
  "list_for_each_entry_from off f head pos s = entry_loop rd_next off f head pos s"

section \<open>Safe iteration\<close>

partial_function (option) safe_loop :: "link \<Rightarrow> u64 \<Rightarrow> body \<Rightarrow> u64 \<Rightarrow> u64 \<Rightarrow> u64 \<Rightarrow> list_store \<Rightarrow> list_store run" where
  "safe_loop rd off f head pos n s =
     (if member_of off pos = head then ret s
      else pbind (Some (f pos s)) (\<lambda>s.
           pbind (Some (rd s (member_of off n))) (\<lambda>p.
           safe_loop rd off f head n (list_entry off p) s)))"

text \<open>The start at the entry \<open>pos\<close>.\<close>

definition safe_start :: "link \<Rightarrow> u64 \<Rightarrow> body \<Rightarrow> u64 \<Rightarrow> u64 \<Rightarrow> list_store \<Rightarrow> list_store run" where
  "safe_start rd off f head pos s =
     pbind (Some (rd s (member_of off pos))) (\<lambda>p. safe_loop rd off f head pos (list_entry off p) s)"

definition list_for_each_entry_safe_from :: "u64 \<Rightarrow> body \<Rightarrow> u64 \<Rightarrow> u64 \<Rightarrow> list_store \<Rightarrow> list_store run" where
  "list_for_each_entry_safe_from off f head pos s = safe_start rd_next off f head pos s"

definition list_for_each_entry_safe :: "u64 \<Rightarrow> body \<Rightarrow> u64 \<Rightarrow> list_store \<Rightarrow> list_store run" where
  "list_for_each_entry_safe off f head s =
     pbind (Some (rd_next s head)) (\<lambda>p. safe_start rd_next off f head (list_entry off p) s)"

definition list_for_each_entry_safe_continue :: "u64 \<Rightarrow> body \<Rightarrow> u64 \<Rightarrow> u64 \<Rightarrow> list_store \<Rightarrow> list_store run" where
  "list_for_each_entry_safe_continue off f head pos s =
     pbind (Some (rd_next s (member_of off pos))) (\<lambda>p.
     safe_start rd_next off f head (list_entry off p) s)"

definition list_for_each_entry_safe_reverse :: "u64 \<Rightarrow> body \<Rightarrow> u64 \<Rightarrow> list_store \<Rightarrow> list_store run" where
  "list_for_each_entry_safe_reverse off f head s =
     pbind (Some (rd_prev s head)) (\<lambda>p. safe_start rd_prev off f head (list_entry off p) s)"

text \<open>\<open>list_for_each_safe\<close> is the iteration over the nodes themselves.\<close>

definition list_for_each_safe :: "body \<Rightarrow> u64 \<Rightarrow> list_store \<Rightarrow> list_store run" where
  "list_for_each_safe f head s =
     pbind (Some (rd_next s head)) (\<lambda>pos. pbind (Some (rd_next s pos)) (\<lambda>n. safe_loop rd_next 0 f head pos n s))"

section \<open>Deleting while iterating\<close>

text \<open>A body that deletes the entries for which \<open>del\<close> holds, and leaves the others alone.\<close>

definition del_if :: "u64 \<Rightarrow> (u64 \<Rightarrow> bool) \<Rightarrow> body" where
  "del_if off del e s = (if del e then list_del s (member_of off e) else Inr s)"

lemma del_if_dlist:
  assumes "dlist s h (ys @ x # zs)"
  obtains s' where "del_if off del (list_entry off x) s = Inr s'"
    and "dlist s' h ((ys @ (if del (list_entry off x) then [] else [x])) @ zs)"
proof (cases "del (list_entry off x)")
  case True
  have "x \<notin> set ys" using assms by (auto simp: dlist_def)
  then have "remove1 x (ys @ x # zs) = ys @ zs" by (simp add: remove1_append)
  then show ?thesis using list_del_dlist [OF assms, of x] that True by (auto simp: del_if_def)
qed (use assms that in \<open>auto simp: del_if_def\<close>)

lemma safe_loop_del:
  assumes "dlist s h (ys @ x # zs)"
  shows "\<exists>s'. safe_loop rd_next off (del_if off del) h (list_entry off x) (list_entry off (hd (zs @ [h]))) s = ret s'
           \<and> dlist s' h (ys @ filter (\<lambda>x. \<not> del (list_entry off x)) (x # zs))"
  using assms
proof (induction zs arbitrary: x ys s)
  case Nil
  obtain s1 where s1: "del_if off del (list_entry off x) s = Inr s1"
    "dlist s1 h ((ys @ (if del (list_entry off x) then [] else [x])) @ [])" by (rule del_if_dlist [OF Nil])
  have x: "x \<noteq> h" using Nil by (auto simp: dlist_def)
  obtain n where "rd_next s1 h = Inr n" using rd_next_eq [OF dlist_nx_head [OF s1(2)]] by blast
  then have "safe_loop rd_next off (del_if off del) h (list_entry off x) (list_entry off h) s = ret s1"
    using s1(1) x by (simp add: safe_loop.simps [of _ _ _ _ "list_entry off _"])
  then show ?case using s1(2) by auto
next
  case (Cons z zs)
  obtain s1 where s1: "del_if off del (list_entry off x) s = Inr s1"
    "dlist s1 h ((ys @ (if del (list_entry off x) then [] else [x])) @ z # zs)" by (rule del_if_dlist [OF Cons.prems])
  have x: "x \<noteq> h" using Cons.prems by (auto simp: dlist_def)
  have "rd_next s1 z = Inr (hd (zs @ [h]))" by (rule rd_next_eq [OF dlist_links_at(2) [OF s1(2)]])
  then have "safe_loop rd_next off (del_if off del) h (list_entry off x) (list_entry off z) s
      = safe_loop rd_next off (del_if off del) h (list_entry off z) (list_entry off (hd (zs @ [h]))) s1"
    using s1(1) x by (simp add: safe_loop.simps [of _ _ _ _ "list_entry off x"])
  then show ?case using Cons.IH [OF s1(2)] by auto
qed

lemma safe_iteration_spec:
  assumes "dlist s h xs"
  shows "\<exists>s'. list_for_each_entry_safe off (del_if off del) h s = ret s'
           \<and> dlist s' h (filter (\<lambda>x. \<not> del (list_entry off x)) xs)"
proof (cases xs)
  case Nil
  have n: "rd_next s h = Inr h" using rd_next_eq [OF dlist_nx_head [OF assms]] Nil by simp
  have "list_for_each_entry_safe off (del_if off del) h s = ret s"
    by (simp add: list_for_each_entry_safe_def safe_start_def n safe_loop.simps [of _ _ _ _ "list_entry off _"])
  then show ?thesis using assms Nil by auto
next
  case (Cons x zs)
  then have d: "dlist s h ([] @ x # zs)" using assms by simp
  have "rd_next s h = Inr x" "rd_next s x = Inr (hd (zs @ [h]))"
    using rd_next_eq [OF dlist_nx_head [OF d]] rd_next_eq [OF dlist_links_at(2) [OF d]] by simp_all
  then show ?thesis
    using safe_loop_del [OF d, of off del] by (simp add: list_for_each_entry_safe_def safe_start_def Cons)
qed

text \<open>
  A safe iteration whose body deletes some of the entries visits every entry and ends; the list
  afterwards holds the entries that were kept, in their order.
\<close>

theorem safe_iteration_filters:
  assumes "dlist s h xs"
  shows "\<exists>s'. list_for_each_entry_safe off (del_if off del) h s = ret s'
           \<and> list_for_each s' h = Some (Inr (filter (\<lambda>x. \<not> del (list_entry off x)) xs))"
  using safe_iteration_spec [OF assms] list_for_each_dlist by blast

text \<open>
  Without the precaution, deleting the current entry makes the iteration follow the poison value: the
  plain iteration over a list that is not empty faults after its first deletion.
\<close>

theorem plain_iteration_faults_on_delete:
  assumes "dlist s h (x # xs)" and "s LIST_POISON1 = None"
  shows "list_for_each_entry off (\<lambda>e s. list_del s (member_of off e)) h s = fail (BadDeref LIST_POISON1)"
proof -
  from list_del_dlist [OF assms(1), of x] obtain s1 where
    s1: "list_del s x = Inr s1" "framed s s1 (set (h # x # xs))" "s1 x = Some \<lparr>lh_next = LIST_POISON1, lh_prev = LIST_POISON2\<rparr>" by auto
  have d: "dlist s h ([] @ x # xs)" using assms(1) by simp
  have r: "rd_next s h = Inr x" "rd_next s x = Inr (hd (xs @ [h]))"
    using rd_next_eq [OF dlist_nx_head [OF d]] rd_next_eq [OF dlist_links_at(2) [OF d]] by simp_all
  have "s1 LIST_POISON1 = None" using s1(2) assms(2) by (metis domIff framed_def)
  then have p: "rd_next s1 x = Inr LIST_POISON1" "rd_next s1 LIST_POISON1 = Inl (BadDeref LIST_POISON1)"
    by (simp_all add: rd_next_def s1(3))
  have "x \<noteq> h" using assms(1) by (auto simp: dlist_def)
  then have "list_for_each_entry off (\<lambda>e s. list_del s (member_of off e)) h s
      = entry_loop rd_next off (\<lambda>e s. list_del s (member_of off e)) h (list_entry off LIST_POISON1) s1"
    by (simp add: list_for_each_entry_def r entry_loop.simps [of _ _ _ _ "list_entry off x"] s1(1) p(1))
  then show ?thesis by (simp add: entry_loop.simps [of _ _ _ _ "list_entry off LIST_POISON1"] p(2))
qed

text \<open>A list with two nodes, at \<open>0x20\<close> and \<open>0x30\<close>.\<close>

definition two_nodes :: list_store where
  "two_nodes = [0x10 \<mapsto> \<lparr>lh_next = 0x20, lh_prev = 0x30\<rparr>, 0x20 \<mapsto> \<lparr>lh_next = 0x30, lh_prev = 0x10\<rparr>,
     0x30 \<mapsto> \<lparr>lh_next = 0x10, lh_prev = 0x20\<rparr>]"

lemma two_nodes_dlist: "dlist two_nodes 0x10 [0x20, 0x30]"
  by (simp add: dlist_def two_nodes_def nx_def pv_def)

theorem safe_iteration_filters_witness:
  "\<exists>s'. list_for_each_entry_safe 8 (del_if 8 (\<lambda>e. e = 0x18)) 0x10 two_nodes = ret s' \<and> list_for_each s' 0x10 = Some (Inr [0x30])"
  using safe_iteration_filters [OF two_nodes_dlist, of 8 "\<lambda>e. e = 0x18"] by (simp add: list_entry_def)

theorem plain_iteration_faults_on_delete_witness:
  "list_for_each_entry 8 (\<lambda>e s. list_del s (member_of 8 e)) 0x10 two_nodes = fail (BadDeref LIST_POISON1)"
  using plain_iteration_faults_on_delete [OF two_nodes_dlist, of 8] by (simp add: two_nodes_def LIST_POISON1_def)

end
