(* ===== verification/PetHlist.thy ===== *)
theory PetHlist
  imports PetList
begin

text \<open>
  The hash lists of \<open>src/Threads/pet_list.h\<close>: the head is a single pointer, and each node holds the address
  of the pointer that leads to it.  Memory is a map from addresses to 64-bit words, because that
  pointer is the head's \<open>first\<close> or some node's \<open>next\<close>: a head at \<open>h\<close> has \<open>first\<close> at \<open>h\<close>, and a node at \<open>n\<close> has
  \<open>next\<close> at \<open>n\<close> and \<open>pprev\<close> at \<open>n + 8\<close>, so that \<open>&n->next\<close> is \<open>n\<close>.
\<close>

section \<open>Memory\<close>

type_synonym word_store = "u64 \<Rightarrow> u64 option"

definition load :: "word_store \<Rightarrow> u64 \<Rightarrow> u64 res" where
  "load m a = (case m a of None \<Rightarrow> Inl (BadDeref a) | Some v \<Rightarrow> Inr v)"

definition store :: "word_store \<Rightarrow> u64 \<Rightarrow> u64 \<Rightarrow> word_store res" where
  "store m a v = (case m a of None \<Rightarrow> Inl (BadDeref a) | Some _ \<Rightarrow> Inr (m(a \<mapsto> v)))"

definition first_of :: "u64 \<Rightarrow> u64" where
  [simp]: "first_of h = h"

definition next_of :: "u64 \<Rightarrow> u64" where
  [simp]: "next_of n = n"

definition pprev_of :: "u64 \<Rightarrow> u64" where
  [simp]: "pprev_of n = n + 8"

section \<open>The operations\<close>

definition INIT_HLIST_HEAD :: "word_store \<Rightarrow> u64 \<Rightarrow> word_store res" where
  "INIT_HLIST_HEAD m h = store m (first_of h) NULL"

definition INIT_HLIST_NODE :: "word_store \<Rightarrow> u64 \<Rightarrow> word_store res" where
  "INIT_HLIST_NODE m h = rbind (store m (next_of h) NULL) (\<lambda>m. store m (pprev_of h) NULL)"

definition hlist_node_init :: "word_store \<Rightarrow> u64 \<Rightarrow> word_store res" where
  "hlist_node_init m h = INIT_HLIST_NODE m h"

definition hlist_unhashed :: "word_store \<Rightarrow> u64 \<Rightarrow> bool res" where
  "hlist_unhashed m h = rbind (load m (pprev_of h)) (\<lambda>p. Inr (p = NULL))"

definition hlist_empty :: "word_store \<Rightarrow> u64 \<Rightarrow> bool res" where
  "hlist_empty m h = rbind (load m (first_of h)) (\<lambda>p. Inr (p = NULL))"

text \<open>\<open>__hlist_del\<close>.\<close>

definition hlist_unlink :: "word_store \<Rightarrow> u64 \<Rightarrow> word_store res" where
  "hlist_unlink m n =
     rbind (load m (next_of n)) (\<lambda>nxt.
     rbind (load m (pprev_of n)) (\<lambda>pprev.
     rbind (store m pprev nxt) (\<lambda>m.
     if nxt \<noteq> NULL then store m (pprev_of nxt) pprev else Inr m)))"

definition hlist_del :: "word_store \<Rightarrow> u64 \<Rightarrow> word_store res" where
  "hlist_del m n =
     rbind (hlist_unlink m n) (\<lambda>m.
     rbind (store m (next_of n) LIST_POISON1) (\<lambda>m.
     store m (pprev_of n) LIST_POISON2))"

definition hlist_del_init :: "word_store \<Rightarrow> u64 \<Rightarrow> word_store res" where
  "hlist_del_init m n =
     rbind (hlist_unhashed m n) (\<lambda>b.
     if \<not> b then rbind (hlist_unlink m n) (\<lambda>m. INIT_HLIST_NODE m n) else Inr m)"




section \<open>Iteration\<close>

text \<open>The nodes that \<open>hlist_for_each\<close> passes; the test loads \<open>pos->next\<close>.\<close>

partial_function (option) hlist_from :: "word_store \<Rightarrow> u64 \<Rightarrow> u64 list \<Rightarrow> u64 list run" where
  "hlist_from m pos acc =
     (if pos = NULL then ret (rev acc)
      else pbind (Some (load m (next_of pos))) (\<lambda>n. hlist_from m n (pos # acc)))"

definition hlist_for_each :: "word_store \<Rightarrow> u64 \<Rightarrow> u64 list run" where
  "hlist_for_each m h = pbind (Some (load m (first_of h))) (\<lambda>pos. hlist_from m pos [])"

text \<open>The iteration over entries that contain the node at the offset \<open>off\<close>, from the head, from a position, or behind it.\<close>

definition hlist_for_each_entry :: "u64 \<Rightarrow> word_store \<Rightarrow> u64 \<Rightarrow> u64 list run" where
  "hlist_for_each_entry off m h = pbind (hlist_for_each m h) (\<lambda>ns. ret (map (\<lambda>n. n - off) ns))"

definition hlist_for_each_entry_from :: "u64 \<Rightarrow> word_store \<Rightarrow> u64 \<Rightarrow> u64 list run" where
  "hlist_for_each_entry_from off m pos = pbind (hlist_from m pos []) (\<lambda>ns. ret (map (\<lambda>n. n - off) ns))"

definition hlist_for_each_entry_continue :: "u64 \<Rightarrow> word_store \<Rightarrow> u64 \<Rightarrow> u64 list run" where
  "hlist_for_each_entry_continue off m pos =
     pbind (Some (load m (next_of pos))) (\<lambda>pos. hlist_for_each_entry_from off m pos)"

text \<open>\<open>hlist_for_each_safe\<close> with its body: the link is loaded before the body runs.\<close>

partial_function (option) hlist_safe_loop ::
  "(u64 \<Rightarrow> word_store \<Rightarrow> word_store res) \<Rightarrow> u64 \<Rightarrow> word_store \<Rightarrow> word_store run" where
  "hlist_safe_loop f pos m =
     (if pos = NULL then ret m
      else pbind (Some (load m (next_of pos))) (\<lambda>n.
           pbind (Some (f pos m)) (\<lambda>m. hlist_safe_loop f n m)))"

definition hlist_for_each_safe :: "(u64 \<Rightarrow> word_store \<Rightarrow> word_store res) \<Rightarrow> u64 \<Rightarrow> word_store \<Rightarrow> word_store run" where
  "hlist_for_each_safe f h m = pbind (Some (load m (first_of h))) (\<lambda>pos. hlist_safe_loop f pos m)"

definition hlist_for_each_entry_safe ::
  "u64 \<Rightarrow> (u64 \<Rightarrow> word_store \<Rightarrow> word_store res) \<Rightarrow> u64 \<Rightarrow> word_store \<Rightarrow> word_store run" where
  "hlist_for_each_entry_safe off f h m = hlist_for_each_safe (\<lambda>n. f (n - off)) h m"

section \<open>Well-formed lists\<close>

text \<open>
  \<open>hseg m p xs\<close>: the pointer at \<open>p\<close> leads through the nodes \<open>xs\<close>, each of which knows the pointer that leads
  to it.  The pointer behind them is at \<open>last (p # xs)\<close>.
\<close>

fun hseg :: "word_store \<Rightarrow> u64 \<Rightarrow> u64 list \<Rightarrow> bool" where
  "hseg m p [] = True"
| "hseg m p (x # xs) = (m p = Some x \<and> x \<noteq> NULL \<and> m (pprev_of x) = Some p \<and> hseg m (next_of x) xs)"

definition cells :: "u64 list \<Rightarrow> u64 list" where
  "cells xs = concat (map (\<lambda>x. [x, x + 8]) xs)"

lemma cells_simps [simp]:
  "cells [] = []" "cells (x # xs) = x # (x + 8) # cells xs" "cells (xs @ ys) = cells xs @ cells ys"
  by (simp_all add: cells_def)

lemma in_cells: "x \<in> set xs \<Longrightarrow> x \<in> set (cells xs) \<and> x + 8 \<in> set (cells xs)"
  by (induction xs) auto

definition hlist :: "word_store \<Rightarrow> u64 \<Rightarrow> u64 list \<Rightarrow> bool" where
  "hlist m h xs = (distinct (h # cells xs) \<and> hseg m h xs \<and> m (last (h # xs)) = Some NULL)"

text \<open>The first node of \<open>xs\<close>, or the null pointer.\<close>

definition first_node :: "u64 list \<Rightarrow> u64" where
  "first_node xs = (case xs of [] \<Rightarrow> NULL | x # _ \<Rightarrow> x)"

lemma hseg_append: "hseg m p (xs @ ys) \<longleftrightarrow> hseg m p xs \<and> hseg m (last (p # xs)) ys"
  by (induction xs arbitrary: p) auto

text \<open>A segment does not read the pointer behind it.\<close>

lemma hseg_cong:
  assumes "hseg m p xs" and "distinct (p # cells xs)"
    and "\<And>a. a \<in> set (p # cells xs) \<Longrightarrow> a \<noteq> last (p # xs) \<Longrightarrow> m' a = m a"
  shows "hseg m' p xs"
  using assms
proof (induction xs arbitrary: p)
  case (Cons x xs)
  have l: "last (x # xs) \<in> set (cells (x # xs))" using in_cells [of "last (x # xs)" "x # xs"] last_in_set [of "x # xs"] by blast
  have n: "p \<noteq> last (p # x # xs)" using Cons.prems(2) l by auto
  have "x + 8 \<noteq> last (x # xs)"
    using Cons.prems(2) in_cells [of "last xs" xs] last_in_set [of xs] by (auto split: if_splits)
  then have "m' p = m p" "m' (x + 8) = m (x + 8)" using Cons.prems(3) n by auto
  moreover have "hseg m' x xs" using Cons.prems by (intro Cons.IH) auto
  ultimately show ?case using Cons.prems(1) by simp
qed simp

section \<open>Inserting and removing a node\<close>

text \<open>
  The two changes of links that the operations make: a node \<open>n\<close> between \<open>ys\<close> and \<open>zs\<close> is linked in, or
  taken out.  What happens to the cells of \<open>n\<close> when it is taken out is left open.
\<close>

lemma first_node_simps [simp]: "first_node [] = NULL" "first_node (x # xs) = x"
  by (simp_all add: first_node_def)

lemma last_slot: "last (h # ys) \<in> set (h # cells ys)"
  using in_cells [of "last ys" ys] last_in_set [of ys] by (cases ys) auto

lemma hlist_rest:
  assumes "hlist m h (ys @ zs)"
  shows "m (last (h # ys)) = Some (first_node zs)" and "zs \<noteq> [] \<Longrightarrow> m (hd zs + 8) = Some (last (h # ys))"
  using assms by (cases zs; auto simp: hlist_def hseg_append)+

text \<open>The parts before and behind the node, where the pointer to \<open>zs\<close> moves from \<open>p\<close> to \<open>q\<close>.\<close>

lemma hlist_parts:
  assumes d: "distinct (h # cells (ys @ n # zs))" and ys: "hseg m h ys" and zs: "hseg m p zs" "m (last (p # zs)) = Some NULL"
    and q: "m' q = Some (first_node zs)" "zs \<noteq> [] \<Longrightarrow> m' (hd zs + 8) = Some q"
    and other: "\<And>a. a \<notin> {n, n + 8, last (h # ys)} \<Longrightarrow> (zs \<noteq> [] \<Longrightarrow> a \<noteq> hd zs + 8) \<Longrightarrow> m' a = m a"
  shows "hseg m' h ys" and "hseg m' q zs" and "m' (last (q # zs)) = Some NULL"
proof -
  show "hseg m' h ys"
  proof (rule hseg_cong [OF ys])
    show "distinct (h # cells ys)" using d by auto
    fix a assume a: "a \<in> set (h # cells ys)" "a \<noteq> last (h # ys)"
    then have "a \<noteq> n" "a \<noteq> n + 8" "zs \<noteq> [] \<Longrightarrow> a \<noteq> hd zs + 8" using d by (cases zs; auto)+
    then show "m' a = m a" using a(2) other by auto
  qed
  have "hseg m' q zs \<and> m' (last (q # zs)) = Some NULL"
  proof (cases zs)
    case (Cons z zs')
    have sl: "last (h # ys) \<in> set (h # cells ys)" by (rule last_slot)
    have z: "hseg m z zs'" "m (last (z # zs')) = Some NULL" "z \<noteq> NULL" using zs by (auto simp: Cons)
    have o: "m' a = m a" if "a \<in> set (z # cells zs')" for a
      using that d sl by (intro other) (auto simp: Cons)
    have "hseg m' z zs'" by (rule hseg_cong [OF z(1)]) (use d o in \<open>auto simp: Cons\<close>)
    moreover have "m' (last (z # zs')) = m (last (z # zs'))" by (rule o) (rule last_slot)
    ultimately show ?thesis using q z by (simp add: Cons)
  qed (use q(1) in simp)
  then show "hseg m' q zs" "m' (last (q # zs)) = Some NULL" by simp_all
qed

lemma hlist_split: "hlist m h (ys @ zs) \<longleftrightarrow>
   distinct (h # cells (ys @ zs)) \<and> hseg m h ys \<and> hseg m (last (h # ys)) zs \<and> m (last (last (h # ys) # zs)) = Some NULL"
  by (auto simp: hlist_def hseg_append last_append)


lemma hlist_unlink_at:
  assumes h: "hlist m h (ys @ n # zs)"
    and m': "m' (last (h # ys)) = Some (first_node zs)" "zs \<noteq> [] \<Longrightarrow> m' (hd zs + 8) = Some (last (h # ys))"
    and other: "\<And>a. a \<notin> {n, n + 8, last (h # ys)} \<Longrightarrow> (zs \<noteq> [] \<Longrightarrow> a \<noteq> hd zs + 8) \<Longrightarrow> m' a = m a"
  shows "hlist m' h (ys @ zs)"
proof -
  have d: "distinct (h # cells (ys @ n # zs))" using h by (simp add: hlist_def)
  have "hseg m h ys" "hseg m n zs" "m (last (n # zs)) = Some NULL" using h by (auto simp: hlist_split)
  from hlist_parts [OF d this m' other] show ?thesis using d unfolding hlist_split by auto
qed

section \<open>The operations on well-formed lists\<close>

lemma load_eq [simp]: "m a = Some v \<Longrightarrow> load m a = Inr v"
  by (simp add: load_def)

lemma store_eq [simp]: "m a = Some v \<Longrightarrow> store m a w = Inr (m(a \<mapsto> w))"
  by (simp add: store_def)

lemma hlist_mapped: "hlist m h xs \<Longrightarrow> a \<in> set (h # cells xs) \<Longrightarrow> m a \<noteq> None"
proof (induction xs arbitrary: h)
  case (Cons x xs)
  have "hlist m x xs" using Cons.prems(1) by (auto simp: hlist_def)
  then show ?case using Cons by (auto simp: hlist_def)
qed (simp add: hlist_def)






text \<open>Taking a node out, whatever is written to its own cells afterwards.\<close>

lemma hlist_unlink_spec:
  assumes h: "hlist m h (ys @ n # zs)"
  obtains m1 where "hlist_unlink m n = Inr m1" and "m1 n \<noteq> None" and "m1 (n + 8) \<noteq> None"
    and "\<forall>u v. hlist (m1(n \<mapsto> u, n + 8 \<mapsto> v)) h (ys @ zs)"
proof -
  let ?p = "last (h # ys)" and ?f = "first_node zs"
  have d: "distinct (h # cells (ys @ n # zs))" using h by (simp add: hlist_def)
  have sl: "?p \<in> set (h # cells ys)" by (rule last_slot)
  have n: "m n = Some ?f" "m (n + 8) = Some ?p" using hlist_rest [of m h "ys @ [n]" zs] hlist_rest(2) [OF h] h by simp_all
  have mp: "m ?p = Some n" using hlist_rest(1) [OF h] by simp
  define m1 where "m1 = (if zs = [] then m(?p \<mapsto> ?f) else m(?p \<mapsto> ?f, hd zs + 8 \<mapsto> ?p))"
  have f: "?f = NULL \<longleftrightarrow> zs = []" "zs \<noteq> [] \<Longrightarrow> ?f = hd zs" "zs \<noteq> [] \<Longrightarrow> m (hd zs + 8) = Some n"
    using h by (cases zs; auto simp: hlist_def hseg_append)+
  have ne: "n \<noteq> ?p" "n + 8 \<noteq> ?p" "zs \<noteq> [] \<Longrightarrow> hd zs + 8 \<notin> {?p, n, n + 8}" using d sl by (cases zs; auto)+
  have "hlist_unlink m n = Inr m1"
    using n mp f ne by (auto simp: hlist_unlink_def m1_def)
  moreover have "m1 n \<noteq> None" "m1 (n + 8) \<noteq> None" using n ne by (auto simp: m1_def)
  moreover have "hlist (m1(n \<mapsto> u, n + 8 \<mapsto> v)) h (ys @ zs)" for u v
    by (rule hlist_unlink_at [OF h]) (use ne in \<open>auto simp: m1_def\<close>)
  ultimately show ?thesis using that by blast
qed

lemma hlist_del_spec:
  assumes h: "hlist m h (ys @ n # zs)"
  shows "\<exists>m'. hlist_del m n = Inr m' \<and> hlist m' h (ys @ zs) \<and> m' n = Some LIST_POISON1 \<and> m' (n + 8) = Some LIST_POISON2"
proof -
  obtain m1 where m1: "hlist_unlink m n = Inr m1" "m1 n \<noteq> None" "m1 (n + 8) \<noteq> None"
    "\<forall>u v. hlist (m1(n \<mapsto> u, n + 8 \<mapsto> v)) h (ys @ zs)" by (rule hlist_unlink_spec [OF h])
  then have "hlist_del m n = Inr (m1(n \<mapsto> LIST_POISON1, n + 8 \<mapsto> LIST_POISON2))"
    by (auto simp: hlist_del_def)
  then show ?thesis using m1(4) by auto
qed

lemma hlist_del_init_spec:
  assumes h: "hlist m h (ys @ n # zs)" and nz: "h \<noteq> NULL"
  shows "\<exists>m'. hlist_del_init m n = Inr m' \<and> hlist m' h (ys @ zs) \<and> hlist_del_init m' n = Inr m'"
proof -
  obtain m1 where m1: "hlist_unlink m n = Inr m1" "m1 n \<noteq> None" "m1 (n + 8) \<noteq> None"
    "\<forall>u v. hlist (m1(n \<mapsto> u, n + 8 \<mapsto> v)) h (ys @ zs)" by (rule hlist_unlink_spec [OF h])
  have "m (n + 8) = Some (last (h # ys))" "last (h # ys) \<noteq> NULL"
  proof -
    show "m (n + 8) = Some (last (h # ys))" using hlist_rest(2) [OF h] by simp
    have "y \<noteq> NULL" if "y \<in> set (ys @ n # zs)" for y
      using that h unfolding hlist_def by (metis hseg.simps(2) hseg_append split_list)
    then show "last (h # ys) \<noteq> NULL" using nz by simp
  qed
  then have "hlist_unhashed m n = Inr False" by (simp add: hlist_unhashed_def)
  then have "hlist_del_init m n = Inr (m1(n \<mapsto> NULL, n + 8 \<mapsto> NULL))"
    using m1(1-3) by (auto simp: hlist_del_init_def INIT_HLIST_NODE_def)
  moreover have "hlist_del_init (m1(n \<mapsto> NULL, n + 8 \<mapsto> NULL)) n = Inr (m1(n \<mapsto> NULL, n + 8 \<mapsto> NULL))"
    by (simp add: hlist_del_init_def hlist_unhashed_def)
  ultimately show ?thesis using m1(4) by blast
qed

section \<open>Iterations on well-formed lists\<close>



lemma hlist_safe_clear: "hlist m h xs \<Longrightarrow> \<exists>m'. hlist_for_each_safe (\<lambda>n m. hlist_del m n) h m = ret m' \<and> hlist m' h []"
proof -
  have "\<exists>m'. hlist_safe_loop (\<lambda>n m. hlist_del m n) (first_node xs) m = ret m' \<and> hlist m' h []" if "hlist m h xs" for m xs
    using that
  proof (induction xs arbitrary: m)
    case Nil
    then show ?case by (auto simp: hlist_safe_loop.simps [of _ NULL])
  next
    case (Cons x xs)
    from hlist_del_spec [of m h "[]" x xs] Cons.prems obtain m1 where m1: "hlist_del m x = Inr m1" "hlist m1 h xs" by auto
    have x: "x \<noteq> NULL" "m x = Some (first_node xs)"
      using Cons.prems hlist_rest(1) [of m h "[x]" xs] by (auto simp: hlist_def)
    show ?case using Cons.IH [OF m1(2)] m1(1) x by (simp add: hlist_safe_loop.simps [of _ x])
  qed
  then show "hlist m h xs \<Longrightarrow> ?thesis" using hlist_rest(1) [of m h "[]" xs] by (simp add: hlist_for_each_safe_def)
qed

section \<open>Properties\<close>



end
