(* ===== verification/PetHash.thy ===== *)
theory PetHash
  imports Prelude
begin

text \<open>
  The hash functions and the size tables of \<open>src/Threads/pet_hashtable.c\<close>: the word arithmetic
  is kept at its width (32 bits for hashes, 64 bits for keys).  The lemmas show that
  \<open>pet_hash_ptr\<close> is multiplicative hashing with one constant, that \<open>pet_hash_buffer\<close> never
  leaves 28 bits, that the prime table is increasing and long enough for every size that
  \<open>pet_create_htable\<close> accepts, and that a load limit is below its table size.
\<close>

section \<open>Hash functions\<close>

text \<open>The mixing that \<open>do_hash\<close> applies to the value of the user's hash function.\<close>

definition hash_mix :: "u32 \<Rightarrow> u32" where
  "hash_mix i =
     (let i = i + NOT (push_bit 9 i);
          i = i XOR (drop_bit 14 i OR push_bit 18 i);
          i = i + push_bit 4 i;
          i = i XOR (drop_bit 10 i OR push_bit 22 i)
      in i)"

definition pet_hash_ptr :: "u64 \<Rightarrow> u32" where
  "pet_hash_ptr val =
     (let hash = val;
          n = hash;
          n = push_bit 18 n; hash = hash - n;
          n = push_bit 33 n; hash = hash - n;
          n = push_bit 3 n;  hash = hash + n;
          n = push_bit 3 n;  hash = hash - n;
          n = push_bit 4 n;  hash = hash + n;
          n = push_bit 2 n;  hash = hash + n
      in ucast (drop_bit 32 hash))"

text \<open>
  The loop of \<open>pet_hash_buffer\<close>: the buffer is the list of its bytes, \<open>i\<close> the loop counter.
  The \<open>if\<close> of the source only guards the exclusive or.
\<close>

definition hash_buffer_step :: "u32 \<Rightarrow> u8 \<Rightarrow> u32 \<Rightarrow> u32" where
  "hash_buffer_step hash b i =
     (let hash = push_bit 4 hash + ucast b + i;
          temp = hash AND 0xF0000000;
          hash = (if temp \<noteq> 0 then hash XOR drop_bit 24 temp else hash)
      in hash AND NOT temp)"

fun hash_buffer_loop :: "u32 \<Rightarrow> u32 \<Rightarrow> u8 list \<Rightarrow> u32" where
  "hash_buffer_loop hash i [] = hash"
| "hash_buffer_loop hash i (b # bs) = hash_buffer_loop (hash_buffer_step hash b i) (i + 1) bs"

definition pet_hash_buffer :: "u8 list \<Rightarrow> u32" where
  "pet_hash_buffer msg = hash_buffer_loop 0 0 msg"

definition indexFor :: "u32 \<Rightarrow> u32 \<Rightarrow> u32" where
  "indexFor len hash_value = hash_value mod len"

section \<open>Size tables\<close>

definition primes :: "u32 list" where
  "primes =
    [53, 97, 193, 389,
     769, 1543, 3079, 6151,
     12289, 24593, 49157, 98317,
     196613, 393241, 786433, 1572869,
     3145739, 6291469, 12582917, 25165843,
     50331653, 100663319, 201326611, 402653189,
     805306457, 1610612741]"

definition load_factors :: "u32 list" where
  "load_factors =
    [35, 64, 126, 253,
     500, 1003, 2002, 3999,
     7988, 15986, 31953, 63907,
     127799, 255607, 511182, 1022365,
     2044731, 4089455, 8178897, 16357798,
     32715575, 65431158, 130862298, 261724573,
     523449198, 1046898282]"

definition prime_table_len :: u32 where
  "prime_table_len = of_nat (length primes)"

lemma length_primes [simp]: "length primes = 26"
  by (simp add: primes_def)

lemma length_load_factors [simp]: "length load_factors = 26"
  by (simp add: load_factors_def)

lemma prime_table_len_26 [simp]: "prime_table_len = 26"
  by (simp add: prime_table_len_def)

lemma primes_pos: "i < 26 \<Longrightarrow> 0 < primes ! i"
proof -
  have "\<forall>p \<in> set primes. 0 < p" by (simp add: primes_def)
  then show "i < 26 \<Longrightarrow> 0 < primes ! i" by simp
qed

lemma load_below_prime: "i < 26 \<Longrightarrow> load_factors ! i < primes ! i"
proof -
  have "list_all2 (<) load_factors primes" by (simp add: load_factors_def primes_def)
  then show "i < 26 \<Longrightarrow> load_factors ! i < primes ! i" by (simp add: list_all2_conv_all_nth)
qed

lemma primes_sorted: "sorted_wrt (<) primes"
  by (simp add: primes_def)

lemma primes_last: "primes ! 25 = 1610612741"
  by (simp add: primes_def)

lemma indexFor_less:
  assumes "0 < len"
  shows "unat (indexFor len hv) < unat len"
  using assms by (simp add: indexFor_def unat_mod word_less_nat_alt)

lemma top_nibble_mask: "(0xF0000000 :: u32) = NOT (mask 28)"
  by (simp add: mask_numeral)

lemma clear_top_nibble:
  fixes x y :: u32
  assumes "x AND NOT (mask 28) = y AND NOT (mask 28)"
  shows "x AND NOT (y AND NOT (mask 28)) = x AND mask 28"
proof (rule bit_word_eqI)
  fix n assume "n < LENGTH(32)"
  then have "bit (x AND NOT (mask 28)) n = bit (y AND NOT (mask 28)) n" using assms by simp
  then show "bit (x AND NOT (y AND NOT (mask 28))) n = bit (x AND mask 28) n"
    using \<open>n < LENGTH(32)\<close> by (auto simp: bit_simps)
qed

lemma fold_keeps_top_nibble:
  fixes h :: u32
  shows "(h XOR drop_bit 24 (h AND NOT (mask 28))) AND NOT (mask 28) = h AND NOT (mask 28)"
  by (rule bit_word_eqI) (auto simp: bit_simps dest: bit_imp_le_length)

lemma hash_buffer_step_bound: "hash_buffer_step h b i < 2 ^ 28"
proof -
  have *: "x AND NOT (y AND NOT (mask 28)) < 2 ^ 28"
    if "x AND NOT (mask 28) = y AND NOT (mask 28)" for x y :: u32
    using clear_top_nibble [OF that] and_mask_less_size [of 28 x] by (simp add: word_size)
  let ?h = "push_bit 4 h + ucast b + i"
  have "(if ?h AND NOT (mask 28) \<noteq> 0 then ?h XOR drop_bit 24 (?h AND NOT (mask 28)) else ?h)
      AND NOT (?h AND NOT (mask 28)) < 2 ^ 28"
    by (rule *) (simp only: fold_keeps_top_nibble simp_thms split: if_split)
  then show ?thesis
    by (simp only: hash_buffer_step_def Let_def top_nibble_mask)
qed

lemma hash_buffer_loop_bound: "h < 2 ^ 28 \<Longrightarrow> hash_buffer_loop h i bs < 2 ^ 28"
  using hash_buffer_step_bound by (induction bs arbitrary: h i) simp_all

section \<open>Properties\<close>

text \<open>
  C35: the shift-and-add chain of \<open>pet_hash_ptr\<close> is one wrapping multiplication by
  \<open>0x9e37fffffffc0001\<close>, of which the upper 32 bits are returned.
\<close>

theorem pet_hash_ptr_multiplicative:
  "pet_hash_ptr val = ucast (drop_bit 32 (val * 0x9e37fffffffc0001))"
proof -
  have "pet_hash_ptr val =
     ucast (drop_bit 32 (val - val * 2 ^ 18 - val * 2 ^ 51 + val * 2 ^ 54 - val * 2 ^ 57
       + val * 2 ^ 61 + val * 2 ^ 63))"
    by (simp add: pet_hash_ptr_def Let_def push_bit_eq_mult algebra_simps)
  also have "val - val * 2 ^ 18 - val * 2 ^ 51 + val * 2 ^ 54 - val * 2 ^ 57 + val * 2 ^ 61 + val * 2 ^ 63
     = val * (1 - 2 ^ 18 - 2 ^ 51 + 2 ^ 54 - 2 ^ 57 + 2 ^ 61 + 2 ^ 63)"
    by (simp only: algebra_simps mult_1)
  also have "(1 - 2 ^ 18 - 2 ^ 51 + 2 ^ 54 - 2 ^ 57 + 2 ^ 61 + 2 ^ 63 :: u64) = 0x9e37fffffffc0001"
    by simp
  finally show ?thesis .
qed

text \<open>
  Every value of \<open>pet_hash_buffer\<close> fits in 28 bits, whatever the buffer: the nibble that
  overflows is folded back and cleared in every round.
\<close>

theorem pet_hash_buffer_28_bits: "pet_hash_buffer msg < 2 ^ 28"
  unfolding pet_hash_buffer_def by (rule hash_buffer_loop_bound) simp

end
