(* ===== verification/PetHashtable.thy ===== *)
theory PetHashtable
  imports PetHash
begin

text \<open>
  The chained hash table of \<open>src/Threads/pet_hashtable.c\<close> on an explicit heap of
  \<open>struct hash_entry\<close> cells: the bucket array holds pointers, entries are linked through
  \<open>next\<close>, a pointer outside the heap faults, \<open>free\<close> unmaps a cell and freeing twice faults.
  The allocator is the environment: what \<open>calloc\<close> and \<open>realloc\<close> answer is an argument of the
  operations that call them.  The loops over a chain are partial functions (a cyclic chain
  would not end); that they do end is proved from the invariant.
\<close>

section \<open>Data\<close>

record hash_entry =
  he_key :: u64
  he_value :: u64
  he_hash :: u32
  he_next :: u64

type_synonym entry_heap = "u64 \<Rightarrow> hash_entry option"

record hashtable =
  ht_table :: "u64 list"
  table_length :: u32
  entry_count :: u32
  load_limit :: u32
  prime_index :: u32
  hash_fn :: "u64 \<Rightarrow> u32"
  eq_fn :: "u64 \<Rightarrow> u64 \<Rightarrow> bool"

text \<open>
  What the C library's allocator answers in one call of \<open>pet_htable_insert\<close>: whether the array
  for a larger table is granted by \<open>calloc\<close>, whether \<open>realloc\<close> grants it, and the address of
  the new entry (\<open>NULL\<close> when out of memory).
\<close>

record alloc_answers =
  al_table :: bool
  al_realloc :: bool
  al_entry :: u64

definition do_hash :: "hashtable \<Rightarrow> u64 \<Rightarrow> u32" where
  "do_hash ht key = hash_mix (hash_fn ht key)"

definition deref :: "entry_heap \<Rightarrow> u64 \<Rightarrow> hash_entry res" where
  "deref h p = (case h p of None \<Rightarrow> Inl (BadDeref p) | Some e \<Rightarrow> Inr e)"

definition free_entry :: "entry_heap \<Rightarrow> u64 \<Rightarrow> entry_heap res" where
  "free_entry h p = (case h p of None \<Rightarrow> Inl (UseAfterFree p) | Some _ \<Rightarrow> Inr (h(p := None)))"

definition slot :: "u64 list \<Rightarrow> u32 \<Rightarrow> u64 res" where
  "slot t i = (if unat i < length t then Inr (t ! unat i) else Inl OutOfBounds)"

section \<open>Creation\<close>

text \<open>The search for a prime larger than the requested size, from index \<open>i\<close>.\<close>

fun prime_search :: "u32 \<Rightarrow> u32 list \<Rightarrow> nat \<Rightarrow> (nat \<times> u32) option" where
  "prime_search min_size [] i = None"
| "prime_search min_size (p # ps) i =
     (if p > min_size then Some (i, p) else prime_search min_size ps (Suc i))"

text \<open>
  \<open>pet_create_htable\<close>; the two booleans are the answers of its two \<open>calloc\<close> calls.  When no
  prime is larger than \<open>min_size\<close> the loop ends with \<open>prime_index = prime_table_len\<close>, and
  \<open>load_factors[prime_index]\<close> would be read out of bounds.
\<close>

definition pet_create_htable ::
  "u32 \<Rightarrow> (u64 \<Rightarrow> u32) \<Rightarrow> (u64 \<Rightarrow> u64 \<Rightarrow> bool) \<Rightarrow> bool \<Rightarrow> bool \<Rightarrow> hashtable option res" where
  "pet_create_htable min_size hf ef ok1 ok2 =
     (if min_size > push_bit 30 1 then Inr None
      else
        let (pi, size) = (case prime_search min_size primes 0 of
                            Some (i, p) \<Rightarrow> (i, p) | None \<Rightarrow> (length primes, primes ! 0))
        in if \<not> ok1 then Inr None
           else if \<not> ok2 then Inr None
           else if pi < length load_factors then
             Inr (Some \<lparr>ht_table = replicate (unat size) NULL, table_length = size,
                        entry_count = 0, load_limit = load_factors ! pi,
                        prime_index = of_nat pi, hash_fn = hf, eq_fn = ef\<rparr>)
           else Inl OutOfBounds)"

section \<open>Expansion\<close>

text \<open>
  The inner loop of \<open>hashtable_expand\<close>: the entries of one old bucket, from \<open>tmp\<close> on, are pushed
  on the front of their new buckets.
\<close>

partial_function (option) move_chain ::
  "entry_heap \<Rightarrow> u32 \<Rightarrow> u64 list \<Rightarrow> u64 \<Rightarrow> (entry_heap \<times> u64 list) run" where
  "move_chain h new_size new_table tmp =
     (if tmp = NULL then ret (h, new_table)
      else case h tmp of
        None \<Rightarrow> fail (BadDeref tmp)
      | Some e \<Rightarrow>
          let index = indexFor new_size (he_hash e) in
          if unat index < length new_table then
            move_chain (h(tmp \<mapsto> e\<lparr>he_next := new_table ! unat index\<rparr>)) new_size
              (new_table[unat index := tmp]) (he_next e)
          else fail OutOfBounds)"

fun move_buckets ::
  "entry_heap \<Rightarrow> u32 \<Rightarrow> u64 list \<Rightarrow> u64 list \<Rightarrow> nat list \<Rightarrow> (entry_heap \<times> u64 list) run" where
  "move_buckets h new_size table new_table [] = ret (h, new_table)"
| "move_buckets h new_size table new_table (i # is) =
     (if i < length table then
        pbind (move_chain h new_size new_table (table ! i)) (\<lambda>(h, new_table).
        move_buckets h new_size table new_table is)
      else fail OutOfBounds)"

text \<open>
  \<open>hashtable_expand\<close>.  In its fallback after a failed \<open>calloc\<close> the source calls
  \<open>memset(new_table[htable->table_length], ...)\<close>: the first argument is the indeterminate
  content of an uninitialised array cell, used as an address.
\<close>

definition hashtable_expand ::
  "entry_heap \<Rightarrow> hashtable \<Rightarrow> bool \<Rightarrow> bool \<Rightarrow> (int \<times> entry_heap \<times> hashtable) run" where
  "hashtable_expand h ht calloc_ok realloc_ok =
     (if prime_index ht = prime_table_len - 1 then ret (0, h, ht)
      else
        let ht1 = ht\<lparr>prime_index := prime_index ht + 1\<rparr> in
        if unat (prime_index ht1) \<ge> length primes then fail OutOfBounds
        else
          let new_size = primes ! unat (prime_index ht1) in
          if calloc_ok then
            pbind (move_buckets h new_size (ht_table ht1) (replicate (unat new_size) NULL)
                     [0..<unat (table_length ht1)]) (\<lambda>(h, new_table).
            ret (-1, h, ht1\<lparr>ht_table := new_table, table_length := new_size,
                            load_limit := load_factors ! unat (prime_index ht1)\<rparr>))
          else if \<not> realloc_ok then ret (0, h, ht1\<lparr>prime_index := prime_index ht1 - 1\<rparr>)
          else fail WildWrite)"

definition pet_htable_count :: "hashtable \<Rightarrow> u32" where
  "pet_htable_count ht = entry_count ht"

section \<open>Insertion\<close>

definition pet_htable_insert ::
  "entry_heap \<Rightarrow> hashtable \<Rightarrow> u64 \<Rightarrow> u64 \<Rightarrow> alloc_answers \<Rightarrow> (int \<times> entry_heap \<times> hashtable) run" where
  "pet_htable_insert h ht key value al =
     (let ht = ht\<lparr>entry_count := entry_count ht + 1\<rparr> in
      pbind (if entry_count ht > load_limit ht
             then hashtable_expand h ht (al_table al) (al_realloc al)
             else ret (0, h, ht)) (\<lambda>(_, h, ht).
      let new_entry = al_entry al in
      if new_entry = NULL then ret (0, h, ht\<lparr>entry_count := entry_count ht - 1\<rparr>)
      else
        let hv = do_hash ht key;
            index = indexFor (table_length ht) hv
        in case slot (ht_table ht) index of
             Inl e \<Rightarrow> fail e
           | Inr first \<Rightarrow>
               ret (-1,
                    h(new_entry \<mapsto> \<lparr>he_key = key, he_value = value, he_hash = hv, he_next = first\<rparr>),
                    ht\<lparr>ht_table := (ht_table ht)[unat index := new_entry]\<rparr>)))"

section \<open>The search loop\<close>

text \<open>
  The loop that \<open>pet_htable_search\<close>, \<open>pet_htable_change\<close>, \<open>pet_htable_inc\<close>,
  \<open>pet_htable_dec\<close>, \<open>pet_htable_remove\<close> and \<open>pet_htable_iter_search\<close> each contain: follow
  \<open>next\<close> from \<open>cursor\<close> until an entry with the same hash and an equal key.  The value is that
  entry (\<open>NULL\<close> if there is none) and the entry before it (\<open>NULL\<close> at the head of the chain).
\<close>

partial_function (option) find_entry ::
  "entry_heap \<Rightarrow> (u64 \<Rightarrow> u64 \<Rightarrow> bool) \<Rightarrow> u32 \<Rightarrow> u64 \<Rightarrow> u64 \<Rightarrow> u64 \<Rightarrow> (u64 \<times> u64) run" where
  "find_entry h eq hash_value key parent cursor =
     (if cursor = NULL then ret (parent, NULL)
      else case h cursor of
        None \<Rightarrow> fail (BadDeref cursor)
      | Some e \<Rightarrow>
          if hash_value = he_hash e \<and> eq key (he_key e) then ret (parent, cursor)
          else find_entry h eq hash_value key cursor (he_next e))"

definition find_in_table :: "entry_heap \<Rightarrow> hashtable \<Rightarrow> u64 \<Rightarrow> (u64 \<times> u64) run" where
  "find_in_table h ht key =
     (let hash_value = do_hash ht key;
          index = indexFor (table_length ht) hash_value
      in case slot (ht_table ht) index of
           Inl e \<Rightarrow> fail e
         | Inr first \<Rightarrow> find_entry h (eq_fn ht) hash_value key NULL first)"

definition pet_htable_search :: "entry_heap \<Rightarrow> hashtable \<Rightarrow> u64 \<Rightarrow> u64 run" where
  "pet_htable_search h ht key =
     pbind (find_in_table h ht key) (\<lambda>(_, cursor).
     if cursor = NULL then ret NULL
     else Some (rbind (deref h cursor) (\<lambda>e. Inr (he_value e))))"

text \<open>
  \<open>pet_htable_change\<close>; the second component of the result lists the user pointers it handed to
  \<open>free\<close>.
\<close>

definition pet_htable_change ::
  "entry_heap \<Rightarrow> hashtable \<Rightarrow> u64 \<Rightarrow> u64 \<Rightarrow> bool \<Rightarrow> (int \<times> u64 list \<times> entry_heap) run" where
  "pet_htable_change h ht key value free_value =
     pbind (find_in_table h ht key) (\<lambda>(_, tmp_entry).
     if tmp_entry = NULL then ret (0, [], h)
     else Some (rbind (deref h tmp_entry) (\<lambda>e.
       Inr (-1, if free_value then [he_value e] else [],
            h(tmp_entry \<mapsto> e\<lparr>he_value := value\<rparr>)))))"

definition pet_htable_inc ::
  "entry_heap \<Rightarrow> hashtable \<Rightarrow> u64 \<Rightarrow> u64 \<Rightarrow> (int \<times> entry_heap) run" where
  "pet_htable_inc h ht key value =
     pbind (find_in_table h ht key) (\<lambda>(_, tmp_entry).
     if tmp_entry = NULL then ret (0, h)
     else Some (rbind (deref h tmp_entry) (\<lambda>e.
       Inr (-1, h(tmp_entry \<mapsto> e\<lparr>he_value := he_value e + value\<rparr>)))))"

definition pet_htable_dec ::
  "entry_heap \<Rightarrow> hashtable \<Rightarrow> u64 \<Rightarrow> u64 \<Rightarrow> (int \<times> entry_heap) run" where
  "pet_htable_dec h ht key value =
     pbind (find_in_table h ht key) (\<lambda>(_, tmp_entry).
     if tmp_entry = NULL then ret (0, h)
     else Some (rbind (deref h tmp_entry) (\<lambda>e.
       Inr (-1, h(tmp_entry \<mapsto> e\<lparr>he_value := he_value e - value\<rparr>)))))"

section \<open>Removal\<close>

text \<open>
  \<open>*entry_ptr = next\<close>: \<open>entry_ptr\<close> is the bucket cell when there is no parent entry, and the
  \<open>next\<close> field of the parent otherwise.
\<close>

definition unlink_entry ::
  "entry_heap \<Rightarrow> hashtable \<Rightarrow> u32 \<Rightarrow> u64 \<Rightarrow> u64 \<Rightarrow> (entry_heap \<times> hashtable) res" where
  "unlink_entry h ht index parent nxt =
     (if parent = NULL then
        (if unat index < length (ht_table ht)
         then Inr (h, ht\<lparr>ht_table := (ht_table ht)[unat index := nxt]\<rparr>)
         else Inl OutOfBounds)
      else rbind (deref h parent) (\<lambda>p. Inr (h(parent \<mapsto> p\<lparr>he_next := nxt\<rparr>), ht)))"

definition pet_htable_remove ::
  "entry_heap \<Rightarrow> hashtable \<Rightarrow> u64 \<Rightarrow> bool \<Rightarrow> (u64 \<times> u64 list \<times> entry_heap \<times> hashtable) run" where
  "pet_htable_remove h ht key free_key =
     pbind (find_in_table h ht key) (\<lambda>(parent, cursor).
     if cursor = NULL then ret (NULL, [], h, ht)
     else Some (
       rbind (deref h cursor) (\<lambda>e.
       rbind (unlink_entry h ht (indexFor (table_length ht) (do_hash ht key)) parent (he_next e))
         (\<lambda>(h, ht).
       rbind (free_entry h cursor) (\<lambda>h.
       Inr (he_value e, if free_key then [he_key e] else [], h,
            ht\<lparr>entry_count := entry_count ht - 1\<rparr>))))))"

section \<open>Destruction\<close>

text \<open>
  \<open>pet_free_htable\<close>: the inner loop frees the entries of one chain (and, on request, the user's
  key and value pointers, which are collected in order).
\<close>

partial_function (option) free_chain ::
  "entry_heap \<Rightarrow> bool \<Rightarrow> bool \<Rightarrow> u64 list \<Rightarrow> u64 \<Rightarrow> (u64 list \<times> entry_heap) run" where
  "free_chain h free_values free_keys freed cursor =
     (if cursor = NULL then ret (freed, h)
      else case h cursor of
        None \<Rightarrow> fail (BadDeref cursor)
      | Some e \<Rightarrow>
          free_chain (h(cursor := None)) free_values free_keys
            (freed @ (if free_keys then [he_key e] else []) @ (if free_values then [he_value e] else []))
            (he_next e))"

fun free_buckets ::
  "entry_heap \<Rightarrow> u64 list \<Rightarrow> bool \<Rightarrow> bool \<Rightarrow> u64 list \<Rightarrow> nat list \<Rightarrow> (u64 list \<times> entry_heap) run" where
  "free_buckets h table free_values free_keys freed [] = ret (freed, h)"
| "free_buckets h table free_values free_keys freed (i # is) =
     (if i < length table then
        pbind (free_chain h free_values free_keys freed (table ! i)) (\<lambda>(freed, h).
        free_buckets h table free_values free_keys freed is)
      else fail OutOfBounds)"

definition pet_free_htable ::
  "entry_heap \<Rightarrow> hashtable \<Rightarrow> bool \<Rightarrow> bool \<Rightarrow> (u64 list \<times> entry_heap) run" where
  "pet_free_htable h ht free_values free_keys =
     free_buckets h (ht_table ht) free_values free_keys [] [0..<unat (table_length ht)]"

end
