(* ===== verification/PetHashInv.thy ===== *)
theory PetHashInv
  imports PetHashtable
begin

text \<open>
  The representation invariant of the hash table and the correctness of its operations.  A
  well-formed table owns a finite set of entry cells; every bucket is an acyclic chain of cells
  whose stored hash is the hash of their key and selects that bucket; the counters agree with
  the set of cells and the size tables.
\<close>

section \<open>Chains\<close>

fun chain :: "entry_heap \<Rightarrow> u64 \<Rightarrow> u64 list \<Rightarrow> bool" where
  "chain h p [] \<longleftrightarrow> p = NULL"
| "chain h p (a # as) \<longleftrightarrow> p = a \<and> a \<noteq> NULL \<and> (\<exists>e. h a = Some e \<and> chain h (he_next e) as)"

lemma chain_cong: "(\<And>a. a \<in> set as \<Longrightarrow> h' a = h a) \<Longrightarrow> chain h' p as \<longleftrightarrow> chain h p as"
  by (induction as arbitrary: p) auto

lemma chain_upd_other [simp]: "c \<notin> set as \<Longrightarrow> chain (h(c := v)) p as \<longleftrightarrow> chain h p as"
  by (rule chain_cong) auto

lemma chain_NULL [simp]: "chain h NULL as \<longleftrightarrow> as = []"
  by (cases as) auto

lemma chain_mapped: "chain h p as \<Longrightarrow> a \<in> set as \<Longrightarrow> a \<noteq> NULL \<and> (\<exists>e. h a = Some e)"
  by (induction as arbitrary: p) auto

lemma chain_hd: "chain h p as \<Longrightarrow> p = hd (as @ [NULL])"
  by (cases as) auto

text \<open>The entry after a given one.\<close>

lemma chain_drop:
  "chain h p (ys @ c # zs) \<Longrightarrow> \<exists>e. h c = Some e \<and> chain h (he_next e) zs"
  by (induction ys arbitrary: p) auto

text \<open>Two ways to unlink the entry \<open>c\<close>: it is the head, or its predecessor is redirected.\<close>

lemma chain_unlink_mid:
  assumes "chain h p (ys @ q # c # zs)" and "distinct (ys @ q # c # zs)"
    and "h q = Some eq" and "h c = Some ec"
  shows "chain (h(q \<mapsto> eq\<lparr>he_next := he_next ec\<rparr>)) p (ys @ q # zs)"
  using assms by (induction ys arbitrary: p) auto

subsection \<open>The search loop on a chain\<close>

definition hmatch :: "entry_heap \<Rightarrow> (u64 \<Rightarrow> u64 \<Rightarrow> bool) \<Rightarrow> u32 \<Rightarrow> u64 \<Rightarrow> u64 \<Rightarrow> bool" where
  "hmatch h eq hv key a \<longleftrightarrow> (\<exists>e. h a = Some e \<and> hv = he_hash e \<and> eq key (he_key e))"

lemma find_entry_none:
  assumes "chain h p as" and "\<forall>a \<in> set as. \<not> hmatch h eq hv key a"
  shows "find_entry h eq hv key par p = ret (last (par # as), NULL)"
  using assms
proof (induction as arbitrary: p par)
  case Nil
  then show ?case by (subst find_entry.simps) simp
next
  case (Cons a as)
  then obtain e where e: "h a = Some e" "chain h (he_next e) as" "\<not> (hv = he_hash e \<and> eq key (he_key e))"
    by (auto simp: hmatch_def)
  have "find_entry h eq hv key par p = find_entry h eq hv key a (he_next e)"
    using Cons.prems e by (subst find_entry.simps) auto
  also have "\<dots> = ret (last (a # as), NULL)"
    using Cons.IH [OF e(2)] Cons.prems by simp
  finally show ?case by simp
qed

lemma find_entry_some:
  assumes "chain h p (ys @ c # zs)" and "\<forall>a \<in> set ys. \<not> hmatch h eq hv key a"
    and "hmatch h eq hv key c"
  shows "find_entry h eq hv key par p = ret (last (par # ys), c)"
  using assms
proof (induction ys arbitrary: p par)
  case Nil
  then show ?case by (subst find_entry.simps) (auto simp: hmatch_def)
next
  case (Cons a as)
  then obtain e where e: "h a = Some e" "chain h (he_next e) (as @ c # zs)"
    "\<not> (hv = he_hash e \<and> eq key (he_key e))"
    by (auto simp: hmatch_def)
  have "find_entry h eq hv key par p = find_entry h eq hv key a (he_next e)"
    using Cons.prems e by (subst find_entry.simps) auto
  also have "\<dots> = ret (last (a # as), c)"
    using Cons.IH [OF e(2)] Cons.prems by simp
  finally show ?case by simp
qed

section \<open>The invariant\<close>

definition bucketed ::
  "entry_heap \<Rightarrow> (u64 \<Rightarrow> u32) \<Rightarrow> u32 \<Rightarrow> u64 list \<Rightarrow> (nat \<Rightarrow> u64 list) \<Rightarrow> bool" where
  "bucketed h dh len tbl bs \<longleftrightarrow>
     0 < len \<and> length tbl = unat len \<and>
     (\<forall>i < unat len. chain h (tbl ! i) (bs i) \<and> distinct (bs i) \<and>
        (\<forall>a \<in> set (bs i). \<exists>e. h a = Some e \<and> he_hash e = dh (he_key e)
           \<and> unat (indexFor len (he_hash e)) = i))"

definition addrs :: "u32 \<Rightarrow> (nat \<Rightarrow> u64 list) \<Rightarrow> u64 set" where
  "addrs len bs = (\<Union>i < unat len. set (bs i))"

definition htable_rep :: "entry_heap \<Rightarrow> hashtable \<Rightarrow> u64 set \<Rightarrow> bool" where
  "htable_rep h ht A \<longleftrightarrow>
     (\<exists>bs. bucketed h (do_hash ht) (table_length ht) (ht_table ht) bs
        \<and> A = addrs (table_length ht) bs
        \<and> unat (prime_index ht) < 26
        \<and> table_length ht = primes ! unat (prime_index ht)
        \<and> load_limit ht = load_factors ! unat (prime_index ht))"

definition htable_ok :: "entry_heap \<Rightarrow> hashtable \<Rightarrow> u64 set \<Rightarrow> bool" where
  "htable_ok h ht A \<longleftrightarrow> htable_rep h ht A \<and> unat (entry_count ht) = card A"

text \<open>
  What the user's two functions have to satisfy: \<open>eq_fn\<close> is an equivalence, and equal keys have
  equal hashes.
\<close>

definition keys_ok :: "hashtable \<Rightarrow> bool" where
  "keys_ok ht \<longleftrightarrow>
     (\<forall>k. eq_fn ht k k) \<and> (\<forall>k l. eq_fn ht k l \<longrightarrow> eq_fn ht l k)
     \<and> (\<forall>k l m. eq_fn ht k l \<longrightarrow> eq_fn ht l m \<longrightarrow> eq_fn ht k m)
     \<and> (\<forall>k l. eq_fn ht k l \<longrightarrow> hash_fn ht k = hash_fn ht l)"

text \<open>No two cells hold equal keys (the use the header recommends).\<close>

definition nodup :: "entry_heap \<Rightarrow> hashtable \<Rightarrow> u64 set \<Rightarrow> bool" where
  "nodup h ht A \<longleftrightarrow>
     (\<forall>a \<in> A. \<forall>b \<in> A. \<forall>e f. h a = Some e \<longrightarrow> h b = Some f \<longrightarrow>
        eq_fn ht (he_key e) (he_key f) \<longrightarrow> a = b)"

definition binds :: "entry_heap \<Rightarrow> hashtable \<Rightarrow> u64 set \<Rightarrow> u64 \<Rightarrow> u64 \<Rightarrow> bool" where
  "binds h ht A k v \<longleftrightarrow> (\<exists>a \<in> A. \<exists>e. h a = Some e \<and> eq_fn ht k (he_key e) \<and> he_value e = v)"

definition kidx :: "hashtable \<Rightarrow> u64 \<Rightarrow> nat" where
  "kidx ht k = unat (indexFor (table_length ht) (do_hash ht k))"

lemma keys_ok_do_hash: "keys_ok ht \<Longrightarrow> eq_fn ht k l \<Longrightarrow> do_hash ht k = do_hash ht l"
  unfolding keys_ok_def do_hash_def by metis

lemma keys_ok_refl: "keys_ok ht \<Longrightarrow> eq_fn ht k k"
  by (simp add: keys_ok_def)

lemma keys_ok_sym: "keys_ok ht \<Longrightarrow> eq_fn ht k l \<Longrightarrow> eq_fn ht l k"
  unfolding keys_ok_def by blast

lemma keys_ok_trans: "keys_ok ht \<Longrightarrow> eq_fn ht k l \<Longrightarrow> eq_fn ht l m \<Longrightarrow> eq_fn ht k m"
  unfolding keys_ok_def by blast

lemma keys_ok_join: "keys_ok ht \<Longrightarrow> eq_fn ht k l \<Longrightarrow> eq_fn ht k m \<Longrightarrow> eq_fn ht l m"
  unfolding keys_ok_def by blast

lemma kidx_less: "bucketed h dh (table_length ht) tbl bs \<Longrightarrow> kidx ht k < unat (table_length ht)"
  by (simp add: kidx_def bucketed_def indexFor_less)

lemma addrsI: "i < unat len \<Longrightarrow> a \<in> set (bs i) \<Longrightarrow> a \<in> addrs len bs"
  by (auto simp: addrs_def)

lemma bucketed_entry:
  assumes "bucketed h dh len tbl bs" and "a \<in> addrs len bs"
  shows "\<exists>e. h a = Some e \<and> he_hash e = dh (he_key e) \<and> a \<noteq> NULL
           \<and> a \<in> set (bs (unat (indexFor len (he_hash e))))"
proof -
  from assms(2) obtain i where i: "i < unat len" "a \<in> set (bs i)" by (auto simp: addrs_def)
  with assms(1) obtain e where "h a = Some e" "he_hash e = dh (he_key e)"
    "unat (indexFor len (he_hash e)) = i" "chain h (tbl ! i) (bs i)"
    unfolding bucketed_def by blast
  with i chain_mapped show ?thesis by blast
qed

lemma finite_addrs [simp]: "finite (addrs len bs)"
  by (simp add: addrs_def)

text \<open>With suitable key functions, an entry matches exactly when its key is equal.\<close>

lemma hmatch_iff:
  assumes "bucketed h (do_hash ht) (table_length ht) tbl bs" and "keys_ok ht"
    and "a \<in> addrs (table_length ht) bs"
  shows "hmatch h (eq_fn ht) (do_hash ht k) k a \<longleftrightarrow>
         (\<exists>e. h a = Some e \<and> eq_fn ht k (he_key e))"
  using bucketed_entry [OF assms(1,3)] keys_ok_do_hash [OF assms(2)]
  by (auto simp: hmatch_def)

lemma match_in_bucket:
  assumes "bucketed h (do_hash ht) (table_length ht) tbl bs" and "keys_ok ht"
    and "a \<in> addrs (table_length ht) bs" and "h a = Some e" and "eq_fn ht k (he_key e)"
  shows "a \<in> set (bs (kidx ht k))"
  using bucketed_entry [OF assms(1,3)] keys_ok_do_hash [OF assms(2,5)] assms(4)
  by (auto simp: kidx_def)

section \<open>Searching\<close>

lemma find_in_table_found:
  assumes b: "bucketed h (do_hash ht) (table_length ht) (ht_table ht) bs"
    and k: "keys_ok ht" and n: "nodup h ht (addrs (table_length ht) bs)"
    and a: "a \<in> addrs (table_length ht) bs" "h a = Some e" "eq_fn ht k (he_key e)"
  shows "\<exists>ys zs. bs (kidx ht k) = ys @ a # zs \<and> find_in_table h ht k = ret (last (NULL # ys), a)"
proof -
  have i: "kidx ht k < unat (table_length ht)" using b by (rule kidx_less)
  from match_in_bucket [OF b k a] obtain ys zs where
    split: "bs (kidx ht k) = ys @ a # zs" "a \<notin> set ys" by (rule in_set_splitE)
  have c: "chain h (ht_table ht ! kidx ht k) (ys @ a # zs)" and len: "length (ht_table ht) = unat (table_length ht)"
    using b i split(1) by (auto simp: bucketed_def)
  have "\<not> hmatch h (eq_fn ht) (do_hash ht k) k x" if x: "x \<in> set ys" for x
  proof
    assume m: "hmatch h (eq_fn ht) (do_hash ht k) k x"
    have xA: "x \<in> addrs (table_length ht) bs" using x split(1) i by (auto intro!: addrsI)
    from m obtain f where "h x = Some f" "eq_fn ht k (he_key f)" by (auto simp: hmatch_def)
    moreover from this a(3) have "eq_fn ht (he_key f) (he_key e)"
      using keys_ok_join [OF k] by blast
    ultimately have "x = a" using n a(1,2) xA by (simp add: nodup_def)
    with x split(2) show False by simp
  qed
  moreover have "hmatch h (eq_fn ht) (do_hash ht k) k a"
    using hmatch_iff [OF b k a(1)] a by blast
  ultimately have "find_entry h (eq_fn ht) (do_hash ht k) k NULL (ht_table ht ! kidx ht k)
      = ret (last (NULL # ys), a)"
    using find_entry_some [OF c] by blast
  then show ?thesis
    using split i len by (auto simp: find_in_table_def Let_def slot_def kidx_def)
qed

lemma find_in_table_missing:
  assumes b: "bucketed h (do_hash ht) (table_length ht) (ht_table ht) bs"
    and none: "\<forall>a \<in> addrs (table_length ht) bs. \<forall>e. h a = Some e \<longrightarrow> \<not> eq_fn ht k (he_key e)"
  shows "\<exists>par. find_in_table h ht k = ret (par, NULL)"
proof -
  have i: "kidx ht k < unat (table_length ht)" using b by (rule kidx_less)
  have c: "chain h (ht_table ht ! kidx ht k) (bs (kidx ht k))" and len: "length (ht_table ht) = unat (table_length ht)"
    using b i by (auto simp: bucketed_def)
  have "\<forall>a \<in> set (bs (kidx ht k)). \<not> hmatch h (eq_fn ht) (do_hash ht k) k a"
    using none i addrsI [of "kidx ht k" "table_length ht"] by (auto simp: hmatch_def)
  from find_entry_none [OF c this] show ?thesis
    using i len by (auto simp: find_in_table_def Let_def slot_def kidx_def)
qed

lemma search_found:
  assumes "htable_ok h ht A" and "keys_ok ht" and "nodup h ht A" and "binds h ht A k v"
  shows "pet_htable_search h ht k = ret v"
proof -
  from assms(1) obtain bs where b: "bucketed h (do_hash ht) (table_length ht) (ht_table ht) bs"
    and A: "A = addrs (table_length ht) bs" by (auto simp: htable_ok_def htable_rep_def)
  from assms(4) obtain a e where a: "a \<in> A" "h a = Some e" "eq_fn ht k (he_key e)" "he_value e = v"
    by (auto simp: binds_def)
  have "a \<noteq> NULL" using bucketed_entry [OF b] a A by auto
  moreover obtain par where "find_in_table h ht k = ret (par, a)"
    using find_in_table_found [OF b assms(2)] assms(3) a A by blast
  ultimately show ?thesis using a by (simp add: pet_htable_search_def deref_def)
qed

lemma search_missing:
  assumes "htable_ok h ht A" and "\<nexists>v. binds h ht A k v"
  shows "pet_htable_search h ht k = ret NULL"
proof -
  from assms obtain bs where b: "bucketed h (do_hash ht) (table_length ht) (ht_table ht) bs"
    and A: "A = addrs (table_length ht) bs" by (auto simp: htable_ok_def htable_rep_def)
  have "\<forall>a \<in> addrs (table_length ht) bs. \<forall>e. h a = Some e \<longrightarrow> \<not> eq_fn ht k (he_key e)"
    using assms(2) A by (auto simp: binds_def)
  from find_in_table_missing [OF b this] obtain par where
    "find_in_table h ht k = ret (par, NULL)" by blast
  then show ?thesis by (simp add: pet_htable_search_def)
qed

text \<open>A search never faults and always returns, whatever the key functions.\<close>

section \<open>Pushing a cell on the front of its bucket\<close>

lemma bucketed_push:
  assumes b: "bucketed h dh len tbl bs" and a: "a \<noteq> NULL" "a \<notin> addrs len bs"
    and e: "he_hash e = dh (he_key e)" and i: "i = unat (indexFor len (he_hash e))"
    and e': "e' = e\<lparr>he_next := tbl ! i\<rparr>"
  shows "bucketed (h(a \<mapsto> e')) dh len (tbl[i := a]) (bs(i := a # bs i))"
    and "addrs len (bs(i := a # bs i)) = insert a (addrs len bs)"
proof -
  have il: "i < unat len" using b i by (simp add: bucketed_def indexFor_less)
  have out: "a \<notin> set (bs j)" if "j < unat len" for j
    using a(2) that by (auto simp: addrs_def)
  show "bucketed (h(a \<mapsto> e')) dh len (tbl[i := a]) (bs(i := a # bs i))"
    unfolding bucketed_def
  proof (intro conjI allI impI)
    fix j assume j: "j < unat len"
    have "chain h (tbl ! j) (bs j)" "distinct (bs j)"
      "\<forall>c \<in> set (bs j). \<exists>e. h c = Some e \<and> he_hash e = dh (he_key e) \<and> unat (indexFor len (he_hash e)) = j"
      using b j by (auto simp: bucketed_def)
    then show "chain (h(a \<mapsto> e')) (tbl[i := a] ! j) ((bs(i := a # bs i)) j)"
      "distinct ((bs(i := a # bs i)) j)"
      "\<forall>c \<in> set ((bs(i := a # bs i)) j). \<exists>e. (h(a \<mapsto> e')) c = Some e \<and> he_hash e = dh (he_key e)
        \<and> unat (indexFor len (he_hash e)) = j"
      using out[OF j] a(1) e e' i il j b by (auto simp: bucketed_def nth_list_update)
  qed (use b in \<open>auto simp: bucketed_def\<close>)
  show "addrs len (bs(i := a # bs i)) = insert a (addrs len bs)"
    using il by (auto simp: addrs_def split: if_splits)
qed

section \<open>Moving all cells to a larger table\<close>

text \<open>Two heaps that agree on everything but the \<open>next\<close> fields.\<close>

definition same_data :: "entry_heap \<Rightarrow> entry_heap \<Rightarrow> bool" where
  "same_data h h' \<longleftrightarrow>
     (\<forall>a. map_option (\<lambda>e. e\<lparr>he_next := NULL\<rparr>) (h' a) = map_option (\<lambda>e. e\<lparr>he_next := NULL\<rparr>) (h a))"

lemma same_data_refl [simp]: "same_data h h"
  by (simp add: same_data_def)

lemma same_data_trans: "same_data h h' \<Longrightarrow> same_data h' h'' \<Longrightarrow> same_data h h''"
  by (simp add: same_data_def)

lemma same_data_upd: "h a = Some e \<Longrightarrow> same_data h (h(a \<mapsto> e\<lparr>he_next := p\<rparr>))"
  by (simp add: same_data_def)

lemma same_data_sym: "same_data h h' \<Longrightarrow> same_data h' h"
  by (simp add: same_data_def)

lemma same_dataD:
  assumes "same_data h h'" and "h a = Some e"
  shows "\<exists>e'. h' a = Some e' \<and> he_key e' = he_key e \<and> he_value e' = he_value e \<and> he_hash e' = he_hash e"
proof -
  have "map_option (\<lambda>e. e\<lparr>he_next := NULL\<rparr>) (h' a) = Some (e\<lparr>he_next := NULL\<rparr>)"
    using assms by (simp add: same_data_def)
  then obtain e' where e': "h' a = Some e'" "e'\<lparr>he_next := NULL\<rparr> = e\<lparr>he_next := NULL\<rparr>" by auto
  then show ?thesis by (cases e; cases e') simp
qed

lemma move_chain_spec:
  assumes "chain h p as" and "distinct as" and "bucketed h dh len tbl bs"
    and "set as \<inter> addrs len bs = {}"
    and "\<forall>a \<in> set as. \<exists>e. h a = Some e \<and> he_hash e = dh (he_key e)"
  shows "\<exists>h' tbl' bs'. move_chain h len tbl p = ret (h', tbl') \<and> bucketed h' dh len tbl' bs'
           \<and> addrs len bs' = addrs len bs \<union> set as \<and> same_data h h'
           \<and> (\<forall>c. c \<notin> set as \<longrightarrow> h' c = h c)"
  using assms
proof (induction as arbitrary: h p tbl bs)
  case Nil
  then show ?case by (subst move_chain.simps) auto
next
  case (Cons a as)
  then obtain e where e: "h a = Some e" "chain h (he_next e) as" "he_hash e = dh (he_key e)"
    by auto
  define i where "i = unat (indexFor len (he_hash e))"
  define h1 where "h1 = h(a \<mapsto> e\<lparr>he_next := tbl ! i\<rparr>)"
  define bs1 where "bs1 = bs(i := a # bs i)"
  have a: "a \<noteq> NULL" "p = a" "a \<notin> addrs len bs" "a \<notin> set as" using Cons.prems by auto
  have il: "i < length tbl" using Cons.prems(3) by (auto simp: bucketed_def indexFor_less i_def)
  have push: "bucketed h1 dh len (tbl[i := a]) bs1" "addrs len bs1 = insert a (addrs len bs)"
    unfolding h1_def bs1_def using bucketed_push [OF Cons.prems(3) a(1,3) e(3) i_def refl] by auto
  have "chain h1 (he_next e) as" using e(2) a(4) by (simp add: h1_def)
  moreover have "\<forall>a \<in> set as. \<exists>e. h1 a = Some e \<and> he_hash e = dh (he_key e)"
    using Cons.prems(5) a(4) by (auto simp: h1_def)
  ultimately have "\<exists>h' tbl' bs'. move_chain h1 len (tbl[i := a]) (he_next e) = ret (h', tbl')
       \<and> bucketed h' dh len tbl' bs' \<and> addrs len bs' = addrs len bs1 \<union> set as \<and> same_data h1 h'
       \<and> (\<forall>c. c \<notin> set as \<longrightarrow> h' c = h1 c)"
    using Cons.IH [OF _ _ push(1)] push(2) Cons.prems a(4) by auto
  then obtain h' tbl' bs' where IH: "move_chain h1 len (tbl[i := a]) (he_next e) = ret (h', tbl')"
    "bucketed h' dh len tbl' bs'" "addrs len bs' = addrs len bs1 \<union> set as" "same_data h1 h'"
    "\<forall>c. c \<notin> set as \<longrightarrow> h' c = h1 c" by blast
  have "move_chain h len tbl p = move_chain h1 len (tbl[i := a]) (he_next e)"
    using a e il by (subst move_chain.simps) (simp add: Let_def i_def h1_def)
  moreover have "same_data h h'"
    using same_data_trans [OF same_data_upd IH(4) [unfolded h1_def]] e(1) .
  moreover have "\<forall>c. c \<notin> set (a # as) \<longrightarrow> h' c = h c" using IH(5) by (simp add: h1_def)
  moreover have "addrs len bs' = addrs len bs \<union> set (a # as)" using IH(3) push(2) by auto
  ultimately show ?case using IH(1,2) by auto
qed

lemma move_buckets_spec:
  assumes "\<forall>i \<in> set is. i < length tbl \<and> chain h (tbl ! i) (os i) \<and> distinct (os i)"
    and "distinct is" and "\<forall>i \<in> set is. \<forall>j \<in> set is. i \<noteq> j \<longrightarrow> set (os i) \<inter> set (os j) = {}"
    and "bucketed h dh len nt bs" and "(\<Union>i \<in> set is. set (os i)) \<inter> addrs len bs = {}"
    and "\<forall>i \<in> set is. \<forall>a \<in> set (os i). \<exists>e. h a = Some e \<and> he_hash e = dh (he_key e)"
  shows "\<exists>h' nt' bs'. move_buckets h len tbl nt is = ret (h', nt') \<and> bucketed h' dh len nt' bs'
           \<and> addrs len bs' = addrs len bs \<union> (\<Union>i \<in> set is. set (os i)) \<and> same_data h h'
           \<and> (\<forall>c. c \<notin> (\<Union>i \<in> set is. set (os i)) \<longrightarrow> h' c = h c)"
  using assms
proof (induction "is" arbitrary: h nt bs)
  case Nil
  then show ?case by auto
next
  case (Cons i "is")
  have "\<exists>h' nt' bs'. move_chain h len nt (tbl ! i) = ret (h', nt') \<and> bucketed h' dh len nt' bs'
           \<and> addrs len bs' = addrs len bs \<union> set (os i) \<and> same_data h h'
           \<and> (\<forall>c. c \<notin> set (os i) \<longrightarrow> h' c = h c)"
    by (rule move_chain_spec) (use Cons.prems in auto)
  then obtain h1 nt1 bs1 where
    1: "move_chain h len nt (tbl ! i) = ret (h1, nt1)" "bucketed h1 dh len nt1 bs1"
      "addrs len bs1 = addrs len bs \<union> set (os i)" "same_data h h1"
      "\<And>c. c \<notin> set (os i) \<Longrightarrow> h1 c = h c" by blast
  have out: "a \<notin> set (os i)" if "j \<in> set is" "a \<in> set (os j)" for j a
    using Cons.prems(2,3) that by fastforce
  have "\<exists>h' nt' bs'. move_buckets h1 len tbl nt1 is = ret (h', nt') \<and> bucketed h' dh len nt' bs'
           \<and> addrs len bs' = addrs len bs1 \<union> (\<Union>i \<in> set is. set (os i)) \<and> same_data h1 h'
           \<and> (\<forall>c. c \<notin> (\<Union>i \<in> set is. set (os i)) \<longrightarrow> h' c = h1 c)"
  proof (rule Cons.IH)
    show "\<forall>j \<in> set is. j < length tbl \<and> chain h1 (tbl ! j) (os j) \<and> distinct (os j)"
      using Cons.prems(1) chain_cong [where h' = h1 and h = h] out 1(5) by (metis list.set_intros(2))
    show "\<forall>j \<in> set is. \<forall>a \<in> set (os j). \<exists>e. h1 a = Some e \<and> he_hash e = dh (he_key e)"
      using Cons.prems(6) out 1(5) by auto
  qed (use Cons.prems 1 out in auto)
  then obtain h' nt' bs' where 2: "move_buckets h1 len tbl nt1 is = ret (h', nt')"
    "bucketed h' dh len nt' bs'" "addrs len bs' = addrs len bs1 \<union> (\<Union>i \<in> set is. set (os i))"
    "same_data h1 h'" "\<forall>c. c \<notin> (\<Union>i \<in> set is. set (os i)) \<longrightarrow> h' c = h1 c" by blast
  have "move_buckets h len tbl nt (i # is) = ret (h', nt')"
    using 1(1) 2(1) Cons.prems(1) by simp
  moreover have "addrs len bs' = addrs len bs \<union> (\<Union>i \<in> set (i # is). set (os i))"
    using 1(3) 2(3) by auto
  moreover have "\<forall>c. c \<notin> (\<Union>i \<in> set (i # is). set (os i)) \<longrightarrow> h' c = h c"
    using 1(5) 2(5) by simp
  ultimately show ?case using 2(2) same_data_trans [OF 1(4) 2(4)] by blast
qed

lemma bucketed_empty:
  "0 < len \<Longrightarrow> bucketed h dh len (replicate (unat len) NULL) (\<lambda>_. [])"
  by (simp add: bucketed_def)

lemma addrs_empty [simp]: "addrs len (\<lambda>_. []) = {}"
  by (simp add: addrs_def)

lemma bucketed_disjoint:
  assumes "bucketed h dh len tbl bs" and "i < unat len" and "j < unat len" and "i \<noteq> j"
  shows "set (bs i) \<inter> set (bs j) = {}"
proof -
  have "unat (indexFor len (he_hash e)) = k"
    if "k < unat len" "a \<in> set (bs k)" "h a = Some e" for k a e
    using assms(1) that unfolding bucketed_def by fastforce
  moreover have "\<exists>e. h a = Some e" if "a \<in> set (bs i)" for a
    using assms(1,2) that unfolding bucketed_def by fastforce
  ultimately show ?thesis using assms(2-4) by blast
qed

lemma rehash_spec:
  assumes b: "bucketed h dh len tbl bs" and l: "0 < len'"
  shows "\<exists>h' tbl' bs'. move_buckets h len' tbl (replicate (unat len') NULL) [0..<unat len] = ret (h', tbl')
           \<and> bucketed h' dh len' tbl' bs' \<and> addrs len' bs' = addrs len bs \<and> same_data h h'
           \<and> (\<forall>c. c \<notin> addrs len bs \<longrightarrow> h' c = h c)"
proof -
  have "\<exists>h' tbl' bs'. move_buckets h len' tbl (replicate (unat len') NULL) [0..<unat len] = ret (h', tbl')
           \<and> bucketed h' dh len' tbl' bs'
           \<and> addrs len' bs' = addrs len' (\<lambda>_. []) \<union> (\<Union>i \<in> set [0..<unat len]. set (bs i)) \<and> same_data h h'
           \<and> (\<forall>c. c \<notin> (\<Union>i \<in> set [0..<unat len]. set (bs i)) \<longrightarrow> h' c = h c)"
  proof (rule move_buckets_spec)
    show "\<forall>i \<in> set [0..<unat len]. i < length tbl \<and> chain h (tbl ! i) (bs i) \<and> distinct (bs i)"
      using b by (auto simp: bucketed_def)
    show "\<forall>i \<in> set [0..<unat len]. \<forall>j \<in> set [0..<unat len]. i \<noteq> j \<longrightarrow> set (bs i) \<inter> set (bs j) = {}"
      using bucketed_disjoint [OF b] by simp
    show "\<forall>i \<in> set [0..<unat len]. \<forall>a \<in> set (bs i). \<exists>e. h a = Some e \<and> he_hash e = dh (he_key e)"
      using b unfolding bucketed_def by fastforce
  qed (use bucketed_empty [OF l] in auto)
  then show ?thesis by (simp add: addrs_def atLeast0LessThan)
qed

text \<open>Fields that the operations never write.\<close>

definition same_fns :: "hashtable \<Rightarrow> hashtable \<Rightarrow> bool" where
  "same_fns ht ht' \<longleftrightarrow> hash_fn ht' = hash_fn ht \<and> eq_fn ht' = eq_fn ht"

lemma same_fns_do_hash: "same_fns ht ht' \<Longrightarrow> do_hash ht' = do_hash ht"
  by (auto simp: same_fns_def do_hash_def)

lemma same_fns_keys_ok: "same_fns ht ht' \<Longrightarrow> keys_ok ht' = keys_ok ht"
  by (simp add: same_fns_def keys_ok_def)

lemma rep_mapped: "htable_rep h ht A \<Longrightarrow> a \<in> A \<Longrightarrow> a \<noteq> NULL \<and> (\<exists>e. h a = Some e)"
  unfolding htable_rep_def using bucketed_entry by blast

lemma rep_unmapped: "htable_rep h ht A \<Longrightarrow> h a = None \<Longrightarrow> a \<notin> A"
  using rep_mapped by fastforce

lemma rep_finite: "htable_rep h ht A \<Longrightarrow> finite A"
  by (auto simp: htable_rep_def)

lemma do_hash_count [simp]: "do_hash (ht\<lparr>entry_count := c\<rparr>) = do_hash ht"
  by (auto simp: do_hash_def)

lemma rep_count [simp]: "htable_rep h (ht\<lparr>entry_count := c\<rparr>) A = htable_rep h ht A"
  by (simp add: htable_rep_def)

lemma prime_index_step:
  fixes p :: u32
  assumes "unat p < 26" and "p \<noteq> 25"
  shows "unat (p + 1) = unat p + 1" and "unat p + 1 < 26"
proof -
  have "unat p \<noteq> 25" using assms(2) by (auto simp: word_unat_eq_iff)
  with assms(1) show "unat p + 1 < 26" by simp
  then show "unat (p + 1) = unat p + 1" by (simp add: unat_word_ariths)
qed

text \<open>
  Expansion keeps the set of cells and their data.  The only excluded case is the fallback after
  a refused \<open>calloc\<close> and a granted \<open>realloc\<close>.
\<close>

lemma expand_spec:
  assumes r: "htable_rep h ht A" and al: "c \<or> \<not> re"
  shows "\<exists>rv h' ht'. hashtable_expand h ht c re = ret (rv, h', ht') \<and> htable_rep h' ht' A
           \<and> same_data h h' \<and> (\<forall>x. x \<notin> A \<longrightarrow> h' x = h x)
           \<and> same_fns ht ht' \<and> entry_count ht' = entry_count ht"
proof -
  from r have pi: "unat (prime_index ht) < 26" by (auto simp: htable_rep_def)
  consider "prime_index ht = 25" | "prime_index ht \<noteq> 25" "\<not> c" | "prime_index ht \<noteq> 25" "c" by blast
  then show ?thesis
  proof cases
    case 1
    then show ?thesis using r by (simp add: hashtable_expand_def same_fns_def)
  next
    case 2
    then have "hashtable_expand h ht c re = ret (0, h, ht)"
      using al prime_index_step [OF pi] by (simp add: hashtable_expand_def Let_def)
    then show ?thesis using r by (simp add: same_fns_def)
  next
    case 3
    let ?p = "unat (prime_index ht + 1)"
    have p: "?p < 26" using prime_index_step [OF pi 3(1)] by simp
    from r obtain bs where b: "bucketed h (do_hash ht) (table_length ht) (ht_table ht) bs"
      and A: "A = addrs (table_length ht) bs" by (auto simp: htable_rep_def)
    from rehash_spec [OF b primes_pos [OF p]] obtain h' tbl' bs' where
      m: "move_buckets h (primes ! ?p) (ht_table ht) (replicate (unat (primes ! ?p)) NULL)
            [0..<unat (table_length ht)] = ret (h', tbl')"
        "bucketed h' (do_hash ht) (primes ! ?p) tbl' bs'" "addrs (primes ! ?p) bs' = A"
        "same_data h h'" "\<forall>c. c \<notin> A \<longrightarrow> h' c = h c"
      using A by blast
    define ht' where "ht' = ht\<lparr>prime_index := prime_index ht + 1, ht_table := tbl',
      table_length := primes ! ?p, load_limit := load_factors ! ?p\<rparr>"
    have "hashtable_expand h ht c re = ret (-1, h', ht')"
      using 3 p m(1) by (simp add: hashtable_expand_def Let_def ht'_def)
    moreover have "same_fns ht ht'" by (simp add: same_fns_def ht'_def)
    moreover have "htable_rep h' ht' A"
      unfolding htable_rep_def same_fns_do_hash [OF \<open>same_fns ht ht'\<close>]
      using m(2,3) p by (auto simp: ht'_def)
    ultimately show ?thesis using m(4,5) by (auto simp: ht'_def)
  qed
qed

section \<open>Insertion\<close>

definition entry_data :: "entry_heap \<Rightarrow> u64 \<Rightarrow> (u64 \<times> u64) option" where
  "entry_data h a = map_option (\<lambda>e. (he_key e, he_value e)) (h a)"

lemma same_data_entry_data: "same_data h h' \<Longrightarrow> entry_data h' a = entry_data h a"
  using same_dataD [of h h' a] same_dataD [OF same_data_sym, of h h' a]
  by (cases "h a"; cases "h' a") (auto simp: entry_data_def)

lemma insert_cell_spec:
  assumes r: "htable_rep h ht A" and a: "a \<noteq> NULL" "h a = None"
    and hv: "hv = do_hash ht k" and i: "i = indexFor (table_length ht) hv"
  shows "slot (ht_table ht) i = Inr (ht_table ht ! unat i)"
    and "htable_rep (h(a \<mapsto> \<lparr>he_key = k, he_value = v, he_hash = hv, he_next = ht_table ht ! unat i\<rparr>))
           (ht\<lparr>ht_table := (ht_table ht)[unat i := a]\<rparr>) (insert a A)"
proof -
  from r obtain bs where b: "bucketed h (do_hash ht) (table_length ht) (ht_table ht) bs"
    and A: "A = addrs (table_length ht) bs" and p: "unat (prime_index ht) < 26"
      "table_length ht = primes ! unat (prime_index ht)"
      "load_limit ht = load_factors ! unat (prime_index ht)" by (auto simp: htable_rep_def)
  show "slot (ht_table ht) i = Inr (ht_table ht ! unat i)"
    using b i by (simp add: slot_def bucketed_def indexFor_less)
  have "a \<notin> A" using rep_unmapped [OF r] a by simp
  then have out: "a \<notin> addrs (table_length ht) bs" using A by simp
  define e where "e = \<lparr>he_key = k, he_value = v, he_hash = hv, he_next = NULL\<rparr>"
  have h: "he_hash e = do_hash ht (he_key e)" "unat i = unat (indexFor (table_length ht) (he_hash e))"
    using hv i by (simp_all add: e_def)
  define ht' where "ht' = ht\<lparr>ht_table := (ht_table ht)[unat i := a]\<rparr>"
  have "do_hash ht' = do_hash ht" by (auto simp: ht'_def do_hash_def)
  then have "htable_rep (h(a \<mapsto> e\<lparr>he_next := ht_table ht ! unat i\<rparr>)) ht' (insert a A)"
    unfolding htable_rep_def
    using bucketed_push [OF b a(1) out h(1,2) refl] A p by (auto simp: ht'_def)
  then show "htable_rep (h(a \<mapsto> \<lparr>he_key = k, he_value = v, he_hash = hv, he_next = ht_table ht ! unat i\<rparr>))
           (ht\<lparr>ht_table := (ht_table ht)[unat i := a]\<rparr>) (insert a A)"
    by (simp add: e_def ht'_def)
qed

lemma insert_spec:
  assumes ok: "htable_ok h ht A" and a: "al_entry al \<noteq> NULL" "h (al_entry al) = None"
    and al: "al_table al \<or> \<not> al_realloc al" and cnt: "card A < 2 ^ 32 - 1"
  shows "\<exists>h' ht'. pet_htable_insert h ht k v al = ret (-1, h', ht')
           \<and> htable_ok h' ht' (insert (al_entry al) A) \<and> same_fns ht ht'
           \<and> entry_data h' (al_entry al) = Some (k, v)
           \<and> (\<forall>c. c \<noteq> al_entry al \<longrightarrow> entry_data h' c = entry_data h c)"
proof -
  let ?ht = "ht\<lparr>entry_count := entry_count ht + 1\<rparr>"
  have r: "htable_rep h ?ht A" and c: "unat (entry_count ht) = card A"
    using ok by (simp_all add: htable_ok_def)
  have aA: "al_entry al \<notin> A" using rep_unmapped [OF r] a by simp
  have "\<exists>rv h1 ht1. (if entry_count ?ht > load_limit ?ht
             then hashtable_expand h ?ht (al_table al) (al_realloc al)
             else ret (0, h, ?ht)) = ret (rv, h1, ht1) \<and> htable_rep h1 ht1 A
       \<and> same_data h h1 \<and> (\<forall>x. x \<notin> A \<longrightarrow> h1 x = h x) \<and> same_fns ?ht ht1
       \<and> entry_count ht1 = entry_count ?ht"
    using expand_spec [OF r al] r by (auto simp: same_fns_def)
  then obtain rv h1 ht1 where e: "(if entry_count ?ht > load_limit ?ht
             then hashtable_expand h ?ht (al_table al) (al_realloc al)
             else ret (0, h, ?ht)) = ret (rv, h1, ht1)" "htable_rep h1 ht1 A" "same_data h h1"
      "\<forall>x. x \<notin> A \<longrightarrow> h1 x = h x" "same_fns ?ht ht1" "entry_count ht1 = entry_count ?ht"
    by blast
  define i where "i = indexFor (table_length ht1) (do_hash ht1 k)"
  define h2 where "h2 = h1(al_entry al \<mapsto> \<lparr>he_key = k, he_value = v, he_hash = do_hash ht1 k,
    he_next = ht_table ht1 ! unat i\<rparr>)"
  define ht2 where "ht2 = ht1\<lparr>ht_table := (ht_table ht1)[unat i := al_entry al]\<rparr>"
  have a1: "h1 (al_entry al) = None" using e(4) aA a(2) by simp
  note slot = insert_cell_spec(1) [OF e(2) a(1) a1 refl i_def]
  note ins = insert_cell_spec(2) [OF e(2) a(1) a1 refl i_def, of v, folded h2_def ht2_def]
  have "pet_htable_insert h ht k v al = ret (-1, h2, ht2)"
    unfolding pet_htable_insert_def Let_def
    using e(1) a(1) slot by (simp add: h2_def ht2_def i_def)
  moreover have "unat (entry_count ht2) = card (insert (al_entry al) A)"
    using e(6) c cnt aA rep_finite [OF r] by (simp add: ht2_def unat_word_ariths)
  moreover have "same_fns ht ht2" using e(5) by (simp add: same_fns_def ht2_def)
  moreover have "entry_data h2 c = entry_data h c" if "c \<noteq> al_entry al" for c
    using that same_data_entry_data [OF e(3), of c] by (simp add: h2_def entry_data_def)
  ultimately show ?thesis
    using ins by (auto simp: htable_ok_def h2_def entry_data_def)
qed

lemma binds_alt:
  "binds h ht A k v \<longleftrightarrow> (\<exists>a \<in> A. \<exists>l. entry_data h a = Some (l, v) \<and> eq_fn ht k l)"
  by (auto simp: binds_def entry_data_def)

lemma nodup_alt:
  "nodup h ht A \<longleftrightarrow>
     (\<forall>a \<in> A. \<forall>b \<in> A. \<forall>k l v w. entry_data h a = Some (k, v) \<longrightarrow> entry_data h b = Some (l, w) \<longrightarrow>
        eq_fn ht k l \<longrightarrow> a = b)"
  by (auto simp: nodup_def entry_data_def)

section \<open>Changing a value in place\<close>

lemma chain_upd_value:
  "h a = Some e \<Longrightarrow> he_next e' = he_next e \<Longrightarrow> chain (h(a \<mapsto> e')) p as \<longleftrightarrow> chain h p as"
  by (induction as arbitrary: p) auto

lemma htable_ok_value:
  assumes ok: "htable_ok h ht A" and e: "h a = Some e"
  shows "htable_ok (h(a \<mapsto> e\<lparr>he_value := v\<rparr>)) ht A"
proof -
  from ok obtain bs where b: "bucketed h (do_hash ht) (table_length ht) (ht_table ht) bs"
    and A: "A = addrs (table_length ht) bs" by (auto simp: htable_ok_def htable_rep_def)
  have "bucketed (h(a \<mapsto> e\<lparr>he_value := v\<rparr>)) (do_hash ht) (table_length ht) (ht_table ht) bs"
    using b e unfolding bucketed_def by (fastforce simp: chain_upd_value)
  then show ?thesis using ok A unfolding htable_ok_def htable_rep_def by blast
qed

text \<open>The entry that a key selects, and what the search loop returns for it.\<close>

lemma find_selects:
  assumes "htable_ok h ht A" and "keys_ok ht" and "nodup h ht A" and "binds h ht A k v"
  shows "\<exists>a e par. a \<in> A \<and> a \<noteq> NULL \<and> h a = Some e \<and> eq_fn ht k (he_key e) \<and> he_value e = v
           \<and> find_in_table h ht k = ret (par, a)"
proof -
  from assms(1) obtain bs where b: "bucketed h (do_hash ht) (table_length ht) (ht_table ht) bs"
    and A: "A = addrs (table_length ht) bs" by (auto simp: htable_ok_def htable_rep_def)
  from assms(4) obtain a e where a: "a \<in> A" "h a = Some e" "eq_fn ht k (he_key e)" "he_value e = v"
    by (auto simp: binds_def)
  moreover have "a \<noteq> NULL" using bucketed_entry [OF b] a A by auto
  ultimately show ?thesis
    using find_in_table_found [OF b assms(2)] assms(3) A by blast
qed

lemma find_misses:
  assumes "htable_ok h ht A" and "\<nexists>v. binds h ht A k v"
  shows "\<exists>par. find_in_table h ht k = ret (par, NULL)"
proof -
  from assms(1) obtain bs where b: "bucketed h (do_hash ht) (table_length ht) (ht_table ht) bs"
    and A: "A = addrs (table_length ht) bs" by (auto simp: htable_ok_def htable_rep_def)
  have "\<forall>a \<in> addrs (table_length ht) bs. \<forall>e. h a = Some e \<longrightarrow> \<not> eq_fn ht k (he_key e)"
    using assms(2) A by (auto simp: binds_def)
  from find_in_table_missing [OF b this] show ?thesis .
qed

section \<open>Removal\<close>

lemma addrs_unlink:
  assumes b: "bucketed h dh len tbl bs" and i: "i < unat len" and s: "bs i = ys @ a # zs"
  shows "j < unat len \<Longrightarrow> set ((bs(i := ys @ zs)) j) = set (bs j) - {a}"
    and "addrs len (bs(i := ys @ zs)) = addrs len bs - {a}"
proof -
  have "distinct (bs i)" using b i by (simp add: bucketed_def)
  then have d: "distinct (ys @ a # zs)" by (simp only: s)
  have sub: "set ((bs(i := ys @ zs)) j) = set (bs j) - {a}" if "j < unat len" for j
    using bucketed_disjoint [OF b i that] s d by (cases "j = i") auto
  then show "j < unat len \<Longrightarrow> set ((bs(i := ys @ zs)) j) = set (bs j) - {a}" .
  have "(\<Union>j<unat len. set ((bs(i := ys @ zs)) j)) = (\<Union>j<unat len. set (bs j) - {a})"
    by (rule SUP_cong) (simp_all only: sub lessThan_iff)
  then show "addrs len (bs(i := ys @ zs)) = addrs len bs - {a}" by (auto simp: addrs_def)
qed

lemma bucketed_unlink:
  assumes b: "bucketed h dh len tbl bs" and i: "i < unat len" and s: "bs i = ys @ a # zs"
    and e: "h a = Some e"
    and h': "(ys = [] \<and> h' = h \<and> tbl' = tbl[i := he_next e]) \<or>
       (\<exists>us q f. ys = us @ [q] \<and> h q = Some f \<and> h' = h(q \<mapsto> f\<lparr>he_next := he_next e\<rparr>) \<and> tbl' = tbl)"
  shows "bucketed (h'(a := None)) dh len tbl' (bs(i := ys @ zs))"
proof -
  have "chain h (tbl ! i) (bs i) \<and> distinct (bs i)" using b i by (simp add: bucketed_def)
  then have c: "chain h (tbl ! i) (ys @ a # zs)" and d: "distinct (ys @ a # zs)" by (simp_all only: s)
  have out: "a \<notin> set (bs j) \<and> (\<forall>q \<in> set ys. q \<notin> set (bs j))" if "j < unat len" "j \<noteq> i" for j
    using bucketed_disjoint [OF b i that(1)] that(2) s by auto
  note sub = addrs_unlink(1) [OF b i s]
  have ci: "chain (h'(a := None)) (tbl' ! i) (ys @ zs)"
    using h'
  proof
    assume "ys = [] \<and> h' = h \<and> tbl' = tbl[i := he_next e]"
    then show ?thesis using c d e i b by (auto simp: bucketed_def)
  next
    assume "\<exists>us q f. ys = us @ [q] \<and> h q = Some f \<and> h' = h(q \<mapsto> f\<lparr>he_next := he_next e\<rparr>) \<and> tbl' = tbl"
    then obtain us q f where u: "ys = us @ [q]" "h q = Some f" "h' = h(q \<mapsto> f\<lparr>he_next := he_next e\<rparr>)"
      "tbl' = tbl" by blast
    have "chain h' (tbl ! i) (us @ q # zs)"
      using chain_unlink_mid [of h "tbl ! i" us q a zs f e] c d u e by simp
    moreover have "a \<notin> set (us @ q # zs)" using u(1) d by auto
    ultimately show ?thesis using u(1,4) by simp
  qed
  have other: "chain (h'(a := None)) (tbl' ! j) (bs j)" if "j < unat len" "j \<noteq> i" for j
  proof -
    have "chain h (tbl ! j) (bs j)" using b that by (simp add: bucketed_def)
    moreover have "(h'(a := None)) x = h x" if "x \<in> set (bs j)" for x
      using that out[OF \<open>j < unat len\<close> \<open>j \<noteq> i\<close>] h' by auto
    ultimately show ?thesis using h' that chain_cong by (metis nth_list_update_neq)
  qed
  have data: "\<exists>e. (h'(a := None)) x = Some e \<and> he_hash e = dh (he_key e) \<and> unat (indexFor len (he_hash e)) = j"
    if "j < unat len" "x \<in> set (bs j)" "x \<noteq> a" for j x
  proof -
    from b that obtain e1 where "h x = Some e1" "he_hash e1 = dh (he_key e1)"
      "unat (indexFor len (he_hash e1)) = j" unfolding bucketed_def by blast
    then show ?thesis using h' that(3) by auto
  qed
  show "bucketed (h'(a := None)) dh len tbl' (bs(i := ys @ zs))"
    unfolding bucketed_def
  proof (intro conjI allI impI)
    fix j assume j: "j < unat len"
    show "\<forall>x \<in> set ((bs(i := ys @ zs)) j). \<exists>e. (h'(a := None)) x = Some e
        \<and> he_hash e = dh (he_key e) \<and> unat (indexFor len (he_hash e)) = j"
      using data[OF j] sub[OF j] by blast
    show "chain (h'(a := None)) (tbl' ! j) ((bs(i := ys @ zs)) j)" using ci other[OF j] by simp
    show "distinct ((bs(i := ys @ zs)) j)" using d b j by (auto simp: bucketed_def)
  qed (use b h' in \<open>auto simp: bucketed_def\<close>)
qed

lemma unlink_found:
  assumes bk: "bucketed h (do_hash ht) (table_length ht) (ht_table ht) bs"
    and il: "unat ix < unat (table_length ht)"
    and f: "bs (unat ix) = ys @ a # zs" and e: "h a = Some e"
  shows "\<exists>h1 tbl'. unlink_entry h ht ix (last (NULL # ys)) (he_next e) = Inr (h1, ht\<lparr>ht_table := tbl'\<rparr>)
      \<and> h1 a = Some e \<and> same_data h h1
      \<and> bucketed (h1(a := None)) (do_hash ht) (table_length ht) tbl' (bs(unat ix := ys @ zs))"
proof -
  have c: "chain h (ht_table ht ! unat ix) (ys @ a # zs)" and d: "distinct (ys @ a # zs)"
    using bk il f(1) unfolding bucketed_def by metis+
  note un = bucketed_unlink(1) [OF bk il f e]
  show ?thesis
  proof (cases ys rule: rev_cases)
    case Nil
    then have "unlink_entry h ht ix (last (NULL # ys)) (he_next e)
      = Inr (h, ht\<lparr>ht_table := (ht_table ht)[unat ix := he_next e]\<rparr>)"
      using bk il by (simp add: unlink_entry_def bucketed_def)
    then show ?thesis using Nil e un [of h "(ht_table ht)[unat ix := he_next e]"] by auto
  next
    case (snoc us q)
    then obtain g where q: "h q = Some g" "q \<noteq> NULL" "q \<noteq> a"
      using chain_mapped [OF c, of q] d by auto
    define h1 where "h1 = h(q \<mapsto> g\<lparr>he_next := he_next e\<rparr>)"
    have "unlink_entry h ht ix (last (NULL # ys)) (he_next e) = Inr (h1, ht\<lparr>ht_table := ht_table ht\<rparr>)"
      using q snoc by (simp add: unlink_entry_def deref_def h1_def)
    moreover have "bucketed (h1(a := None)) (do_hash ht) (table_length ht) (ht_table ht) (bs(unat ix := ys @ zs))"
      by (rule un) (use snoc q h1_def in blast)
    moreover have "h1 a = Some e" "same_data h h1"
      using q e same_data_upd [of h q g] by (simp_all add: h1_def)
    ultimately show ?thesis by blast
  qed
qed

text \<open>Unlinking a cell, decrementing the count and freeing the cell keep the table well formed.\<close>

lemma unlinked_ok:
  assumes ok: "htable_ok h ht A" and bk: "bucketed h (do_hash ht) (table_length ht) (ht_table ht) bs"
    and A: "A = addrs (table_length ht) bs" and i: "i < unat (table_length ht)" and f: "bs i = ys @ a # zs"
    and bk': "bucketed h' (do_hash ht) (table_length ht) tbl' (bs(i := ys @ zs))"
  shows "htable_ok h' (ht\<lparr>ht_table := tbl', entry_count := entry_count ht - 1\<rparr>) (A - {a})"
proof -
  define ht' where "ht' = ht\<lparr>ht_table := tbl', entry_count := entry_count ht - 1\<rparr>"
  have sf: "same_fns ht ht'" by (simp add: same_fns_def ht'_def)
  have "addrs (table_length ht) (bs(i := ys @ zs)) = A - {a}"
    using addrs_unlink [OF bk i f] A by simp
  then have "htable_rep h' ht' (A - {a})"
    unfolding htable_rep_def same_fns_do_hash [OF sf]
    using bk' ok by (auto simp: ht'_def htable_ok_def htable_rep_def)
  moreover have "unat (entry_count ht') = card (A - {a})"
  proof -
    have a: "a \<in> A" using A f addrsI [OF i, of a bs] by simp
    have c: "0 < card A" "unat (entry_count ht) = card A"
      using a ok rep_finite [of h ht A] by (auto simp: htable_ok_def card_gt_0_iff)
    from c(1) have "1 \<le> card A" by simp
    then have "1 \<le> entry_count ht" using c(2) by (simp only: word_le_nat_alt unat_1)
    then show ?thesis using a c by (simp add: ht'_def unat_sub)
  qed
  ultimately show ?thesis by (simp add: htable_ok_def ht'_def)
qed

lemma remove_spec:
  assumes ok: "htable_ok h ht A" and k: "keys_ok ht" and n: "nodup h ht A" and b: "binds h ht A k v"
  shows "\<exists>a l h' ht'. a \<in> A \<and> entry_data h a = Some (l, v) \<and> eq_fn ht k l
     \<and> pet_htable_remove h ht k fk = ret (v, if fk then [l] else [], h', ht')
     \<and> htable_ok h' ht' (A - {a}) \<and> same_fns ht ht' \<and> h' a = None
     \<and> (\<forall>c. c \<noteq> a \<longrightarrow> entry_data h' c = entry_data h c)"
proof -
  from ok obtain bs where bk: "bucketed h (do_hash ht) (table_length ht) (ht_table ht) bs"
    and A: "A = addrs (table_length ht) bs" by (auto simp: htable_ok_def htable_rep_def)
  from b obtain a e where a: "a \<in> A" "h a = Some e" "eq_fn ht k (he_key e)" "he_value e = v"
    by (auto simp: binds_def)
  have a0: "a \<noteq> NULL" using bucketed_entry [OF bk] a A by auto
  obtain ys zs where f: "bs (kidx ht k) = ys @ a # zs" "find_in_table h ht k = ret (last (NULL # ys), a)"
    using find_in_table_found [OF bk k] n a A by blast
  define ix where "ix = indexFor (table_length ht) (do_hash ht k)"
  have kx: "kidx ht k = unat ix" by (simp add: kidx_def ix_def)
  note il = kidx_less [OF bk, of k, unfolded kx]
  from unlink_found [OF bk il f(1) [unfolded kx] a(2)] obtain h1 tbl' where
    u: "unlink_entry h ht ix (last (NULL # ys)) (he_next e) = Inr (h1, ht\<lparr>ht_table := tbl'\<rparr>)"
      "h1 a = Some e" "same_data h h1"
      "bucketed (h1(a := None)) (do_hash ht) (table_length ht) tbl' (bs(unat ix := ys @ zs))"
    by blast
  define ht' where "ht' = ht\<lparr>ht_table := tbl', entry_count := entry_count ht - 1\<rparr>"
  have "pet_htable_remove h ht k fk = ret (v, if fk then [he_key e] else [], h1(a := None), ht')"
    using f(2) a0 a u(1,2) by (simp add: pet_htable_remove_def deref_def free_entry_def ht'_def ix_def)
  moreover have "htable_ok (h1(a := None)) ht' (A - {a})"
    unfolding ht'_def by (rule unlinked_ok [OF ok bk A il f(1) [unfolded kx] u(4)])
  moreover have "same_fns ht ht'" by (simp add: same_fns_def ht'_def)
  moreover have "entry_data (h1(a := None)) x = entry_data h x" if "x \<noteq> a" for x
    using that same_data_entry_data [OF u(3), of x] by (simp add: entry_data_def)
  ultimately show ?thesis
    using a unfolding entry_data_def
    by (intro exI [of _ a] exI [of _ "he_key e"] exI [of _ "h1(a := None)"] exI [of _ ht']) auto
qed

section \<open>Destruction\<close>

lemma free_chain_spec:
  assumes "chain h p as" and "distinct as"
  shows "\<exists>fr. free_chain h fv fk freed p = ret (freed @ fr, \<lambda>a. if a \<in> set as then None else h a)"
  using assms
proof (induction as arbitrary: h p freed)
  case Nil
  then show ?case by (subst free_chain.simps) simp
next
  case (Cons a as)
  then obtain e where e: "h a = Some e" "chain h (he_next e) as" "p = a" "a \<noteq> NULL" "a \<notin> set as"
    by auto
  let ?f = "(if fk then [he_key e] else []) @ (if fv then [he_value e] else [])"
  have "chain (h(a := None)) (he_next e) as" using e by simp
  from Cons.IH [OF this, of "freed @ ?f"] Cons.prems(2) obtain fr where
    fr: "free_chain (h(a := None)) fv fk (freed @ ?f) (he_next e)
       = ret ((freed @ ?f) @ fr, \<lambda>x. if x \<in> set as then None else (h(a := None)) x)" by fastforce
  have "free_chain h fv fk freed p = free_chain (h(a := None)) fv fk (freed @ ?f) (he_next e)"
    using e by (subst free_chain.simps) simp
  with fr have "free_chain h fv fk freed p
      = ret (freed @ (?f @ fr), \<lambda>x. if x \<in> set (a # as) then None else h x)"
    by (simp add: fun_eq_iff)
  then show ?case by blast
qed

lemma free_buckets_spec:
  assumes "\<forall>i \<in> set is. i < length tbl \<and> chain h (tbl ! i) (bs i) \<and> distinct (bs i)"
    and "distinct is" and "\<forall>i \<in> set is. \<forall>j \<in> set is. i \<noteq> j \<longrightarrow> set (bs i) \<inter> set (bs j) = {}"
  shows "\<exists>fr. free_buckets h tbl fv fk freed is
           = ret (fr, \<lambda>a. if a \<in> (\<Union>i \<in> set is. set (bs i)) then None else h a)"
  using assms
proof (induction "is" arbitrary: h freed)
  case Nil
  then show ?case by simp
next
  case (Cons i "is")
  let ?h = "\<lambda>a. if a \<in> set (bs i) then None else h a"
  from Cons.prems(1) free_chain_spec [of h "tbl ! i" "bs i" fv fk freed] obtain fr1 where
    1: "free_chain h fv fk freed (tbl ! i) = ret (freed @ fr1, ?h)" by auto
  have "\<forall>j \<in> set is. j < length tbl \<and> chain ?h (tbl ! j) (bs j) \<and> distinct (bs j)"
  proof
    fix j assume j: "j \<in> set is"
    then have "set (bs i) \<inter> set (bs j) = {}" using Cons.prems(2,3) by fastforce
    then have "chain ?h (tbl ! j) (bs j) = chain h (tbl ! j) (bs j)"
      by (intro chain_cong) auto
    then show "j < length tbl \<and> chain ?h (tbl ! j) (bs j) \<and> distinct (bs j)"
      using Cons.prems(1) j by auto
  qed
  from Cons.IH [OF this] Cons.prems(2,3) obtain fr where
    "free_buckets ?h tbl fv fk (freed @ fr1) is
       = ret (fr, \<lambda>a. if a \<in> (\<Union>i \<in> set is. set (bs i)) then None else ?h a)" by fastforce
  moreover have "(\<lambda>a. if a \<in> (\<Union>i \<in> set is. set (bs i)) then None else ?h a)
     = (\<lambda>a. if a \<in> (\<Union>i \<in> set (i # is). set (bs i)) then None else h a)" by (auto simp: fun_eq_iff)
  ultimately show ?case using 1 Cons.prems(1) by auto
qed

lemma free_spec:
  assumes "htable_ok h ht A"
  shows "\<exists>fr. pet_free_htable h ht fv fk = ret (fr, \<lambda>a. if a \<in> A then None else h a)"
proof -
  from assms obtain bs where b: "bucketed h (do_hash ht) (table_length ht) (ht_table ht) bs"
    and A: "A = addrs (table_length ht) bs" by (auto simp: htable_ok_def htable_rep_def)
  have "\<exists>fr. free_buckets h (ht_table ht) fv fk [] [0..<unat (table_length ht)]
      = ret (fr, \<lambda>a. if a \<in> (\<Union>i \<in> set [0..<unat (table_length ht)]. set (bs i)) then None else h a)"
    by (rule free_buckets_spec) (use b bucketed_disjoint [OF b] in \<open>auto simp: bucketed_def\<close>)
  then show ?thesis
    by (simp add: pet_free_htable_def A addrs_def atLeast0LessThan)
qed

section \<open>Creation\<close>

lemma prime_search_some:
  "prime_search m ps i = Some (j, p) \<Longrightarrow> i \<le> j \<and> j < i + length ps \<and> p = ps ! (j - i) \<and> m < p"
proof (induction ps arbitrary: i)
  case (Cons q ps)
  show ?case
  proof (cases "q > m")
    case False
    with Cons show ?thesis by (fastforce simp: nth_Cons')
  qed (use Cons.prems in auto)
qed simp

lemma prime_search_none: "prime_search m ps i = None \<Longrightarrow> \<forall>p \<in> set ps. \<not> m < p"
  by (induction ps arbitrary: i) (auto split: if_splits)

lemma create_spec:
  assumes "m \<le> 2 ^ 30"
  shows "\<exists>ht. pet_create_htable m hf ef True True = Inr (Some ht) \<and> htable_ok h ht {}
           \<and> m < table_length ht \<and> hash_fn ht = hf \<and> eq_fn ht = ef"
proof -
  have "1610612741 \<in> set primes" by (simp add: primes_def)
  moreover have "m < 1610612741"
    by (rule order.strict_trans1 [OF assms]) simp
  ultimately obtain j p where s: "prime_search m primes 0 = Some (j, p)"
    using prime_search_none by (cases "prime_search m primes 0") fastforce+
  from prime_search_some [OF s] have j: "j < 26" "p = primes ! j" "m < p" by auto
  have "\<not> push_bit 30 1 < m" using assms by (simp add: push_bit_eq_mult)
  moreover have "unat (of_nat j :: u32) = j" using j(1) by (simp add: unat_of_nat)
  moreover have "0 < p" using j primes_pos by simp
  ultimately show ?thesis
    using s j bucketed_empty [of p h]
    by (auto simp: pet_create_htable_def htable_ok_def htable_rep_def intro!: exI [of _ "\<lambda>_. []"])
qed

section \<open>The interface of a keyed table\<close>

text \<open>
  What a user of the table may rely on as long as no key is inserted twice: an insertion of an
  absent key adds exactly its binding, a removal deletes exactly the binding of its key.
\<close>

locale keyed_table =
  fixes inv :: "'s \<Rightarrow> bool"
    and eqv :: "'k \<Rightarrow> 'k \<Rightarrow> bool"
    and bind :: "'s \<Rightarrow> 'k \<Rightarrow> 'v \<Rightarrow> bool"
    and ins :: "'s \<Rightarrow> 'k \<Rightarrow> 'v \<Rightarrow> 's \<Rightarrow> bool"
    and del :: "'s \<Rightarrow> 'k \<Rightarrow> 's \<Rightarrow> bool"
  assumes refl_law: "inv s \<Longrightarrow> eqv k k"
    and ins_law:
      "inv s \<Longrightarrow> ins s k v s' \<Longrightarrow> \<forall>w. \<not> bind s k w \<Longrightarrow>
       inv s' \<and> (\<forall>l w. bind s' l w \<longleftrightarrow> (if eqv l k then w = v else bind s l w))"
    and del_law:
      "inv s \<Longrightarrow> del s k s' \<Longrightarrow> inv s' \<and> (\<forall>l w. bind s' l w \<longleftrightarrow> \<not> eqv l k \<and> bind s l w)"
begin

text \<open>The header's advice: remove before insert, and the key ends up with the new value.\<close>

lemma overwrite:
  assumes "inv s" and "del s k s1" and "ins s1 k v s2"
  shows "inv s2" and "bind s2 l w \<longleftrightarrow> (if eqv l k then w = v else bind s l w)"
proof -
  from del_law [OF assms(1,2)] have 1: "inv s1" "\<And>l w. bind s1 l w \<longleftrightarrow> \<not> eqv l k \<and> bind s l w"
    by auto
  then have "\<forall>w. \<not> bind s1 k w" using refl_law [OF assms(1)] by auto
  from ins_law [OF 1(1) assms(3) this] 1 show "inv s2"
    "bind s2 l w \<longleftrightarrow> (if eqv l k then w = v else bind s l w)" by auto
qed

lemma insert_delete:
  assumes "inv s" and "\<forall>w. \<not> bind s k w" and "ins s k v s1" and "del s1 k s2"
    and "\<And>l w. eqv l k \<Longrightarrow> bind s l w \<Longrightarrow> False"
  shows "bind s2 l w \<longleftrightarrow> bind s l w"
  using ins_law [OF assms(1,3,2)] del_law [of s1 k s2] assms(4,5) by auto

end

text \<open>The states of the table: a heap, the table, and the set of its cells.\<close>

type_synonym ht_state = "entry_heap \<times> hashtable \<times> u64 set"

fun ht_inv :: "(u64 \<Rightarrow> u64 \<Rightarrow> bool) \<Rightarrow> ht_state \<Rightarrow> bool" where
  "ht_inv ef (h, ht, A) \<longleftrightarrow> htable_ok h ht A \<and> keys_ok ht \<and> nodup h ht A \<and> eq_fn ht = ef"

fun ht_bind :: "ht_state \<Rightarrow> u64 \<Rightarrow> u64 \<Rightarrow> bool" where
  "ht_bind (h, ht, A) k v = binds h ht A k v"

text \<open>A successful insertion, with whatever the allocator answered, short of the fallback.\<close>

fun ht_ins :: "ht_state \<Rightarrow> u64 \<Rightarrow> u64 \<Rightarrow> ht_state \<Rightarrow> bool" where
  "ht_ins (h, ht, A) k v (h', ht', A') \<longleftrightarrow>
     (\<exists>al. al_entry al \<noteq> NULL \<and> h (al_entry al) = None \<and> (al_table al \<or> \<not> al_realloc al)
        \<and> card A < 2 ^ 32 - 1 \<and> A' = insert (al_entry al) A
        \<and> pet_htable_insert h ht k v al = ret (-1, h', ht'))"

fun ht_del :: "ht_state \<Rightarrow> u64 \<Rightarrow> ht_state \<Rightarrow> bool" where
  "ht_del (h, ht, A) k (h', ht', A') \<longleftrightarrow>
     (\<exists>r fr fk. pet_htable_remove h ht k fk = ret (r, fr, h', ht') \<and> A' = {a \<in> A. h' a \<noteq> None})"

lemma ht_ins_law:
  assumes i: "ht_inv ef (h, ht, A)" and s: "ht_ins (h, ht, A) k v (h', ht', A')"
    and n: "\<forall>w. \<not> binds h ht A k w"
  shows "ht_inv ef (h', ht', A')"
    and "binds h' ht' A' l w \<longleftrightarrow> (if ef l k then w = v else binds h ht A l w)"
proof -
  from s obtain al where al: "al_entry al \<noteq> NULL" "h (al_entry al) = None"
    "al_table al \<or> \<not> al_realloc al" "card A < 2 ^ 32 - 1" "A' = insert (al_entry al) A"
    "pet_htable_insert h ht k v al = ret (-1, h', ht')" by auto
  let ?a = "al_entry al"
  from i have ok: "htable_ok h ht A" and k: "keys_ok ht" and nd: "nodup h ht A" and ef: "eq_fn ht = ef"
    by auto
  from insert_spec [OF ok al(1-4), of k v] al(6) have r: "htable_ok h' ht' (insert ?a A)"
    "same_fns ht ht'" "entry_data h' ?a = Some (k, v)"
    "\<And>c. c \<noteq> ?a \<Longrightarrow> entry_data h' c = entry_data h c" by auto
  have aA: "?a \<notin> A" using ok al(2) rep_unmapped by (auto simp: htable_ok_def)
  have ef': "eq_fn ht' = ef" and k': "keys_ok ht'"
    using r(2) ef k same_fns_keys_ok by (auto simp: same_fns_def)
  have old: "\<not> ef k l" if "a \<in> A" "entry_data h a = Some (l, w)" for a l w
    using n that ef by (auto simp: binds_alt)
  note sym = keys_ok_sym [OF k, unfolded ef] and trans = keys_ok_trans [OF k, unfolded ef]
  have data: "entry_data h' c = entry_data h c" if "c \<in> A" for c
    by (rule r(4)) (use aA that in auto)
  have "nodup h' ht' (insert ?a A)"
    unfolding nodup_alt ef'
  proof (intro ballI allI impI)
    fix a b p q x y
    assume ab: "a \<in> insert ?a A" "b \<in> insert ?a A" "entry_data h' a = Some (p, x)"
      "entry_data h' b = Some (q, y)" "ef p q"
    consider "a = ?a" "b = ?a" | "a = ?a" "b \<in> A" | "a \<in> A" "b = ?a" | "a \<in> A" "b \<in> A"
      using ab by blast
    then show "a = b"
    proof cases
      case 2
      then show ?thesis using ab r(3) data old by simp
    next
      case 3
      then show ?thesis using ab r(3) data old [of a p x] sym [of p k] by simp
    next
      case 4
      then show ?thesis using ab data nd ef unfolding nodup_alt by metis
    qed simp
  qed
  then show "ht_inv ef (h', ht', A')" using r(1) al(5) ef' k' by simp
  have "binds h' ht' A' l w \<longleftrightarrow> (ef l k \<and> w = v) \<or> binds h ht A l w"
    unfolding binds_alt al(5) ef ef' using r(3) data by auto
  moreover have "\<not> binds h ht A l w" if "ef l k"
    using that n sym trans unfolding binds_alt ef by blast
  ultimately show "binds h' ht' A' l w \<longleftrightarrow> (if ef l k then w = v else binds h ht A l w)"
    by auto
qed

lemma remove_missing:
  assumes "htable_ok h ht A" and "\<nexists>v. binds h ht A k v"
  shows "pet_htable_remove h ht k fk = ret (NULL, [], h, ht)"
  using find_misses [OF assms] by (auto simp: pet_htable_remove_def)

lemma ht_del_law:
  assumes i: "ht_inv ef (h, ht, A)" and s: "ht_del (h, ht, A) k (h', ht', A')"
  shows "ht_inv ef (h', ht', A')" and "binds h' ht' A' l w \<longleftrightarrow> \<not> ef l k \<and> binds h ht A l w"
proof -
  from i have ok: "htable_ok h ht A" and k: "keys_ok ht" and nd: "nodup h ht A" and ef: "eq_fn ht = ef"
    by auto
  note sym = keys_ok_sym [OF k, unfolded ef] and trans = keys_ok_trans [OF k, unfolded ef]
  from s obtain rv fr fk where rm: "pet_htable_remove h ht k fk = ret (rv, fr, h', ht')"
    and A': "A' = {a \<in> A. h' a \<noteq> None}" by auto
  have mapped: "h a \<noteq> None" if "a \<in> A" for a
    using rep_mapped [of h ht A a] ok that by (auto simp: htable_ok_def)
  have "ht_inv ef (h', ht', A') \<and> (binds h' ht' A' l w \<longleftrightarrow> \<not> ef l k \<and> binds h ht A l w)"
  proof (cases "\<exists>v. binds h ht A k v")
    case False
    then have "h' = h" "ht' = ht" using remove_missing [OF ok False, of fk] rm by auto
    moreover from this have "A' = A" using A' mapped by auto
    moreover have "\<not> ef l k" if "binds h ht A l w"
      using that False sym trans unfolding binds_alt ef by blast
    ultimately show ?thesis using i by auto
  next
    case True
    then obtain v where v: "binds h ht A k v" by blast
    from remove_spec [OF ok k nd v, of fk] rm obtain a m where
      a: "a \<in> A" "entry_data h a = Some (m, v)" "ef k m" "htable_ok h' ht' (A - {a})" "same_fns ht ht'"
        "h' a = None" "\<And>c. c \<noteq> a \<Longrightarrow> entry_data h' c = entry_data h c" using ef by auto
    have "{c \<in> A. h' c \<noteq> None} = A - {a}"
      using a(6) a(4) rep_mapped [of h' ht' "A - {a}"] by (auto simp: htable_ok_def)
    then have A1: "A' = A - {a}" using A' by simp
    have ef': "eq_fn ht' = ef" and k': "keys_ok ht'"
      using a(5) ef k same_fns_keys_ok by (auto simp: same_fns_def)
    have "nodup h' ht' A'" using nd a(7) unfolding nodup_alt ef ef' A1 by auto
    then have "ht_inv ef (h', ht', A')" using a(4) A1 ef' k' by simp
    moreover have "binds h' ht' A' l w \<longleftrightarrow> (\<exists>b \<in> A - {a}. \<exists>q. entry_data h b = Some (q, w) \<and> ef l q)"
      unfolding binds_alt ef' A1 using a(7) by auto
    moreover have "(b = a) \<longleftrightarrow> ef l k" if "b \<in> A" "entry_data h b = Some (q, y)" "ef l q" for b q y
    proof
      assume "b = a"
      then have "q = m" using that(2) a(2) by simp
      then show "ef l k" using trans [OF that(3)] sym [OF a(3)] by blast
    next
      assume "ef l k"
      then have "ef q m" using trans [OF sym [OF that(3)]] trans [OF _ a(3)] by blast
      then show "b = a" using nd that(1,2) a(1,2) unfolding nodup_alt ef by blast
    qed
    ultimately show ?thesis unfolding binds_alt ef by blast
  qed
  then show "ht_inv ef (h', ht', A')" "binds h' ht' A' l w \<longleftrightarrow> \<not> ef l k \<and> binds h ht A l w" by auto
qed

interpretation pht: keyed_table "ht_inv ef" ef ht_bind ht_ins ht_del for ef
proof
  show "ef k k" if "ht_inv ef s" for s k
  proof -
    obtain h ht A where s: "s = (h, ht, A)" by (cases s)
    with that have "keys_ok ht" "eq_fn ht = ef" by auto
    then show ?thesis using keys_ok_refl by blast
  qed
  show "ht_inv ef s' \<and> (\<forall>l w. ht_bind s' l w \<longleftrightarrow> (if ef l k then w = v else ht_bind s l w))"
    if "ht_inv ef s" "ht_ins s k v s'" "\<forall>w. \<not> ht_bind s k w" for s k v s'
  proof -
    obtain h ht A h' ht' A' where s: "s = (h, ht, A)" "s' = (h', ht', A')" by (cases s; cases s')
    show ?thesis
      using ht_ins_law [of ef h ht A k v h' ht' A'] that unfolding s ht_bind.simps by blast
  qed
  show "ht_inv ef s' \<and> (\<forall>l w. ht_bind s' l w \<longleftrightarrow> \<not> ef l k \<and> ht_bind s l w)"
    if "ht_inv ef s" "ht_del s k s'" for s k s'
  proof -
    obtain h ht A h' ht' A' where s: "s = (h, ht, A)" "s' = (h', ht', A')" by (cases s; cases s')
    show ?thesis
      using ht_del_law [of ef h ht A k h' ht' A'] that unfolding s ht_bind.simps by blast
  qed
qed

text \<open>Searches are determined by the bindings, and changing a value changes one binding.\<close>

lemma search_determined:
  assumes "ht_inv ef (h, ht, A)" and "ht_inv ef' (h', ht', A')"
    and "\<And>w. binds h ht A k w \<longleftrightarrow> binds h' ht' A' k w"
  shows "pet_htable_search h ht k = pet_htable_search h' ht' k"
proof (cases "\<exists>w. binds h ht A k w")
  case True
  then obtain w where w: "binds h ht A k w" "binds h' ht' A' k w" using assms(3) by blast
  then show ?thesis using search_found [OF _ _ _ w(1)] search_found [OF _ _ _ w(2)] assms(1,2) by simp
next
  case False
  then have "\<nexists>w. binds h' ht' A' k w" using assms(3) by blast
  then show ?thesis
    using False search_missing [of h ht A k] search_missing [of h' ht' A' k] assms(1,2) by simp
qed

lemma ht_inv_value:
  assumes "ht_inv ef (h, ht, A)" and "h a = Some e"
  shows "ht_inv ef (h(a \<mapsto> e\<lparr>he_value := v\<rparr>), ht, A)"
proof -
  have "nodup (h(a \<mapsto> e\<lparr>he_value := v\<rparr>)) ht A"
    unfolding nodup_def
  proof (intro ballI allI impI)
    fix x y f g
    assume x: "x \<in> A" "y \<in> A" "(h(a \<mapsto> e\<lparr>he_value := v\<rparr>)) x = Some f"
      "(h(a \<mapsto> e\<lparr>he_value := v\<rparr>)) y = Some g" "eq_fn ht (he_key f) (he_key g)"
    obtain f' where "h x = Some f'" "he_key f' = he_key f" using x(3) assms(2) by (auto split: if_splits)
    moreover obtain g' where "h y = Some g'" "he_key g' = he_key g" using x(4) assms(2) by (auto split: if_splits)
    ultimately show "x = y" using assms(1) x(1,2,5) by (auto simp: nodup_def)
  qed
  then show ?thesis using assms htable_ok_value [of h ht A a e v] by simp
qed

lemma binds_value:
  assumes i: "ht_inv ef (h, ht, A)" and a: "a \<in> A" "h a = Some e"
  shows "binds (h(a \<mapsto> e\<lparr>he_value := v\<rparr>)) ht A l w \<longleftrightarrow>
           (if ef l (he_key e) then w = v else binds h ht A l w)"
proof (cases "ef l (he_key e)")
  case True
  have "b = a" if "b \<in> A" "h b = Some f" "ef l (he_key f)" for b f
  proof -
    have "keys_ok ht" "eq_fn ht = ef" using i by auto
    then have "ef (he_key f) (he_key e)" using True that(3) keys_ok_join by blast
    then show ?thesis using i that(1,2) a \<open>eq_fn ht = ef\<close> by (auto simp: nodup_def)
  qed
  note only = this
  have ef: "eq_fn ht = ef" using i by simp
  let ?h = "h(a \<mapsto> e\<lparr>he_value := v\<rparr>)"
  have "binds ?h ht A l w \<longleftrightarrow> w = v"
  proof
    assume "binds ?h ht A l w"
    then obtain b f where b: "b \<in> A" "?h b = Some f" "ef l (he_key f)" "he_value f = w"
      unfolding binds_def ef by blast
    have "b = a"
    proof (rule ccontr)
      assume n: "b \<noteq> a"
      then have "h b = Some f" using b(2) by simp
      then show False using only b(1,3) n by blast
    qed
    then have "f = e\<lparr>he_value := v\<rparr>" using b(2) by simp
    then show "w = v" using b(4) by simp
  next
    assume "w = v"
    then show "binds ?h ht A l w"
      unfolding binds_def ef using a True by (intro bexI [of _ a] exI [of _ "e\<lparr>he_value := v\<rparr>"]) auto
  qed
  then show ?thesis using True by simp
next
  case False
  have ef: "eq_fn ht = ef" using i by simp
  have "(\<exists>f. (h(a \<mapsto> e\<lparr>he_value := v\<rparr>)) b = Some f \<and> ef l (he_key f) \<and> he_value f = w) \<longleftrightarrow>
        (\<exists>f. h b = Some f \<and> ef l (he_key f) \<and> he_value f = w)" for b
    using False a(2) by (cases "b = a") simp_all
  then show ?thesis using False unfolding binds_def ef by simp
qed

section \<open>Properties\<close>

text \<open>A concrete empty table, hashing pointers, for the witnesses.\<close>

definition small_table :: hashtable where
  "small_table = \<lparr>ht_table = replicate 53 NULL, table_length = 53, entry_count = 0, load_limit = 35,
     prime_index = 0, hash_fn = pet_hash_ptr, eq_fn = (=)\<rparr>"

lemma small_table_inv: "ht_inv (=) (Map.empty, small_table, {})"
proof -
  have "bucketed Map.empty (do_hash small_table) 53 (replicate 53 NULL) (\<lambda>_. [])"
    using bucketed_empty [of "53 :: u32"] by simp
  then have "htable_ok Map.empty small_table {}"
    by (auto simp: htable_ok_def htable_rep_def small_table_def primes_def load_factors_def
        intro!: exI [of _ "\<lambda>_. []"])
  then show ?thesis by (simp add: keys_ok_def nodup_def small_table_def)
qed

abbreviation grants :: "u64 \<Rightarrow> alloc_answers" where
  "grants a \<equiv> \<lparr>al_table = True, al_realloc = True, al_entry = a\<rparr>"

lemma ht_ins_grants:
  assumes "ht_inv ef (h, ht, A)" and "a \<noteq> NULL" and "h a = None" and "card A < 2 ^ 32 - 1"
  shows "\<exists>h' ht'. pet_htable_insert h ht k v (grants a) = ret (-1, h', ht')
      \<and> ht_ins (h, ht, A) k v (h', ht', insert a A)"
proof -
  from insert_spec [of h ht A "grants a" k v] assms obtain h' ht' where
    "pet_htable_insert h ht k v (grants a) = ret (-1, h', ht')" by auto
  with assms show ?thesis by (auto intro!: exI [of _ "grants a"])
qed

text \<open>
  C17: inserting an absent key into a well-formed table succeeds and keeps the table well formed;
  the key (and every key equal to it) is then found with the new value, and every other search
  answers as before, also when the insertion rehashed the whole table into a larger array.
\<close>

theorem insert_then_search:
  assumes "ht_inv ef (h, ht, A)" and "\<nexists>w. binds h ht A k w"
    and "al_entry al \<noteq> NULL" and "h (al_entry al) = None"
    and "al_table al \<or> \<not> al_realloc al" and "card A < 2 ^ 32 - 1"
  shows "\<exists>h' ht'. pet_htable_insert h ht k v al = ret (-1, h', ht')
           \<and> ht_inv ef (h', ht', insert (al_entry al) A)
           \<and> (\<forall>l. pet_htable_search h' ht' l = (if ef l k then ret v else pet_htable_search h ht l))"
proof -
  from insert_spec [of h ht A al k v] assms obtain h' ht' where
    i: "pet_htable_insert h ht k v al = ret (-1, h', ht')" by auto
  with assms have s: "ht_ins (h, ht, A) k v (h', ht', insert (al_entry al) A)" by auto
  note law = ht_ins_law [OF assms(1) s]
  have inv: "ht_inv ef (h', ht', insert (al_entry al) A)" using law(1) assms(2) by blast
  have b: "binds h' ht' (insert (al_entry al) A) l w \<longleftrightarrow> (if ef l k then w = v else binds h ht A l w)" for l w
    using law(2) assms(2) by blast
  have "pet_htable_search h' ht' l = (if ef l k then ret v else pet_htable_search h ht l)" for l
  proof (cases "\<exists>w. binds h' ht' (insert (al_entry al) A) l w")
    case True
    then obtain w where w: "binds h' ht' (insert (al_entry al) A) l w" by blast
    then have "pet_htable_search h' ht' l = ret w" using inv search_found by auto
    then show ?thesis using w assms(1) search_found by (auto simp: b split: if_splits)
  next
    case False
    then have "pet_htable_search h' ht' l = ret NULL" using inv search_missing by auto
    moreover have "\<not> ef l k" "\<nexists>w. binds h ht A l w" using False by (auto simp: b split: if_splits)
    ultimately show ?thesis using assms(1) search_missing by auto
  qed
  then show ?thesis using i inv by blast
qed

theorem insert_then_search_witness:
  "\<exists>h' ht'. pet_htable_insert Map.empty small_table 7 42 (grants 0x1000) = ret (-1, h', ht')
     \<and> ht_inv (=) (h', ht', {0x1000})
     \<and> (\<forall>l. pet_htable_search h' ht' l = (if l = 7 then ret 42 else pet_htable_search Map.empty small_table l))"
  using insert_then_search [OF small_table_inv, of 7 "grants 0x1000" 42] by (simp add: binds_def)

text \<open>
  C18: removing a bound key returns its value, unmaps exactly its cell, keeps the table well
  formed; the key is then absent and every other search answers as before.
\<close>

theorem remove_then_search:
  assumes "ht_inv ef (h, ht, A)" and "binds h ht A k v"
  shows "\<exists>a fr h' ht'. pet_htable_remove h ht k fk = ret (v, fr, h', ht')
           \<and> a \<in> A \<and> h' a = None \<and> ht_inv ef (h', ht', A - {a})
           \<and> (\<forall>l. pet_htable_search h' ht' l = (if ef l k then ret NULL else pet_htable_search h ht l))"
proof -
  from assms(1) have ok: "htable_ok h ht A" and k: "keys_ok ht" and nd: "nodup h ht A" by auto
  from remove_spec [OF ok k nd assms(2), of fk] obtain a m h' ht' where
    r: "a \<in> A" "pet_htable_remove h ht k fk = ret (v, if fk then [m] else [], h', ht')"
      "h' a = None" "htable_ok h' ht' (A - {a})" by blast
  have "{c \<in> A. h' c \<noteq> None} = A - {a}"
    using r(3,4) rep_mapped [of h' ht' "A - {a}"] by (auto simp: htable_ok_def)
  then have s: "ht_del (h, ht, A) k (h', ht', A - {a})" using r(2) by auto
  note law = ht_del_law [OF assms(1) s]
  have "pet_htable_search h' ht' l = (if ef l k then ret NULL else pet_htable_search h ht l)" for l
  proof (cases "\<exists>w. binds h' ht' (A - {a}) l w")
    case True
    then obtain w where w: "binds h' ht' (A - {a}) l w" by blast
    then have "pet_htable_search h' ht' l = ret w" using law(1) search_found by auto
    then show ?thesis using w assms(1) search_found by (auto simp: law(2))
  next
    case False
    then have "pet_htable_search h' ht' l = ret NULL" using law(1) search_missing by auto
    then show ?thesis using False assms(1) search_missing by (auto simp: law(2))
  qed
  then show ?thesis using r law(1) by blast
qed

theorem remove_then_search_witness:
  "\<exists>h1 ht1 a fr h' ht'. pet_htable_insert Map.empty small_table 7 42 (grants 0x1000) = ret (-1, h1, ht1)
     \<and> pet_htable_remove h1 ht1 7 True = ret (42, fr, h', ht')
     \<and> a \<in> {0x1000} \<and> h' a = None \<and> ht_inv (=) (h', ht', {0x1000} - {a})
     \<and> (\<forall>l. pet_htable_search h' ht' l = (if l = 7 then ret NULL else pet_htable_search h1 ht1 l))"
proof -
  obtain h1 ht1 where i: "pet_htable_insert Map.empty small_table 7 42 (grants 0x1000) = ret (-1, h1, ht1)"
    "ht_ins (Map.empty, small_table, {}) 7 42 (h1, ht1, {0x1000})"
    using ht_ins_grants [OF small_table_inv, of "0x1000" 7 42] by auto
  have n: "\<forall>w. \<not> binds Map.empty small_table {} 7 w" by (simp add: binds_def)
  have "ht_inv (=) (h1, ht1, {0x1000})" "binds h1 ht1 {0x1000} 7 42"
    using ht_ins_law [OF small_table_inv i(2) n] by auto
  from remove_then_search [OF this, of True] i(1) show ?thesis by blast
qed

text \<open>
  Removing a key and inserting it again (the header's advice for keys that may already be
  present) leaves a well-formed table in which the key has the new value and no other binding
  has changed.
\<close>

theorem remove_before_insert_overwrites:
  assumes "ht_inv ef (h, ht, A)"
    and "pet_htable_remove h ht k fk = ret (r, fr, h1, ht1)" and "A1 = {a \<in> A. h1 a \<noteq> None}"
    and "ht_ins (h1, ht1, A1) k v (h2, ht2, A2)"
  shows "ht_inv ef (h2, ht2, A2)
           \<and> (\<forall>l w. binds h2 ht2 A2 l w \<longleftrightarrow> (if ef l k then w = v else binds h ht A l w))"
proof -
  from assms(2,3) have d: "ht_del (h, ht, A) k (h1, ht1, A1)" by auto
  show ?thesis
    using pht.overwrite(1) [OF assms(1) d assms(4)] pht.overwrite(2) [OF assms(1) d assms(4)] by simp
qed

theorem remove_before_insert_overwrites_witness:
  "\<exists>h1 ht1 h2 ht2. pet_htable_remove Map.empty small_table 7 True = ret (NULL, [], h1, ht1)
     \<and> ht_ins (h1, ht1, {}) 7 42 (h2, ht2, {0x1000}) \<and> ht_inv (=) (h2, ht2, {0x1000})
     \<and> binds h2 ht2 {0x1000} 7 42"
proof -
  have m: "pet_htable_remove Map.empty small_table 7 True = ret (NULL, [], Map.empty, small_table)"
    by (rule remove_missing) (use small_table_inv in \<open>auto simp: binds_def\<close>)
  obtain h2 ht2 where i: "ht_ins (Map.empty, small_table, {}) 7 42 (h2, ht2, {0x1000})"
    using ht_ins_grants [OF small_table_inv, of "0x1000" 7 42] by auto
  have e: "{} = {a \<in> {}. (Map.empty :: entry_heap) a \<noteq> None}" by simp
  have "ht_inv (=) (h2, ht2, {0x1000}) \<and> binds h2 ht2 {0x1000} 7 42"
    using remove_before_insert_overwrites [OF small_table_inv m e i] by simp
  then show ?thesis using m i by auto
qed

text \<open>
  Rehashing (\<open>hashtable_expand\<close>) keeps the table well formed with the same cells and the
  same count, and no search changes its answer, whether the table grows, is already at the last
  prime, or neither allocation is granted.
\<close>

theorem expand_keeps_searches:
  assumes "ht_inv ef (h, ht, A)" and "c \<or> \<not> re"
  shows "\<exists>rv h' ht'. hashtable_expand h ht c re = ret (rv, h', ht') \<and> ht_inv ef (h', ht', A)
           \<and> pet_htable_count ht' = pet_htable_count ht
           \<and> (\<forall>k. pet_htable_search h' ht' k = pet_htable_search h ht k)"
proof -
  from assms(1) have r: "htable_rep h ht A" by (simp add: htable_ok_def)
  from expand_spec [OF r assms(2)] obtain rv h' ht' where
    e: "hashtable_expand h ht c re = ret (rv, h', ht')" "htable_rep h' ht' A" "same_data h h'"
      "same_fns ht ht'" "entry_count ht' = entry_count ht" by blast
  have d: "entry_data h' = entry_data h" using same_data_entry_data [OF e(3)] by (simp add: fun_eq_iff)
  have f: "eq_fn ht' = eq_fn ht" using e(4) by (simp add: same_fns_def)
  have "keys_ok ht'" using assms(1) same_fns_keys_ok [OF e(4)] by simp
  moreover have "nodup h' ht' A" using assms(1) by (simp add: nodup_alt d f)
  ultimately have i: "ht_inv ef (h', ht', A)" using assms(1) e(2,5) f by (simp add: htable_ok_def)
  have "binds h' ht' A k v \<longleftrightarrow> binds h ht A k v" for k v by (simp add: binds_alt d f)
  from search_determined [OF i assms(1) this] show ?thesis
    using e(1,5) i by (simp add: pet_htable_count_def)
qed

theorem expand_keeps_searches_witness:
  "\<exists>rv h' ht'. hashtable_expand Map.empty small_table True False = ret (rv, h', ht')
     \<and> ht_inv (=) (h', ht', {}) \<and> pet_htable_count ht' = pet_htable_count small_table
     \<and> (\<forall>k. pet_htable_search h' ht' k = pet_htable_search Map.empty small_table k)"
  using expand_keeps_searches [OF small_table_inv, of True False] by simp

text \<open>
  C34: for every requested size up to \<open>2 ^ 30\<close> (larger ones are refused) \<open>pet_create_htable\<close>
  finds a prime, so that no array is read out of bounds, and returns a well-formed empty table
  with more buckets than requested.
\<close>

theorem create_gives_empty_table:
  "if m \<le> 2 ^ 30
   then \<exists>ht. pet_create_htable m hf ef True True = Inr (Some ht) \<and> htable_ok Map.empty ht {}
          \<and> m < table_length ht \<and> pet_htable_count ht = 0 \<and> hash_fn ht = hf \<and> eq_fn ht = ef
   else pet_create_htable m hf ef ok1 ok2 = Inr None"
proof (cases "m \<le> 2 ^ 30")
  case True
  then show ?thesis
    using create_spec [of m hf ef Map.empty] by (auto simp: pet_htable_count_def htable_ok_def unat_eq_0)
next
  case False
  then show ?thesis by (simp add: pet_create_htable_def push_bit_eq_mult not_le)
qed

text \<open>
  \<open>pet_free_htable\<close> on a well-formed table ends without a fault (no double free, no use of
  a freed entry) and releases exactly the cells of the table.
\<close>

theorem free_releases_exactly_entries:
  assumes "htable_ok h ht A"
  shows "\<exists>fr. pet_free_htable h ht free_values free_keys = ret (fr, h |` (- A))"
proof -
  have "(\<lambda>a. if a \<in> A then None else h a) = h |` (- A)" by (auto simp: restrict_map_def)
  then show ?thesis using free_spec [OF assms, of free_values free_keys] by simp
qed

theorem free_releases_exactly_entries_witness:
  "\<exists>h1 ht1 fr. pet_htable_insert Map.empty small_table 7 42 (grants 0x1000) = ret (-1, h1, ht1)
     \<and> pet_free_htable h1 ht1 True True = ret (fr, h1 |` (- {0x1000}))"
proof -
  obtain h1 ht1 where i: "pet_htable_insert Map.empty small_table 7 42 (grants 0x1000) = ret (-1, h1, ht1)"
    "ht_ins (Map.empty, small_table, {}) 7 42 (h1, ht1, {0x1000})"
    using ht_ins_grants [OF small_table_inv, of "0x1000" 7 42] by auto
  have n: "\<forall>w. \<not> binds Map.empty small_table {} 7 w" by (simp add: binds_def)
  have "htable_ok h1 ht1 {0x1000}" using ht_ins_law [OF small_table_inv i(2) n] by auto
  from free_releases_exactly_entries [OF this] i(1) show ?thesis by blast
qed

text \<open>
  \<open>pet_htable_inc\<close> adds to the value of a bound key (modulo \<open>2 ^ 64\<close>), the table stays
  well formed, no other search changes, and \<open>pet_htable_dec\<close> by the same amount restores the
  heap exactly.
\<close>

theorem inc_dec_roundtrip:
  assumes "ht_inv ef (h, ht, A)" and "binds h ht A k v"
  shows "\<exists>h1. pet_htable_inc h ht k d = ret (-1, h1) \<and> ht_inv ef (h1, ht, A)
           \<and> (\<forall>l. pet_htable_search h1 ht l = (if ef l k then ret (v + d) else pet_htable_search h ht l))
           \<and> pet_htable_dec h1 ht k d = ret (-1, h)"
proof -
  from assms(1) have k: "keys_ok ht" and ef: "eq_fn ht = ef" and nd: "nodup h ht A" by auto
  from find_selects [of h ht A k v] assms obtain a e par where
    a: "a \<in> A" "a \<noteq> NULL" "h a = Some e" "ef k (he_key e)" "he_value e = v"
      "find_in_table h ht k = ret (par, a)" by auto
  define h1 where "h1 = h(a \<mapsto> e\<lparr>he_value := he_value e + d\<rparr>)"
  have inc: "pet_htable_inc h ht k d = ret (-1, h1)"
    using a by (simp add: pet_htable_inc_def deref_def h1_def)
  have i1: "ht_inv ef (h1, ht, A)"
    unfolding h1_def using ht_inv_value assms(1) a(3) by blast
  have b: "binds h1 ht A l w \<longleftrightarrow> (if ef l (he_key e) then w = v + d else binds h ht A l w)" for l w
    using binds_value [OF assms(1) a(1,3), of "he_value e + d" l w] a(5) by (simp add: h1_def)
  have eq: "ef l (he_key e) \<longleftrightarrow> ef l k" for l
    using keys_ok_sym [OF k] keys_ok_trans [OF k] a(4) unfolding ef by blast
  have b1: "binds h1 ht A k (v + d)" using b [of k "v + d"] a by simp
  from find_selects [of h1 ht A k "v + d"] i1 b1 obtain a' e' par' where
    a': "a' \<in> A" "h1 a' = Some e'" "ef k (he_key e')" "find_in_table h1 ht k = ret (par', a')" by auto
  have "a' = a"
  proof (rule ccontr)
    assume "a' \<noteq> a"
    then have "h a' = Some e'" using a'(2) by (simp add: h1_def)
    moreover have "ef (he_key e') (he_key e)"
      using keys_ok_sym [OF k] keys_ok_trans [OF k] a(4) a'(3) unfolding ef by blast
    ultimately show False using nd a(1,3) a'(1) \<open>a' \<noteq> a\<close> unfolding nodup_def ef by blast
  qed
  then have dec: "pet_htable_dec h1 ht k d = ret (-1, h)"
    using a' a(2,3) by (auto simp: pet_htable_dec_def deref_def h1_def fun_eq_iff)
  have "pet_htable_search h1 ht l = (if ef l k then ret (v + d) else pet_htable_search h ht l)" for l
  proof (cases "ef l k")
    case True
    then have "binds h1 ht A l (v + d)" using b eq a(5) by simp
    then show ?thesis using True i1 search_found by auto
  next
    case False
    then have "binds h1 ht A l w \<longleftrightarrow> binds h ht A l w" for w using b eq by simp
    from search_determined [OF i1 assms(1) this] False show ?thesis by simp
  qed
  then show ?thesis using inc i1 dec by blast
qed

theorem inc_dec_roundtrip_witness:
  "\<exists>h0 ht0 h1. pet_htable_insert Map.empty small_table 7 42 (grants 0x1000) = ret (-1, h0, ht0)
     \<and> pet_htable_inc h0 ht0 7 1 = ret (-1, h1) \<and> pet_htable_search h1 ht0 7 = ret 43
     \<and> pet_htable_dec h1 ht0 7 1 = ret (-1, h0)"
proof -
  obtain h1 ht1 where i: "pet_htable_insert Map.empty small_table 7 42 (grants 0x1000) = ret (-1, h1, ht1)"
    "ht_ins (Map.empty, small_table, {}) 7 42 (h1, ht1, {0x1000})"
    using ht_ins_grants [OF small_table_inv, of "0x1000" 7 42] by auto
  have n: "\<forall>w. \<not> binds Map.empty small_table {} 7 w" by (simp add: binds_def)
  have "ht_inv (=) (h1, ht1, {0x1000})" "binds h1 ht1 {0x1000} 7 42"
    using ht_ins_law [OF small_table_inv i(2) n] by auto
  from inc_dec_roundtrip [OF this, of 1] i(1) show ?thesis by auto
qed

text \<open>
  When the larger array is not granted by \<open>calloc\<close> but is granted by \<open>realloc\<close>, the fallback
  of \<open>hashtable_expand\<close> writes through the content of an uninitialised array cell, for every
  table that is not at the last prime.
\<close>

theorem expand_fallback_wild_write:
  assumes "htable_ok h ht A" and "prime_index ht \<noteq> prime_table_len - 1"
  shows "hashtable_expand h ht False True = fail WildWrite"
proof -
  have "unat (prime_index ht) < 26" using assms(1) by (auto simp: htable_ok_def htable_rep_def)
  moreover have "unat (prime_index ht) \<noteq> 25"
    using assms(2) word_unat_eq_iff [of "prime_index ht" 25] by (simp add: prime_table_len_def)
  ultimately have "unat (prime_index ht + 1) < 26" by (simp add: unat_word_ariths)
  then show ?thesis using assms(2) by (simp add: hashtable_expand_def primes_def)
qed

theorem expand_fallback_wild_write_witness:
  "hashtable_expand Map.empty small_table False True = fail WildWrite"
  by (rule expand_fallback_wild_write)
    (use small_table_inv in \<open>auto simp: small_table_def prime_table_len_def\<close>)

end
