(* ===== verification/PetHashIter.thy ===== *)
theory PetHashIter
  imports PetHashInv
begin

text \<open>
  The iterator of \<open>src/Threads/pet_hashtable.c\<close>: creation, the read accessors, advancing,
  removal at the current position and repositioning by key.  The field \<open>htable\<close> of the C
  struct is the table argument of the operations here.  The iterator's position is specified
  by the list of cells still to be visited; from it follow that iterating visits every entry
  exactly once and that removing along the way empties the table.
\<close>

section \<open>Operations\<close>

record hashtable_iter =
  it_entry :: u64
  it_parent :: u64
  it_index :: u32

text \<open>
  The loop of \<open>pet_htable_create_iter\<close> and of \<open>pet_htable_iter_advance\<close> over the buckets: the
  first index of the range with a non-empty bucket, and the head of that bucket.
\<close>

fun scan_buckets :: "u64 list \<Rightarrow> nat list \<Rightarrow> (nat \<times> u64) option res" where
  "scan_buckets table [] = Inr None"
| "scan_buckets table (j # js) =
     (if j < length table then
        (if table ! j = NULL then scan_buckets table js else Inr (Some (j, table ! j)))
      else Inl OutOfBounds)"

definition pet_htable_create_iter :: "hashtable \<Rightarrow> bool \<Rightarrow> hashtable_iter option res" where
  "pet_htable_create_iter ht calloc_ok =
     (if \<not> calloc_ok then Inr None
      else
        let it = \<lparr>it_entry = NULL, it_parent = NULL, it_index = table_length ht\<rparr> in
        if entry_count ht = 0 then Inr (Some it)
        else rbind (scan_buckets (ht_table ht) [0..<unat (table_length ht)]) (\<lambda>r. case r of
               None \<Rightarrow> Inr (Some it)
             | Some (i, p) \<Rightarrow> Inr (Some (it\<lparr>it_entry := p, it_index := of_nat i\<rparr>))))"

definition pet_htable_get_iter_key :: "entry_heap \<Rightarrow> hashtable_iter \<Rightarrow> u64 res" where
  "pet_htable_get_iter_key h it = rbind (deref h (it_entry it)) (\<lambda>e. Inr (he_key e))"

definition pet_htable_get_iter_value :: "entry_heap \<Rightarrow> hashtable_iter \<Rightarrow> u64 res" where
  "pet_htable_get_iter_value h it = rbind (deref h (it_entry it)) (\<lambda>e. Inr (he_value e))"

definition pet_htable_iter_advance ::
  "entry_heap \<Rightarrow> hashtable \<Rightarrow> hashtable_iter \<Rightarrow> (int \<times> hashtable_iter) res" where
  "pet_htable_iter_advance h ht it =
     (if it_entry it = NULL then Inr (0, it)
      else rbind (deref h (it_entry it)) (\<lambda>e.
        if he_next e \<noteq> NULL
        then Inr (-1, it\<lparr>it_parent := it_entry it, it_entry := he_next e\<rparr>)
        else
          let it = it\<lparr>it_parent := NULL, it_index := it_index it + 1\<rparr> in
          if table_length ht \<le> it_index it then Inr (0, it\<lparr>it_entry := NULL\<rparr>)
          else
            rbind (scan_buckets (ht_table ht) [unat (it_index it)..<unat (table_length ht)]) (\<lambda>r.
            case r of
              None \<Rightarrow> Inr (0, it\<lparr>it_index := table_length ht, it_entry := NULL\<rparr>)
            | Some (j, p) \<Rightarrow> Inr (-1, it\<lparr>it_index := of_nat j, it_entry := p\<rparr>))))"

text \<open>
  \<open>pet_htable_iter_remove\<close>; the second component of the result lists the user pointers it
  handed to \<open>free\<close>.
\<close>

definition pet_htable_iter_remove ::
  "entry_heap \<Rightarrow> hashtable \<Rightarrow> hashtable_iter \<Rightarrow> bool \<Rightarrow>
     (int \<times> u64 list \<times> entry_heap \<times> hashtable \<times> hashtable_iter) res" where
  "pet_htable_iter_remove h ht it free_key =
     rbind (deref h (it_entry it)) (\<lambda>e.
     rbind (unlink_entry h ht (it_index it) (it_parent it) (he_next e)) (\<lambda>(h, ht).
     let remember_entry = it_entry it;
         ht = ht\<lparr>entry_count := entry_count ht - 1\<rparr>;
         remember_parent = it_parent it
     in rbind (pet_htable_iter_advance h ht it) (\<lambda>(rv, it).
        let it = (if it_parent it = remember_entry then it\<lparr>it_parent := remember_parent\<rparr> else it)
        in rbind (free_entry h remember_entry) (\<lambda>h.
           Inr (rv, if free_key then [he_key e] else [], h, ht, it)))))"

definition pet_htable_iter_search ::
  "entry_heap \<Rightarrow> hashtable_iter \<Rightarrow> hashtable \<Rightarrow> u64 \<Rightarrow> (int \<times> hashtable_iter) run" where
  "pet_htable_iter_search h it ht key =
     pbind (find_in_table h ht key) (\<lambda>(parent, entry).
     if entry = NULL then ret (0, it)
     else ret (-1, \<lparr>it_entry = entry, it_parent = parent,
                    it_index = indexFor (table_length ht) (do_hash ht key)\<rparr>))"

text \<open>
  The two loops a client writes with the iterator: read every key and value, and remove every
  entry.
\<close>

partial_function (option) iter_visits ::
  "entry_heap \<Rightarrow> hashtable \<Rightarrow> hashtable_iter \<Rightarrow> (u64 \<times> u64) list \<Rightarrow> (u64 \<times> u64) list run" where
  "iter_visits h ht it acc =
     (if it_entry it = NULL then ret acc
      else pbind (Some (pet_htable_get_iter_key h it)) (\<lambda>k.
           pbind (Some (pet_htable_get_iter_value h it)) (\<lambda>v.
           pbind (Some (pet_htable_iter_advance h ht it)) (\<lambda>r.
           iter_visits h ht (snd r) (acc @ [(k, v)])))))"

partial_function (option) iter_clear ::
  "entry_heap \<Rightarrow> hashtable \<Rightarrow> hashtable_iter \<Rightarrow> (entry_heap \<times> hashtable) run" where
  "iter_clear h ht it =
     (if it_entry it = NULL then ret (h, ht)
      else case pet_htable_iter_remove h ht it False of
        Inl e \<Rightarrow> fail e
      | Inr r \<Rightarrow> iter_clear (fst (snd (snd r))) (fst (snd (snd (snd r)))) (snd (snd (snd (snd r)))))"

section \<open>The position of an iterator\<close>

text \<open>
  \<open>iter_at bs n it xs\<close>: \<open>xs\<close> are the cells from the current position to the end, bucket by
  bucket.
\<close>

fun iter_at :: "(nat \<Rightarrow> u64 list) \<Rightarrow> nat \<Rightarrow> hashtable_iter \<Rightarrow> u64 list \<Rightarrow> bool" where
  "iter_at bs n it [] \<longleftrightarrow> it_entry it = NULL"
| "iter_at bs n it (a # xs) \<longleftrightarrow>
     (\<exists>ys zs. unat (it_index it) < n \<and> bs (unat (it_index it)) = ys @ a # zs
        \<and> it_entry it = a \<and> it_parent it = last (NULL # ys)
        \<and> xs = zs @ concat (map bs [Suc (unat (it_index it))..<n]))"

lemma iter_at_end: "xs = [] \<Longrightarrow> it_entry it = NULL \<Longrightarrow> iter_at bs n it xs"
  by simp

lemma scan_spec:
  assumes "\<forall>j \<in> set js. j < length tbl \<and> tbl ! j = hd (bs j @ [NULL]) \<and> NULL \<notin> set (bs j)"
  shows "(concat (map bs js) = [] \<and> scan_buckets tbl js = Inr None) \<or>
    (\<exists>pre i post b ws. js = pre @ i # post \<and> concat (map bs pre) = [] \<and> bs i = b # ws
       \<and> scan_buckets tbl js = Inr (Some (i, b)))"
  using assms
proof (induction js)
  case Nil
  then show ?case by simp
next
  case (Cons j js)
  show ?case
  proof (cases "bs j")
    case Nil
    then have s: "scan_buckets tbl (j # js) = scan_buckets tbl js" using Cons.prems by simp
    from Cons.IH Cons.prems consider "concat (map bs js) = []" "scan_buckets tbl js = Inr None"
      | pre i post b ws where "js = pre @ i # post" "concat (map bs pre) = []" "bs i = b # ws"
          "scan_buckets tbl js = Inr (Some (i, b))" by auto
    then show ?thesis
    proof cases
      case 1
      then show ?thesis using s Nil by simp
    next
      case (2 pre i post b ws)
      then show ?thesis using s Nil by (intro disjI2 exI [of _ "j # pre"]) simp
    qed
  next
    case (Cons b ws)
    then have "scan_buckets tbl (j # js) = Inr (Some (j, b))" using Cons.prems by auto
    then show ?thesis using Cons by (intro disjI2 exI [of _ "[]"]) simp
  qed
qed

lemma scan_range:
  assumes "\<forall>j < n. m \<le> j \<longrightarrow> tbl ! j = hd (bs j @ [NULL]) \<and> NULL \<notin> set (bs j)" and "length tbl = n"
  shows "(concat (map bs [m..<n]) = [] \<and> scan_buckets tbl [m..<n] = Inr None) \<or>
    (\<exists>i b ws. m \<le> i \<and> i < n \<and> bs i = b # ws \<and> scan_buckets tbl [m..<n] = Inr (Some (i, b))
       \<and> concat (map bs [m..<n]) = b # ws @ concat (map bs [Suc i..<n]))"
proof -
  have "\<forall>j \<in> set [m..<n]. j < length tbl \<and> tbl ! j = hd (bs j @ [NULL]) \<and> NULL \<notin> set (bs j)"
    using assms by simp
  from scan_spec [OF this] show ?thesis
  proof
    assume "\<exists>pre i post b ws. [m..<n] = pre @ i # post \<and> concat (map bs pre) = [] \<and> bs i = b # ws
       \<and> scan_buckets tbl [m..<n] = Inr (Some (i, b))"
    then obtain pre i post b ws where s: "[m..<n] = pre @ i # post" "concat (map bs pre) = []"
      "bs i = b # ws" "scan_buckets tbl [m..<n] = Inr (Some (i, b))" by blast
    have "post = [Suc i..<n]" using s(1) by (rule upt_split)
    moreover have "i \<in> set [m..<n]" unfolding s(1) by simp
    then have "m \<le> i \<and> i < n" by simp
    ultimately show ?thesis using s by (intro disjI2 exI [of _ i] exI [of _ b] exI [of _ ws]) simp
  qed simp
qed

section \<open>Creating and advancing\<close>

text \<open>What the iterator reads of a well-formed table: the heads of the buckets.\<close>

lemma bucketed_heads:
  assumes "bucketed h dh len tbl bs" and "j < unat len"
  shows "tbl ! j = hd (bs j @ [NULL])" and "NULL \<notin> set (bs j)"
proof -
  have "chain h (tbl ! j) (bs j)" using assms by (simp add: bucketed_def)
  then show "tbl ! j = hd (bs j @ [NULL])" and "NULL \<notin> set (bs j)"
    using chain_hd chain_mapped by blast+
qed

text \<open>
  One step from the cell \<open>a\<close> of bucket \<open>i\<close> with successors \<open>zs\<close> in its chain; the heap need not
  be the one of a complete table.
\<close>

lemma advance_from:
  assumes a: "h a = Some e" "a \<noteq> NULL" "he_next e = hd (zs @ [NULL])" "NULL \<notin> set zs"
    and i: "unat (it_index it) < n" "it_entry it = a" and n: "n = unat (table_length ht)" "length (ht_table ht) = n"
    and hds: "\<forall>j < n. Suc (unat (it_index it)) \<le> j \<longrightarrow> ht_table ht ! j = hd (bs j @ [NULL]) \<and> NULL \<notin> set (bs j)"
  defines "rest \<equiv> concat (map bs [Suc (unat (it_index it))..<n])"
  obtains (chain) b ws where "zs = b # ws"
      "pet_htable_iter_advance h ht it = Inr (-1, it\<lparr>it_parent := a, it_entry := b\<rparr>)"
  | (bucket) j b ws where "zs = []" "unat (it_index it) < j" "j < n" "bs j = b # ws"
      "rest = b # ws @ concat (map bs [Suc j..<n])"
      "pet_htable_iter_advance h ht it = Inr (-1, \<lparr>it_entry = b, it_parent = NULL, it_index = of_nat j\<rparr>)"
  | (finished) it' where "zs = []" "rest = []" "it_entry it' = NULL" "it_parent it' = NULL"
      "pet_htable_iter_advance h ht it = Inr (0, it')"
proof (cases zs)
  case (Cons b ws)
  then have "pet_htable_iter_advance h ht it = Inr (-1, it\<lparr>it_parent := a, it_entry := b\<rparr>)"
    using a i by (auto simp: pet_htable_iter_advance_def deref_def)
  then show thesis using chain Cons by blast
next
  case Nil
  have len: "unat (it_index it + 1) = Suc (unat (it_index it))"
    using i(1) n(1) unat_u32_less [of "table_length ht"] by (simp add: unat_word_ariths)
  show thesis
  proof (cases "Suc (unat (it_index it)) < n")
    case False
    then have "table_length ht \<le> it_index it + 1" using n(1) by (simp add: word_le_nat_alt len)
    then have "pet_htable_iter_advance h ht it = Inr (0, it\<lparr>it_parent := NULL, it_index := it_index it + 1, it_entry := NULL\<rparr>)"
      using a i Nil by (simp add: pet_htable_iter_advance_def deref_def)
    then show thesis
      by (rule finished [rotated 4]) (use Nil False in \<open>simp_all add: rest_def\<close>)
  next
    case True
    then have l: "\<not> table_length ht \<le> it_index it + 1" using n(1) by (simp add: word_le_nat_alt len)
    from scan_range [OF hds n(2)] show thesis
    proof (elim disjE exE conjE)
      assume "concat (map bs [Suc (unat (it_index it))..<n]) = []"
        and s: "scan_buckets (ht_table ht) [Suc (unat (it_index it))..<n] = Inr None"
      then show thesis
        using finished [of "\<lparr>it_entry = NULL, it_parent = NULL, it_index = table_length ht\<rparr>"] a i Nil l len n(1)
        by (simp add: pet_htable_iter_advance_def deref_def rest_def)
    next
      fix j b ws
      assume j: "Suc (unat (it_index it)) \<le> j" "j < n" "bs j = b # ws"
        and s: "scan_buckets (ht_table ht) [Suc (unat (it_index it))..<n] = Inr (Some (j, b))"
        and r: "concat (map bs [Suc (unat (it_index it))..<n]) = b # ws @ concat (map bs [Suc j..<n])"
      have "pet_htable_iter_advance h ht it = Inr (-1, \<lparr>it_entry = b, it_parent = NULL, it_index = of_nat j\<rparr>)"
        using a i Nil l len n(1) s by (simp add: pet_htable_iter_advance_def deref_def)
      then show thesis using bucket [of j b ws] Nil j r by (simp add: rest_def)
    qed
  qed
qed

lemma unat_of_index [simp]: "j < unat (len :: u32) \<Longrightarrow> unat (of_nat j :: u32) = j"
  using unat_u32_less [of len] by (simp add: unat_of_nat)

lemma create_iter_spec:
  assumes b: "bucketed h (do_hash ht) (table_length ht) (ht_table ht) bs"
    and c: "unat (entry_count ht) = card (addrs (table_length ht) bs)"
  shows "\<exists>it. pet_htable_create_iter ht True = Inr (Some it)
           \<and> iter_at bs (unat (table_length ht)) it (concat (map bs [0..<unat (table_length ht)]))"
proof (cases "entry_count ht = 0")
  case True
  then have "addrs (table_length ht) bs = {}" using c by simp
  then have "concat (map bs [0..<unat (table_length ht)]) = []" by (auto simp: addrs_def)
  from iter_at_end [OF this] show ?thesis using True by (simp add: pet_htable_create_iter_def)
next
  case False
  have "length (ht_table ht) = unat (table_length ht)" using b by (simp add: bucketed_def)
  then have "(concat (map bs [0..<unat (table_length ht)]) = [] \<and> scan_buckets (ht_table ht) [0..<unat (table_length ht)] = Inr None) \<or>
    (\<exists>i b ws. 0 \<le> i \<and> i < unat (table_length ht) \<and> bs i = b # ws \<and> scan_buckets (ht_table ht) [0..<unat (table_length ht)] = Inr (Some (i, b))
       \<and> concat (map bs [0..<unat (table_length ht)]) = b # ws @ concat (map bs [Suc i..<unat (table_length ht)]))"
    by (intro scan_range) (use bucketed_heads [OF b] in auto)
  then show ?thesis
  proof (elim disjE exE conjE)
    fix i b ws
    assume "i < unat (table_length ht)" "bs i = b # ws" "scan_buckets (ht_table ht) [0..<unat (table_length ht)] = Inr (Some (i, b))"
      "concat (map bs [0..<unat (table_length ht)]) = b # ws @ concat (map bs [Suc i..<unat (table_length ht)])"
    then show ?thesis using False by (auto simp: pet_htable_create_iter_def)
  next
    assume "concat (map bs [0..<unat (table_length ht)]) = []"
      and s: "scan_buckets (ht_table ht) [0..<unat (table_length ht)] = Inr None"
    from iter_at_end [OF this(1)] s show ?thesis using False by (simp add: pet_htable_create_iter_def)
  qed
qed

lemma advance_spec:
  assumes b: "bucketed h (do_hash ht) (table_length ht) (ht_table ht) bs"
    and it: "iter_at bs (unat (table_length ht)) it (a # xs)"
  shows "\<exists>it'. pet_htable_iter_advance h ht it = Inr (if xs = [] then 0 else -1, it')
           \<and> iter_at bs (unat (table_length ht)) it' xs"
proof -
  define n where "n = unat (table_length ht)"
  from it obtain ys zs where p: "unat (it_index it) < n" "bs (unat (it_index it)) = ys @ a # zs" "it_entry it = a"
    "it_parent it = last (NULL # ys)" "xs = zs @ concat (map bs [Suc (unat (it_index it))..<n])"
    by (auto simp: n_def)
  have c: "chain h (ht_table ht ! unat (it_index it)) (ys @ a # zs)" and len: "length (ht_table ht) = n"
    using b p(1,2) unfolding bucketed_def n_def by metis+
  from chain_drop [OF c] obtain e where e: "h a = Some e" "chain h (he_next e) zs" by blast
  have z: "he_next e = hd (zs @ [NULL])" "NULL \<notin> set zs" "a \<noteq> NULL"
    using chain_hd [OF e(2)] chain_mapped [OF e(2)] chain_mapped [OF c, of a] by auto
  have hds: "\<forall>j < n. Suc (unat (it_index it)) \<le> j \<longrightarrow> ht_table ht ! j = hd (bs j @ [NULL]) \<and> NULL \<notin> set (bs j)"
    using bucketed_heads [OF b] by (auto simp: n_def)
  show ?thesis unfolding n_def [symmetric]
  proof (rule advance_from [of h a e zs it n ht bs, OF e(1) z(3) z(1,2) p(1,3) n_def len hds])
    fix b ws assume "zs = b # ws"
      "pet_htable_iter_advance h ht it = Inr (-1, it\<lparr>it_parent := a, it_entry := b\<rparr>)"
    then show "\<exists>it'. pet_htable_iter_advance h ht it = Inr (if xs = [] then 0 else -1, it') \<and> iter_at bs n it' xs"
      using p by (auto intro!: exI [of _ "ys @ [a]"])
  next
    fix it' assume r: "zs = []" "concat (map bs [Suc (unat (it_index it))..<n]) = []" "it_entry it' = NULL"
      "pet_htable_iter_advance h ht it = Inr (0, it')"
    then have "xs = []" using p(5) by (simp only: append_Nil)
    then show "\<exists>it'. pet_htable_iter_advance h ht it = Inr (if xs = [] then 0 else -1, it') \<and> iter_at bs n it' xs"
      using r(3,4) by simp
  qed (use p n_def in auto)
qed

section \<open>Removing at the current position\<close>

lemma iter_remove_spec:
  assumes ok: "htable_ok h ht A" and b: "bucketed h (do_hash ht) (table_length ht) (ht_table ht) bs"
    and A: "A = addrs (table_length ht) bs" and it: "iter_at bs (unat (table_length ht)) it (a # xs)"
  shows "\<exists>fr h' ht' it' bs'. pet_htable_iter_remove h ht it fk = Inr (if xs = [] then 0 else -1, fr, h', ht', it')
     \<and> h' a = None \<and> (\<forall>x. x \<noteq> a \<longrightarrow> entry_data h' x = entry_data h x)
     \<and> htable_ok h' ht' (A - {a}) \<and> bucketed h' (do_hash ht') (table_length ht') (ht_table ht') bs'
     \<and> A - {a} = addrs (table_length ht') bs' \<and> iter_at bs' (unat (table_length ht')) it' xs"
proof -
  define n where "n = unat (table_length ht)"
  define i where "i = unat (it_index it)"
  from it obtain ys zs where p: "i < n" "bs i = ys @ a # zs" "it_entry it = a"
    "it_parent it = last (NULL # ys)" "xs = zs @ concat (map bs [Suc i..<n])"
    by (auto simp: n_def i_def)
  have c: "chain h (ht_table ht ! i) (ys @ a # zs)" and dist: "distinct (ys @ a # zs)"
    using b p(1,2) unfolding bucketed_def n_def by metis+
  from chain_drop [OF c] obtain e where e: "h a = Some e" "chain h (he_next e) zs" by blast
  have z: "he_next e = hd (zs @ [NULL])" "NULL \<notin> set zs" "a \<noteq> NULL"
    using chain_hd [OF e(2)] chain_mapped [OF e(2)] chain_mapped [OF c, of a] by auto
  have il: "unat (it_index it) < unat (table_length ht)" using p(1) by (simp add: i_def n_def)
  from unlink_found [OF b il p(2) [unfolded i_def] e(1)] obtain h1 tbl' where
    u: "unlink_entry h ht (it_index it) (it_parent it) (he_next e) = Inr (h1, ht\<lparr>ht_table := tbl'\<rparr>)"
      "h1 a = Some e" "same_data h h1"
      "bucketed (h1(a := None)) (do_hash ht) (table_length ht) tbl' (bs(i := ys @ zs))"
    unfolding i_def p(4) by blast
  define ht' where "ht' = ht\<lparr>ht_table := tbl', entry_count := entry_count ht - 1\<rparr>"
  define bs' where "bs' = bs(i := ys @ zs)"
  have ok': "htable_ok (h1(a := None)) ht' (A - {a})"
    unfolding ht'_def by (rule unlinked_ok [OF ok b A p(1) [unfolded n_def] p(2) u(4)])
  have dh: "do_hash ht' = do_hash ht" and tl: "table_length ht' = table_length ht"
    by (auto simp: ht'_def do_hash_def)
  have b': "bucketed (h1(a := None)) (do_hash ht') (table_length ht') (ht_table ht') bs'"
    using u(4) dh by (simp add: ht'_def bs'_def)
  have ad: "A - {a} = addrs (table_length ht') bs'"
    using addrs_unlink [OF b p(1) [unfolded n_def] p(2)] A tl by (simp add: bs'_def)
  have later: "map bs' [Suc j..<n] = map bs [Suc j..<n]" if "i \<le> j" for j
    using that by (auto simp: bs'_def)
  define fr where "fr = (if fk then [he_key e] else [])"
  have rem: "pet_htable_iter_remove h ht it fk = Inr (rv, fr, h1(a := None), ht',
      if it_parent it' = a then it'\<lparr>it_parent := it_parent it\<rparr> else it')"
    if "pet_htable_iter_advance h1 ht' it = Inr (rv, it')" for rv it'
    using that e(1) p(3) u(1,2) by (simp add: pet_htable_iter_remove_def deref_def free_entry_def ht'_def fr_def)
  have n': "n = unat (table_length ht')" "length (ht_table ht') = n" "i < n" "unat (it_index it) < n"
    using b' tl p(1) by (auto simp: n_def bucketed_def i_def)
  have hds: "\<forall>j < n. Suc (unat (it_index it)) \<le> j \<longrightarrow> ht_table ht' ! j = hd (bs' j @ [NULL]) \<and> NULL \<notin> set (bs' j)"
    using bucketed_heads [OF b'] n'(1) by auto
  have "\<exists>it'. pet_htable_iter_remove h ht it fk = Inr (if xs = [] then 0 else -1, fr, h1(a := None), ht', it')
      \<and> iter_at bs' n it' xs"
  proof (rule advance_from [of h1 a e zs it n ht' bs', OF u(2) z(3) z(1,2) n'(4) p(3) n'(1,2) hds])
    fix b ws assume s: "zs = b # ws"
      "pet_htable_iter_advance h1 ht' it = Inr (-1, it\<lparr>it_parent := a, it_entry := b\<rparr>)"
    then have "iter_at bs' n (it\<lparr>it_entry := b\<rparr>) xs"
      using p(1,4,5) later [of i] by (auto simp: bs'_def i_def)
    moreover have "it\<lparr>it_entry := b, it_parent := it_parent it\<rparr> = it\<lparr>it_entry := b\<rparr>" by simp
    ultimately show ?thesis using rem [OF s(2)] s(1) p(5) by auto
  next
    fix j b ws assume s: "zs = []" "unat (it_index it) < j" "j < n" "bs' j = b # ws"
      "concat (map bs' [Suc (unat (it_index it))..<n]) = b # ws @ concat (map bs' [Suc j..<n])"
      "pet_htable_iter_advance h1 ht' it = Inr (-1, \<lparr>it_entry = b, it_parent = NULL, it_index = of_nat j\<rparr>)"
    have "xs = b # ws @ concat (map bs' [Suc j..<n])" 
      using s(1) s(5) [folded i_def] p(5) later [OF order.refl] by (simp only: append_Nil)
    then show ?thesis using rem [OF s(6)] s(3,4) z(3) n'(1) by auto
  next
    fix it' assume s: "zs = []" "concat (map bs' [Suc (unat (it_index it))..<n]) = []" "it_entry it' = NULL"
      "it_parent it' = NULL" "pet_htable_iter_advance h1 ht' it = Inr (0, it')"
    have "xs = []" using s(1,2) p(5) later [of i] by (simp only: i_def append_Nil)
    then show ?thesis using rem [OF s(5)] s(3,4) z(3) by simp
  qed
  then obtain it' where r: "pet_htable_iter_remove h ht it fk = Inr (if xs = [] then 0 else -1, fr, h1(a := None), ht', it')"
    "iter_at bs' n it' xs" by blast
  have "entry_data (h1(a := None)) x = entry_data h x" if "x \<noteq> a" for x
    using that same_data_entry_data [OF u(3), of x] by (simp add: entry_data_def)
  then show ?thesis using r ok' b' ad n'(1)
    by (intro exI [of _ fr] exI [of _ "h1(a := None)"] exI [of _ ht'] exI [of _ it'] exI [of _ bs']) auto
qed

section \<open>Whole iterations\<close>

lemma iteration_list:
  assumes "bucketed h dh len tbl bs"
  shows "distinct (concat (map bs [0..<unat len]))" and "set (concat (map bs [0..<unat len])) = addrs len bs"
proof -
  have d: "distinct (bs i)" if "i < unat len" for i using assms that by (simp add: bucketed_def)
  have disj: "set (bs i) \<inter> set (bs j) = {}" if "i < unat len" "j < unat len" "i \<noteq> j" for i j
    using bucketed_disjoint [OF assms that(1,2)] that(3) by blast
  have "distinct (concat (map bs [0..<m]))" if "m \<le> unat len" for m
    using that
  proof (induction m)
    case (Suc m)
    have "set (bs i) \<inter> set (bs m) = {}" if "i < m" for i using disj [of i m] Suc.prems that by simp
    then have "set (concat (map bs [0..<m])) \<inter> set (bs m) = {}" by fastforce
    then show ?case using Suc d [of m] by simp
  qed simp
  then show "distinct (concat (map bs [0..<unat len]))" by simp
  show "set (concat (map bs [0..<unat len])) = addrs len bs" by (auto simp: addrs_def)
qed

lemma iter_visits_spec:
  assumes b: "bucketed h (do_hash ht) (table_length ht) (ht_table ht) bs"
    and "iter_at bs (unat (table_length ht)) it xs"
    and "set xs \<subseteq> addrs (table_length ht) bs"
  shows "iter_visits h ht it acc = ret (acc @ map (\<lambda>a. the (entry_data h a)) xs)"
  using assms(2,3)
proof (induction xs arbitrary: it acc)
  case Nil
  then show ?case by (subst iter_visits.simps) simp
next
  case (Cons a xs)
  then obtain e where e: "h a = Some e" "a \<noteq> NULL" using bucketed_entry [OF b, of a] by auto
  have ent: "it_entry it = a" using Cons.prems(1) by auto
  obtain it' where adv: "pet_htable_iter_advance h ht it = Inr (if xs = [] then 0 else -1, it')"
    "iter_at bs (unat (table_length ht)) it' xs"
    using advance_spec [OF b Cons.prems(1)] by blast
  have "iter_visits h ht it acc = iter_visits h ht it' (acc @ [(he_key e, he_value e)])"
    using e ent adv(1)
    by (subst iter_visits.simps) (simp add: pet_htable_get_iter_key_def pet_htable_get_iter_value_def deref_def)
  then show ?case using Cons.IH [OF adv(2)] Cons.prems(2) e by (simp add: entry_data_def)
qed

lemma iter_clear_spec:
  assumes "htable_ok h ht A" and "bucketed h (do_hash ht) (table_length ht) (ht_table ht) bs"
    and "A = addrs (table_length ht) bs" and "iter_at bs (unat (table_length ht)) it xs"
    and "distinct xs"
  shows "\<exists>h' ht'. iter_clear h ht it = ret (h', ht') \<and> htable_ok h' ht' (A - set xs)
           \<and> (\<forall>x \<in> set xs. h' x = None) \<and> (\<forall>x. x \<notin> set xs \<longrightarrow> entry_data h' x = entry_data h x)"
  using assms
proof (induction xs arbitrary: h ht A bs it)
  case Nil
  then show ?case by (subst iter_clear.simps) simp
next
  case (Cons a xs)
  from iter_remove_spec [OF Cons.prems(1-4), of False] obtain fr h1 ht1 it1 bs1 where
    r: "pet_htable_iter_remove h ht it False = Inr (if xs = [] then 0 else -1, fr, h1, ht1, it1)"
      "h1 a = None" "\<forall>x. x \<noteq> a \<longrightarrow> entry_data h1 x = entry_data h x" "htable_ok h1 ht1 (A - {a})"
      "bucketed h1 (do_hash ht1) (table_length ht1) (ht_table ht1) bs1"
      "A - {a} = addrs (table_length ht1) bs1" "iter_at bs1 (unat (table_length ht1)) it1 xs"
    by (elim exE conjE) (rule that)
  from Cons.prems(4) obtain ys zs where "unat (it_index it) < unat (table_length ht)"
    "bs (unat (it_index it)) = ys @ a # zs" by auto
  then have "a \<in> A" unfolding Cons.prems(3) by (intro addrsI) auto
  then have "it_entry it \<noteq> NULL"
    using bucketed_entry [OF Cons.prems(2), of a] Cons.prems(3,4) by auto
  then have "iter_clear h ht it = iter_clear h1 ht1 it1"
    using r(1) by (subst iter_clear.simps) simp
  moreover from Cons.IH [OF r(4-7)] Cons.prems(5) obtain h' ht' where
    "iter_clear h1 ht1 it1 = ret (h', ht')" "htable_ok h' ht' (A - {a} - set xs)"
    "\<forall>x \<in> set xs. h' x = None" "\<forall>x. x \<notin> set xs \<longrightarrow> entry_data h' x = entry_data h1 x" by auto
  moreover from this(4) have "h' a = None"
    using r(2) Cons.prems(5) by (auto simp: entry_data_def)
  moreover have "A - {a} - set xs = A - set (a # xs)" by auto
  ultimately show ?case using r(3) by (intro exI [of _ h'] exI [of _ ht']) auto
qed

section \<open>Properties\<close>

text \<open>
  C29: on a well-formed table a fresh iterator is created, the client's loop of reading and
  advancing ends, and it delivers the key and value of every entry exactly once.
\<close>

theorem iteration_visits_each_entry_once:
  assumes "htable_ok h ht A"
  shows "\<exists>it as. pet_htable_create_iter ht True = Inr (Some it) \<and> distinct as \<and> set as = A
           \<and> iter_visits h ht it [] = ret (map (\<lambda>a. the (entry_data h a)) as)"
proof -
  from assms obtain bs where b: "bucketed h (do_hash ht) (table_length ht) (ht_table ht) bs"
    and A: "A = addrs (table_length ht) bs" and c: "unat (entry_count ht) = card A"
    by (auto simp: htable_ok_def htable_rep_def)
  note xs = iteration_list [OF b]
  obtain it where it: "pet_htable_create_iter ht True = Inr (Some it)"
    "iter_at bs (unat (table_length ht)) it (concat (map bs [0..<unat (table_length ht)]))"
    using create_iter_spec [OF b] c A by blast
  show ?thesis using it(1) xs iter_visits_spec [OF b it(2)] A by fastforce
qed

theorem iteration_visits_each_entry_once_witness:
  "\<exists>h1 ht1 it. pet_htable_insert Map.empty small_table 7 42 (grants 0x1000) = ret (-1, h1, ht1)
     \<and> pet_htable_create_iter ht1 True = Inr (Some it) \<and> iter_visits h1 ht1 it [] = ret [(7, 42)]"
proof -
  from insert_spec [of Map.empty small_table "{}" "grants 0x1000" 7 42] small_table_inv
  obtain h1 ht1 where i: "pet_htable_insert Map.empty small_table 7 42 (grants 0x1000) = ret (-1, h1, ht1)"
    "htable_ok h1 ht1 {0x1000}" "entry_data h1 0x1000 = Some (7, 42)" by auto
  from iteration_visits_each_entry_once [OF i(2)] obtain it as where
    as: "pet_htable_create_iter ht1 True = Inr (Some it)" "distinct as" "set as = {0x1000}"
      "iter_visits h1 ht1 it [] = ret (map (\<lambda>a. the (entry_data h1 a)) as)" by blast
  have "length as = Suc 0" using distinct_card [OF as(2)] as(3) by simp
  then obtain x where "as = [x]" by (auto simp: length_Suc_conv)
  with as(3) have "as = [0x1000]" by simp
  then show ?thesis using i as by auto
qed

text \<open>
  Removing at every position of an iteration visits every entry too, although each removal
  relinks the chain under the iterator: the loop ends with a well-formed empty table in which
  every cell has been freed, and memory outside the table keeps its keys and values.
\<close>

theorem removing_iteration_empties_table:
  assumes "htable_ok h ht A"
  shows "\<exists>it h' ht'. pet_htable_create_iter ht True = Inr (Some it) \<and> iter_clear h ht it = ret (h', ht')
           \<and> htable_ok h' ht' {} \<and> pet_htable_count ht' = 0 \<and> (\<forall>a \<in> A. h' a = None)
           \<and> (\<forall>a. a \<notin> A \<longrightarrow> entry_data h' a = entry_data h a)"
proof -
  from assms obtain bs where b: "bucketed h (do_hash ht) (table_length ht) (ht_table ht) bs"
    and A: "A = addrs (table_length ht) bs" and c: "unat (entry_count ht) = card A"
    by (auto simp: htable_ok_def htable_rep_def)
  note xs = iteration_list [OF b]
  obtain it where it: "pet_htable_create_iter ht True = Inr (Some it)"
    "iter_at bs (unat (table_length ht)) it (concat (map bs [0..<unat (table_length ht)]))"
    using create_iter_spec [OF b] c A by blast
  from iter_clear_spec [OF assms b A it(2) xs(1)] obtain h' ht' where
    "iter_clear h ht it = ret (h', ht')" "htable_ok h' ht' {}" "\<forall>a \<in> A. h' a = None"
    "\<forall>a. a \<notin> A \<longrightarrow> entry_data h' a = entry_data h a" unfolding xs(2) A by auto
  moreover from this(2) have "pet_htable_count ht' = 0"
    by (auto simp: htable_ok_def pet_htable_count_def unat_eq_0)
  ultimately show ?thesis using it(1) by blast
qed

theorem removing_iteration_empties_table_witness:
  "\<exists>h1 ht1 it h' ht'. pet_htable_insert Map.empty small_table 7 42 (grants 0x1000) = ret (-1, h1, ht1)
     \<and> pet_htable_create_iter ht1 True = Inr (Some it) \<and> iter_clear h1 ht1 it = ret (h', ht')
     \<and> pet_htable_count ht' = 0 \<and> h' 0x1000 = None"
proof -
  from insert_spec [of Map.empty small_table "{}" "grants 0x1000" 7 42] small_table_inv
  obtain h1 ht1 where i: "pet_htable_insert Map.empty small_table 7 42 (grants 0x1000) = ret (-1, h1, ht1)"
    "htable_ok h1 ht1 {0x1000}" by auto
  from removing_iteration_empties_table [OF i(2)] i(1) show ?thesis by auto
qed

end
