(* ===== verification/PetThread.thy ===== *)
theory PetThread
  imports Prelude
begin

text \<open>
  The scheduler of \<open>src/Threads/pet_thread.c\<close>.  Thread structures live in a heap indexed by their
  address; \<open>free\<close> unmaps one and a later access is a fault.  \<open>ready_list\<close>, \<open>blocked_list\<close> and the
  lists of waiting threads are the sequences that the intrusive lists of \<open>PetList\<close> represent:
  \<open>list_add_tail\<close> appends and \<open>list_del\<close> removes a node from whichever list it is linked in.
  An operation that switches stacks runs up to the end of \<open>pet_thread_cleanup\<close>, which
  \<open>__switch_to_stack\<close> calls on the new stack before the thread switched to goes on.  The debug
  output under \<open>VERBOSE\<close> is switched off in the source and left out.
\<close>

section \<open>Data\<close>

datatype thread_run_state =
  PET_THREAD_STOPPED | PET_THREAD_RUNNING | PET_THREAD_READY | PET_THREAD_BLOCKED

text \<open>
  The list head \<open>waiting_for_me_list\<close> is initialised by \<open>pet_thread_create\<close> only; the one of
  \<open>master_dummy_thread\<close> stays zero, which is \<open>None\<close> here.
\<close>

record pet_thread =
  t_id :: u64
  t_func :: u64
  t_stack_bottom :: u64
  t_stack_rsp :: u64
  t_state :: thread_run_state
  t_waiting :: "u64 list option"
  t_ret :: u64

text \<open>The static variables; \<open>master\<close> is the address of \<open>master_dummy_thread\<close>.\<close>

record sched =
  threads :: "u64 \<Rightarrow> pet_thread option"
  master :: u64
  ready_list :: "u64 list"
  blocked_list :: "u64 list"
  running :: u64
  stopped :: u64
  current_id :: u64
  thread_id_count :: "32 word"

definition PET_MASTER_THREAD_ID :: u64 where
  "PET_MASTER_THREAD_ID = 0"

definition STACK_SIZE :: u64 where
  "STACK_SIZE = 4096 * 32"

section \<open>Access to threads and lists\<close>

definition thread_at :: "sched \<Rightarrow> u64 \<Rightarrow> pet_thread res" where
  "thread_at s p =
     (case threads s p of
        Some t \<Rightarrow> Inr t
      | None \<Rightarrow> Inl (if p = NULL then BadDeref NULL else UseAfterFree p))"

definition upd_thread :: "u64 \<Rightarrow> (pet_thread \<Rightarrow> pet_thread) \<Rightarrow> sched \<Rightarrow> sched" where
  "upd_thread p f s = s\<lparr>threads := (threads s)(p := map_option f (threads s p))\<rparr>"

definition set_state :: "u64 \<Rightarrow> thread_run_state \<Rightarrow> sched \<Rightarrow> sched" where
  "set_state p st = upd_thread p (\<lambda>t. t\<lparr>t_state := st\<rparr>)"

text \<open>
  \<open>list_del (&thread->list)\<close>: a node that is in no list has poisoned or uninitialised links.
\<close>

definition thread_list_del :: "u64 \<Rightarrow> sched \<Rightarrow> sched res" where
  "thread_list_del p s =
     (if p \<in> set (ready_list s) then Inr (s\<lparr>ready_list := remove1 p (ready_list s)\<rparr>)
      else if p \<in> set (blocked_list s) then Inr (s\<lparr>blocked_list := remove1 p (blocked_list s)\<rparr>)
      else Inl (BadDeref p))"

text \<open>
  \<open>list_add_tail (&thread->list, ...)\<close>: linking a node that is still linked elsewhere makes the
  two lists share it, so that neither is a list any more.
\<close>

definition ready_add_tail :: "u64 \<Rightarrow> sched \<Rightarrow> sched res" where
  "ready_add_tail p s =
     (if p \<in> set (ready_list s) \<union> set (blocked_list s) then Inl WildWrite
      else Inr (s\<lparr>ready_list := ready_list s @ [p]\<rparr>))"

definition blocked_add_tail :: "u64 \<Rightarrow> sched \<Rightarrow> sched res" where
  "blocked_add_tail p s =
     (if p \<in> set (ready_list s) \<union> set (blocked_list s) then Inl WildWrite
      else Inr (s\<lparr>blocked_list := blocked_list s @ [p]\<rparr>))"

section \<open>Looking up threads\<close>

fun find_id :: "sched \<Rightarrow> u64 list \<Rightarrow> u64 \<Rightarrow> u64 option res" where
  "find_id s [] i = Inr None"
| "find_id s (p # ps) i =
     rbind (thread_at s p) (\<lambda>t. if t_id t = i then Inr (Some p) else find_id s ps i)"

definition get_thread :: "sched \<Rightarrow> u64 \<Rightarrow> u64 res" where
  "get_thread s i =
     (if i = PET_MASTER_THREAD_ID then Inr (master s)
      else rbind (thread_at s (running s)) (\<lambda>r.
        if t_id r = i then Inr (running s)
        else rbind (if stopped s \<noteq> NULL
                    then rbind (thread_at s (stopped s)) (\<lambda>t. Inr (t_id t = i))
                    else Inr False) (\<lambda>hit.
          if hit then Inr (stopped s)
          else rbind (find_id s (ready_list s) i) (\<lambda>r.
            case r of Some p \<Rightarrow> Inr p
            | None \<Rightarrow> rbind (find_id s (blocked_list s) i) (\<lambda>r.
                case r of Some p \<Rightarrow> Inr p | None \<Rightarrow> Inr NULL)))))"

definition get_thread_id :: "sched \<Rightarrow> u64 \<Rightarrow> u64 res" where
  "get_thread_id s p =
     (if p = master s then Inr PET_MASTER_THREAD_ID
      else if p \<noteq> NULL then rbind (thread_at s p) (\<lambda>t. Inr (t_id t))
      else Inr 0)"

section \<open>Initialisation and creation\<close>

definition pet_thread_init :: "sched \<Rightarrow> sched" where
  "pet_thread_init s =
     upd_thread (master s) (\<lambda>t. t\<lparr>t_state := PET_THREAD_RUNNING, t_id := PET_MASTER_THREAD_ID\<rparr>)
       (s\<lparr>ready_list := [], blocked_list := [], running := master s\<rparr>)"

text \<open>
  \<open>pet_thread_create\<close>: \<open>p\<close> and \<open>sb\<close> are the addresses that \<open>malloc\<close> and \<open>calloc\<close> return, which
  the code does not compare with \<open>NULL\<close>.  The new thread's stack pointer is the address of the
  saved context, 16 words below the end of the stack.
\<close>

definition pet_thread_create :: "u64 \<Rightarrow> u64 \<Rightarrow> u64 \<Rightarrow> sched \<Rightarrow> (u64 \<times> sched) res" where
  "pet_thread_create p sb func s =
     (if p = NULL then Inl (BadDeref NULL)
      else if sb = NULL then Inl (BadDeref (STACK_SIZE - 16 * 8))
      else
        let i = scast (thread_id_count s);
            t = \<lparr>t_id = i, t_func = func, t_stack_bottom = sb,
                 t_stack_rsp = sb + (STACK_SIZE div 8 - 16) * 8,
                 t_state = PET_THREAD_READY, t_waiting = Some [], t_ret = NULL\<rparr>
        in rbind (ready_add_tail p (s\<lparr>threads := (threads s)(p \<mapsto> t),
                                       thread_id_count := thread_id_count s + 1\<rparr>)) (\<lambda>s.
           Inr (i, s)))"

section \<open>Switching\<close>

definition pet_thread_cleanup :: "u64 \<Rightarrow> u64 \<Rightarrow> sched \<Rightarrow> sched res" where
  "pet_thread_cleanup prev_id my_id s =
     rbind (get_thread s prev_id) (\<lambda>prev.
     rbind (thread_at s prev) (\<lambda>t.
     if t_state t = PET_THREAD_STOPPED then Inr (s\<lparr>threads := (threads s)(prev := None)\<rparr>)
     else Inr s))"

definition thread_invoker :: "u64 \<Rightarrow> sched \<Rightarrow> sched res" where
  "thread_invoker p s =
     rbind (thread_at s p) (\<lambda>t.
     rbind (check (t_state t = PET_THREAD_READY) AssertFail) (\<lambda>_.
     rbind (thread_at s (running s)) (\<lambda>r.
     rbind (check (t_state r \<noteq> PET_THREAD_READY) AssertFail) (\<lambda>_.
     let old = running s;
         s = s\<lparr>running := p\<rparr>
     in rbind (if p \<noteq> master s then thread_list_del p s else Inr s) (\<lambda>s.
        rbind (thread_at s old) (\<lambda>old_thread.
        rbind (case t_state old_thread of
                 PET_THREAD_RUNNING \<Rightarrow>
                   rbind (if old \<noteq> master s then ready_add_tail old s else Inr s) (\<lambda>s.
                   Inr (set_state old PET_THREAD_READY s))
               | PET_THREAD_BLOCKED \<Rightarrow> blocked_add_tail old s
               | PET_THREAD_STOPPED \<Rightarrow> Inr (s\<lparr>stopped := old\<rparr>)
               | PET_THREAD_READY \<Rightarrow> Inr s) (\<lambda>s.
        let s = (set_state p PET_THREAD_RUNNING s)\<lparr>current_id := t_id t\<rparr>
        in pet_thread_cleanup (t_id old_thread) (t_id t) s)))))))"

definition pet_thread_schedule :: "sched \<Rightarrow> sched res" where
  "pet_thread_schedule s =
     (if ready_list s = [] \<and> running s \<noteq> master s then thread_invoker (master s) s
      else case ready_list s of
        [] \<Rightarrow> Inr s
      | p # _ \<Rightarrow>
          rbind (thread_at s p) (\<lambda>t.
          rbind (check (t_state t = PET_THREAD_READY) AssertFail) (\<lambda>_.
          thread_invoker p s)))"

definition pet_thread_run :: "sched \<Rightarrow> sched res" where
  "pet_thread_run s = pet_thread_schedule s"

definition yield_to_thread :: "u64 \<Rightarrow> sched \<Rightarrow> sched res" where
  "yield_to_thread p s =
     (if p = NULL then pet_thread_schedule s
      else rbind (thread_at s p) (\<lambda>t.
        if t_state t \<noteq> PET_THREAD_READY then pet_thread_schedule s
        else thread_invoker p s))"

definition pet_thread_yield_to :: "u64 \<Rightarrow> sched \<Rightarrow> sched res" where
  "pet_thread_yield_to i s = rbind (get_thread s i) (\<lambda>p. yield_to_thread p s)"

section \<open>Joining and exiting\<close>

text \<open>
  \<open>pet_thread_join\<close> up to the switch, and the assignment it makes when the joining thread runs
  again; \<open>malloc_ok\<close> is the unchecked answer of \<open>malloc\<close>.
\<close>

definition pet_thread_join :: "u64 \<Rightarrow> bool \<Rightarrow> sched \<Rightarrow> (int \<times> sched) res" where
  "pet_thread_join i malloc_ok s =
     rbind (get_thread s i) (\<lambda>p.
     if p = NULL then Inr (-1, s)
     else
       rbind (thread_at s (running s)) (\<lambda>r.
       rbind (check (t_state r = PET_THREAD_RUNNING) AssertFail) (\<lambda>_.
       let s = set_state (running s) PET_THREAD_BLOCKED s in
       if \<not> malloc_ok then Inl (BadDeref NULL)
       else
         rbind (thread_at s p) (\<lambda>t.
         case t_waiting t of
           None \<Rightarrow> Inl (BadDeref NULL)
         | Some ws \<Rightarrow>
             rbind (pet_thread_schedule
                      (upd_thread p (\<lambda>t. t\<lparr>t_waiting := Some (ws @ [running s])\<rparr>) s)) (\<lambda>s.
             Inr (0, s))))))"

definition join_resume :: "sched \<Rightarrow> u64 res" where
  "join_resume s = rbind (thread_at s (running s)) (\<lambda>r. Inr (t_ret r))"

text \<open>One iteration of the loop of \<open>__quarantine\<close> over the waiting threads.\<close>

definition wake_waiter :: "u64 \<Rightarrow> u64 \<Rightarrow> sched \<Rightarrow> sched res" where
  "wake_waiter ret_val w s =
     rbind (thread_at s w) (\<lambda>t.
     rbind (check (t_state t = PET_THREAD_BLOCKED) AssertFail) (\<lambda>_.
     rbind (thread_list_del w
              (upd_thread w (\<lambda>t. t\<lparr>t_ret := ret_val, t_state := PET_THREAD_READY\<rparr>) s)) (\<lambda>s.
     ready_add_tail w s)))"

definition quarantine :: "u64 \<Rightarrow> sched \<Rightarrow> sched res" where
  "quarantine ret_val s =
     rbind (thread_at s (running s)) (\<lambda>r.
     case t_waiting r of
       None \<Rightarrow> Inl (BadDeref NULL)
     | Some ws \<Rightarrow>
         rbind (rfold (wake_waiter ret_val) ws s) (\<lambda>s.
         let s = upd_thread (running s) (\<lambda>t. t\<lparr>t_waiting := Some []\<rparr>) s in
         rbind (thread_at s (running s)) (\<lambda>r.
         rbind (check (t_state r = PET_THREAD_RUNNING) AssertFail) (\<lambda>_.
         rbind (check (running s \<noteq> master s) AssertFail) (\<lambda>_.
         pet_thread_schedule (set_state (running s) PET_THREAD_STOPPED s))))))"

definition pet_thread_exit :: "u64 \<Rightarrow> sched \<Rightarrow> sched res" where
  "pet_thread_exit ret_val s = quarantine ret_val s"

end
