(* ===== verification/PetThreadInv.thy ===== *)
theory PetThreadInv
  imports PetThread
begin

text \<open>
  The invariant of the scheduler and the effect of its operations.  Every switch is described by
  one function, \<open>switched\<close>, from which the round-robin order, the hand-over of return values to
  joining threads and the preservation of the invariant follow.
\<close>

section \<open>Well-formed schedulers\<close>

definition ids_unique :: "sched \<Rightarrow> bool" where
  "ids_unique s \<longleftrightarrow>
     (\<forall>p q t u. threads s p = Some t \<longrightarrow> threads s q = Some u \<longrightarrow> t_id t = t_id u \<longrightarrow> p = q)"

definition base :: "sched \<Rightarrow> bool" where
  "base s \<longleftrightarrow>
     (\<exists>m. threads s (master s) = Some m \<and> t_id m = PET_MASTER_THREAD_ID)
     \<and> ids_unique s \<and> threads s (running s) \<noteq> None \<and> threads s NULL = None
     \<and> (\<forall>p \<in> set (ready_list s @ blocked_list s). threads s p \<noteq> None)
     \<and> distinct (ready_list s @ blocked_list s)"

text \<open>\<open>stopped\<close> is either null or points to a thread that has not been freed.\<close>

definition stopped_ok :: "sched \<Rightarrow> bool" where
  "stopped_ok s \<longleftrightarrow> stopped s = NULL \<or> threads s (stopped s) \<noteq> None"

definition has_state :: "sched \<Rightarrow> thread_run_state \<Rightarrow> u64 \<Rightarrow> bool" where
  "has_state s st p \<longleftrightarrow> (\<exists>t. threads s p = Some t \<and> t_state t = st)"

definition visible :: "sched \<Rightarrow> u64 \<Rightarrow> bool" where
  "visible s p \<longleftrightarrow> p = master s \<or> p = running s \<or> p = stopped s
     \<or> p \<in> set (ready_list s) \<or> p \<in> set (blocked_list s)"

lemma thread_at_Some [simp]: "threads s p = Some t \<Longrightarrow> thread_at s p = Inr t"
  by (simp add: thread_at_def)

lemma thread_at_eq_Inr: "thread_at s p = Inr t \<longleftrightarrow> threads s p = Some t"
  by (simp add: thread_at_def split: option.splits)

lemma ids_uniqueD:
  "ids_unique s \<Longrightarrow> threads s p = Some t \<Longrightarrow> threads s q = Some u \<Longrightarrow> t_id t = t_id u \<Longrightarrow> p = q"
  unfolding ids_unique_def by blast

lemma base_live:
  "base s \<Longrightarrow> p \<in> set (ready_list s) \<or> p \<in> set (blocked_list s) \<Longrightarrow> \<exists>t. threads s p = Some t"
  by (fastforce simp: base_def)

section \<open>Looking up a thread\<close>

lemma find_id_hit:
  assumes "ids_unique s" and "\<forall>q \<in> set xs. threads s q \<noteq> None" and "threads s p = Some t" and "p \<in> set xs"
  shows "find_id s xs (t_id t) = Inr (Some p)"
  using assms
proof (induction xs)
  case (Cons q xs)
  then obtain u where u: "threads s q = Some u" by auto
  show ?case
  proof (cases "q = p")
    case False
    then have "t_id u \<noteq> t_id t" using ids_uniqueD [OF Cons.prems(1) u Cons.prems(3)] by blast
    then show ?thesis using u Cons False by simp
  qed (use u Cons.prems in simp)
qed simp

lemma find_id_miss:
  assumes "\<forall>q \<in> set xs. \<exists>u. threads s q = Some u \<and> t_id u \<noteq> i"
  shows "find_id s xs i = Inr None"
  using assms by (induction xs) (auto simp: thread_at_def)

lemma get_thread_visible:
  assumes b: "base s" and st: "stopped_ok s" and v: "visible s p" and t: "threads s p = Some t"
  shows "get_thread s (t_id t) = Inr p"
proof -
  from b obtain m r where m: "threads s (master s) = Some m" "t_id m = PET_MASTER_THREAD_ID"
    and r: "threads s (running s) = Some r" and u: "ids_unique s"
    by (auto simp: base_def)
  have hit: "threads s q = Some w \<Longrightarrow> t_id w = t_id t \<longleftrightarrow> q = p" for q w
    using ids_uniqueD [OF u] t by auto
  have nul: "p \<noteq> NULL" using b t by (auto simp: base_def)
  show ?thesis
  proof (cases "p = master s \<or> p = running s")
    case True
    show ?thesis
    proof (cases "p = master s")
      case True
      then have "t = m" using m(1) t by simp
      then show ?thesis using m(2) True by (simp add: get_thread_def)
    next
      case False
      then have "p = running s" "t = r" using True r t by auto
      moreover have "t_id t \<noteq> PET_MASTER_THREAD_ID" using hit [OF m(1)] m(2) False by auto
      ultimately show ?thesis using r by (simp add: get_thread_def)
    qed
  next
    case False
    then have n: "t_id t \<noteq> PET_MASTER_THREAD_ID" "t_id r \<noteq> t_id t"
      using hit [OF m(1)] hit [OF r] m by auto
    have st': "(if stopped s \<noteq> NULL then rbind (thread_at s (stopped s)) (\<lambda>w. Inr (t_id w = t_id t)) else Inr False)
        = Inr (stopped s = p)"
      using st nul hit by (auto simp: stopped_ok_def)
    have live: "\<forall>q \<in> set (ready_list s). threads s q \<noteq> None" "\<forall>q \<in> set (blocked_list s). threads s q \<noteq> None"
      using b by (auto simp: base_def)
    have miss: "find_id s (ready_list s) (t_id t) = Inr None" if "p \<notin> set (ready_list s)"
      by (rule find_id_miss) (use that live(1) hit in fastforce)
    consider "stopped s = p" | "stopped s \<noteq> p" "p \<in> set (ready_list s)"
      | "stopped s \<noteq> p" "p \<notin> set (ready_list s)" "p \<in> set (blocked_list s)"
      using v False by (auto simp: visible_def)
    then show ?thesis
      using n r st' find_id_hit [OF u live(1) t] find_id_hit [OF u live(2) t] miss
      by cases (simp_all add: get_thread_def)
  qed
qed

text \<open>With a dangling \<open>stopped\<close> the lookup may fault, but it never finds another thread.\<close>

lemma get_thread_only:
  assumes b: "base s" and v: "visible s p" and t: "threads s p = Some t"
    and g: "get_thread s (t_id t) = Inr q"
  shows "q = p"
proof (cases "stopped_ok s")
  case True
  then show ?thesis using get_thread_visible [OF b True v t] g by simp
next
  case False
  then have st: "stopped s \<noteq> NULL" "thread_at s (stopped s) = Inl (UseAfterFree (stopped s))"
    by (auto simp: stopped_ok_def thread_at_def)
  have "base (s\<lparr>stopped := NULL\<rparr>)" "stopped_ok (s\<lparr>stopped := NULL\<rparr>)"
    using b by (auto simp: base_def ids_unique_def stopped_ok_def)
  moreover have "visible (s\<lparr>stopped := NULL\<rparr>) p" "threads (s\<lparr>stopped := NULL\<rparr>) p = Some t"
    using v t False by (auto simp: visible_def stopped_ok_def)
  ultimately have "get_thread (s\<lparr>stopped := NULL\<rparr>) (t_id t) = Inr p" by (rule get_thread_visible)
  moreover have "thread_at (s\<lparr>stopped := NULL\<rparr>) = thread_at s" by (simp add: thread_at_def fun_eq_iff)
  ultimately show ?thesis
    using g st by (auto simp: get_thread_def split: if_splits)
qed

section \<open>The effect of a switch\<close>

text \<open>
  \<open>switched p s\<close>: \<open>p\<close> runs; the thread that ran goes to the end of the ready list, to the end of
  the blocked list, or away, according to its state.
\<close>

definition switched :: "u64 \<Rightarrow> sched \<Rightarrow> sched" where
  "switched p s =
     (let old = running s;
          ost = t_state (the (threads s old));
          t = the (threads s p);
          th = (threads s)(old := (if ost = PET_THREAD_STOPPED then None
                  else map_option (\<lambda>ot. if ost = PET_THREAD_RUNNING then ot\<lparr>t_state := PET_THREAD_READY\<rparr> else ot)
                         (threads s old)))
      in s\<lparr>threads := th(p \<mapsto> t\<lparr>t_state := PET_THREAD_RUNNING\<rparr>),
           ready_list := remove1 p (ready_list s)
             @ (if ost = PET_THREAD_RUNNING \<and> old \<noteq> master s then [old] else []),
           blocked_list := blocked_list s @ (if ost = PET_THREAD_BLOCKED then [old] else []),
           running := p, stopped := (if ost = PET_THREAD_STOPPED then old else stopped s),
           current_id := t_id t\<rparr>)"

text \<open>What a switch to \<open>p\<close> needs.\<close>

definition can_switch :: "u64 \<Rightarrow> sched \<Rightarrow> bool" where
  "can_switch p s \<longleftrightarrow>
     base s
     \<and> (\<exists>t. threads s p = Some t \<and> t_state t = PET_THREAD_READY)
     \<and> (\<exists>ot. threads s (running s) = Some ot \<and> t_state ot \<noteq> PET_THREAD_READY)
     \<and> running s \<notin> set (ready_list s @ blocked_list s)
     \<and> (if p = master s then p \<notin> set (ready_list s) else p \<in> set (ready_list s))"

lemma upd_thread_sel [simp]:
  "threads (upd_thread p f s) = (threads s)(p := map_option f (threads s p))"
  "master (upd_thread p f s) = master s" "ready_list (upd_thread p f s) = ready_list s"
  "blocked_list (upd_thread p f s) = blocked_list s" "running (upd_thread p f s) = running s"
  "stopped (upd_thread p f s) = stopped s" "current_id (upd_thread p f s) = current_id s"
  "thread_id_count (upd_thread p f s) = thread_id_count s"
  by (simp_all add: upd_thread_def)

text \<open>The state just before \<open>__switch_to_stack\<close>, when the old thread is still allocated.\<close>

definition about_to_switch :: "u64 \<Rightarrow> sched \<Rightarrow> sched" where
  "about_to_switch p s =
     (let old = running s; ot = the (threads s old)
      in (switched p s)\<lparr>threads := (threads (switched p s))(old \<mapsto>
            if t_state ot = PET_THREAD_RUNNING then ot\<lparr>t_state := PET_THREAD_READY\<rparr> else ot)\<rparr>)"

lemma invoker_about_to_switch:
  assumes c: "can_switch p s" and ot: "threads s (running s) = Some ot" and t: "threads s p = Some t"
  shows "thread_invoker p s = pet_thread_cleanup (t_id ot) (t_id t) (about_to_switch p s)"
proof -
  have rdy: "t_state t = PET_THREAD_READY" and nr: "t_state ot \<noteq> PET_THREAD_READY"
    using c ot t by (auto simp: can_switch_def)
  then have ne: "p \<noteq> running s" using ot t by auto
  have d: "distinct (ready_list s @ blocked_list s)" using c by (auto simp: can_switch_def base_def)
  have old: "running s \<notin> set (ready_list s)" "running s \<notin> set (blocked_list s)"
    using c by (auto simp: can_switch_def)
  have del: "(if p \<noteq> master s then thread_list_del p (s\<lparr>running := p\<rparr>) else Inr (s\<lparr>running := p\<rparr>))
     = Inr (s\<lparr>running := p, ready_list := remove1 p (ready_list s)\<rparr>)"
    using c by (auto simp: can_switch_def thread_list_del_def remove1_idem)
  have old': "running s \<notin> set (remove1 p (ready_list s))" using old(1) set_remove1_subset by fast
  note unf = thread_invoker_def Let_def del ready_add_tail_def blocked_add_tail_def
    about_to_switch_def switched_def set_state_def upd_thread_def
  show ?thesis
  proof (cases "t_state ot")
    case PET_THREAD_STOPPED
    then show ?thesis using ot t rdy ne
      by (simp add: unf) (cases s, simp add: fun_upd_twist fun_upd_idem)
  next
    case PET_THREAD_RUNNING
    then show ?thesis using ot t rdy ne old old'
      by (simp add: unf) (cases s, auto simp: fun_upd_twist)
  next
    case PET_THREAD_BLOCKED
    then show ?thesis using ot t rdy ne old old'
      by (simp add: unf) (cases s, simp add: fun_upd_twist fun_upd_idem)
  qed (use nr in simp)
qed

lemma cleanup_effect:
  assumes "base s" and "stopped_ok s" and "visible s q" and "threads s q = Some t"
  shows "pet_thread_cleanup (t_id t) i s =
           Inr (if t_state t = PET_THREAD_STOPPED then s\<lparr>threads := (threads s)(q := None)\<rparr> else s)"
  using get_thread_visible [OF assms] assms(4) by (simp add: pet_thread_cleanup_def)

lemma about_to_switch_base:
  assumes c: "can_switch p s"
  shows "base (about_to_switch p s)"
    and "has_state s PET_THREAD_STOPPED (running s) \<or> stopped_ok s \<Longrightarrow> stopped_ok (about_to_switch p s)"
    and "visible (about_to_switch p s) (running s)"
proof -
  from c obtain t ot where t: "threads s p = Some t" "t_state t = PET_THREAD_READY"
    and ot: "threads s (running s) = Some ot" "t_state ot \<noteq> PET_THREAD_READY"
    and b: "base s" and out: "running s \<notin> set (ready_list s @ blocked_list s)"
    by (auto simp: can_switch_def)
  define a where "a = about_to_switch p s"
  define ot' where "ot' = (if t_state ot = PET_THREAD_RUNNING then ot\<lparr>t_state := PET_THREAD_READY\<rparr> else ot)"
  have ne: "p \<noteq> running s" using t ot by auto
  have sel: "threads a = (threads s)(p \<mapsto> t\<lparr>t_state := PET_THREAD_RUNNING\<rparr>, running s \<mapsto> ot')"
    "master a = master s" "running a = p"
    "ready_list a = remove1 p (ready_list s) @ (if t_state ot = PET_THREAD_RUNNING \<and> running s \<noteq> master s then [running s] else [])"
    "blocked_list a = blocked_list s @ (if t_state ot = PET_THREAD_BLOCKED then [running s] else [])"
    "stopped a = (if t_state ot = PET_THREAD_STOPPED then running s else stopped s)"
    using t ot ne by (simp_all add: a_def about_to_switch_def switched_def Let_def ot'_def fun_upd_twist)
  have dom: "threads a q = None \<longleftrightarrow> threads s q = None" for q
    using t ot ne by (simp add: sel)
  have ids: "map_option t_id (threads a q) = map_option t_id (threads s q)" for q
    using t ot ne by (simp add: sel ot'_def)
  have "ids_unique a"
    unfolding ids_unique_def
  proof (intro allI impI)
    fix q r u v assume q: "threads a q = Some u" "threads a r = Some v" "t_id u = t_id v"
    obtain u' where "threads s q = Some u'" "t_id u' = t_id u" using ids [of q] q(1) by (cases "threads s q") auto
    moreover obtain v' where "threads s r = Some v'" "t_id v' = t_id v" using ids [of r] q(2) by (cases "threads s r") auto
    ultimately show "q = r" using b q(3) ids_uniqueD [of s q u' r v'] by (simp add: base_def)
  qed
  moreover have "\<exists>m. threads a (master a) = Some m \<and> t_id m = PET_MASTER_THREAD_ID"
    using b ids [of "master s"] by (auto simp: base_def sel(2))
  moreover have "distinct (ready_list a @ blocked_list a)"
    using b out by (auto simp: base_def sel dest: in_set_remove1 [THEN iffD1, rotated] set_remove1_subset [THEN subsetD])
  moreover have "\<forall>q \<in> set (ready_list a @ blocked_list a). threads s q \<noteq> None"
    using b ot(1) by (auto simp: base_def sel split: if_splits dest: set_remove1_subset [THEN subsetD])
  ultimately show "base (about_to_switch p s)"
    using b t unfolding base_def a_def [symmetric] dom by (simp add: sel)
  show "stopped_ok (about_to_switch p s)" if "has_state s PET_THREAD_STOPPED (running s) \<or> stopped_ok s"
    using ot that unfolding has_state_def stopped_ok_def a_def [symmetric] dom by (auto simp: sel stopped_ok_def)
  show "visible (about_to_switch p s) (running s)"
    using ot(2) unfolding visible_def a_def [symmetric] sel by (cases "t_state ot") auto
qed

lemma after_switch:
  assumes c: "can_switch p s" and ot: "threads s (running s) = Some ot"
  shows "(if t_state ot = PET_THREAD_STOPPED
      then (about_to_switch p s)\<lparr>threads := (threads (about_to_switch p s))(running s := None)\<rparr>
      else about_to_switch p s) = switched p s"
proof -
  from c obtain t where t: "threads s p = Some t" "t_state t = PET_THREAD_READY"
    and r: "t_state ot \<noteq> PET_THREAD_READY"
    using ot by (auto simp: can_switch_def)
  then have ne: "p \<noteq> running s" using ot by auto
  have sw: "threads (switched p s) (running s) = (if t_state ot = PET_THREAD_STOPPED then None
      else Some (if t_state ot = PET_THREAD_RUNNING then ot\<lparr>t_state := PET_THREAD_READY\<rparr> else ot))"
    using ot ne by (simp add: switched_def Let_def)
  show ?thesis
    using ot sw by (simp add: about_to_switch_def Let_def fun_upd_idem [of _ "running s"])
qed

text \<open>
  A switch that returns has exactly this effect, and it does return unless \<open>stopped\<close> dangles.
\<close>

lemma invoker_effect:
  assumes c: "can_switch p s"
  shows "thread_invoker p s = Inr s' \<Longrightarrow> s' = switched p s"
    and "has_state s PET_THREAD_STOPPED (running s) \<or> stopped_ok s \<Longrightarrow> thread_invoker p s = Inr (switched p s)"
proof -
  from c obtain t ot where t: "threads s p = Some t"
    and ot: "threads s (running s) = Some ot" by (auto simp: can_switch_def)
  define ot' where "ot' = (if t_state ot = PET_THREAD_RUNNING then ot\<lparr>t_state := PET_THREAD_READY\<rparr> else ot)"
  have q: "threads (about_to_switch p s) (running s) = Some ot'"
    using ot by (simp add: about_to_switch_def Let_def ot'_def)
  have i: "t_id ot' = t_id ot" and st: "t_state ot' = PET_THREAD_STOPPED \<longleftrightarrow> t_state ot = PET_THREAD_STOPPED"
    by (simp_all add: ot'_def)
  note inv = invoker_about_to_switch [OF c ot t] and after = after_switch [OF c ot]
  note ab = about_to_switch_base [OF c]
  show "s' = switched p s" if "thread_invoker p s = Inr s'"
  proof -
    from that inv obtain r where r: "get_thread (about_to_switch p s) (t_id ot') = Inr r"
      by (auto simp: pet_thread_cleanup_def i)
    from get_thread_only [OF ab(1) ab(3) q r] have "r = running s" .
    with that inv after r q i st show ?thesis by (auto simp: pet_thread_cleanup_def split: if_splits)
  qed
  show "thread_invoker p s = Inr (switched p s)" if "has_state s PET_THREAD_STOPPED (running s) \<or> stopped_ok s"
    using inv cleanup_effect [OF ab(1) ab(2) [OF that] ab(3) q] i st after by simp
qed

section \<open>The invariant\<close>

definition waiters :: "sched \<Rightarrow> u64 \<Rightarrow> u64 list" where
  "waiters s p = (case threads s p of None \<Rightarrow> [] | Some t \<Rightarrow> (case t_waiting t of None \<Rightarrow> [] | Some ws \<Rightarrow> ws))"

text \<open>The waiting lists hold the threads of \<open>B\<close>, each exactly once.\<close>

definition waits_on :: "sched \<Rightarrow> u64 set \<Rightarrow> bool" where
  "waits_on s B \<longleftrightarrow>
     (\<forall>p t. threads s p = Some t \<longrightarrow> p \<noteq> master s \<longrightarrow> t_waiting t \<noteq> None)
     \<and> (\<forall>p. distinct (waiters s p) \<and> set (waiters s p) \<subseteq> B)
     \<and> (\<forall>p q. p \<noteq> q \<longrightarrow> set (waiters s p) \<inter> set (waiters s q) = {})
     \<and> (\<forall>b \<in> B. \<exists>p. b \<in> set (waiters s p))"

definition ids_below :: "sched \<Rightarrow> bool" where
  "ids_below s \<longleftrightarrow> (\<forall>p t. threads s p = Some t \<longrightarrow> unat (t_id t) < unat (thread_id_count s))"

text \<open>
  The part of the invariant that also holds while the running thread has changed its state and
  is about to give up the processor: the lists hold threads of the right state, every other
  thread except the master is in one of them, and the master never is.
\<close>

definition queues_ok :: "sched \<Rightarrow> bool" where
  "queues_ok s \<longleftrightarrow>
     running s \<notin> set (ready_list s @ blocked_list s) \<and> master s \<notin> set (ready_list s @ blocked_list s)
     \<and> (\<forall>p \<in> set (ready_list s). has_state s PET_THREAD_READY p)
     \<and> (\<forall>p \<in> set (blocked_list s). has_state s PET_THREAD_BLOCKED p)
     \<and> (running s \<noteq> master s \<longrightarrow> has_state s PET_THREAD_READY (master s))
     \<and> (\<forall>p. threads s p \<noteq> None \<longrightarrow>
          p = running s \<or> p = master s \<or> p \<in> set (ready_list s @ blocked_list s))"

definition leaving :: "thread_run_state \<Rightarrow> sched \<Rightarrow> bool" where
  "leaving st s \<longleftrightarrow>
     base s \<and> queues_ok s \<and> ids_below s \<and> has_state s st (running s)
     \<and> waits_on s (set (blocked_list s) \<union> (if st = PET_THREAD_BLOCKED then {running s} else {}))
     \<and> (st = PET_THREAD_STOPPED \<longrightarrow> waiters s (running s) = [])
     \<and> (running s = master s \<longrightarrow> st = PET_THREAD_RUNNING)"

abbreviation sched_inv :: "sched \<Rightarrow> bool" where
  "sched_inv s \<equiv> leaving PET_THREAD_RUNNING s"

text \<open>The thread that \<open>pet_thread_schedule\<close> picks.\<close>

definition next_thread :: "sched \<Rightarrow> u64" where
  "next_thread s = (case ready_list s of [] \<Rightarrow> master s | p # _ \<Rightarrow> p)"

section \<open>Switching keeps the invariant\<close>

lemma switched_sel:
  assumes "threads s p = Some t" and "threads s (running s) = Some ot" and "p \<noteq> running s"
  shows "threads (switched p s) = (threads s)(p \<mapsto> t\<lparr>t_state := PET_THREAD_RUNNING\<rparr>,
      running s := (if t_state ot = PET_THREAD_STOPPED then None
        else Some (if t_state ot = PET_THREAD_RUNNING then ot\<lparr>t_state := PET_THREAD_READY\<rparr> else ot)))"
    "master (switched p s) = master s" "running (switched p s) = p" "current_id (switched p s) = t_id t"
    "ready_list (switched p s) = remove1 p (ready_list s)
       @ (if t_state ot = PET_THREAD_RUNNING \<and> running s \<noteq> master s then [running s] else [])"
    "blocked_list (switched p s) = blocked_list s @ (if t_state ot = PET_THREAD_BLOCKED then [running s] else [])"
    "stopped (switched p s) = (if t_state ot = PET_THREAD_STOPPED then running s else stopped s)"
    "thread_id_count (switched p s) = thread_id_count s"
  using assms by (simp_all add: switched_def Let_def fun_upd_twist)

lemma leaving_can_switch:
  assumes l: "leaving st s" and st: "st \<noteq> PET_THREAD_READY"
    and p: "p \<in> set (ready_list s) \<or> (p = master s \<and> running s \<noteq> master s)"
  shows "can_switch p s"
proof -
  have "has_state s PET_THREAD_READY p" using l p by (auto simp: leaving_def queues_ok_def)
  moreover have "if p = master s then p \<notin> set (ready_list s) else p \<in> set (ready_list s)"
    using l p by (auto simp: leaving_def queues_ok_def)
  ultimately show ?thesis
    using l st unfolding can_switch_def leaving_def queues_ok_def has_state_def by auto
qed

lemma ids_unique_mono:
  assumes "ids_unique s" and "\<And>q u. threads s' q = Some u \<Longrightarrow> \<exists>v. threads s q = Some v \<and> t_id v = t_id u"
  shows "ids_unique s'"
  unfolding ids_unique_def using ids_uniqueD [OF assms(1)] assms(2) by metis

lemma ids_below_mono:
  assumes "ids_below s" and "\<And>q u. threads s' q = Some u \<Longrightarrow> \<exists>v. threads s q = Some v \<and> t_id v = t_id u"
    and "thread_id_count s' = thread_id_count s"
  shows "ids_below s'"
  unfolding ids_below_def using assms unfolding ids_below_def by metis

lemma switched_inv:
  assumes l: "leaving st s" and st: "st \<noteq> PET_THREAD_READY"
    and p: "p \<in> set (ready_list s) \<or> (p = master s \<and> running s \<noteq> master s)"
  shows "sched_inv (switched p s)"
proof -
  from l have b: "base s" and q: "queues_ok s" and idb: "ids_below s" and w: "waits_on s
      (set (blocked_list s) \<union> (if st = PET_THREAD_BLOCKED then {running s} else {}))"
    and stp: "st = PET_THREAD_STOPPED \<Longrightarrow> waiters s (running s) = []"
    and ms: "running s = master s \<Longrightarrow> st = PET_THREAD_RUNNING" by (auto simp: leaving_def)
  from l obtain ot where ot: "threads s (running s) = Some ot" "t_state ot = st"
    by (auto simp: leaving_def has_state_def)
  have "has_state s PET_THREAD_READY p" using q p by (auto simp: queues_ok_def)
  then obtain t where t: "threads s p = Some t" "t_state t = PET_THREAD_READY" by (auto simp: has_state_def)
  have ne: "p \<noteq> running s" using t ot st by auto
  note sel0 = switched_sel [OF t(1) ot(1) ne, unfolded ot(2)]
  define s' where "s' = switched p s"
  note sel = sel0 [folded s'_def]
  have prior: "\<exists>v. threads s r = Some v \<and> t_id v = t_id u \<and> t_waiting v = t_waiting u"
    if "threads s' r = Some u" for r u
    using that t(1) ot(1) by (auto simp: sel split: if_splits)
  have alive: "threads s' r = None \<longleftrightarrow> threads s r = None \<or> (r = running s \<and> st = PET_THREAD_STOPPED)" for r
    using t(1) ot(1) ne by (auto simp: sel)
  have wt: "waiters s' = waiters s"
  proof
    fix r show "waiters s' r = waiters s r"
      using t(1) ot stp by (cases "st = PET_THREAD_STOPPED") (auto simp: waiters_def sel)
  qed
  have d: "distinct (ready_list s @ blocked_list s)" and out: "running s \<notin> set (ready_list s @ blocked_list s)"
    using b q by (auto simp: base_def queues_ok_def)
  have rl: "set (ready_list s') = (set (ready_list s) - {p}) \<union> (if st = PET_THREAD_RUNNING \<and> running s \<noteq> master s then {running s} else {})"
    using d by (auto simp: sel)
  have bl: "set (blocked_list s') = set (blocked_list s) \<union> (if st = PET_THREAD_BLOCKED then {running s} else {})"
    by (auto simp: sel)
  have pb: "p \<notin> set (blocked_list s)" using p d q by (auto simp: queues_ok_def)
  have base': "base s'"
    unfolding base_def alive
  proof (intro conjI)
    show "\<exists>m. threads s' (master s') = Some m \<and> t_id m = PET_MASTER_THREAD_ID"
      using b t(1) ot(1) ms st ne by (auto simp: base_def sel)
    show "ids_unique s'" using ids_unique_mono b prior unfolding base_def by metis
    show "distinct (ready_list s' @ blocked_list s')" using d out by (auto simp: sel)
    show "\<forall>r \<in> set (ready_list s' @ blocked_list s'). \<not> (threads s r = None \<or> (r = running s \<and> st = PET_THREAD_STOPPED))"
      using b out ot(1) by (auto simp: rl bl base_def)
  qed (use b t(1) ne in \<open>auto simp: base_def sel(3)\<close>)
  have "queues_ok s'"
    unfolding queues_ok_def
  proof (intro conjI)
    show "running s' \<notin> set (ready_list s' @ blocked_list s')" using pb ne by (auto simp: rl bl sel(3))
    show "master s' \<notin> set (ready_list s' @ blocked_list s')"
      using q ms by (auto simp: rl bl sel(2) queues_ok_def)
    show "\<forall>r \<in> set (ready_list s'). has_state s' PET_THREAD_READY r"
      using q ot out ne by (auto simp: rl queues_ok_def has_state_def sel(1) split: if_splits)
    show "\<forall>r \<in> set (blocked_list s'). has_state s' PET_THREAD_BLOCKED r"
      using q ot out ne pb by (auto simp: bl queues_ok_def has_state_def sel(1) split: if_splits)
    show "running s' \<noteq> master s' \<longrightarrow> has_state s' PET_THREAD_READY (master s')"
      using q ot ms by (auto simp: queues_ok_def has_state_def sel(1,2,3))
    show "\<forall>r. threads s' r \<noteq> None \<longrightarrow> r = running s' \<or> r = master s' \<or> r \<in> set (ready_list s' @ blocked_list s')"
      using q st by (cases st) (auto simp: queues_ok_def alive rl bl sel(2,3))
  qed
  moreover have "ids_below s'" using ids_below_mono idb prior sel(8) by metis
  moreover have "has_state s' PET_THREAD_RUNNING (running s')" using ne by (simp add: has_state_def sel)
  moreover have "waits_on s' (set (blocked_list s'))"
    using w unfolding waits_on_def wt bl sel(2) using prior by metis
  ultimately show ?thesis using base' by (simp add: leaving_def s'_def)
qed

lemma schedule_switches:
  assumes l: "leaving st s" and st: "st \<noteq> PET_THREAD_READY"
  shows "pet_thread_schedule s = Inr s' \<Longrightarrow>
           s' = (if ready_list s = [] \<and> running s = master s then s else switched (next_thread s) s)"
    and "st = PET_THREAD_STOPPED \<or> stopped_ok s \<Longrightarrow> pet_thread_schedule s =
           Inr (if ready_list s = [] \<and> running s = master s then s else switched (next_thread s) s)"
proof -
  note sw = invoker_effect [OF leaving_can_switch [OF l st]]
  have hs: "has_state s PET_THREAD_STOPPED (running s) \<or> stopped_ok s" if "st = PET_THREAD_STOPPED \<or> stopped_ok s"
    using that l by (auto simp: leaving_def)
  have code: "pet_thread_schedule s = (if ready_list s = [] \<and> running s = master s then Inr s
      else thread_invoker (next_thread s) s)"
  proof (cases "ready_list s")
    case (Cons p ps)
    then have "has_state s PET_THREAD_READY p" using l by (auto simp: leaving_def queues_ok_def)
    then show ?thesis using Cons by (auto simp: pet_thread_schedule_def next_thread_def has_state_def)
  qed (simp add: pet_thread_schedule_def next_thread_def)
  have p: "next_thread s \<in> set (ready_list s) \<or> (next_thread s = master s \<and> running s \<noteq> master s)"
    if "\<not> (ready_list s = [] \<and> running s = master s)"
    using that by (auto simp: next_thread_def split: list.splits)
  show "s' = (if ready_list s = [] \<and> running s = master s then s else switched (next_thread s) s)"
    if "pet_thread_schedule s = Inr s'"
    using that code sw(1) [OF p] by (auto split: if_splits)
  show "pet_thread_schedule s =
      Inr (if ready_list s = [] \<and> running s = master s then s else switched (next_thread s) s)"
    if "st = PET_THREAD_STOPPED \<or> stopped_ok s"
    using hs [OF that] code sw(2) [OF p] by auto
qed

lemma schedule_inv:
  assumes "leaving st s" and "st \<noteq> PET_THREAD_READY" and "pet_thread_schedule s = Inr s'"
  shows "sched_inv s'"
proof (cases "ready_list s = [] \<and> running s = master s")
  case True
  then show ?thesis using schedule_switches(1) [OF assms] assms(1) by (auto simp: leaving_def)
next
  case False
  then have "sched_inv (switched (next_thread s) s)"
    by (intro switched_inv [OF assms(1,2)]) (auto simp: next_thread_def split: list.splits)
  then show ?thesis using schedule_switches(1) [OF assms] False by auto
qed

section \<open>Initialisation and creation\<close>

text \<open>The static variables before \<open>pet_thread_init\<close>: everything is zero.\<close>

definition boot :: "u64 \<Rightarrow> sched" where
  "boot m = \<lparr>threads = [m \<mapsto> \<lparr>t_id = 0, t_func = NULL, t_stack_bottom = NULL, t_stack_rsp = NULL,
                t_state = PET_THREAD_STOPPED, t_waiting = None, t_ret = NULL\<rparr>],
     master = m, ready_list = [], blocked_list = [], running = NULL, stopped = NULL,
     current_id = PET_MASTER_THREAD_ID, thread_id_count = 1\<rparr>"

lemma init_inv: "m \<noteq> NULL \<Longrightarrow> sched_inv (pet_thread_init (boot m))"
  by (simp add: leaving_def base_def ids_unique_def queues_ok_def ids_below_def has_state_def waits_on_def
      waiters_def pet_thread_init_def boot_def PET_MASTER_THREAD_ID_def split: if_splits)

lemma new_id:
  fixes c :: "32 word"
  assumes "c < 0x7FFFFFFF"
  shows "unat (scast c :: u64) = unat c" and "unat (c + 1) = Suc (unat c)"
proof -
  have u: "unat c < 0x7FFFFFFF" using assms by (simp add: word_less_nat_alt)
  have "uint c < uint (0x7FFFFFFF :: 32 word)" using assms by (simp only: word_less_def)
  then have i: "uint c < 2 ^ 31" by simp
  have "0 \<le> uint c" by simp
  then have "- (2 ^ 31) \<le> uint c" by (rule order_trans [rotated]) simp
  then have "sint c = uint c" using i by (simp add: sint_uint signed_take_bit_int_eq_self)
  then have "(scast c :: u64) = ucast c" by (simp only: scast_eq ucast_eq)
  moreover have "take_bit 64 (unat c) = unat c" using u by (intro take_bit_nat_eq_self) simp
  ultimately show "unat (scast c :: u64) = unat c" by (simp add: unsigned_ucast_eq)
  show "unat (c + 1) = Suc (unat c)" using u by (simp add: unat_word_ariths)
qed

lemma create_effect:
  assumes inv: "sched_inv s" and p: "p \<noteq> NULL" "threads s p = None" and sb: "sb \<noteq> NULL"
    and c: "thread_id_count s < 0x7FFFFFFF"
  shows "\<exists>s'. pet_thread_create p sb f s = Inr (scast (thread_id_count s), s') \<and> sched_inv s'
           \<and> ready_list s' = ready_list s @ [p] \<and> blocked_list s' = blocked_list s \<and> running s' = running s
           \<and> stopped s' = stopped s \<and> master s' = master s \<and> has_state s' PET_THREAD_READY p
           \<and> (\<forall>q. q \<noteq> p \<longrightarrow> threads s' q = threads s q)"
proof -
  from inv have b: "base s" and q: "queues_ok s" and idb: "ids_below s"
    and w: "waits_on s (set (blocked_list s))" and r: "has_state s PET_THREAD_RUNNING (running s)"
    by (auto simp: leaving_def)
  define i :: u64 where "i = scast (thread_id_count s)"
  define t where "t = \<lparr>t_id = i, t_func = f, t_stack_bottom = sb,
    t_stack_rsp = sb + (STACK_SIZE div 8 - 16) * 8, t_state = PET_THREAD_READY, t_waiting = Some [], t_ret = NULL\<rparr>"
  define s' where "s' = s\<lparr>threads := (threads s)(p \<mapsto> t), thread_id_count := thread_id_count s + 1,
    ready_list := ready_list s @ [p]\<rparr>"
  note ni = new_id [OF c, folded i_def]
  have pn: "p \<noteq> running s" "p \<noteq> master s" "p \<notin> set (ready_list s)" "p \<notin> set (blocked_list s)"
    using b p(2) base_live [OF b, of p] by (auto simp: base_def)
  have code: "pet_thread_create p sb f s = Inr (i, s')"
    using p(1) sb pn by (simp add: pet_thread_create_def ready_add_tail_def s'_def t_def i_def Let_def)
  have fresh: "t_id u \<noteq> i" if "threads s r = Some u" for r u
  proof -
    have "unat (t_id u) < unat (thread_id_count s)" using idb that unfolding ids_below_def by blast
    then show ?thesis using ni(1) by auto
  qed
  have uniq: "ids_unique s'"
    unfolding ids_unique_def
  proof (intro allI impI)
    fix x y u v assume "threads s' x = Some u" "threads s' y = Some v" "t_id u = t_id v"
    then show "x = y"
      using fresh [of x] fresh [of y] b ids_uniqueD [of s x u y v]
      by (cases "x = p"; cases "y = p") (auto simp: s'_def t_def base_def)
  qed
  have b': "base s'" using b uniq p pn by (auto simp: base_def s'_def t_def)
  have q': "queues_ok s'" using q pn by (auto simp: queues_ok_def has_state_def s'_def t_def)
  have i': "ids_below s'"
    unfolding ids_below_def
  proof (intro allI impI)
    fix x u assume "threads s' x = Some u"
    then show "unat (t_id u) < unat (thread_id_count s')"
      using idb ni by (cases "x = p") (fastforce simp: ids_below_def s'_def t_def)+
  qed
  have wt: "waiters s' = waiters s" using p(2) by (auto simp: waiters_def s'_def t_def fun_eq_iff)
  have w': "waits_on s' (set (blocked_list s'))"
    using w unfolding waits_on_def wt by (auto simp: s'_def t_def)
  have "sched_inv s'" using b' q' i' w' r pn(1) by (auto simp: leaving_def has_state_def s'_def)
  then show ?thesis using code by (auto simp: i_def s'_def t_def has_state_def)
qed

section \<open>Yielding\<close>

lemma get_thread_total:
  assumes b: "base s" and st: "stopped_ok s"
  shows "\<exists>p. get_thread s i = Inr p \<and> (p = NULL \<or> threads s p \<noteq> None)"
proof (cases "\<exists>p t. visible s p \<and> threads s p = Some t \<and> t_id t = i")
  case True
  then obtain p t where "visible s p" "threads s p = Some t" "t_id t = i" by blast
  then show ?thesis using get_thread_visible [OF b st] by auto
next
  case False
  from b obtain m r where m: "threads s (master s) = Some m" "t_id m = PET_MASTER_THREAD_ID"
    and r: "threads s (running s) = Some r" by (auto simp: base_def)
  have n: "i \<noteq> PET_MASTER_THREAD_ID" "t_id r \<noteq> i" using False m r unfolding visible_def by blast+
  have "find_id s (ready_list s) i = Inr None" "find_id s (blocked_list s) i = Inr None"
    using base_live [OF b] False unfolding visible_def by (metis find_id_miss)+
  moreover have "(if stopped s \<noteq> NULL then rbind (thread_at s (stopped s)) (\<lambda>t. Inr (t_id t = i)) else Inr False) = Inr False"
    using st False by (auto simp: stopped_ok_def visible_def)
  ultimately show ?thesis using n r by (simp add: get_thread_def)
qed

lemma ready_switchable:
  assumes "sched_inv s" and "has_state s PET_THREAD_READY p"
  shows "p \<in> set (ready_list s) \<or> (p = master s \<and> running s \<noteq> master s)"
  using assms by (fastforce simp: leaving_def queues_ok_def has_state_def)

lemma yield_to_inv:
  assumes inv: "sched_inv s" and y: "yield_to_thread p s = Inr s'"
  shows "sched_inv s'"
proof (cases "p \<noteq> NULL \<and> has_state s PET_THREAD_READY p")
  case True
  then have "thread_invoker p s = Inr s'" using y by (auto simp: yield_to_thread_def has_state_def)
  then have "s' = switched p s"
    using invoker_effect(1) leaving_can_switch [OF inv _ ready_switchable [OF inv]] True by auto
  then show ?thesis using switched_inv [OF inv _ ready_switchable [OF inv]] True by auto
next
  case False
  then have "pet_thread_schedule s = Inr s'"
    using y by (auto simp: yield_to_thread_def has_state_def thread_at_eq_Inr split: if_splits)
  then show ?thesis using schedule_inv [OF inv] by simp
qed

lemma yield_to_returns:
  assumes inv: "sched_inv s" and st: "stopped_ok s"
  shows "\<exists>s'. pet_thread_yield_to i s = Inr s'"
proof -
  have b: "base s" using inv by (simp add: leaving_def)
  from get_thread_total [OF b st, of i] obtain p where
    p: "get_thread s i = Inr p" "p = NULL \<or> threads s p \<noteq> None" by blast
  note sch = schedule_switches(2) [OF inv] 
  show ?thesis
  proof (cases "p \<noteq> NULL \<and> has_state s PET_THREAD_READY p")
    case True
    then obtain t where "threads s p = Some t" "t_state t = PET_THREAD_READY" by (auto simp: has_state_def)
    moreover have "thread_invoker p s = Inr (switched p s)"
      using invoker_effect(2) leaving_can_switch [OF inv _ ready_switchable [OF inv]] st True by auto
    ultimately have "pet_thread_yield_to i s = Inr (switched p s)"
      using True p(1) by (simp add: pet_thread_yield_to_def yield_to_thread_def)
    then show ?thesis by blast
  next
    case False
    have "yield_to_thread p s = pet_thread_schedule s"
      using False p(2) by (auto simp: yield_to_thread_def has_state_def)
    then show ?thesis using p(1) sch st by (simp add: pet_thread_yield_to_def)
  qed
qed

section \<open>Joining\<close>

lemma inv_waiters:
  assumes "sched_inv s"
  shows "distinct (waiters s p)" "set (waiters s p) \<subseteq> set (blocked_list s)" "running s \<notin> set (waiters s p)"
    and "p \<noteq> q \<Longrightarrow> set (waiters s p) \<inter> set (waiters s q) = {}"
    and "b \<in> set (blocked_list s) \<Longrightarrow> \<exists>p. b \<in> set (waiters s p)"
proof -
  from assms have w: "waits_on s (set (blocked_list s))" and q: "queues_ok s" by (auto simp: leaving_def)
  show "distinct (waiters s p)" "set (waiters s p) \<subseteq> set (blocked_list s)"
    "p \<noteq> q \<Longrightarrow> set (waiters s p) \<inter> set (waiters s q) = {}"
    "b \<in> set (blocked_list s) \<Longrightarrow> \<exists>p. b \<in> set (waiters s p)"
    using w unfolding waits_on_def by blast+
  then show "running s \<notin> set (waiters s p)" using q by (auto simp: queues_ok_def)
qed

text \<open>The running thread has blocked itself and queued behind \<open>p\<close>.\<close>

definition queued_behind :: "u64 \<Rightarrow> sched \<Rightarrow> sched" where
  "queued_behind p s =
     upd_thread p (\<lambda>t. t\<lparr>t_waiting := Some (the (t_waiting t) @ [running s])\<rparr>)
       (set_state (running s) PET_THREAD_BLOCKED s)"

lemma queued_sel [simp]:
  "master (queued_behind p s) = master s" "ready_list (queued_behind p s) = ready_list s"
  "blocked_list (queued_behind p s) = blocked_list s" "running (queued_behind p s) = running s"
  "stopped (queued_behind p s) = stopped s" "thread_id_count (queued_behind p s) = thread_id_count s"
  by (simp_all add: queued_behind_def set_state_def)

lemma queued_prior:
  "threads (queued_behind p s) q = Some u \<Longrightarrow> \<exists>v. threads s q = Some v \<and> t_id v = t_id u
     \<and> (q \<noteq> running s \<longrightarrow> t_state v = t_state u)"
  by (auto simp: queued_behind_def set_state_def split: if_splits)

lemma queued_live: "threads (queued_behind p s) q = None \<longleftrightarrow> threads s q = None"
  by (simp add: queued_behind_def set_state_def)

lemma queued_state:
  "q \<noteq> running s \<Longrightarrow> has_state (queued_behind p s) st q \<longleftrightarrow> has_state s st q"
  "threads s (running s) \<noteq> None \<Longrightarrow> has_state (queued_behind p s) PET_THREAD_BLOCKED (running s)"
  by (auto simp: has_state_def queued_behind_def set_state_def)

lemma queued_leaving:
  assumes inv: "sched_inv s" and r: "running s \<noteq> master s"
    and p: "threads s p = Some t" "p \<noteq> master s"
  shows "leaving PET_THREAD_BLOCKED (queued_behind p s)"
proof -
  from inv have b: "base s" and q: "queues_ok s" and idb: "ids_below s"
    and w: "waits_on s (set (blocked_list s))" by (auto simp: leaving_def)
  let ?s = "queued_behind p s"
  have b': "base ?s"
    unfolding base_def queued_sel queued_live
  proof (intro conjI)
    show "ids_unique ?s" using ids_unique_mono b queued_prior unfolding base_def by metis
    show "\<exists>m. threads ?s (master s) = Some m \<and> t_id m = PET_MASTER_THREAD_ID"
      using b p(2) r by (auto simp: base_def queued_behind_def set_state_def)
  qed (use b in \<open>auto simp: base_def\<close>)
  have q': "queues_ok ?s"
    using q r queued_state(1) [of _ s p] unfolding queues_ok_def queued_sel queued_live by (metis UnCI set_append)
  have i': "ids_below ?s" using ids_below_mono idb queued_prior queued_sel(6) by metis
  have h': "has_state ?s PET_THREAD_BLOCKED (running ?s)"
    using b queued_state(2) [of s p] by (simp add: base_def)
  from w p obtain ws where ws: "t_waiting t = Some ws" unfolding waits_on_def by blast
  then have wp: "waiters s p = ws" using p(1) by (simp add: waiters_def)
  have wt: "waiters ?s x = (if x = p then ws @ [running s] else waiters s x)" for x
    using p(1) ws by (auto simp: waiters_def queued_behind_def set_state_def split: option.splits)
  have new: "running s \<notin> set (waiters s x)" for x
    using w q unfolding waits_on_def queues_ok_def by (metis UnCI set_append subsetD)
  have "waits_on ?s (set (blocked_list s) \<union> {running s})"
    unfolding waits_on_def
  proof (intro conjI allI impI ballI)
    show "t_waiting u \<noteq> None" if "threads ?s x = Some u" "x \<noteq> master ?s" for x u
      using that w ws p(1) unfolding waits_on_def queued_behind_def set_state_def
      by (auto split: if_splits)
    show "distinct (waiters ?s x)" for x using w new wp unfolding waits_on_def wt by auto
    show "set (waiters ?s x) \<subseteq> set (blocked_list s) \<union> {running s}" for x
      using w wp unfolding waits_on_def wt by auto
    show "set (waiters ?s x) \<inter> set (waiters ?s y) = {}" if "x \<noteq> y" for x y
    proof -
      have "set (waiters s x) \<inter> set (waiters s y) = {}" using w that unfolding waits_on_def by blast
      then show ?thesis using new wp that unfolding wt by auto
    qed
    show "\<exists>x. c \<in> set (waiters ?s x)" if c: "c \<in> set (blocked_list s) \<union> {running s}" for c
    proof (cases "c = running s")
      case False
      then obtain x where "c \<in> set (waiters s x)" using inv_waiters(5) [OF inv, of c] c by auto
      then have "c \<in> set (waiters ?s x)" by (cases "x = p") (simp_all add: wt wp)
      then show ?thesis by blast
    next
      case True
      then have "c \<in> set (waiters ?s p)" by (simp add: wt)
      then show ?thesis by blast
    qed
  qed
  then show ?thesis using b' q' i' h' r by (simp add: leaving_def)
qed

lemma join_code:
  assumes inv: "sched_inv s" and g: "get_thread s i = Inr p" and p: "threads s p = Some t" "p \<noteq> master s"
  shows "pet_thread_join i True s = rbind (pet_thread_schedule (queued_behind p s)) (\<lambda>s. Inr (0, s))"
proof -
  from inv obtain r where r: "threads s (running s) = Some r" "t_state r = PET_THREAD_RUNNING"
    by (auto simp: leaving_def has_state_def)
  have "threads s NULL = None" using inv by (simp add: leaving_def base_def)
  then have n: "p \<noteq> NULL" using p(1) by auto
  from inv p obtain ws where ws: "t_waiting t = Some ws" unfolding leaving_def waits_on_def by blast
  have "thread_at (set_state (running s) PET_THREAD_BLOCKED s) p =
      Inr (if p = running s then t\<lparr>t_state := PET_THREAD_BLOCKED\<rparr> else t)"
    using p(1) by (cases "p = running s") (auto simp: set_state_def thread_at_def)
  moreover have "upd_thread p (\<lambda>t. t\<lparr>t_waiting := Some (ws @ [running s])\<rparr>) (set_state (running s) PET_THREAD_BLOCKED s)
     = queued_behind p s"
    using p(1) ws by (auto simp: queued_behind_def upd_thread_def set_state_def)
  moreover have "running (set_state (running s) PET_THREAD_BLOCKED s) = running s" by (simp add: set_state_def)
  ultimately show ?thesis using g n r ws by (cases "p = running s") (simp_all add: pet_thread_join_def Let_def)
qed

section \<open>Exiting\<close>

text \<open>The threads \<open>ws\<close> have been made ready with the return value \<open>v\<close>.\<close>

definition woken :: "u64 \<Rightarrow> u64 list \<Rightarrow> sched \<Rightarrow> sched" where
  "woken v ws s = s\<lparr>
     threads := (\<lambda>p. if p \<in> set ws
                    then map_option (\<lambda>t. t\<lparr>t_ret := v, t_state := PET_THREAD_READY\<rparr>) (threads s p)
                    else threads s p),
     ready_list := ready_list s @ ws,
     blocked_list := filter (\<lambda>p. p \<notin> set ws) (blocked_list s)\<rparr>"

lemma wake_one:
  assumes "distinct (ready_list s @ blocked_list s)" and "w \<in> set (blocked_list s)"
    and "has_state s PET_THREAD_BLOCKED w"
  shows "wake_waiter v w s = Inr (woken v [w] s)"
proof -
  from assms(3) obtain t where t: "threads s w = Some t" "t_state t = PET_THREAD_BLOCKED"
    by (auto simp: has_state_def)
  have "w \<notin> set (ready_list s)" using assms(1,2) by auto
  moreover have "remove1 w (blocked_list s) = filter (\<lambda>p. p \<noteq> w) (blocked_list s)"
    using assms(1) by (simp add: distinct_remove1_removeAll removeAll_filter_not_eq) (auto intro: filter_cong)
  ultimately show ?thesis
    using t assms(2)
    by (simp add: wake_waiter_def thread_list_del_def ready_add_tail_def woken_def upd_thread_def)
      (cases s, simp add: fun_eq_iff)
qed

lemma wake_all:
  assumes "distinct (ready_list s @ blocked_list s)" and "distinct ws" and "set ws \<subseteq> set (blocked_list s)"
    and "\<forall>w \<in> set ws. has_state s PET_THREAD_BLOCKED w"
  shows "rfold (wake_waiter v) ws s = Inr (woken v ws s)"
  using assms
proof (induction ws arbitrary: s)
  case Nil
  then show ?case by (simp add: woken_def)
next
  case (Cons w ws)
  let ?s = "woken v [w] s"
  have "rfold (wake_waiter v) ws ?s = Inr (woken v ws ?s)"
  proof (rule Cons.IH)
    show "distinct (ready_list ?s @ blocked_list ?s)" "set ws \<subseteq> set (blocked_list ?s)"
      using Cons.prems by (auto simp: woken_def)
    show "\<forall>x \<in> set ws. has_state ?s PET_THREAD_BLOCKED x"
      using Cons.prems by (auto simp: woken_def has_state_def)
  qed (use Cons.prems in simp)
  moreover have "woken v ws ?s = woken v (w # ws) s"
    using Cons.prems(2) by (cases s) (auto simp: woken_def fun_eq_iff)
  moreover have "wake_waiter v w s = Inr ?s" by (rule wake_one) (use Cons.prems in auto)
  ultimately show ?case by simp
qed

text \<open>The state in which \<open>__quarantine\<close> calls the scheduler.\<close>

definition quarantined :: "u64 \<Rightarrow> sched \<Rightarrow> sched" where
  "quarantined v s =
     set_state (running s) PET_THREAD_STOPPED
       (upd_thread (running s) (\<lambda>t. t\<lparr>t_waiting := Some []\<rparr>) (woken v (waiters s (running s)) s))"

lemma quarantined_threads:
  assumes "threads s (running s) = Some r" and "running s \<notin> set (waiters s (running s))"
  shows "threads (quarantined v s) q =
    (if q = running s then Some (r\<lparr>t_waiting := Some [], t_state := PET_THREAD_STOPPED\<rparr>)
     else if q \<in> set (waiters s (running s))
     then map_option (\<lambda>t. t\<lparr>t_ret := v, t_state := PET_THREAD_READY\<rparr>) (threads s q)
     else threads s q)"
  using assms by (simp add: quarantined_def set_state_def woken_def)

lemma quarantined_sel [simp]:
  "master (quarantined v s) = master s" "ready_list (quarantined v s) = ready_list s @ waiters s (running s)"
  "blocked_list (quarantined v s) = filter (\<lambda>p. p \<notin> set (waiters s (running s))) (blocked_list s)"
  "running (quarantined v s) = running s" "stopped (quarantined v s) = stopped s"
  "thread_id_count (quarantined v s) = thread_id_count s"
  by (simp_all add: quarantined_def set_state_def woken_def)

lemma quarantined_leaving:
  assumes inv: "sched_inv s" and r: "running s \<noteq> master s"
  shows "leaving PET_THREAD_STOPPED (quarantined v s)"
proof -
  from inv have b: "base s" and q: "queues_ok s" and idb: "ids_below s"
    and w: "waits_on s (set (blocked_list s))" by (auto simp: leaving_def)
  from b obtain rt where rt: "threads s (running s) = Some rt" by (auto simp: base_def)
  note iw = inv_waiters [OF inv]
  let ?s = "quarantined v s" and ?ws = "waiters s (running s)"
  note th = quarantined_threads [OF rt iw(3)]
  have prior: "\<exists>u'. threads s x = Some u' \<and> t_id u' = t_id u" if "threads ?s x = Some u" for x u
    using that rt by (auto simp: th split: if_splits)
  have live: "threads ?s x = None \<longleftrightarrow> threads s x = None" for x
    using rt by (simp add: th)
  have mw: "master s \<notin> set ?ws" using iw(2) q by (auto simp: queues_ok_def)
  have b': "base ?s"
    unfolding base_def live
  proof (intro conjI)
    show "ids_unique ?s" using ids_unique_mono b prior unfolding base_def by metis
    show "\<exists>m. threads ?s (master ?s) = Some m \<and> t_id m = PET_MASTER_THREAD_ID"
      using b r mw by (auto simp: base_def th)
    have "set (ready_list s) \<inter> set ?ws = {}" using b iw(2) [of "running s"] unfolding base_def distinct_append by blast
    then show "distinct (ready_list ?s @ blocked_list ?s)" using b iw(1) by (auto simp: base_def)
  qed (use b iw(2) in \<open>auto simp: base_def\<close>)
  have q': "queues_ok ?s"
    unfolding queues_ok_def live
  proof (intro conjI)
    show "running ?s \<notin> set (ready_list ?s @ blocked_list ?s)" "master ?s \<notin> set (ready_list ?s @ blocked_list ?s)"
      using q iw(3) mw by (auto simp: queues_ok_def)
    show "\<forall>x \<in> set (ready_list ?s). has_state ?s PET_THREAD_READY x"
      using q iw(2,3) by (fastforce simp: queues_ok_def has_state_def th)
    show "\<forall>x \<in> set (blocked_list ?s). has_state ?s PET_THREAD_BLOCKED x"
      using q by (auto simp: queues_ok_def has_state_def th)
    show "running ?s \<noteq> master ?s \<longrightarrow> has_state ?s PET_THREAD_READY (master ?s)"
      using q r mw by (auto simp: queues_ok_def has_state_def th)
    show "\<forall>x. threads s x \<noteq> None \<longrightarrow> x = running ?s \<or> x = master ?s \<or> x \<in> set (ready_list ?s @ blocked_list ?s)"
      using q by (auto simp: queues_ok_def)
  qed
  have i': "ids_below ?s" using ids_below_mono idb prior quarantined_sel(6) by metis
  have wt: "waiters ?s x = (if x = running s then [] else waiters s x)" for x
    by (auto simp: waiters_def th split: option.splits)
  have "waits_on ?s (set (blocked_list ?s))"
    unfolding waits_on_def
  proof (intro conjI allI impI ballI)
    show "t_waiting u \<noteq> None" if "threads ?s x = Some u" "x \<noteq> master ?s" for x u
      using that w unfolding waits_on_def by (auto simp: th split: if_splits)
    show "distinct (waiters ?s x)" for x using iw(1) by (simp add: wt)
    show "set (waiters ?s x) \<subseteq> set (blocked_list ?s)" for x
      using iw(2) [of x] iw(4) [of x "running s"] by (auto simp: wt)
    show "set (waiters ?s x) \<inter> set (waiters ?s y) = {}" if "x \<noteq> y" for x y
      using iw(4) [OF that] by (simp add: wt)
    show "\<exists>x. c \<in> set (waiters ?s x)" if c: "c \<in> set (blocked_list ?s)" for c
    proof -
      obtain x where "c \<in> set (waiters s x)" "c \<notin> set ?ws" using iw(5) [of c] c by auto
      then have "c \<in> set (waiters ?s x)" by (cases "x = running s") (simp_all add: wt)
      then show ?thesis by blast
    qed
  qed
  moreover have "has_state ?s PET_THREAD_STOPPED (running ?s)" by (simp add: has_state_def th)
  moreover have "waiters ?s (running ?s) = []" by (simp add: wt)
  ultimately show ?thesis using b' q' i' r by (simp add: leaving_def)
qed

lemma exit_code:
  assumes inv: "sched_inv s" and r: "running s \<noteq> master s"
  shows "pet_thread_exit v s = pet_thread_schedule (quarantined v s)"
proof -
  from inv have b: "base s" and q: "queues_ok s" and w: "waits_on s (set (blocked_list s))"
    by (auto simp: leaving_def)
  from inv obtain rt where rt: "threads s (running s) = Some rt" "t_state rt = PET_THREAD_RUNNING"
    by (auto simp: leaving_def has_state_def)
  with w r obtain ws where ws: "t_waiting rt = Some ws" unfolding waits_on_def by blast
  then have wr: "waiters s (running s) = ws" using rt by (simp add: waiters_def)
  note iw = inv_waiters [OF inv, of "running s", unfolded wr]
  have "rfold (wake_waiter v) ws s = Inr (woken v ws s)"
  proof (rule wake_all)
    show "distinct (ready_list s @ blocked_list s)" using b by (simp only: base_def)
    show "\<forall>w \<in> set ws. has_state s PET_THREAD_BLOCKED w" using q iw(2) unfolding queues_ok_def by blast
  qed (use iw in blast)+
  moreover have "running (woken v ws s) = running s" "master (woken v ws s) = master s"
    "threads (woken v ws s) (running s) = Some rt"
    using iw(3) rt by (simp_all add: woken_def)
  ultimately show ?thesis
    using rt ws r by (simp add: pet_thread_exit_def quarantine_def quarantined_def wr Let_def set_state_def thread_at_def)
qed

end
