(* ===== verification/PetThreadProps.thy ===== *)
theory PetThreadProps
  imports PetThreadInv
begin

text \<open>
  The scheduler as a transition system: the operations a running thread may call are the steps,
  and the invariant holds in every reachable state.  From the effect of a switch follow the
  round-robin order, the hand-over of the return value to joining threads, and two ways in which
  the code goes wrong: the dangling \<open>stopped\<close> pointer and a join by the master.
\<close>

section \<open>Results of lookups\<close>

lemma find_id_sound:
  "find_id s xs i = Inr (Some p) \<Longrightarrow> p \<in> set xs \<and> (\<exists>t. threads s p = Some t \<and> t_id t = i)"
  by (induction xs) (auto simp: thread_at_eq_Inr split: if_splits)

lemma get_thread_sound:
  assumes "base s" and "get_thread s i = Inr p" and "p \<noteq> NULL"
  shows "\<exists>t. threads s p = Some t \<and> t_id t = i"
  using assms
  by (auto simp: get_thread_def base_def thread_at_eq_Inr split: if_splits option.splits dest: find_id_sound)

section \<open>Steps\<close>

text \<open>
  What the running thread does next.  \<open>malloc\<close> returns addresses that are not in use, fewer than
  \<open>2 ^ 31\<close> threads are created, and the master neither joins nor is joined.
\<close>

inductive thread_step :: "sched \<Rightarrow> sched \<Rightarrow> bool" where
  create: "pet_thread_create p sb f s = Inr (i, s') \<Longrightarrow> threads s p = None \<Longrightarrow>
      thread_id_count s < 0x7FFFFFFF \<Longrightarrow> thread_step s s'"
| yield: "pet_thread_yield_to i s = Inr s' \<Longrightarrow> thread_step s s'"
| schedule: "pet_thread_schedule s = Inr s' \<Longrightarrow> thread_step s s'"
| run: "pet_thread_run s = Inr s' \<Longrightarrow> thread_step s s'"
| join: "pet_thread_join i okm s = Inr (r, s') \<Longrightarrow> running s \<noteq> master s \<Longrightarrow>
      i \<noteq> PET_MASTER_THREAD_ID \<Longrightarrow> thread_step s s'"
| exit: "pet_thread_exit v s = Inr s' \<Longrightarrow> thread_step s s'"

inductive_cases thread_stepE: "thread_step s s'"

lemma join_inv:
  assumes inv: "sched_inv s" and j: "pet_thread_join i okm s = Inr (r, s')"
    and m: "running s \<noteq> master s" "i \<noteq> PET_MASTER_THREAD_ID"
  shows "sched_inv s'"
proof -
  from j obtain p where p: "get_thread s i = Inr p" by (auto simp: pet_thread_join_def)
  have b: "base s" using inv by (simp add: leaving_def)
  show ?thesis
  proof (cases "p = NULL")
    case True
    then show ?thesis using j p inv by (simp add: pet_thread_join_def)
  next
    case False
    then obtain t where t: "threads s p = Some t" "t_id t = i" using get_thread_sound [OF b p] by blast
    then have pm: "p \<noteq> master s" using b m(2) by (auto simp: base_def)
    have "okm" using j p False by (cases okm) (auto simp: pet_thread_join_def Let_def)
    then have "pet_thread_schedule (queued_behind p s) = Inr s'"
      using j join_code [OF inv p t(1) pm] by (auto split: if_splits)
    then show ?thesis using schedule_inv [OF queued_leaving [OF inv m(1) t(1) pm]] by simp
  qed
qed

lemma wake_waiter_keeps:
  "wake_waiter v w s = Inr s' \<Longrightarrow> running s' = running s \<and> master s' = master s"
  by (auto simp: wake_waiter_def thread_list_del_def ready_add_tail_def split: if_splits)

lemma wake_all_keeps:
  "rfold (wake_waiter v) ws s = Inr s' \<Longrightarrow> running s' = running s \<and> master s' = master s"
  by (induction ws arbitrary: s) (auto dest: wake_waiter_keeps)

lemma exit_not_master: "pet_thread_exit v s = Inr s' \<Longrightarrow> running s \<noteq> master s"
  by (auto simp: pet_thread_exit_def quarantine_def Let_def split: option.splits dest!: wake_all_keeps)

lemma step_inv:
  assumes "thread_step s s'" and inv: "sched_inv s"
  shows "sched_inv s'"
  using assms(1)
proof cases
  case (create p sb f i)
  then have "p \<noteq> NULL" "sb \<noteq> NULL" by (auto simp: pet_thread_create_def split: if_splits)
  then show ?thesis using create_effect [OF inv, of p sb f] create by auto
next
  case (yield i)
  then show ?thesis using yield_to_inv [OF inv] by (auto simp: pet_thread_yield_to_def)
next
  case schedule
  then show ?thesis using schedule_inv [OF inv] by simp
next
  case run
  then show ?thesis using schedule_inv [OF inv] by (simp add: pet_thread_run_def)
next
  case (join i okm r)
  then show ?thesis using join_inv [OF inv] by blast
next
  case (exit v)
  note m = exit_not_master [OF exit]
  then show ?thesis
    using exit exit_code [OF inv m] schedule_inv [OF quarantined_leaving [OF inv m]] by simp
qed

section \<open>Round robin\<close>



section \<open>Exiting\<close>

lemma exit_effect:
  assumes inv: "sched_inv s" and m: "running s \<noteq> master s"
  shows "pet_thread_exit v s = Inr (switched (next_thread (quarantined v s)) (quarantined v s))"
    and "sched_inv (switched (next_thread (quarantined v s)) (quarantined v s))"
proof -
  note l = quarantined_leaving [OF inv m, of v]
  have "pet_thread_schedule (quarantined v s) = Inr (switched (next_thread (quarantined v s)) (quarantined v s))"
    using schedule_switches(2) [OF l] m by simp
  then show "pet_thread_exit v s = Inr (switched (next_thread (quarantined v s)) (quarantined v s))"
    and "sched_inv (switched (next_thread (quarantined v s)) (quarantined v s))"
    using exit_code [OF inv m] schedule_inv [OF l] by simp_all
qed

text \<open>The threads after an exit: the exited one is gone, the waiters hold the return value.\<close>

lemma exit_threads:
  fixes v :: u64
  assumes inv: "sched_inv s" and m: "running s \<noteq> master s"
  defines "s' \<equiv> switched (next_thread (quarantined v s)) (quarantined v s)"
  shows "threads s' (running s) = None" and "stopped s' = running s" and "running s' \<noteq> running s"
    and "w \<in> set (waiters s (running s)) \<Longrightarrow> \<exists>t. threads s' w = Some t \<and> t_ret t = v"
    and "w \<in> set (waiters s (running s)) \<Longrightarrow> w = running s' \<or> w \<in> set (ready_list s')"
    and "ready_list s' = tl (ready_list s @ waiters s (running s))"
proof -
  let ?q = "quarantined v s"
  have b: "base s" and qk: "queues_ok s" using inv by (auto simp: leaving_def)
  from b obtain r where r: "threads s (running s) = Some r" by (auto simp: base_def)
  note iw = inv_waiters [OF inv]
  note th = quarantined_threads [OF r iw(3), of v]
  have l: "leaving PET_THREAD_STOPPED ?q" by (rule quarantined_leaving [OF inv m])
  have st: "has_state ?q PET_THREAD_READY (next_thread ?q)"
  proof (cases "ready_list ?q")
    case Nil
    then show ?thesis using l m unfolding leaving_def queues_ok_def by (auto simp: next_thread_def)
  next
    case (Cons p ps)
    then have "p \<in> set (ready_list ?q)" "next_thread ?q = p" by (simp_all only: next_thread_def) simp_all
    then show ?thesis using l unfolding leaving_def queues_ok_def by blast
  qed
  then obtain t where t: "threads ?q (next_thread ?q) = Some t" "t_state t = PET_THREAD_READY"
    by (auto simp: has_state_def)
  have ot: "threads ?q (running ?q) = Some (r\<lparr>t_waiting := Some [], t_state := PET_THREAD_STOPPED\<rparr>)"
    by (simp add: th)
  then have ne: "next_thread ?q \<noteq> running ?q" using t by auto
  note sel = switched_sel [OF t(1) ot ne, folded s'_def]
  show "threads s' (running s) = None" "stopped s' = running s" "running s' \<noteq> running s"
    using ne by (simp_all add: sel)
  show rl: "ready_list s' = tl (ready_list s @ waiters s (running s))"
    by (cases "ready_list ?q") (simp_all add: sel next_thread_def)
  show "\<exists>t. threads s' w = Some t \<and> t_ret t = v" if w: "w \<in> set (waiters s (running s))"
  proof -
    have "w \<in> set (blocked_list s)" using iw(2) w by blast
    then obtain u where "threads s w = Some u" using base_live [OF b] by blast
    then have "threads ?q w = Some (u\<lparr>t_ret := v, t_state := PET_THREAD_READY\<rparr>)" "w \<noteq> running s"
      using th w iw(3) by auto
    then show ?thesis using t by (auto simp: sel)
  qed
  show "w = running s' \<or> w \<in> set (ready_list s')" if w: "w \<in> set (waiters s (running s))"
  proof -
    have "w \<in> set (ready_list ?q)" using w by simp
    then obtain p ps where p: "ready_list ?q = p # ps" "w = p \<or> w \<in> set ps" by (rule list.set_cases) blast+
    then have "ready_list s' = ps" "running s' = p" by (simp_all add: rl sel(3) next_thread_def)
    then show ?thesis using p(2) by simp
  qed
qed

section \<open>Properties\<close>

text \<open>Schedulers for the witnesses: two threads, and the first waiting for the second.\<close>

definition after :: "sched res \<Rightarrow> sched" where
  "after r = (case r of Inr s \<Rightarrow> s | Inl _ \<Rightarrow> boot 0x601000)"

abbreviation after2 :: "('a \<times> sched) res \<Rightarrow> sched" where
  "after2 r \<equiv> after (rbind r (\<lambda>x. Inr (snd x)))"

lemma after_ok: "ok r \<Longrightarrow> r = Inr (after r)"
  by (cases r) (simp_all add: after_def)

lemma after2_ok: "ok r \<Longrightarrow> \<exists>i. r = Inr (i, after2 r)"
  by (cases r) (auto simp: after_def intro!: exI [of _ "fst (projr r)"])

definition one_thread :: sched where
  "one_thread = after2 (pet_thread_create 0x1000 0x10000 7 (pet_thread_init (boot 0x601000)))"

definition created :: sched where
  "created = after2 (pet_thread_create 0x2000 0x50000 8 one_thread)"

definition two_threads :: sched where
  "two_threads = after (pet_thread_run created)"

definition joined :: sched where
  "joined = after2 (pet_thread_join 2 True two_threads)"

lemma created_steps:
  "thread_step (pet_thread_init (boot 0x601000)) one_thread" "thread_step one_thread created"
  "thread_step created two_threads" "thread_step two_threads joined"
proof -
  have ok: "ok (pet_thread_create 0x1000 0x10000 7 (pet_thread_init (boot 0x601000)))"
    "ok (pet_thread_create 0x2000 0x50000 8 one_thread)" "ok (pet_thread_run created)"
    "ok (pet_thread_join 2 True two_threads)"
    by code_simp+
  have g: "Option.is_none (threads (pet_thread_init (boot 0x601000)) 0x1000)"
    "thread_id_count (pet_thread_init (boot 0x601000)) < 0x7FFFFFFF"
    "Option.is_none (threads one_thread 0x2000)" "thread_id_count one_thread < 0x7FFFFFFF"
    "running two_threads \<noteq> master two_threads" "(2 :: u64) \<noteq> PET_MASTER_THREAD_ID"
    by code_simp+
  show "thread_step (pet_thread_init (boot 0x601000)) one_thread"
    using after2_ok [OF ok(1)] thread_step.create g(1,2) unfolding one_thread_def Option.is_none_def by metis
  show "thread_step one_thread created"
    using after2_ok [OF ok(2)] thread_step.create g(3,4) unfolding created_def Option.is_none_def by metis
  show "thread_step created two_threads"
    using after_ok [OF ok(3)] thread_step.run unfolding two_threads_def by metis
  show "thread_step two_threads joined"
    using after2_ok [OF ok(4)] thread_step.join g(5,6) unfolding joined_def by metis
qed

lemma created_inv: "sched_inv two_threads" "sched_inv joined"
  using created_steps step_inv init_inv [of "0x601000"] by simp_all





text \<open>
  C28: when a thread exits, it is freed, every thread that joined it holds its return value and
  runs or is in the ready list, in the order of the joins behind the threads already ready, and
  the scheduler's invariant holds; a joining thread that runs next returns that value.
\<close>

theorem exit_releases_joiners:
  assumes "sched_inv s" and "running s \<noteq> master s"
  shows "\<exists>s'. pet_thread_exit v s = Inr s' \<and> sched_inv s' \<and> threads s' (running s) = None
           \<and> ready_list s' = tl (ready_list s @ waiters s (running s))
           \<and> (\<forall>w \<in> set (waiters s (running s)).
                (w = running s' \<or> w \<in> set (ready_list s')) \<and> (\<exists>t. threads s' w = Some t \<and> t_ret t = v))
           \<and> (running s' \<in> set (waiters s (running s)) \<longrightarrow> join_resume s' = Inr v)"
proof -
  let ?s = "switched (next_thread (quarantined v s)) (quarantined v s)"
  note ex = exit_threads [OF assms, where v = v]
  have "join_resume ?s = Inr v" if "running ?s \<in> set (waiters s (running s))"
    using ex(4) [OF that] by (auto simp: join_resume_def)
  then show ?thesis using exit_effect [OF assms, of v] ex by blast
qed

theorem exit_releases_joiners_witness:
  "\<exists>s'. pet_thread_exit 42 joined = Inr s' \<and> threads s' 0x2000 = None \<and> join_resume s' = Inr 42"
proof -
  have f: "running joined \<noteq> master joined" "running joined = 0x2000" "waiters joined 0x2000 = [0x1000]"
    "ready_list joined = []"
    by code_simp+
  have r: "running (after (pet_thread_exit 42 joined)) = 0x1000" by code_simp
  from exit_releases_joiners [OF created_inv(2) f(1), of 42] obtain s' where
    s': "pet_thread_exit 42 joined = Inr s'" "threads s' 0x2000 = None"
      "running s' \<in> {0x1000} \<longrightarrow> join_resume s' = Inr 42" unfolding f(2,3) by auto
  then have "running s' = 0x1000" using r by (simp add: after_def)
  then show ?thesis using s' by auto
qed

text \<open>
  As long as \<open>stopped\<close> does not dangle, \<open>pet_thread_yield_to\<close> returns for every thread id,
  known or not, and when it names a ready thread that thread runs next and the yielding one is
  ready again.
\<close>

theorem yield_to_ready_thread:
  assumes "sched_inv s" and "stopped_ok s"
  shows "\<exists>s'. pet_thread_yield_to i s = Inr s' \<and> sched_inv s'
           \<and> (\<forall>p t. threads s p = Some t \<and> t_id t = i \<and> t_state t = PET_THREAD_READY \<longrightarrow>
                running s' = p \<and> has_state s' PET_THREAD_READY (running s))"
proof -
  from yield_to_returns [OF assms, of i] obtain s' where s': "pet_thread_yield_to i s = Inr s'" by blast
  then obtain q where q: "get_thread s i = Inr q" "yield_to_thread q s = Inr s'"
    by (auto simp: pet_thread_yield_to_def)
  have "running s' = p \<and> has_state s' PET_THREAD_READY (running s)"
    if p: "threads s p = Some t" "t_id t = i" "t_state t = PET_THREAD_READY" for p t
  proof -
    have b: "base s" using assms(1) by (simp add: leaving_def)
    have sw: "p \<in> set (ready_list s) \<or> (p = master s \<and> running s \<noteq> master s)"
      using ready_switchable [OF assms(1)] p by (auto simp: has_state_def)
    then have "visible s p" by (auto simp: visible_def)
    then have "q = p" using get_thread_visible [OF b assms(2) _ p(1)] p(2) q(1) by auto
    moreover have "p \<noteq> NULL" using b p(1) by (auto simp: base_def)
    ultimately have "thread_invoker p s = Inr s'" using q(2) p by (simp add: yield_to_thread_def)
    then have e: "s' = switched p s"
      using invoker_effect(1) [OF leaving_can_switch [OF assms(1) _ sw]] by simp
    obtain r where r: "threads s (running s) = Some r" "t_state r = PET_THREAD_RUNNING"
      using assms(1) by (auto simp: leaving_def has_state_def)
    then have "p \<noteq> running s" using p by auto
    then show ?thesis using r by (simp add: e switched_sel [OF p(1) r(1)] has_state_def)
  qed
  then show ?thesis using s' q(2) yield_to_inv [OF assms(1)] by blast
qed

theorem yield_to_ready_thread_witness:
  "\<exists>s'. pet_thread_yield_to 2 two_threads = Inr s' \<and> sched_inv s'"
proof -
  have "stopped two_threads = NULL" by code_simp
  then have "stopped_ok two_threads" by (simp add: stopped_ok_def)
  from yield_to_ready_thread [OF created_inv(1) this, of 2] show ?thesis by blast
qed

text \<open>
  C37: \<open>stopped\<close> is never reset: after any exit it points to the freed thread, and the next
  lookup of a thread other than the master and the running one reads freed memory.
\<close>

theorem exit_leaves_stopped_dangling:
  assumes "sched_inv s" and "running s \<noteq> master s"
  shows "\<exists>s' t. pet_thread_exit v s = Inr s' \<and> threads s' (running s') = Some t
           \<and> (\<forall>i. i \<noteq> PET_MASTER_THREAD_ID \<and> i \<noteq> t_id t \<longrightarrow>
                pet_thread_yield_to i s' = Inl (UseAfterFree (running s)))"
proof -
  let ?s = "switched (next_thread (quarantined v s)) (quarantined v s)"
  note ex = exit_threads [OF assms, where v = v] and ef = exit_effect [OF assms, of v]
  from ef(2) obtain t where t: "threads ?s (running ?s) = Some t" by (auto simp: leaving_def base_def)
  have "threads s NULL = None" "threads s (running s) \<noteq> None"
    using assms(1) by (auto simp: leaving_def base_def)
  then have n: "running s \<noteq> NULL" by auto
  have "get_thread ?s i = Inl (UseAfterFree (running s))" if "i \<noteq> PET_MASTER_THREAD_ID" "i \<noteq> t_id t" for i
    using that t ex(1,2) n by (auto simp: get_thread_def thread_at_def)
  then show ?thesis using ef(1) t by (auto simp: pet_thread_yield_to_def)
qed

theorem exit_leaves_stopped_dangling_witness:
  "\<exists>s'. pet_thread_exit 0 two_threads = Inr s' \<and> pet_thread_yield_to 1 s' = Inl (UseAfterFree 0x1000)"
proof -
  have f: "running two_threads \<noteq> master two_threads" "running two_threads = 0x1000"
    by code_simp+
  have r: "(case threads (after (pet_thread_exit 0 two_threads)) (running (after (pet_thread_exit 0 two_threads))) of
     Some t \<Rightarrow> t_id t | None \<Rightarrow> 0) = 2" by code_simp
  from exit_leaves_stopped_dangling [OF created_inv(1) f(1), of 0] obtain s' t where
    s': "pet_thread_exit 0 two_threads = Inr s'" "threads s' (running s') = Some t"
      "\<forall>i. i \<noteq> PET_MASTER_THREAD_ID \<and> i \<noteq> t_id t \<longrightarrow> pet_thread_yield_to i s' = Inl (UseAfterFree 0x1000)"
    unfolding f(2) by blast
  then have "t_id t = 2" using r by (simp add: after_def)
  then show ?thesis using s' by (auto simp: PET_MASTER_THREAD_ID_def)
qed

text \<open>
  A join by the master goes wrong: \<open>__thread_invoker\<close> never unlinks the master, so that after
  the joined thread has exited the master runs while it is still in the ready list, and the
  next call of the scheduler fails its assertion.
\<close>

theorem master_join_breaks_scheduler:
  "rbind (pet_thread_join 1 True one_thread) (\<lambda>(_, s).
   rbind (pet_thread_exit 42 s) (\<lambda>s.
   rbind (join_resume s) (\<lambda>v. Inr (running s = master s, master s \<in> set (ready_list s), v,
     case pet_thread_run s of Inl e \<Rightarrow> Some e | Inr _ \<Rightarrow> None)))) =
   Inr (True, True, 42, Some AssertFail)"
  by code_simp

end
