(* ===== verification/SchedLists.thy ===== *)
theory SchedLists
  imports PetThread PetListIter
begin

text \<open>
  The lists of the scheduler of \<open>src/Threads/pet_thread.c\<close> on the nodes of \<open>src/Threads/pet_list.h\<close>.  The model of the
  scheduler keeps sequences of threads; here they are represented by the circular lists that go
  through the field \<open>list\<close> of the thread structures, and each access of the scheduler to its sequences is
  what the list operation does to the nodes.
\<close>

section \<open>The nodes inside the thread structures\<close>

text \<open>Four words precede the field \<open>list\<close> of \<open>struct pet_thread\<close>.\<close>

definition thread_link :: "u64 \<Rightarrow> u64" where
  "thread_link p = p + 32"

lemma thread_link_eq [simp]: "thread_link p = thread_link q \<longleftrightarrow> p = q"
  by (simp add: thread_link_def)

lemma thread_link_entry [simp]: "list_entry 32 (thread_link p) = p"
  by (simp add: thread_link_def list_entry_def)

lemma thread_link_in [simp]: "thread_link p \<in> thread_link ` A \<longleftrightarrow> p \<in> A"
  by (auto simp: image_iff)











section \<open>Refinement\<close>





end
