(* ===== verification/ContextSwitch.thy ===== *)
theory ContextSwitch
  imports PetThread
begin

text \<open>
  The change of stacks of \<open>src/Threads/pet_thread_hw.S\<close>, instruction by instruction, and the first context
  that \<open>pet_thread_create\<close> of \<open>src/Threads/pet_thread.c\<close> lays out on a new stack.  Memory is a function from
  addresses to 64-bit words; every access of this code is to an aligned word.
\<close>

section \<open>The processor\<close>

datatype reg = RAX | RBX | RCX | RDX | RSI | RDI | RBP | R8 | R9 | R10 | R11 | R12 | R13 | R14 | R15

record cpu =
  regs :: "reg \<Rightarrow> u64"
  rsp :: u64
  rip :: u64
  ram :: "u64 \<Rightarrow> u64"

definition pushq :: "reg \<Rightarrow> cpu \<Rightarrow> cpu" where
  "pushq r c = c\<lparr>rsp := rsp c - 8, ram := (ram c)(rsp c - 8 := regs c r)\<rparr>"

definition popq :: "reg \<Rightarrow> cpu \<Rightarrow> cpu" where
  "popq r c = c\<lparr>regs := (regs c)(r := ram c (rsp c)), rsp := rsp c + 8\<rparr>"

definition movq :: "reg \<Rightarrow> reg \<Rightarrow> cpu \<Rightarrow> cpu" where
  "movq src dst c = c\<lparr>regs := (regs c)(dst := regs c src)\<rparr>"

definition callq :: "u64 \<Rightarrow> u64 \<Rightarrow> cpu \<Rightarrow> cpu" where
  "callq target return_to c = c\<lparr>rsp := rsp c - 8, ram := (ram c)(rsp c - 8 := return_to), rip := target\<rparr>"

definition retq :: "cpu \<Rightarrow> cpu" where
  "retq c = c\<lparr>rip := ram c (rsp c), rsp := rsp c + 8\<rparr>"

section \<open>The assembly file\<close>

definition save_registers :: "cpu \<Rightarrow> cpu" where
  "save_registers = fold pushq [RBX, RCX, RDX, RDI, RSI, R8, R9, R10, R11, R12, R13, R14, R15, RBP]"

definition restore_registers :: "cpu \<Rightarrow> cpu" where
  "restore_registers = fold popq [RBP, R15, R14, R13, R12, R11, R10, R9, R8, RSI, RDI, RDX, RCX, RBX]"

text \<open>
  \<open>cleanup\<close> stands for the call of \<open>pet_thread_cleanup\<close>, from the call instruction to the return, as the C compiler
  translates it.
\<close>

definition switch_to_stack :: "(cpu \<Rightarrow> cpu) \<Rightarrow> cpu \<Rightarrow> cpu" where
  "switch_to_stack cleanup c =
     (let c = save_registers c;
          c = c\<lparr>ram := (ram c)(regs c RSI := rsp c)\<rparr>;
          c = c\<lparr>rsp := ram c (regs c RDI)\<rparr>;
          c = movq RDX RDI c;
          c = movq RCX RSI c;
          c = cleanup c;
          c = restore_registers c
      in retq c)"

definition abort_to_stack :: "cpu \<Rightarrow> cpu" where
  "abort_to_stack c = retq (restore_registers (c\<lparr>rsp := ram c (regs c RDI)\<rparr>))"

text \<open>\<open>quarantine_addr\<close> is the address of \<open>__quarantine\<close>, and \<open>return_to\<close> that of the byte behind the call.\<close>

definition capture_return :: "u64 \<Rightarrow> u64 \<Rightarrow> cpu \<Rightarrow> cpu" where
  "capture_return quarantine_addr return_to c = callq quarantine_addr return_to (movq RAX RDI c)"

section \<open>The saved context\<close>

record exec_ctx =
  ctx_rbp :: u64
  ctx_r15 :: u64
  ctx_r14 :: u64
  ctx_r13 :: u64
  ctx_r12 :: u64
  ctx_r11 :: u64
  ctx_r10 :: u64
  ctx_r9 :: u64
  ctx_r8 :: u64
  ctx_rsi :: u64
  ctx_rdi :: u64
  ctx_rdx :: u64
  ctx_rcx :: u64
  ctx_rbx :: u64
  ctx_rip :: u64

text \<open>The packed structure at address \<open>a\<close>.\<close>

definition load_ctx :: "(u64 \<Rightarrow> u64) \<Rightarrow> u64 \<Rightarrow> exec_ctx" where
  "load_ctx m a =
     \<lparr>ctx_rbp = m a, ctx_r15 = m (a + 8), ctx_r14 = m (a + 16), ctx_r13 = m (a + 24), ctx_r12 = m (a + 32),
      ctx_r11 = m (a + 40), ctx_r10 = m (a + 48), ctx_r9 = m (a + 56), ctx_r8 = m (a + 64), ctx_rsi = m (a + 72),
      ctx_rdi = m (a + 80), ctx_rdx = m (a + 88), ctx_rcx = m (a + 96), ctx_rbx = m (a + 104), ctx_rip = m (a + 112)\<rparr>"

text \<open>
  The memory after \<open>pet_thread_create\<close> has allocated the stack \<open>sb\<close> and filled in the first context; \<open>capture\<close> is
  the address of \<open>__capture_return\<close>.
\<close>

definition calloc_stack :: "u64 \<Rightarrow> (u64 \<Rightarrow> u64) \<Rightarrow> u64 \<Rightarrow> u64" where
  "calloc_stack sb m = (\<lambda>a. if sb \<le> a \<and> a < sb + STACK_SIZE then 0 else m a)"

definition num_entries :: u64 where
  "num_entries = STACK_SIZE div 8"

definition init_ctx :: "u64 \<Rightarrow> u64 \<Rightarrow> u64 \<Rightarrow> u64 \<Rightarrow> (u64 \<Rightarrow> u64) \<Rightarrow> u64 \<Rightarrow> u64" where
  "init_ctx sb func arg capture m =
     (let ctx = sb + 8 * (num_entries - 16);
          m = m(ctx + 112 := func);
          m = m(ctx := sb + 8 * (num_entries - 1));
          m = m(ctx + 80 := arg)
      in m(sb + 8 * (num_entries - 1) := capture))"

definition first_rsp :: "u64 \<Rightarrow> u64" where
  "first_rsp sb = sb + 8 * (num_entries - 16)"

text \<open>The memory of a thread that is created: its stack, and its field \<open>stack_rsp\<close> at address \<open>slot\<close>.\<close>

definition create_stack :: "u64 \<Rightarrow> u64 \<Rightarrow> u64 \<Rightarrow> u64 \<Rightarrow> u64 \<Rightarrow> (u64 \<Rightarrow> u64) \<Rightarrow> u64 \<Rightarrow> u64" where
  "create_stack sb slot func arg capture m =
     (init_ctx sb func arg capture (calloc_stack sb m))(slot := first_rsp sb)"

section \<open>Dumping a stack\<close>

text \<open>
  \<open>__dump_stack\<close>: the words that are printed.  The pointer \<open>cur\<close> is compared before it is first assigned, so that
  the outcome depends on its indeterminate value \<open>garbage\<close>; a read outside the stack is a fault.  Every round
  also reads the word at the stack pointer, to mark the frame pointer.
\<close>

definition stack_word :: "u64 \<Rightarrow> (u64 \<Rightarrow> u64) \<Rightarrow> u64 \<Rightarrow> u64 res" where
  "stack_word sb m a = (if sb \<le> a \<and> a < sb + STACK_SIZE then Inr (m a) else Inl OutOfBounds)"

partial_function (option) dump_words :: "u64 \<Rightarrow> (u64 \<Rightarrow> u64) \<Rightarrow> u64 \<Rightarrow> u64 \<Rightarrow> u64 \<Rightarrow> u64 list \<Rightarrow> u64 list run" where
  "dump_words sb m sp cur i acc =
     (if sp = cur then ret acc
      else let cur = sb + 8 * (num_entries - i)
           in case rbind (stack_word sb m cur) (\<lambda>w. rbind (stack_word sb m sp) (\<lambda>_. Inr w)) of
                Inl e \<Rightarrow> fail e
              | Inr w \<Rightarrow> dump_words sb m sp cur (i + 1) (acc @ [w]))"

definition dump_stack :: "(u64 \<Rightarrow> u64) \<Rightarrow> u64 \<Rightarrow> u64 \<Rightarrow> sched \<Rightarrow> u64 list run" where
  "dump_stack m garbage p s =
     (if p = master s then ret []
      else case thread_at s p of
        Inl e \<Rightarrow> fail e
      | Inr t \<Rightarrow>
          if t_state t = PET_THREAD_STOPPED then ret []
          else dump_words (t_stack_bottom t) m (t_stack_rsp t) garbage 0 [])"

section \<open>Threads that switch\<close>

text \<open>
  Where the memory of a thread is: the field \<open>stack_rsp\<close> of its structure and its stack.
\<close>

record tmem =
  ts_slot :: u64
  ts_lo :: u64
  ts_hi :: u64

definition owned :: "tmem \<Rightarrow> u64 set" where
  "owned t = insert (ts_slot t) {a. ts_lo t \<le> a \<and> a < ts_hi t}"

definition tmem_ok :: "tmem \<Rightarrow> bool" where
  "tmem_ok t = (\<not> (ts_lo t \<le> ts_slot t \<and> ts_slot t < ts_hi t))"

text \<open>
  The processor, the thread that runs, the threads that have not exited, and a record of where each
  thread was when it last called \<open>__switch_to_stack\<close>; for a new thread, the state in which it is to start.
\<close>

record tsys =
  cpu :: cpu
  cur :: nat
  alive :: "nat set"
  parked :: "nat \<Rightarrow> cpu option"

definition start_cpu :: "u64 \<Rightarrow> u64 \<Rightarrow> (u64 \<Rightarrow> u64) \<Rightarrow> cpu" where
  "start_cpu sb arg m =
     \<lparr>regs = (\<lambda>r. if r = RBP then sb + 8 * (num_entries - 1) else if r = RDI then arg else 0),
      rsp = first_rsp sb + 112, rip = 0, ram = m\<rparr>"

text \<open>
  What a C function that runs on the stack of thread \<open>j\<close> keeps by the calling convention, and because it
  touches no memory of the other threads: the stack pointer, all that lies on the stack above it,
  and the memory of every thread in \<open>A\<close>.
\<close>

definition cleanup_ok :: "(nat \<Rightarrow> tmem) \<Rightarrow> nat set \<Rightarrow> nat \<Rightarrow> (cpu \<Rightarrow> cpu) \<Rightarrow> bool" where
  "cleanup_ok L A j cl \<longleftrightarrow>
     (\<forall>c. rsp (cl c) = rsp c
        \<and> (\<forall>k \<in> A. \<forall>a \<in> owned (L k). (k = j \<and> a \<noteq> ts_slot (L j) \<longrightarrow> rsp c \<le> a) \<longrightarrow> ram (cl c) a = ram c a))"

text \<open>
  A call of \<open>__switch_to_stack\<close> by \<open>__thread_invoker\<close>: the arguments, and room for the context on the stack.
\<close>

definition switch_call :: "(nat \<Rightarrow> tmem) \<Rightarrow> tsys \<Rightarrow> nat \<Rightarrow> bool" where
  "switch_call L s j \<longleftrightarrow> j \<in> alive s \<and> j \<noteq> cur s
     \<and> regs (cpu s) RDI = ts_slot (L j) \<and> regs (cpu s) RSI = ts_slot (L (cur s))
     \<and> ts_lo (L (cur s)) \<le> rsp (cpu s) - 112 \<and> rsp (cpu s) - 112 \<le> rsp (cpu s) \<and> rsp (cpu s) < ts_hi (L (cur s))"

inductive tstep :: "(nat \<Rightarrow> tmem) \<Rightarrow> tsys \<Rightarrow> tsys \<Rightarrow> bool" for L where
  run: "(\<And>j a. j \<in> alive s \<Longrightarrow> j \<noteq> cur s \<Longrightarrow> a \<in> owned (L j) \<Longrightarrow> ram c a = ram (cpu s) a) \<Longrightarrow>
    tstep L s (s\<lparr>cpu := c\<rparr>)"
| switch: "switch_call L s j \<Longrightarrow> cleanup_ok L (alive s) j cl \<Longrightarrow>
    tstep L s (s\<lparr>cpu := switch_to_stack cl (cpu s), cur := j, parked := (parked s)(cur s := Some (cpu s))\<rparr>)"
| exit: "switch_call L s j \<Longrightarrow> cleanup_ok L (alive s - {cur s}) j cl \<Longrightarrow>
    tstep L s (s\<lparr>cpu := switch_to_stack cl (cpu s), cur := j, alive := alive s - {cur s}\<rparr>)"
| create: "j \<notin> alive s \<Longrightarrow> tmem_ok (L j) \<Longrightarrow> (\<And>k. k \<in> alive s \<Longrightarrow> owned (L k) \<inter> owned (L j) = {}) \<Longrightarrow>
    sb = ts_lo (L j) \<Longrightarrow> ts_hi (L j) = sb + STACK_SIZE \<Longrightarrow> sb \<le> sb + STACK_SIZE \<Longrightarrow>
    m = create_stack sb (ts_slot (L j)) func arg capture (ram (cpu s)) \<Longrightarrow>
    tstep L s (s\<lparr>cpu := (cpu s)\<lparr>ram := m\<rparr>, alive := insert j (alive s), parked := (parked s)(j := Some (start_cpu sb arg m))\<rparr>)"

end
