(* ===== verification/ContextSwitchProps.thy ===== *)
theory ContextSwitchProps
  imports ContextSwitch
begin

text \<open>
  Saving and restoring agree with the layout of \<open>struct exec_ctx\<close>, a thread always resumes with the registers
  and the stack with which it stopped, and a new thread starts in its function with its argument.
\<close>

section \<open>Single instructions\<close>

lemmas instr_defs = pushq_def popq_def movq_def callq_def retq_def

text \<open>What \<open>save_registers\<close> has to store for a processor that is about to run it.\<close>

definition ctx_of :: "cpu \<Rightarrow> exec_ctx" where
  "ctx_of c =
     \<lparr>ctx_rbp = regs c RBP, ctx_r15 = regs c R15, ctx_r14 = regs c R14, ctx_r13 = regs c R13, ctx_r12 = regs c R12,
      ctx_r11 = regs c R11, ctx_r10 = regs c R10, ctx_r9 = regs c R9, ctx_r8 = regs c R8, ctx_rsi = regs c RSI,
      ctx_rdi = regs c RDI, ctx_rdx = regs c RDX, ctx_rcx = regs c RCX, ctx_rbx = regs c RBX, ctx_rip = ram c (rsp c)\<rparr>"

lemma save_registers_regs [simp]:
  "regs (save_registers c) = regs c" "rsp (save_registers c) = rsp c - 112" "rip (save_registers c) = rip c"
  by (simp_all add: save_registers_def pushq_def)

lemma save_registers_ctx: "load_ctx (ram (save_registers c)) (rsp c - 112) = ctx_of c"
  by (simp add: save_registers_def pushq_def load_ctx_def ctx_of_def)

text \<open>Only the 14 words below the stack pointer are written.\<close>

lemma below_range:
  fixes x :: u64
  assumes "x - n \<le> x" and "0 < k" and "k \<le> n"
  shows "x - n \<le> x - k \<and> x - k < x"
proof -
  have n: "n \<le> x" using assms(1) by (simp add: word_sub_le_iff)
  then have "k \<le> x" using assms(3) by simp
  then have "unat (x - k) = unat x - unat k" "unat (x - n) = unat x - unat n" using n by (simp_all add: unat_sub)
  moreover have "unat k \<le> unat n" "0 < unat k" "unat n \<le> unat x" using assms(2,3) n by (simp_all add: word_le_nat_alt unat_gt_0)
  ultimately show ?thesis by (simp add: word_le_nat_alt word_less_nat_alt)
qed

lemma save_registers_frame:
  assumes "rsp c - 112 \<le> rsp c" and "\<not> (rsp c - 112 \<le> a \<and> a < rsp c)"
  shows "ram (save_registers c) a = ram c a"
proof -
  have "a \<noteq> rsp c - k" if "0 < k" "k \<le> 112" for k using below_range [OF assms(1) that] assms(2) by blast
  then show ?thesis by (simp add: save_registers_def pushq_def)
qed

lemma restore_registers_ret:
  "regs (retq (restore_registers c)) =
     (\<lambda>r. case r of RAX \<Rightarrow> regs c RAX | RBX \<Rightarrow> ctx_rbx (load_ctx (ram c) (rsp c)) | RCX \<Rightarrow> ctx_rcx (load_ctx (ram c) (rsp c))
        | RDX \<Rightarrow> ctx_rdx (load_ctx (ram c) (rsp c)) | RSI \<Rightarrow> ctx_rsi (load_ctx (ram c) (rsp c))
        | RDI \<Rightarrow> ctx_rdi (load_ctx (ram c) (rsp c)) | RBP \<Rightarrow> ctx_rbp (load_ctx (ram c) (rsp c))
        | R8 \<Rightarrow> ctx_r8 (load_ctx (ram c) (rsp c)) | R9 \<Rightarrow> ctx_r9 (load_ctx (ram c) (rsp c))
        | R10 \<Rightarrow> ctx_r10 (load_ctx (ram c) (rsp c)) | R11 \<Rightarrow> ctx_r11 (load_ctx (ram c) (rsp c))
        | R12 \<Rightarrow> ctx_r12 (load_ctx (ram c) (rsp c)) | R13 \<Rightarrow> ctx_r13 (load_ctx (ram c) (rsp c))
        | R14 \<Rightarrow> ctx_r14 (load_ctx (ram c) (rsp c)) | R15 \<Rightarrow> ctx_r15 (load_ctx (ram c) (rsp c)))"
  "rsp (retq (restore_registers c)) = rsp c + 120"
  "rip (retq (restore_registers c)) = ctx_rip (load_ctx (ram c) (rsp c))"
  "ram (retq (restore_registers c)) = ram c"
  by (auto simp: restore_registers_def popq_def retq_def load_ctx_def fun_eq_iff ac_simps split: reg.split)

section \<open>Parked threads\<close>

text \<open>
  A thread that has called \<open>__switch_to_stack\<close> in state \<open>c\<close>: its field \<open>stack_rsp\<close> points at its context, and its
  stack above the context is as it left it.
\<close>

definition parked_at :: "tmem \<Rightarrow> (u64 \<Rightarrow> u64) \<Rightarrow> cpu \<Rightarrow> bool" where
  "parked_at t m c \<longleftrightarrow> m (ts_slot t) = rsp c - 112
     \<and> ts_lo t \<le> rsp c - 112 \<and> rsp c - 112 \<le> rsp c \<and> rsp c < ts_hi t
     \<and> load_ctx m (rsp c - 112) = ctx_of c \<and> (\<forall>a. rsp c \<le> a \<and> a < ts_hi t \<longrightarrow> m a = ram c a)"

lemma load_ctx_cong:
  assumes "sp - 112 \<le> sp" and "\<And>a. sp - 112 \<le> a \<Longrightarrow> a \<le> sp \<Longrightarrow> m' a = m a"
  shows "load_ctx m' (sp - 112) = load_ctx m (sp - 112)"
proof -
  have "m' (sp - k) = m (sp - k)" if "0 < k" "k \<le> 112" for k
    using below_range [OF assms(1) that] assms(2) [of "sp - k"] by (simp add: order_less_imp_le)
  moreover have "m' sp = m sp" using assms by simp
  ultimately show ?thesis by (simp add: load_ctx_def)
qed

lemma parked_at_cong:
  assumes "parked_at t m c" and "m' (ts_slot t) = m (ts_slot t)"
    and "\<And>a. rsp c - 112 \<le> a \<Longrightarrow> a < ts_hi t \<Longrightarrow> m' a = m a"
  shows "parked_at t m' c"
proof -
  have p: "rsp c - 112 \<le> rsp c" "rsp c < ts_hi t" "load_ctx m (rsp c - 112) = ctx_of c" using assms(1) by (simp_all add: parked_at_def)
  have "load_ctx m' (rsp c - 112) = load_ctx m (rsp c - 112)"
    by (rule load_ctx_cong [OF p(1)]) (use assms(3) p(2) in force)
  moreover have "m' a = ram c a" if "rsp c \<le> a" "a < ts_hi t" for a
    using assms(1) that p(1) assms(3) [of a] by (force simp: parked_at_def)
  ultimately show ?thesis using assms(1,2) p(3) by (simp add: parked_at_def)
qed

lemma parked_range: "parked_at t m c \<Longrightarrow> rsp c - 112 \<le> a \<Longrightarrow> a < ts_hi t \<Longrightarrow> a \<in> owned t"
  by (auto simp: parked_at_def owned_def)

lemma parked_slot: "ts_slot t \<in> owned t"
  by (simp add: owned_def)

lemma parked_resume:
  assumes "parked_at t (ram c') c" and "rsp c' = rsp c - 112"
  shows "r \<noteq> RAX \<Longrightarrow> regs (retq (restore_registers c')) r = regs c r"
    and "rsp (retq (restore_registers c')) = rsp c + 8" and "rip (retq (restore_registers c')) = ram c (rsp c)"
proof -
  have l: "load_ctx (ram c') (rsp c') = ctx_of c" using assms by (simp add: parked_at_def)
  show "r \<noteq> RAX \<Longrightarrow> regs (retq (restore_registers c')) r = regs c r"
    by (cases r) (simp_all add: restore_registers_ret l ctx_of_def)
  show "rsp (retq (restore_registers c')) = rsp c + 8" by (simp add: restore_registers_ret assms(2))
  show "rip (retq (restore_registers c')) = ram c (rsp c)" by (simp add: restore_registers_ret l ctx_of_def)
qed

section \<open>The invariant\<close>

definition tsys_inv :: "(nat \<Rightarrow> tmem) \<Rightarrow> tsys \<Rightarrow> bool" where
  "tsys_inv L s \<longleftrightarrow> cur s \<in> alive s
     \<and> (\<forall>i \<in> alive s. tmem_ok (L i) \<and> (\<forall>j \<in> alive s. i \<noteq> j \<longrightarrow> owned (L i) \<inter> owned (L j) = {}))
     \<and> (\<forall>j \<in> alive s. j \<noteq> cur s \<longrightarrow> (\<exists>c. parked s j = Some c \<and> parked_at (L j) (ram (cpu s)) c))"

lemma tsys_disjoint:
  assumes "tsys_inv L s" and "i \<in> alive s" and "j \<in> alive s" and "i \<noteq> j" and "a \<in> owned (L i)" and "b \<in> owned (L j)"
  shows "a \<noteq> b"
  using assms unfolding tsys_inv_def by blast

lemma tsys_parked:
  assumes "tsys_inv L s" and "j \<in> alive s" and "j \<noteq> cur s"
  obtains c where "parked s j = Some c" and "parked_at (L j) (ram (cpu s)) c"
  using assms unfolding tsys_inv_def by blast

text \<open>The processor in \<open>__switch_to_stack\<close> before the call of \<open>pet_thread_cleanup\<close>.\<close>

definition pivot :: "cpu \<Rightarrow> cpu" where
  "pivot c = (let c = save_registers c;
                  c = c\<lparr>ram := (ram c)(regs c RSI := rsp c)\<rparr>
              in movq RCX RSI (movq RDX RDI (c\<lparr>rsp := ram c (regs c RDI)\<rparr>)))"

lemma switch_pivot: "switch_to_stack cl c = retq (restore_registers (cl (pivot c)))"
  by (simp add: switch_to_stack_def pivot_def Let_def)

lemma pivot_others:
  assumes i: "tsys_inv L s" and c: "switch_call L s j" and k: "k \<in> alive s" "k \<noteq> cur s" and a: "a \<in> owned (L k)"
  shows "ram (pivot (cpu s)) a = ram (cpu s) a"
proof -
  have cur: "cur s \<in> alive s" using i by (simp add: tsys_inv_def)
  have "a \<noteq> ts_slot (L (cur s))" using tsys_disjoint [OF i k(1) cur k(2) a parked_slot] .
  moreover have "\<not> (rsp (cpu s) - 112 \<le> a \<and> a < rsp (cpu s))"
  proof
    assume "rsp (cpu s) - 112 \<le> a \<and> a < rsp (cpu s)"
    then have "a \<in> owned (L (cur s))" using c by (auto simp: switch_call_def owned_def)
    then show False using tsys_disjoint [OF i k(1) cur k(2) a] by blast
  qed
  ultimately show ?thesis
    using c by (simp add: pivot_def Let_def movq_def switch_call_def save_registers_frame)
qed

lemma pivot_rsp:
  assumes "tsys_inv L s" and "switch_call L s j" and "parked_at (L j) (ram (cpu s)) c"
  shows "rsp (pivot (cpu s)) = rsp c - 112"
proof -
  have "rsp (pivot (cpu s)) = ram (pivot (cpu s)) (ts_slot (L j))"
    using assms(2) by (simp add: pivot_def Let_def movq_def switch_call_def)
  also have "\<dots> = ram (cpu s) (ts_slot (L j))"
    using assms(2) by (intro pivot_others [OF assms(1,2) _ _ parked_slot]) (simp_all add: switch_call_def)
  finally show ?thesis using assms(3) by (simp add: parked_at_def)
qed

lemma pivot_self:
  assumes "tsys_inv L s" and "switch_call L s j"
  shows "parked_at (L (cur s)) (ram (pivot (cpu s))) (cpu s)"
proof -
  let ?c = "cpu s" and ?t = "L (cur s)"
  have r: "rsp ?c - 112 \<le> rsp ?c" "ts_lo ?t \<le> rsp ?c - 112" "rsp ?c < ts_hi ?t" and rsi: "regs ?c RSI = ts_slot ?t"
    using assms(2) by (simp_all add: switch_call_def)
  have out: "ts_slot ?t \<noteq> a" if "rsp ?c - 112 \<le> a" "a < ts_hi ?t" for a
    using assms(1) r(2) that by (auto simp: tsys_inv_def tmem_ok_def)
  have m: "ram (pivot ?c) = (ram (save_registers ?c))(ts_slot ?t := rsp ?c - 112)"
    using rsi by (simp add: pivot_def Let_def movq_def)
  have "load_ctx (ram (pivot ?c)) (rsp ?c - 112) = load_ctx (ram (save_registers ?c)) (rsp ?c - 112)"
  proof (rule load_ctx_cong [OF r(1)])
    fix a assume a: "rsp ?c - 112 \<le> a" "a \<le> rsp ?c"
    have "ts_slot ?t \<noteq> a" by (rule out [OF a(1) le_less_trans [OF a(2) r(3)]])
    then show "ram (pivot ?c) a = ram (save_registers ?c) a" by (simp add: m)
  qed
  moreover have "ram (pivot ?c) a = ram ?c a" if a: "rsp ?c \<le> a" "a < ts_hi ?t" for a
  proof -
    have "ts_slot ?t \<noteq> a" using out [of a] a r(1) by simp
    then show ?thesis using a save_registers_frame [OF r(1), of a] by (simp add: m not_less)
  qed
  ultimately show ?thesis using r by (simp add: parked_at_def save_registers_ctx m)
qed

text \<open>After the call of \<open>pet_thread_cleanup\<close> every thread that lives on is parked or about to resume.\<close>

lemma switch_parked:
  assumes i: "tsys_inv L s" and c: "switch_call L s j" and cl: "cleanup_ok L A j cl" and A: "A \<subseteq> alive s"
    and k: "k \<in> A" and p: "k \<noteq> cur s \<Longrightarrow> parked s k = Some d" "k = cur s \<Longrightarrow> d = cpu s"
  shows "parked_at (L k) (ram (cl (pivot (cpu s)))) d"
proof -
  let ?c = "pivot (cpu s)"
  have ka: "k \<in> alive s" using k A by blast
  have j: "j \<in> alive s" "j \<noteq> cur s" using c by (simp_all add: switch_call_def)
  have before: "parked_at (L k) (ram ?c) d"
  proof (cases "k = cur s")
    case True
    then show ?thesis using pivot_self [OF i c] p(2) by simp
  next
    case False
    from tsys_parked [OF i ka False] p(1) [OF False] have d: "parked_at (L k) (ram (cpu s)) d" by force
    show ?thesis
      by (rule parked_at_cong [OF d pivot_others [OF i c ka False parked_slot] pivot_others [OF i c ka False parked_range [OF d]]])
  qed
  have sp: "rsp ?c = rsp d - 112" if "k = j"
    using pivot_rsp [OF i c] tsys_parked [OF i j] p(1) that j(2) by (metis option.inject)
  have keep: "ram (cl ?c) a = ram ?c a" if "a \<in> owned (L k)" "a = ts_slot (L k) \<or> rsp d - 112 \<le> a" for a
  proof -
    have "\<forall>a \<in> owned (L k). (k = j \<and> a \<noteq> ts_slot (L j) \<longrightarrow> rsp ?c \<le> a) \<longrightarrow> ram (cl ?c) a = ram ?c a"
      using cl k unfolding cleanup_ok_def by blast
    then show ?thesis using that sp by auto
  qed
  show ?thesis
  proof (rule parked_at_cong [OF before])
    show "ram (cl ?c) (ts_slot (L k)) = ram ?c (ts_slot (L k))" by (rule keep [OF parked_slot]) simp
    show "ram (cl ?c) a = ram ?c a" if "rsp d - 112 \<le> a" "a < ts_hi (L k)" for a
      using keep [OF parked_range [OF before that]] that(1) by blast
  qed
qed

lemma switch_inv:
  assumes i: "tsys_inv L s" and c: "switch_call L s j" and cl: "cleanup_ok L A j cl" and A: "A \<subseteq> alive s" "j \<in> A"
    and s': "cpu s' = switch_to_stack cl (cpu s)" "cur s' = j" "alive s' = A"
    and p: "\<And>k. k \<in> A \<Longrightarrow> k \<noteq> cur s \<Longrightarrow> parked s' k = parked s k" "cur s \<in> A \<Longrightarrow> parked s' (cur s) = Some (cpu s)"
  shows "tsys_inv L s'"
proof -
  have "\<exists>d. parked s' k = Some d \<and> parked_at (L k) (ram (cpu s')) d" if k: "k \<in> A" "k \<noteq> j" for k
  proof (cases "k = cur s")
    case True
    then show ?thesis using switch_parked [OF i c cl A(1) k(1), of "cpu s"] p(2) k(1) s'(1) by (simp add: switch_pivot restore_registers_ret)
  next
    case False
    then obtain d where "parked s k = Some d" using tsys_parked [OF i _ False] k A by blast
    then show ?thesis using switch_parked [OF i c cl A(1) k(1), of d] p(1) [OF k(1) False] False s'(1)
      by (simp add: switch_pivot restore_registers_ret)
  qed
  moreover have "\<forall>i \<in> A. tmem_ok (L i) \<and> (\<forall>j \<in> A. i \<noteq> j \<longrightarrow> owned (L i) \<inter> owned (L j) = {})"
    using i A(1) unfolding tsys_inv_def by blast
  ultimately show ?thesis using s'(2,3) A(2) unfolding tsys_inv_def by simp
qed

lemma switch_resumes:
  assumes i: "tsys_inv L s" and c: "switch_call L s j" and cl: "cleanup_ok L A j cl" and A: "A \<subseteq> alive s" "j \<in> A"
    and p: "parked s j = Some d"
  defines "c' \<equiv> switch_to_stack cl (cpu s)"
  shows "r \<noteq> RAX \<Longrightarrow> regs c' r = regs d r" and "rsp c' = rsp d + 8" and "rip c' = ram d (rsp d)"
    and "rsp d \<le> a \<Longrightarrow> a < ts_hi (L j) \<Longrightarrow> ram c' a = ram d a"
proof -
  have j: "j \<in> alive s" "j \<noteq> cur s" using c by (simp_all add: switch_call_def)
  have "rsp (cl (pivot (cpu s))) = rsp (pivot (cpu s))" using cl by (simp add: cleanup_ok_def)
  also have "\<dots> = rsp d - 112" using pivot_rsp [OF i c] tsys_parked [OF i j] p by (metis option.inject)
  finally have sp: "rsp (cl (pivot (cpu s))) = rsp d - 112" .
  have at: "parked_at (L j) (ram (cl (pivot (cpu s)))) d" by (rule switch_parked [OF i c cl A]) (use p j in auto)
  note res = parked_resume [OF at sp]
  show "r \<noteq> RAX \<Longrightarrow> regs c' r = regs d r" "rsp c' = rsp d + 8" "rip c' = ram d (rsp d)"
    unfolding c'_def switch_pivot by (fact res)+
  show "rsp d \<le> a \<Longrightarrow> a < ts_hi (L j) \<Longrightarrow> ram c' a = ram d a"
    using at unfolding c'_def switch_pivot by (simp add: restore_registers_ret parked_at_def)
qed

section \<open>New threads\<close>

lemma above_range:
  fixes x :: u64
  assumes "x \<le> x + n" and "k < n"
  shows "x \<le> x + k \<and> x + k < x + n"
proof -
  have n: "unat x + unat n < 2 ^ 64" using assms(1) no_olen_add_nat [of x n] by simp
  moreover have k: "unat k < unat n" using assms(2) by (simp add: word_less_nat_alt)
  ultimately have "unat (x + k) = unat x + unat k" "unat (x + n) = unat x + unat n"
    by (simp_all add: unat_plus_if_size word_size)
  then show ?thesis using k by (simp add: word_le_nat_alt word_less_nat_alt)
qed

lemmas stack_consts = first_rsp_def num_entries_def STACK_SIZE_def

lemma start_parked:
  assumes lo: "ts_lo t = sb" "ts_hi t = sb + STACK_SIZE" and sb: "sb \<le> sb + STACK_SIZE" and t: "tmem_ok t"
    and m: "m = create_stack sb (ts_slot t) func arg capture m0"
  shows "parked_at t m (start_cpu sb arg m)"
proof -
  have in_stack: "sb \<le> sb + k \<and> sb + k < sb + 0x20000" if "k < 0x20000" for k
    using above_range [of sb STACK_SIZE k] sb that by (simp add: STACK_SIZE_def)
  have ns: "ts_slot t \<noteq> sb + k" if "k < 0x20000" for k
    using t in_stack [OF that] by (auto simp: tmem_ok_def lo STACK_SIZE_def)
  have word: "m (sb + k) = (if k = 0x1fff0 then func else if k = 0x1ff80 then sb + 0x1fff8 else if k = 0x1ffd0 then arg
      else if k = 0x1fff8 then capture else 0)" if "k < 0x20000" for k
    using in_stack [OF that] ns [OF that]
    by (auto simp: m create_stack_def init_ctx_def calloc_stack_def Let_def stack_consts)
  have "load_ctx m (sb + 0x1ff80) = ctx_of (start_cpu sb arg m)"
    by (simp add: load_ctx_def ctx_of_def start_cpu_def word word [unfolded add.commute [of sb]] stack_consts)
  moreover have "m (ts_slot t) = sb + 0x1ff80" by (simp add: m create_stack_def stack_consts)
  moreover have "sb + 0x1ff80 \<le> sb + 0x1fff0"
    using in_stack [of "0x1ff80"] above_range [of sb "0x1fff0" "0x1ff80"] in_stack [of "0x1fff0"] by (simp add: order_less_imp_le)
  ultimately show ?thesis
    using in_stack [of "0x1ff80"] in_stack [of "0x1fff0"] by (simp add: parked_at_def start_cpu_def lo stack_consts add.commute [of _ sb])
qed

lemma create_stack_frame:
  assumes "a \<notin> owned t" and "ts_lo t = sb" "ts_hi t = sb + STACK_SIZE" and sb: "sb \<le> sb + STACK_SIZE"
  shows "create_stack sb (ts_slot t) func arg capture m a = m a"
proof -
  have out: "\<not> (sb \<le> a \<and> a < sb + 0x20000)" and slot: "a \<noteq> ts_slot t"
    using assms(1-3) by (auto simp: owned_def STACK_SIZE_def)
  have ne: "a \<noteq> sb + k" if "k < 0x20000" for k
    using above_range [of sb STACK_SIZE k] sb that out by (auto simp: STACK_SIZE_def)
  have "a \<noteq> sb + 0x1fff0" "a \<noteq> sb + 0x1ff80" "a \<noteq> sb + 0x1ffd0" "a \<noteq> sb + 0x1fff8" by (rule ne, simp)+
  then show ?thesis
    using out slot by (auto simp: create_stack_def init_ctx_def calloc_stack_def Let_def stack_consts add.commute [of _ sb])
qed

section \<open>Runs\<close>

lemma run_inv:
  assumes i: "tsys_inv L s" and m: "\<And>j a. j \<in> alive s \<Longrightarrow> j \<noteq> cur s \<Longrightarrow> a \<in> owned (L j) \<Longrightarrow> ram c a = ram (cpu s) a"
  shows "tsys_inv L (s\<lparr>cpu := c\<rparr>)"
proof -
  have "\<exists>d. parked s j = Some d \<and> parked_at (L j) (ram c) d" if j: "j \<in> alive s" "j \<noteq> cur s" for j
  proof -
    obtain d where d: "parked s j = Some d" "parked_at (L j) (ram (cpu s)) d" by (rule tsys_parked [OF i j])
    have "parked_at (L j) (ram c) d"
      by (rule parked_at_cong [OF d(2) m [OF j parked_slot] m [OF j parked_range [OF d(2)]]])
    then show ?thesis using d(1) by blast
  qed
  then show ?thesis using i by (simp add: tsys_inv_def)
qed

lemma create_inv:
  assumes i: "tsys_inv L s" and j: "j \<notin> alive s" "tmem_ok (L j)" "\<And>k. k \<in> alive s \<Longrightarrow> owned (L k) \<inter> owned (L j) = {}"
    and sb: "ts_lo (L j) = sb" "ts_hi (L j) = sb + STACK_SIZE" "sb \<le> sb + STACK_SIZE"
    and m: "m = create_stack sb (ts_slot (L j)) func arg capture (ram (cpu s))"
  shows "tsys_inv L (s\<lparr>cpu := (cpu s)\<lparr>ram := m\<rparr>, alive := insert j (alive s), parked := (parked s)(j := Some (start_cpu sb arg m))\<rparr>)"
proof -
  have same: "m a = ram (cpu s) a" if "k \<in> alive s" "a \<in> owned (L k)" for k a
    unfolding m by (rule create_stack_frame [OF _ sb]) (use j(3) that in blast)
  have "\<exists>d. parked s k = Some d \<and> parked_at (L k) m d" if k: "k \<in> alive s" "k \<noteq> cur s" for k
  proof -
    obtain d where d: "parked s k = Some d" "parked_at (L k) (ram (cpu s)) d" by (rule tsys_parked [OF i k])
    have "parked_at (L k) m d"
      by (rule parked_at_cong [OF d(2) same [OF k(1) parked_slot] same [OF k(1) parked_range [OF d(2)]]])
    then show ?thesis using d(1) by blast
  qed
  moreover have "parked_at (L j) m (start_cpu sb arg m)" by (rule start_parked [OF sb j(2) m])
  moreover have "\<forall>i \<in> insert j (alive s). tmem_ok (L i) \<and> (\<forall>k \<in> insert j (alive s). i \<noteq> k \<longrightarrow> owned (L i) \<inter> owned (L k) = {})"
    using i j(2,3) unfolding tsys_inv_def by blast
  ultimately show ?thesis using i j(1) unfolding tsys_inv_def by auto
qed

lemma tstep_inv:
  assumes "tstep L s s'" and i: "tsys_inv L s"
  shows "tsys_inv L s'"
  using assms(1)
proof cases
  case (run c)
  then show ?thesis using run_inv [OF i] by simp
next
  case (switch j cl)
  then have "j \<in> alive s" by (simp add: switch_call_def)
  then show ?thesis using switch by (intro switch_inv [OF i switch(2,3)]) simp_all
next
  case (exit j cl)
  then have "j \<in> alive s - {cur s}" by (simp add: switch_call_def)
  then show ?thesis using exit by (intro switch_inv [OF i exit(2,3)]) auto
next
  case (create j sb m func arg capture)
  then show ?thesis using create_inv [OF i create(2,3), of sb m func arg capture] by simp
qed

lemma tstep_reach_inv:
  assumes "(tstep L)\<^sup>*\<^sup>* s0 s" and "alive s0 = {cur s0}" and "tmem_ok (L (cur s0))"
  shows "tsys_inv L s"
  using assms(1)
proof induction
  case base
  then show ?case using assms(2,3) by (simp add: tsys_inv_def)
qed (rule tstep_inv)

section \<open>Properties\<close>

text \<open>
  C6: a thread that is switched to goes on exactly where it stopped: whatever threads were created, ran,
  switched and exited in between, all registers but \<open>%rax\<close> have the values they had when it called
  \<open>__switch_to_stack\<close> (or those laid out by \<open>pet_thread_create\<close>, if it has never run), the call returns to its caller,
  and the thread's stack is as it was.
\<close>

theorem context_switch_resumes:
  assumes "(tstep L)\<^sup>*\<^sup>* s0 s" and "alive s0 = {cur s0}" and "tmem_ok (L (cur s0))"
    and "switch_call L s j" and "cleanup_ok L (alive s) j cl" and "c' = switch_to_stack cl (cpu s)"
  shows "\<exists>c. parked s j = Some c \<and> (\<forall>r. r \<noteq> RAX \<longrightarrow> regs c' r = regs c r) \<and> rsp c' = rsp c + 8 \<and> rip c' = ram c (rsp c)
           \<and> (\<forall>a. rsp c \<le> a \<and> a < ts_hi (L j) \<longrightarrow> ram c' a = ram c a)"
proof -
  have i: "tsys_inv L s" by (rule tstep_reach_inv [OF assms(1-3)])
  have j: "j \<in> alive s" "j \<noteq> cur s" using assms(4) by (simp_all add: switch_call_def)
  obtain c where c: "parked s j = Some c" by (rule tsys_parked [OF i j])
  show ?thesis using switch_resumes [OF i assms(4,5) order_refl j(1) c] c unfolding assms(6) by blast
qed

text \<open>The master thread creates a thread and switches to it for the first time.\<close>

definition two_stacks :: "nat \<Rightarrow> tmem" where
  "two_stacks i = (if i = 0 then \<lparr>ts_slot = 0x10, ts_lo = 0x1000, ts_hi = 0x2000\<rparr>
     else \<lparr>ts_slot = 0x20, ts_lo = 0x100000, ts_hi = 0x120000\<rparr>)"

definition tsys0 :: tsys where
  "tsys0 = \<lparr>cpu = \<lparr>regs = (\<lambda>r. if r = RDI then 0x20 else if r = RSI then 0x10 else 5), rsp = 0x1800, rip = 0, ram = (\<lambda>_. 0)\<rparr>,
     cur = 0, alive = {0}, parked = (\<lambda>_. None)\<rparr>"

definition tsys1 :: tsys where
  "tsys1 = (let m = create_stack 0x100000 0x20 0x400000 7 0x500000 (ram (cpu tsys0)) in
     tsys0\<lparr>cpu := (cpu tsys0)\<lparr>ram := m\<rparr>, alive := insert 1 (alive tsys0), parked := (parked tsys0)(1 := Some (start_cpu 0x100000 7 m))\<rparr>)"

lemma tsys1_reach: "(tstep two_stacks)\<^sup>*\<^sup>* tsys0 tsys1"
proof -
  have "owned (two_stacks 0) \<inter> owned (two_stacks 1) = {}"
    by (auto simp: owned_def two_stacks_def word_less_nat_alt word_le_nat_alt)
  then have "tstep two_stacks tsys0 tsys1"
    unfolding tsys1_def Let_def
    by (intro tstep.create) (auto simp: tsys0_def tmem_ok_def two_stacks_def STACK_SIZE_def)
  then show ?thesis by (rule r_into_rtranclp)
qed

theorem context_switch_resumes_witness:
  "rip (switch_to_stack id (cpu tsys1)) = 0x400000 \<and> regs (switch_to_stack id (cpu tsys1)) RDI = 7"
proof -
  have c: "switch_call two_stacks tsys1 1" by (simp add: switch_call_def tsys1_def tsys0_def two_stacks_def Let_def)
  have cl: "cleanup_ok two_stacks (alive tsys1) 1 id" by (simp add: cleanup_ok_def)
  have s0: "alive tsys0 = {cur tsys0}" "tmem_ok (two_stacks (cur tsys0))" by (simp_all add: tsys0_def tmem_ok_def two_stacks_def)
  note res = context_switch_resumes [OF tsys1_reach s0 c cl refl]
  obtain d where d: "parked tsys1 1 = Some d" "regs d RDI = 7" "ram d (rsp d) = 0x400000"
  proof
    let ?m = "create_stack 0x100000 0x20 0x400000 7 0x500000 (ram (cpu tsys0))"
    show "parked tsys1 1 = Some (start_cpu 0x100000 7 ?m)" by (simp add: tsys1_def Let_def)
    show "regs (start_cpu 0x100000 7 ?m) RDI = 7" by (simp add: start_cpu_def)
    show "ram (start_cpu 0x100000 7 ?m) (rsp (start_cpu 0x100000 7 ?m)) = 0x400000"
      by (simp add: start_cpu_def stack_consts create_stack_def init_ctx_def Let_def)
  qed
  then show ?thesis using res by auto
qed



section \<open>Deviations\<close>

text \<open>
  \<open>pet_thread_cleanup\<close> is called with a misaligned stack whenever the thread switched to has run before: the
  calling convention makes the stack pointer 8 modulo 16 at the entry of \<open>__switch_to_stack\<close>, and the 14 registers
  saved leave it so, where a call demands 0.
\<close>

lemma cleanup_call_misaligned:
  assumes "tsys_inv L s" and "switch_call L s j" and "parked_at (L j) (ram (cpu s)) c" and "unat (rsp c) mod 16 = 8"
  shows "unat (rsp (pivot (cpu s))) mod 16 = 8"
proof -
  have "rsp c - 112 \<le> rsp c" using assms(3) by (simp add: parked_at_def)
  then have le: "112 \<le> rsp c" by (simp only: word_sub_le_iff)
  then have "unat (rsp c - 112) = unat (rsp c) - 112" by (simp add: unat_sub)
  moreover have "112 \<le> unat (rsp c)" using le by (simp add: word_le_nat_alt)
  then obtain k where "unat (rsp c) = k + 7 * 16" using nat_le_iff_add [of 112 "unat (rsp c)"] by auto
  ultimately show ?thesis unfolding pivot_rsp [OF assms(1-3)] using assms(4) by (simp only: mod_mult_self1 diff_add_inverse2) simp
qed

text \<open>
  \<open>__dump_stack\<close> begins one word behind the end of the stack: with any value of the uninitialised \<open>cur\<close> but the
  stack pointer itself, its first access is out of bounds.
\<close>

lemma dump_stack_out_of_bounds:
  assumes "thread_at s p = Inr t" and "p \<noteq> master s" and "t_state t \<noteq> PET_THREAD_STOPPED" and "garbage \<noteq> t_stack_rsp t"
  shows "dump_stack m garbage p s = fail OutOfBounds"
  using assms by (simp add: dump_stack_def dump_words.simps stack_word_def num_entries_def STACK_SIZE_def)

end
