(* ===== verification/Buddy.thy ===== *)
theory Buddy
  imports Prelude
begin

text \<open>
  The buddy allocator of \<open>src/VMproject/buddy.c\<close>.  Block addresses are 64-bit words and the
  address computations are those of the code; orders, which never exceed the word size, are
  natural numbers.  The free lists are the sequences their intrusive links represent, newest
  block first, and \<open>blk_order\<close> is the field \<open>order\<close> of the block structure that overlays the
  first bytes of a free block: while a block is allocated its content belongs to the user.
\<close>

section \<open>Data\<close>

record buddy_mempool =
  base_addr :: u64
  pool_order :: nat
  min_order :: nat
  num_blocks :: u64
  tag_bits :: "bool list"
  avail :: "u64 list list"
  blk_order :: "u64 \<Rightarrow> nat"

text \<open>\<open>sizeof(struct block)\<close>: two links and the order.\<close>

definition sizeof_block :: nat where
  "sizeof_block = 24"

section \<open>Tag bits\<close>

definition block_to_id :: "buddy_mempool \<Rightarrow> u64 \<Rightarrow> u64 res" where
  "block_to_id mp block =
     (let block_id = drop_bit (min_order mp) (block - base_addr mp)
      in if block_id \<ge> num_blocks mp then Inl BugOn else Inr block_id)"

definition mark_available :: "buddy_mempool \<Rightarrow> u64 \<Rightarrow> buddy_mempool res" where
  "mark_available mp block =
     rbind (block_to_id mp block) (\<lambda>i. Inr (mp\<lparr>tag_bits := (tag_bits mp)[unat i := True]\<rparr>))"

definition mark_allocated :: "buddy_mempool \<Rightarrow> u64 \<Rightarrow> buddy_mempool res" where
  "mark_allocated mp block =
     rbind (block_to_id mp block) (\<lambda>i. Inr (mp\<lparr>tag_bits := (tag_bits mp)[unat i := False]\<rparr>))"

definition is_available :: "buddy_mempool \<Rightarrow> u64 \<Rightarrow> bool res" where
  "is_available mp block =
     rbind (block_to_id mp block) (\<lambda>i.
     if unat i < length (tag_bits mp) then Inr (tag_bits mp ! unat i) else Inl OutOfBounds)"

definition find_buddy :: "buddy_mempool \<Rightarrow> u64 \<Rightarrow> nat \<Rightarrow> u64 res" where
  "find_buddy mp block order =
     (if block < base_addr mp then Inl BugOn
      else Inr (((block - base_addr mp) XOR push_bit order 1) + base_addr mp))"

section \<open>Initialisation\<close>

text \<open>
  \<open>buddy_init\<close>; \<open>kmalloc_ok\<close> says whether the three allocations succeed, which the code does not
  check.  A minimum order too small for a block structure becomes the order of the next power
  of two, 32.
\<close>

definition buddy_init :: "u64 \<Rightarrow> nat \<Rightarrow> nat \<Rightarrow> bool \<Rightarrow> buddy_mempool option res" where
  "buddy_init base pool min0 kmalloc_ok =
     (let min1 = (if 2 ^ min0 < sizeof_block then 5 else min0) in
      if min1 > pool then Inr None
      else if \<not> kmalloc_ok then Inl (BadDeref NULL)
      else
        let n = push_bit pool 1 div push_bit min1 (1 :: u64)
        in Inr (Some \<lparr>base_addr = base, pool_order = pool, min_order = min1, num_blocks = n,
                      tag_bits = replicate (unat n) False, avail = replicate (Suc pool) [],
                      blk_order = (\<lambda>_. 0)\<rparr>))"

section \<open>Allocation\<close>

text \<open>The loop that splits the upper half off as long as the block is larger than needed.\<close>

fun trim :: "buddy_mempool \<Rightarrow> u64 \<Rightarrow> nat \<Rightarrow> nat \<Rightarrow> buddy_mempool res" where
  "trim mp block order 0 = Inr mp"
| "trim mp block order (Suc j) =
     (if Suc j > order then
        let buddy_block = block + push_bit j 1;
            mp = mp\<lparr>blk_order := (blk_order mp)(buddy_block := j)\<rparr>
        in rbind (mark_available mp buddy_block) (\<lambda>mp.
           trim (mp\<lparr>avail := (avail mp)[j := buddy_block # avail mp ! j]\<rparr>) block order j)
      else Inr mp)"

definition buddy_alloc :: "buddy_mempool \<Rightarrow> nat \<Rightarrow> (u64 \<times> buddy_mempool) res" where
  "buddy_alloc mp order0 =
     (if order0 > pool_order mp then Inl BugOn
      else
        let order = (if order0 < min_order mp then min_order mp else order0) in
        case find (\<lambda>j. avail mp ! j \<noteq> []) [order..<Suc (pool_order mp)] of
          None \<Rightarrow> Inr (NULL, mp)
        | Some j \<Rightarrow>
            let block = hd (avail mp ! j);
                mp = mp\<lparr>avail := (avail mp)[j := tl (avail mp ! j)]\<rparr>
            in rbind (mark_allocated mp block) (\<lambda>mp.
               rbind (trim mp block order j) (\<lambda>mp.
               Inr (block, mp))))"

section \<open>Freeing\<close>

text \<open>\<open>list_del (&buddy->link)\<close>: the block leaves the free list it is linked in.\<close>

definition unlink_block :: "u64 \<Rightarrow> buddy_mempool \<Rightarrow> buddy_mempool res" where
  "unlink_block b mp =
     (if b \<in> set (concat (avail mp)) then Inr (mp\<lparr>avail := map (remove1 b) (avail mp)\<rparr>)
      else Inl (BadDeref b))"

text \<open>
  The loop of \<open>buddy_free\<close>, with \<open>pool_order - order\<close> iterations at most: the first argument.
  The result is the coalesced block with its order.
\<close>

fun coalesce :: "nat \<Rightarrow> buddy_mempool \<Rightarrow> u64 \<Rightarrow> nat \<Rightarrow> (u64 \<times> nat \<times> buddy_mempool) res" where
  "coalesce 0 mp block order = Inr (block, order, mp)"
| "coalesce (Suc n) mp block order =
     rbind (find_buddy mp block order) (\<lambda>buddy.
     rbind (is_available mp buddy) (\<lambda>a.
     if \<not> a then Inr (block, order, mp)
     else if blk_order mp buddy \<noteq> order then Inr (block, order, mp)
     else
       rbind (unlink_block buddy mp) (\<lambda>mp.
       let block = (if buddy < block then buddy else block)
       in coalesce n (mp\<lparr>blk_order := (blk_order mp)(block := Suc order)\<rparr>) block (Suc order))))"

definition buddy_free :: "buddy_mempool \<Rightarrow> u64 \<Rightarrow> nat \<Rightarrow> buddy_mempool res" where
  "buddy_free mp addr order0 =
     (if order0 > pool_order mp then Inl BugOn
      else
        let order = (if order0 < min_order mp then min_order mp else order0) in
        rbind (is_available mp addr) (\<lambda>a.
        rbind (check (\<not> a) BugOn) (\<lambda>_.
        rbind (coalesce (pool_order mp - order) mp addr order) (\<lambda>(block, order, mp).
        let mp = mp\<lparr>blk_order := (blk_order mp)(block := order)\<rparr>
        in rbind (mark_available mp block) (\<lambda>mp.
           Inr (mp\<lparr>avail := (avail mp)[order := block # avail mp ! order]\<rparr>))))))"

text \<open>The counts that \<open>buddy_dump_mempool\<close> prints, from the minimum order to the pool order.\<close>

definition buddy_dump_mempool :: "buddy_mempool \<Rightarrow> (nat \<times> nat) list" where
  "buddy_dump_mempool mp =
     map (\<lambda>i. (i, length (avail mp ! i))) [min_order mp..<Suc (pool_order mp)]"

end
