(* ===== verification/PgTables.thy ===== *)
theory PgTables
  imports Prelude
begin

text \<open>
  The paging vocabulary of \<open>src/VMproject/pgtables.h\<close>: the index, offset and base-address macros of
  the four-level 64-bit page tables, and the bit-field structures of the entries.  A structure is
  its list of fields with their widths, in declaration order; the compiler packs them from the
  lowest bit up.
\<close>

section \<open>Index and address macros\<close>

definition PML4E64_INDEX :: "u64 \<Rightarrow> u64" where
  "PML4E64_INDEX x = drop_bit 39 x AND 0x1ff"

definition PDPE64_INDEX :: "u64 \<Rightarrow> u64" where
  "PDPE64_INDEX x = drop_bit 30 x AND 0x1ff"

definition PDE64_INDEX :: "u64 \<Rightarrow> u64" where
  "PDE64_INDEX x = drop_bit 21 x AND 0x1ff"

definition PTE64_INDEX :: "u64 \<Rightarrow> u64" where
  "PTE64_INDEX x = drop_bit 12 x AND 0x1ff"

definition PAGE_TO_BASE_ADDR :: "u64 \<Rightarrow> u64" where
  "PAGE_TO_BASE_ADDR x = drop_bit 12 x"

definition BASE_TO_PAGE_ADDR :: "u64 \<Rightarrow> u64" where
  "BASE_TO_PAGE_ADDR x = push_bit 12 x"

definition PAGE_OFFSET_4KB :: "u64 \<Rightarrow> u64" where
  "PAGE_OFFSET_4KB x = x AND 0xfff"

definition PAGE_ADDR :: "u64 \<Rightarrow> u64" where
  "PAGE_ADDR x = push_bit 12 (drop_bit 12 x)"

definition CR3_TO_PML4E64_PA :: "u64 \<Rightarrow> u64" where
  "CR3_TO_PML4E64_PA cr3 = cr3 AND 0x000ffffffffff000"

definition MAX_ENTRIES :: nat where
  "MAX_ENTRIES = 512"

section \<open>Entry structures\<close>

type_synonym layout = "(string \<times> nat) list"









definition pml4e64 :: layout where
  "pml4e64 = [(''present'', 1), (''writable'', 1), (''user_page'', 1), (''write_through'', 1), (''cache_disable'', 1),
     (''accessed'', 1), (''reserved'', 1), (''zero'', 2), (''vmm_info'', 3), (''pdp_base_addr'', 40),
     (''available'', 11), (''no_execute'', 1)]"

definition pdpe64 :: layout where
  "pdpe64 = [(''present'', 1), (''writable'', 1), (''user_page'', 1), (''write_through'', 1), (''cache_disable'', 1),
     (''accessed'', 1), (''avail'', 1), (''large_page'', 1), (''zero'', 1), (''vmm_info'', 3), (''pd_base_addr'', 40),
     (''available'', 11), (''no_execute'', 1)]"


definition pde64 :: layout where
  "pde64 = [(''present'', 1), (''writable'', 1), (''user_page'', 1), (''write_through'', 1), (''cache_disable'', 1),
     (''accessed'', 1), (''avail'', 1), (''large_page'', 1), (''global_page'', 1), (''vmm_info'', 3),
     (''pt_base_addr'', 40), (''available'', 11), (''no_execute'', 1)]"


definition pte64 :: layout where
  "pte64 = [(''present'', 1), (''writable'', 1), (''user_page'', 1), (''write_through'', 1), (''cache_disable'', 1),
     (''accessed'', 1), (''dirty'', 1), (''pte_attr'', 1), (''global_page'', 1), (''vmm_info'', 3),
     (''page_base_addr'', 40), (''available'', 11), (''no_execute'', 1)]"


text \<open>The position of a field, and reading and writing it; a value is cut to the width of the field.\<close>

fun field_at :: "layout \<Rightarrow> string \<Rightarrow> nat \<times> nat" where
  "field_at [] f = (0, 0)"
| "field_at ((g, w) # L) f = (if f = g then (0, w) else let (off, v) = field_at L f in (off + w, v))"

definition get_field :: "layout \<Rightarrow> string \<Rightarrow> u64 \<Rightarrow> u64" where
  "get_field L f e = (let (off, w) = field_at L f in take_bit w (drop_bit off e))"

definition set_field :: "layout \<Rightarrow> string \<Rightarrow> u64 \<Rightarrow> u64 \<Rightarrow> u64" where
  "set_field L f v e =
     (let (off, w) = field_at L f in (e AND NOT (push_bit off (mask w))) OR push_bit off (take_bit w v))"

definition layout_bits :: "layout \<Rightarrow> nat" where
  "layout_bits L = sum_list (map snd L)"

definition layout_ok :: "layout \<Rightarrow> bool" where
  "layout_ok L = (distinct (map fst L) \<and> layout_bits L \<le> 64)"

section \<open>Laws of fields\<close>



lemma bit_get_field:
  "bit (get_field L f e) n \<longleftrightarrow> n < snd (field_at L f) \<and> bit e (fst (field_at L f) + n)"
  by (auto simp: get_field_def bit_simps split: prod.splits)

lemma bit_set_field:
  "bit (set_field L f v e) n \<longleftrightarrow> n < 64 \<and>
     (if fst (field_at L f) \<le> n \<and> n < fst (field_at L f) + snd (field_at L f)
      then bit v (n - fst (field_at L f)) else bit e n)"
  by (auto simp: set_field_def bit_simps split: prod.splits)



lemma set_get_same:
  assumes "layout_ok L" and "f \<in> fst ` set L"
  shows "set_field L f (get_field L f e) e = e"
  by (intro bit_eqI) (auto simp: bit_get_field bit_set_field)

section \<open>Entries of the 64-bit tables\<close>

text \<open>The four kinds of entry agree on the fields the code uses.\<close>

abbreviation ent_present :: "u64 \<Rightarrow> bool" where
  "ent_present e \<equiv> bit e 0"

definition ent_base :: "u64 \<Rightarrow> u64" where
  "ent_base e = push_bit 12 (take_bit 40 (drop_bit 12 e))"

lemma present_field:
  "get_field pml4e64 ''present'' e = of_bool (ent_present e)"
  "get_field pdpe64 ''present'' e = of_bool (ent_present e)"
  "get_field pde64 ''present'' e = of_bool (ent_present e)"
  "get_field pte64 ''present'' e = of_bool (ent_present e)"
  by (simp_all add: get_field_def pml4e64_def pdpe64_def pde64_def pte64_def take_bit_Suc_0 take_bit_Suc mod_2_eq_odd bit_0)

lemma base_field:
  "BASE_TO_PAGE_ADDR (get_field pml4e64 ''pdp_base_addr'' e) = ent_base e"
  "BASE_TO_PAGE_ADDR (get_field pdpe64 ''pd_base_addr'' e) = ent_base e"
  "BASE_TO_PAGE_ADDR (get_field pde64 ''pt_base_addr'' e) = ent_base e"
  "BASE_TO_PAGE_ADDR (get_field pte64 ''page_base_addr'' e) = ent_base e"
  by (simp_all add: get_field_def BASE_TO_PAGE_ADDR_def ent_base_def pml4e64_def pdpe64_def pde64_def pte64_def)

text \<open>A page address the base field can hold.\<close>

definition page_pa :: "u64 \<Rightarrow> bool" where
  "page_pa p = (ent_base p = p)"

lemma bit_ent_base: "bit (ent_base e) n \<longleftrightarrow> 12 \<le> n \<and> n < 52 \<and> bit e n"
  by (auto simp: ent_base_def bit_simps)

lemma ent_base_cong: "(\<And>n. 12 \<le> n \<Longrightarrow> n < 52 \<Longrightarrow> bit d n = bit e n) \<Longrightarrow> ent_base d = ent_base e"
  by (intro bit_eqI) (auto simp: bit_ent_base)




lemma index_take:
  "PML4E64_INDEX x = take_bit 9 (drop_bit 39 x)" "PDPE64_INDEX x = take_bit 9 (drop_bit 30 x)"
  "PDE64_INDEX x = take_bit 9 (drop_bit 21 x)" "PTE64_INDEX x = take_bit 9 (drop_bit 12 x)"
proof -
  have m: "(0x1ff :: u64) = mask 9" by (simp add: mask_eq_exp_minus_1)
  show "PML4E64_INDEX x = take_bit 9 (drop_bit 39 x)" "PDPE64_INDEX x = take_bit 9 (drop_bit 30 x)"
    "PDE64_INDEX x = take_bit 9 (drop_bit 21 x)" "PTE64_INDEX x = take_bit 9 (drop_bit 12 x)"
    unfolding PML4E64_INDEX_def PDPE64_INDEX_def PDE64_INDEX_def PTE64_INDEX_def m take_bit_eq_mask by (rule refl)+
qed

lemma offset_take: "PAGE_OFFSET_4KB x = take_bit 12 x"
proof -
  have m: "(0xfff :: u64) = mask 12" by (simp add: mask_eq_exp_minus_1)
  show ?thesis unfolding PAGE_OFFSET_4KB_def m take_bit_eq_mask by (rule refl)
qed

lemma bit_slice: "bit (push_bit k (take_bit j (drop_bit k x))) n \<longleftrightarrow> k \<le> n \<and> n < k + j \<and> bit (x :: u64) n"
  by (auto simp: bit_simps dest: bit_imp_le_length)

lemma take9_less: "unat (take_bit 9 (w :: u64)) < 512"
proof -
  have "take_bit 9 (unat w) < 2 ^ 9" by (rule take_bit_nat_less_exp)
  then show ?thesis by (simp add: unsigned_take_bit_eq)
qed

lemma index_less:
  "unat (PML4E64_INDEX x) < 512" "unat (PDPE64_INDEX x) < 512" "unat (PDE64_INDEX x) < 512" "unat (PTE64_INDEX x) < 512"
  unfolding index_take by (rule take9_less)+

lemma recompose:
  assumes "x < 0x1000000000000"
  shows "push_bit 39 (PML4E64_INDEX x) OR push_bit 30 (PDPE64_INDEX x) OR push_bit 21 (PDE64_INDEX x)
           OR push_bit 12 (PTE64_INDEX x) OR PAGE_OFFSET_4KB x = x"
proof -
  have "take_bit 48 x = x"
    using assms by (simp add: word_unat_eq_iff unsigned_take_bit_eq take_bit_nat_eq_self word_less_nat_alt)
  then have hi: "bit x n \<Longrightarrow> n < 48" for n by (metis bit_take_bit_iff)
  show ?thesis
  proof (rule bit_eqI)
    fix n assume "possible_bit TYPE(u64) n"
    then show "bit (push_bit 39 (PML4E64_INDEX x) OR push_bit 30 (PDPE64_INDEX x) OR push_bit 21 (PDE64_INDEX x)
           OR push_bit 12 (PTE64_INDEX x) OR PAGE_OFFSET_4KB x) n = bit x n"
      using hi [of n] by (auto simp: index_take offset_take bit_slice bit_or_iff bit_take_bit_iff)
  qed
qed

section \<open>Properties\<close>



text \<open>
  The four table indices and the page offset determine a 48-bit address, and each index is less
  than the number of entries of a table.
\<close>

theorem address_recompose:
  assumes "x < 0x1000000000000"
  shows "push_bit 39 (PML4E64_INDEX x) OR push_bit 30 (PDPE64_INDEX x) OR push_bit 21 (PDE64_INDEX x)
           OR push_bit 12 (PTE64_INDEX x) OR PAGE_OFFSET_4KB x = x
       \<and> unat (PML4E64_INDEX x) < MAX_ENTRIES \<and> unat (PDPE64_INDEX x) < MAX_ENTRIES
       \<and> unat (PDE64_INDEX x) < MAX_ENTRIES \<and> unat (PTE64_INDEX x) < MAX_ENTRIES"
  using recompose [OF assms] index_less by (simp add: MAX_ENTRIES_def)

theorem address_recompose_witness:
  "push_bit 39 (PML4E64_INDEX 0x1234567890) OR push_bit 30 (PDPE64_INDEX 0x1234567890)
     OR push_bit 21 (PDE64_INDEX 0x1234567890) OR push_bit 12 (PTE64_INDEX 0x1234567890) OR PAGE_OFFSET_4KB 0x1234567890
   = 0x1234567890"
  using address_recompose [of "0x1234567890"] by simp

end
