(* ===== verification/MemMap.thy ===== *)
theory MemMap
  imports Prelude
begin

text \<open>
  The per-process map of virtual memory in \<open>src/VMproject/on_demand.c\<close>: the list of regions that
  \<open>petmem_init_process\<close> creates, first-fit allocation, release with merging of free
  neighbours, lookup of an address, and destruction.  A node carries its address, so that
  \<open>list_del\<close> of a node that has already left the list is a fault (the kernel poisons the links of
  a deleted node, and the node may be freed); the list itself is the sequence its links represent.
\<close>

section \<open>Data\<close>

text \<open>
  \<open>struct mem_map\<close> of a node.  The field \<open>head\<close> is 1 for the list head only, which is kept apart:
  of it the code reads \<open>head\<close> and, uninitialised, \<open>allocated\<close>.
\<close>

record mem_map =
  mm_node :: u64
  mm_start :: u64
  mm_size :: u64
  mm_allocated :: bool

record vspace =
  vs_nodes :: "mem_map list"
  vs_head_allocated :: bool

definition PAGE_SIZE_4KB :: u64 where
  "PAGE_SIZE_4KB = 4096"

definition PETMEM_REGION_START :: u64 where
  "PETMEM_REGION_START = 0x1000000000"

definition PETMEM_REGION_END :: u64 where
  "PETMEM_REGION_END = 0x3000000000"

section \<open>Operations\<close>

text \<open>
  \<open>petmem_init_process\<close>: \<open>p\<close> is the address of the one node, \<open>garbage\<close> the uninitialised field of
  the head.
\<close>

definition petmem_init_process :: "u64 \<Rightarrow> bool \<Rightarrow> vspace" where
  "petmem_init_process p garbage =
     \<lparr>vs_nodes = [\<lparr>mm_node = p, mm_start = PETMEM_REGION_START,
                   mm_size = PETMEM_REGION_END - PETMEM_REGION_START, mm_allocated = False\<rparr>],
      vs_head_allocated = garbage\<rparr>"

definition petmem_find_address :: "vspace \<Rightarrow> u64 \<Rightarrow> mem_map option" where
  "petmem_find_address vs vaddr =
     find (\<lambda>c. mm_allocated c \<and> vaddr \<ge> mm_start c \<and> vaddr < mm_start c + mm_size c) (vs_nodes vs)"

text \<open>
  \<open>petmem_alloc_vspace\<close>: the first free node that is large enough becomes the allocation, and a new
  free node \<open>p\<close> with what is left of it follows.  The value is the address or \<open>NULL\<close>.
\<close>

fun alloc_in :: "mem_map list \<Rightarrow> u64 \<Rightarrow> u64 \<Rightarrow> u64 \<times> mem_map list" where
  "alloc_in [] num_pages p = (NULL, [])"
| "alloc_in (c # cs) num_pages p =
     (if \<not> mm_allocated c \<and> mm_size c div PAGE_SIZE_4KB \<ge> num_pages then
        let combined_size = mm_size c;
            c' = c\<lparr>mm_size := PAGE_SIZE_4KB * num_pages, mm_allocated := True\<rparr>
        in (mm_start c,
            c' # \<lparr>mm_node = p, mm_start = mm_start c' + mm_size c', mm_size = combined_size - mm_size c',
                  mm_allocated = False\<rparr> # cs)
      else let (a, cs) = alloc_in cs num_pages p in (a, c # cs))"

definition petmem_alloc_vspace :: "vspace \<Rightarrow> u64 \<Rightarrow> u64 \<Rightarrow> u64 \<times> vspace" where
  "petmem_alloc_vspace vs num_pages p =
     (let (a, cs) = alloc_in (vs_nodes vs) num_pages p in (a, vs\<lparr>vs_nodes := cs\<rparr>))"

text \<open>
  The list part of \<open>petmem_free_vspace\<close>, with the nodes before and after the one found.  The merge
  with the previous node needs that node free and not the head; the merge with the next node
  needs that one free and different from the previous one, and the next of the last node is
  the head.
\<close>

definition merge_free :: "bool \<Rightarrow> mem_map list \<Rightarrow> mem_map \<Rightarrow> mem_map list \<Rightarrow> mem_map list" where
  "merge_free head_allocated before c rest =
     (let (before', cursor) =
            (if before \<noteq> [] \<and> \<not> mm_allocated (last before)
             then (butlast before, (last before)\<lparr>mm_size := mm_size (last before) + mm_size c\<rparr>)
             else (before, c\<lparr>mm_allocated := False\<rparr>))
      in case rest of
           [] \<Rightarrow> if \<not> head_allocated \<and> before \<noteq> [] then before' else before' @ [cursor]
         | n # ns \<Rightarrow>
             if \<not> mm_allocated n
             then before' @ n\<lparr>mm_start := mm_start cursor, mm_size := mm_size n + mm_size cursor\<rparr> # ns
             else before' @ cursor # n # ns)"

fun free_in :: "bool \<Rightarrow> mem_map list \<Rightarrow> mem_map list \<Rightarrow> u64 \<Rightarrow> mem_map list" where
  "free_in ha before [] vaddr = before"
| "free_in ha before (c # cs) vaddr =
     (if mm_start c = vaddr \<and> mm_allocated c then merge_free ha before c cs
      else free_in ha (before @ [c]) cs vaddr)"

definition petmem_free_vspace :: "vspace \<Rightarrow> u64 \<Rightarrow> vspace" where
  "petmem_free_vspace vs vaddr = vs\<lparr>vs_nodes := free_in (vs_head_allocated vs) [] (vs_nodes vs) vaddr\<rparr>"

text \<open>\<open>list_del\<close> of the node at \<open>p\<close>.\<close>

definition del_node :: "vspace \<Rightarrow> u64 \<Rightarrow> vspace res" where
  "del_node vs p =
     (if p \<in> mm_node ` set (vs_nodes vs)
      then Inr (vs\<lparr>vs_nodes := filter (\<lambda>c. mm_node c \<noteq> p) (vs_nodes vs)\<rparr>)
      else Inl (UseAfterFree p))"

text \<open>
  \<open>petmem_deinit_process\<close>: the successor is read before the body changes the list, so that the loop
  visits the nodes of the list as it was.
\<close>

fun deinit_nodes :: "mem_map list \<Rightarrow> vspace \<Rightarrow> vspace res" where
  "deinit_nodes [] vs = Inr vs"
| "deinit_nodes (c # cs) vs =
     rbind (del_node (if mm_allocated c then petmem_free_vspace vs (mm_start c) else vs) (mm_node c))
       (deinit_nodes cs)"

definition petmem_deinit_process :: "vspace \<Rightarrow> vspace res" where
  "petmem_deinit_process vs = deinit_nodes (vs_nodes vs) vs"

text \<open>What \<open>petmem_dump_vspace\<close> prints of each node.\<close>

definition petmem_dump_vspace :: "vspace \<Rightarrow> (bool \<times> u64 \<times> u64) list" where
  "petmem_dump_vspace vs = map (\<lambda>c. (mm_allocated c, mm_start c, mm_size c)) (vs_nodes vs)"

end
