(* ===== verification/PageWalk.thy ===== *)
theory PageWalk
  imports PgTables MemMap
begin

text \<open>
  The page-fault path of \<open>src/VMproject/on_demand.c\<close>: \<open>walk_page_table\<close>, which allocates missing
  tables on the way, and \<open>petmem_handle_pagefault\<close>.  Kernel memory is a map from the addresses of
  64-bit words to their values.  The kernel's services are parameters: \<open>va\<close> and \<open>pa\<close> are \<open>__va\<close> and
  \<open>__pa\<close>, \<open>cr3\<close> is the control register, and \<open>kpages\<close> holds the pages that \<open>get_zeroed_page\<close> will
  return, \<open>NULL\<close> when it has none.
\<close>

section \<open>Kernel state\<close>

record kstate =
  kmem :: "u64 \<Rightarrow> u64"
  kpages :: "u64 list"

definition same_page :: "u64 \<Rightarrow> u64 \<Rightarrow> bool" where
  "same_page x y = (drop_bit 12 x = drop_bit 12 y)"

definition get_zeroed_page :: "kstate \<Rightarrow> u64 \<times> kstate" where
  "get_zeroed_page s = (case kpages s of [] \<Rightarrow> (NULL, s)
     | p # ps \<Rightarrow> (p, s\<lparr>kmem := (\<lambda>a. if same_page a p then 0 else kmem s a), kpages := ps\<rparr>))"

definition put_word :: "u64 \<Rightarrow> u64 \<Rightarrow> kstate \<Rightarrow> kstate" where
  "put_word a e s = s\<lparr>kmem := (kmem s)(a := e)\<rparr>"

section \<open>The walk\<close>

text \<open>\<open>sizeof\<close> of every kind of entry.\<close>

definition sizeof_entry :: u64 where
  "sizeof_entry = 8"

text \<open>The four assignments that make an entry refer to the page \<open>pg\<close>.\<close>

definition make_entry :: "layout \<Rightarrow> string \<Rightarrow> u64 \<Rightarrow> u64 \<Rightarrow> u64" where
  "make_entry L base ppg e =
     (let e = set_field L ''present'' 1 e;
          e = set_field L ''writable'' 1 e;
          e = set_field L ''user_page'' 1 e
      in set_field L base (PAGE_TO_BASE_ADDR ppg) e)"

text \<open>One level: a missing table is allocated when \<open>hard\<close> is set, and ends the walk otherwise.\<close>

definition ensure_table :: "(u64 \<Rightarrow> u64) \<Rightarrow> layout \<Rightarrow> string \<Rightarrow> bool \<Rightarrow> u64 \<Rightarrow> kstate \<Rightarrow> bool \<times> kstate" where
  "ensure_table pa L base hard dest s =
     (if get_field L ''present'' (kmem s dest) = 0
      then if \<not> hard then (False, s)
           else let (pg, s) = get_zeroed_page s
                in (True, put_word dest (make_entry L base (pa pg) (kmem s dest)) s)
      else (True, s))"

definition clear_accessed :: "u64 \<Rightarrow> kstate \<Rightarrow> kstate" where
  "clear_accessed dest s = put_word dest (set_field pml4e64 ''accessed'' 0 (kmem s dest)) s"

text \<open>
  \<open>walk_page_table\<close>.  \<open>CR3_TO_PML4E64_VA\<close> is a pointer to entries, so that adding
  \<open>pml_index * sizeof(pml4e64_t)\<close> to it scales the index twice; \<open>__va\<close> is a \<open>void\<close> pointer, and the
  other levels add bytes.
\<close>

definition walk_page_table ::
  "(u64 \<Rightarrow> u64) \<Rightarrow> (u64 \<Rightarrow> u64) \<Rightarrow> u64 \<Rightarrow> u64 \<Rightarrow> bool \<Rightarrow> kstate \<Rightarrow> u64 \<times> kstate" where
  "walk_page_table va pa cr3 fault_addr hard s =
     (let pml_index = PML4E64_INDEX fault_addr;
          pdp_index = PDPE64_INDEX fault_addr;
          pde_index = PDE64_INDEX fault_addr;
          pte_index = PTE64_INDEX fault_addr;
          pml_dest = va (CR3_TO_PML4E64_PA cr3) + sizeof_entry * (pml_index * sizeof_entry);
          s = clear_accessed pml_dest s;
          (go, s) = ensure_table pa pml4e64 ''pdp_base_addr'' hard pml_dest s
      in if \<not> go then (NULL, s) else
      let pdp_dest = va (BASE_TO_PAGE_ADDR (get_field pml4e64 ''pdp_base_addr'' (kmem s pml_dest)))
                       + pdp_index * sizeof_entry;
          (go, s) = ensure_table pa pdpe64 ''pd_base_addr'' hard pdp_dest s
      in if \<not> go then (NULL, s) else
      let s = clear_accessed pml_dest s;
          pde_dest = va (BASE_TO_PAGE_ADDR (get_field pdpe64 ''pd_base_addr'' (kmem s pdp_dest)))
                       + pde_index * sizeof_entry;
          (go, s) = ensure_table pa pde64 ''pt_base_addr'' hard pde_dest s
      in if \<not> go then (NULL, s) else
      let pte_dest = va (BASE_TO_PAGE_ADDR (get_field pde64 ''pt_base_addr'' (kmem s pde_dest)))
                       + pte_index * sizeof_entry
      in if get_field pte64 ''present'' (kmem s pte_dest) = 0 \<and> \<not> hard then (NULL, s) else (pte_dest, s))"

section \<open>The page-fault handler\<close>

definition petmem_handle_pagefault ::
  "(u64 \<Rightarrow> u64) \<Rightarrow> (u64 \<Rightarrow> u64) \<Rightarrow> u64 \<Rightarrow> vspace \<Rightarrow> u64 \<Rightarrow> u32 \<Rightarrow> kstate \<Rightarrow> int \<times> kstate" where
  "petmem_handle_pagefault va pa cr3 vs fault_addr error_code s =
     (if error_code = 2 then (- 1, s)
      else if petmem_find_address vs fault_addr = None then (- 1, s)
      else let (pte_dest, s) = walk_page_table va pa cr3 fault_addr True s
           in if get_field pte64 ''present'' (kmem s pte_dest) = 0
              then let (zeroed_user_pg, s) = get_zeroed_page s
                   in (0, put_word pte_dest (make_entry pte64 ''page_base_addr'' (pa zeroed_user_pg) (kmem s pte_dest)) s)
              else (0, s))"

text \<open>What \<open>print_pml\<close> prints of each entry; its cursor advances by \<open>sizeof(pml4e64_t)\<close> entries.\<close>

definition print_pml :: "(u64 \<Rightarrow> u64) \<Rightarrow> u64 \<Rightarrow> kstate \<Rightarrow> bool list" where
  "print_pml va cr3 s =
     map (\<lambda>i. get_field pml4e64 ''present''
                (kmem s (va (CR3_TO_PML4E64_PA cr3) + sizeof_entry * (of_nat i * sizeof_entry))) = 1)
       [0..<MAX_ENTRIES]"

section \<open>Translation by the hardware\<close>

text \<open>
  The specification: the table reached from \<open>t\<close> by a path of indices through present entries, and
  the translation of an address by a walk over four levels.
\<close>

fun tbl :: "(u64 \<Rightarrow> u64) \<Rightarrow> (u64 \<Rightarrow> u64) \<Rightarrow> u64 \<Rightarrow> u64 list \<Rightarrow> u64 option" where
  "tbl va m t [] = Some t"
| "tbl va m t (i # is) =
     (if ent_present (m (t + 8 * i)) then tbl va m (va (ent_base (m (t + 8 * i)))) is else None)"

definition table_path :: "u64 \<Rightarrow> u64 list" where
  "table_path x = [PML4E64_INDEX x, PDPE64_INDEX x, PDE64_INDEX x]"

definition translate :: "(u64 \<Rightarrow> u64) \<Rightarrow> (u64 \<Rightarrow> u64) \<Rightarrow> u64 \<Rightarrow> u64 \<Rightarrow> u64 option" where
  "translate va m root x =
     (case tbl va m root (table_path x) of
        None \<Rightarrow> None
      | Some t \<Rightarrow> let e = m (t + 8 * PTE64_INDEX x)
                  in if ent_present e then Some (ent_base e + PAGE_OFFSET_4KB x) else None)"

text \<open>
  The tables form a tree of page-aligned pages: different paths lead to different tables, and no
  table is a page that \<open>get_zeroed_page\<close> may still return.
\<close>

definition valid_path :: "u64 list \<Rightarrow> bool" where
  "valid_path p = (length p \<le> 3 \<and> list_all (\<lambda>i. i < 512) p)"

definition page_aligned :: "u64 \<Rightarrow> bool" where
  "page_aligned t = (4096 dvd unat t)"

definition wf_tables :: "(u64 \<Rightarrow> u64) \<Rightarrow> (u64 \<Rightarrow> u64) \<Rightarrow> u64 \<Rightarrow> u64 set \<Rightarrow> bool" where
  "wf_tables va m root fresh =
     ((\<forall>p q t. valid_path p \<and> valid_path q \<and> tbl va m root p = Some t \<and> tbl va m root q = Some t \<longrightarrow> p = q)
    \<and> (\<forall>p t. valid_path p \<and> tbl va m root p = Some t \<longrightarrow> page_aligned t \<and> t \<notin> fresh))"

text \<open>What \<open>get_zeroed_page\<close> and the linear mapping promise of the pages.\<close>

definition good_pages :: "(u64 \<Rightarrow> u64) \<Rightarrow> (u64 \<Rightarrow> u64) \<Rightarrow> u64 list \<Rightarrow> bool" where
  "good_pages va pa ps =
     (distinct ps \<and> (\<forall>p \<in> set ps. p \<noteq> NULL \<and> page_aligned p \<and> page_pa (pa p) \<and> va (pa p) = p))"

end
