(* ===== verification/FreeWalk.thy ===== *)
theory FreeWalk
  imports PageWalk
begin

text \<open>
  The second half of \<open>petmem_free_vspace\<close> in \<open>src/VMproject/on_demand.c\<close>: the loop that walks the page
  tables of a released range, frees the user pages it finds and then frees tables.  A step of the
  loop is split where the code has its label \<open>cascade\<close>.  A write through a cursor that is still \<open>NULL\<close>
  is a fault.  The pages given to \<open>free_page\<close> are recorded in order.
\<close>

section \<open>State of the loop\<close>

record fwalk =
  pml_index :: u64
  pdp_index :: u64
  pd_index :: u64
  pt_index :: u64
  pml_cur :: u64
  pdp_cur :: u64
  pd_cur :: u64
  pt_cur :: u64
  pdp_mine :: bool
  pd_mine :: bool
  pt_mine :: bool
  pages_covered :: u64
  kst :: kstate
  released :: "u64 list"

definition free_walk_init :: "(u64 \<Rightarrow> u64) \<Rightarrow> u64 \<Rightarrow> u64 \<Rightarrow> kstate \<Rightarrow> fwalk" where
  "free_walk_init va cr3 free_start s =
     \<lparr>pml_index = PML4E64_INDEX free_start, pdp_index = PDPE64_INDEX free_start,
      pd_index = PDE64_INDEX free_start, pt_index = PTE64_INDEX free_start,
      pml_cur = va (CR3_TO_PML4E64_PA cr3) + sizeof_entry * (PML4E64_INDEX free_start * sizeof_entry),
      pdp_cur = NULL, pd_cur = NULL, pt_cur = NULL, pdp_mine = False, pd_mine = False, pt_mine = False,
      pages_covered = 0, kst = s, released = []\<rparr>"

section \<open>One step\<close>

text \<open>The walk down, from the test of \<open>pml_cur\<close> to the label: it ends at the first absent entry.\<close>

definition free_user_page :: "(u64 \<Rightarrow> u64) \<Rightarrow> fwalk \<Rightarrow> fwalk" where
  "free_user_page va f =
     (let e = kmem (kst f) (pt_cur f)
      in if get_field pte64 ''present'' e = 1
         then f\<lparr>kst := put_word (pt_cur f) (set_field pte64 ''present'' 0 e) (kst f),
                released := released f @ [va (BASE_TO_PAGE_ADDR (get_field pte64 ''page_base_addr'' e))]\<rparr>
         else f)"

definition free_descend :: "(u64 \<Rightarrow> u64) \<Rightarrow> fwalk \<Rightarrow> fwalk" where
  "free_descend va f =
     (if get_field pml4e64 ''present'' (kmem (kst f) (pml_cur f)) = 0
      then f\<lparr>pages_covered := pages_covered f + (512 - pdp_index f) * (512 - pd_index f) * (512 - pt_index f),
             pml_index := pml_index f + 1, pdp_index := 0, pdp_mine := True, pd_index := 0, pd_mine := True,
             pt_index := 0, pt_mine := True\<rparr>
      else
      let f = f\<lparr>pdp_cur := va (BASE_TO_PAGE_ADDR (get_field pml4e64 ''pdp_base_addr'' (kmem (kst f) (pml_cur f))))
                            + pdp_index f * sizeof_entry\<rparr>
      in if get_field pdpe64 ''present'' (kmem (kst f) (pdp_cur f)) = 0
      then f\<lparr>pages_covered := pages_covered f + (512 - pd_index f) * (512 - pt_index f),
             pdp_index := pdp_index f + 1, pd_index := 0, pd_mine := True, pt_index := 0, pt_mine := True\<rparr>
      else
      let f = f\<lparr>pd_cur := va (BASE_TO_PAGE_ADDR (get_field pdpe64 ''pd_base_addr'' (kmem (kst f) (pdp_cur f))))
                           + pd_index f * sizeof_entry\<rparr>
      in if get_field pde64 ''present'' (kmem (kst f) (pd_cur f)) = 0
      then f\<lparr>pages_covered := pages_covered f + (512 - pt_index f),
             pd_index := pd_index f + 1, pt_index := 0, pt_mine := True\<rparr>
      else
      let f = f\<lparr>pt_cur := va (BASE_TO_PAGE_ADDR (get_field pde64 ''pt_base_addr'' (kmem (kst f) (pd_cur f))))
                           + pt_index f * sizeof_entry,
                pt_index := pt_index f + 1, pages_covered := pages_covered f + 1\<rparr>
      in free_user_page va f)"

text \<open>The label \<open>cascade\<close>: an index that is a multiple of 512 carries into the level above.\<close>

definition free_cascade :: "fwalk \<Rightarrow> fwalk" where
  "free_cascade f =
     (if pt_index f mod 512 = 0
      then let f = f\<lparr>pd_index := pd_index f + 1\<rparr>
           in if pd_index f mod 512 = 0
              then let f = f\<lparr>pdp_index := pdp_index f + 1\<rparr>
                   in if pdp_index f mod 512 = 0 then f\<lparr>pml_index := pml_index f + 1\<rparr> else f
              else f
      else f)"

definition clear_present :: "layout \<Rightarrow> u64 \<Rightarrow> kstate \<Rightarrow> kstate res" where
  "clear_present L p s =
     (if p = NULL then Inl (BadDeref NULL) else Inr (put_word p (set_field L ''present'' 0 (kmem s p)) s))"

text \<open>
  One of the three blocks that free a table: \<open>parent\<close> is the entry that refers to it and \<open>cur\<close> the
  last entry visited in it.  When the table is not known to belong to the range its entries are
  scanned; the scan indexes a typed pointer with \<open>i * sizeof\<close>, so that it advances eight entries
  at a time.
\<close>

definition occupied :: "layout \<Rightarrow> u64 \<Rightarrow> kstate \<Rightarrow> bool" where
  "occupied L base s =
     list_ex (\<lambda>i. get_field L ''present'' (kmem s (base + sizeof_entry * (of_nat i * sizeof_entry))) = 1) [0..<MAX_ENTRIES]"

definition free_table :: "layout \<Rightarrow> layout \<Rightarrow> bool \<Rightarrow> u64 \<Rightarrow> u64 \<Rightarrow> fwalk \<Rightarrow> fwalk res" where
  "free_table Lparent L mine parent cur f =
     (let base = PAGE_ADDR cur
      in if mine
         then rbind (clear_present Lparent parent (kst f)) (\<lambda>s. Inr (f\<lparr>kst := s, released := released f @ [base]\<rparr>))
         else if base = NULL then Inl (BadDeref NULL)
         else if \<not> occupied L base (kst f)
         then rbind (clear_present Lparent parent (kst f)) (\<lambda>s. Inr (f\<lparr>kst := s, released := released f @ [base]\<rparr>))
         else Inr f)"

text \<open>An index moved by something other than a single step.\<close>

definition moved :: "u64 \<Rightarrow> u64 \<Rightarrow> bool" where
  "moved old new = (new \<noteq> old + 1 \<and> new \<noteq> old)"

definition free_step :: "(u64 \<Rightarrow> u64) \<Rightarrow> fwalk \<Rightarrow> fwalk res" where
  "free_step va f0 =
     (let f = free_cascade (free_descend va f0)
      in rbind (if moved (pt_index f0) (pt_index f) then free_table pde64 pte64 (pt_mine f) (pd_cur f) (pt_cur f) f else Inr f)
     (\<lambda>f. rbind (if moved (pd_index f0) (pd_index f) then free_table pdpe64 pde64 (pd_mine f) (pdp_cur f) (pd_cur f) f else Inr f)
     (\<lambda>f. if moved (pdp_index f0) (pdp_index f) then free_table pml4e64 pdpe64 (pdp_mine f) (pml_cur f) (pdp_cur f) f else Inr f)))"

section \<open>The loop and the whole operation\<close>

text \<open>\<open>num_pages\<close> is an \<open>int\<close>, compared with an \<open>unsigned long\<close>.\<close>

definition num_pages_of :: "u64 \<Rightarrow> u64" where
  "num_pages_of free_size = scast (ucast (free_size div PAGE_SIZE_4KB) :: u32)"

partial_function (option) free_walk :: "(u64 \<Rightarrow> u64) \<Rightarrow> u64 \<Rightarrow> fwalk \<Rightarrow> fwalk run" where
  "free_walk va num_pages f =
     (if pages_covered f \<le> num_pages
      then pbind (Some (free_step va f)) (free_walk va num_pages)
      else ret f)"

text \<open>
  \<open>petmem_free_vspace\<close> with both halves: the start and the size of the node are read before it is
  merged with its neighbours.
\<close>

definition petmem_free_range ::
  "(u64 \<Rightarrow> u64) \<Rightarrow> u64 \<Rightarrow> vspace \<Rightarrow> u64 \<Rightarrow> kstate \<Rightarrow> (vspace \<times> kstate \<times> u64 list) run" where
  "petmem_free_range va cr3 vs vaddr s =
     (case find (\<lambda>c. mm_start c = vaddr \<and> mm_allocated c) (vs_nodes vs) of
        None \<Rightarrow> ret (vs, s, [])
      | Some c \<Rightarrow>
          pbind (free_walk va (num_pages_of (mm_size c)) (free_walk_init va cr3 (mm_start c) s))
            (\<lambda>f. ret (petmem_free_vspace vs vaddr, kst f, released f)))"

end
