(* ===== verification/PetmemMain.thy ===== *)
theory PetmemMain
  imports Buddy FreeWalk
begin

text \<open>
  The device of \<open>src/VMproject/main.c\<close>: the pools of physical memory, the operations on pages, and the
  dispatch of ioctl requests to the other components.  Parameters stand for the kernel: \<open>va\<close> and \<open>pa\<close>
  for \<open>__va\<close> and \<open>__pa\<close>, \<open>get_order\<close> and \<open>fls\<close> for the functions of these names, and \<open>cr3\<close> for the register.
\<close>

section \<open>Pages\<close>

definition PAGE_SHIFT :: nat where
  "PAGE_SHIFT = 12"

definition PAGE_SIZE :: u64 where
  "PAGE_SIZE = 0x1000"

text \<open>The loop over the pools; it stops at the first physical address that is not zero.\<close>

fun alloc_pools :: "(u64 \<Rightarrow> u64) \<Rightarrow> nat \<Rightarrow> buddy_mempool list \<Rightarrow> (u64 \<times> buddy_mempool list) res" where
  "alloc_pools pa page_order [] = Inr (0, [])"
| "alloc_pools pa page_order (tmp_pool # pools) =
     rbind (buddy_alloc tmp_pool page_order) (\<lambda>(block, tmp_pool).
     let paddr = pa block
     in if paddr \<noteq> 0 then Inr (paddr, tmp_pool # pools)
        else rbind (alloc_pools pa page_order pools) (\<lambda>(paddr, pools). Inr (paddr, tmp_pool # pools)))"

definition petmem_alloc_pages ::
  "(u64 \<Rightarrow> nat) \<Rightarrow> (u64 \<Rightarrow> u64) \<Rightarrow> u64 \<Rightarrow> buddy_mempool list \<Rightarrow> (u64 \<times> buddy_mempool list) res" where
  "petmem_alloc_pages get_order pa num_pages pools =
     alloc_pools pa (get_order (num_pages * PAGE_SIZE) + PAGE_SHIFT) pools"

text \<open>\<open>0x1 << pool_order\<close> is a shift of an \<open>int\<close>.\<close>

fun free_pools :: "(u64 \<Rightarrow> u64) \<Rightarrow> u64 \<Rightarrow> nat \<Rightarrow> buddy_mempool list \<Rightarrow> buddy_mempool list res" where
  "free_pools va page_addr page_order [] = Inr []"
| "free_pools va page_addr page_order (tmp_pool # pools) =
     (if page_addr \<ge> base_addr tmp_pool
         \<and> page_addr < base_addr tmp_pool + scast (push_bit (pool_order tmp_pool) 1 :: u32)
      then rbind (buddy_free tmp_pool (va page_addr) page_order) (\<lambda>tmp_pool. Inr (tmp_pool # pools))
      else rbind (free_pools va page_addr page_order pools) (\<lambda>pools. Inr (tmp_pool # pools)))"

definition petmem_free_pages ::
  "(u64 \<Rightarrow> nat) \<Rightarrow> (u64 \<Rightarrow> u64) \<Rightarrow> u64 \<Rightarrow> u64 \<Rightarrow> buddy_mempool list \<Rightarrow> buddy_mempool list res" where
  "petmem_free_pages get_order va page_addr num_pages pools =
     free_pools va page_addr (get_order (num_pages * PAGE_SIZE) + PAGE_SHIFT) pools"

section \<open>Adding memory\<close>

text \<open>
  The loop of \<open>ADD_MEMORY\<close>: one pool for the highest bit of the number of pages, then on with the
  rest.  The stream \<open>kmalloc_ok\<close> says whether the allocations of the pool with a given number of
  pages left succeed.
\<close>

partial_function (option) add_memory ::
  "(u32 \<Rightarrow> nat) \<Rightarrow> (u32 \<Rightarrow> bool) \<Rightarrow> u64 \<Rightarrow> u32 \<Rightarrow> buddy_mempool list \<Rightarrow> buddy_mempool list run" where
  "add_memory fls kmalloc_ok base num_pages pools =
     (let reg_order = fls num_pages
      in if reg_order = 0 then ret pools
         else pbind (Some (buddy_init base (reg_order + PAGE_SHIFT - 1) PAGE_SHIFT (kmalloc_ok num_pages)))
           (\<lambda>tmp. case tmp of
              None \<Rightarrow> ret pools
            | Some tmp_pool \<Rightarrow>
                pbind (Some (buddy_free tmp_pool base (reg_order + PAGE_SHIFT - 1)))
                  (\<lambda>tmp_pool. add_memory fls kmalloc_ok
                     (base + scast (push_bit (reg_order - 1) 1 :: u32) * PAGE_SIZE)
                     (num_pages - push_bit (reg_order - 1) 1) (tmp_pool # pools))))"

section \<open>The device\<close>

record petmem =
  pool_list :: "buddy_mempool list"
  vmap :: vspace
  kern :: kstate
  given_back :: "u64 list"

text \<open>
  The argument of a request: the word itself, the first two words of the user memory it may point
  to, whether \<open>copy_from_user\<close> and \<open>copy_to_user\<close> succeed, and the address that \<open>kmalloc\<close> returns.
\<close>

record ioctl_arg =
  raw :: u64
  word0 :: u64
  word1 :: u64
  copy_in :: bool
  copy_out :: bool
  new_node :: u64

definition EFAULT :: int where "EFAULT = 14"

definition ADD_MEMORY :: u32 where "ADD_MEMORY = 1"
definition LAZY_ALLOC :: u32 where "LAZY_ALLOC = 30"
definition LAZY_FREE :: u32 where "LAZY_FREE = 31"
definition PAGE_FAULT :: u32 where "PAGE_FAULT = 50"

definition request_pages :: "u64 \<Rightarrow> u64" where
  "request_pages sz = drop_bit PAGE_SHIFT ((sz + (PAGE_SIZE - 1)) AND NOT (PAGE_SIZE - 1))"

text \<open>\<open>LAZY_ALLOC\<close>: the return value and the address that is copied back to the user, if any.\<close>

definition lazy_alloc :: "ioctl_arg \<Rightarrow> petmem \<Rightarrow> int \<times> u64 option \<times> petmem" where
  "lazy_alloc a d =
     (if \<not> copy_in a then (- EFAULT, None, d)
      else let (addr, vs) = petmem_alloc_vspace (vmap d) (request_pages (word0 a)) (new_node a);
               d = d\<lparr>vmap := vs\<rparr>
           in if addr = 0 then (0, None, d)
              else if \<not> copy_out a then (- EFAULT, None, d)
              else (0, Some addr, d))"

text \<open>
  \<open>petmem_ioctl\<close>.  \<open>LAZY_DUMP_STATE\<close>, \<open>INVALIDATE_PAGE\<close>, \<open>PRINT_PML\<close> and the three requests that fall through to
  it, and unknown requests change no state of the device.
\<close>

definition petmem_ioctl ::
  "(u64 \<Rightarrow> u64) \<Rightarrow> (u64 \<Rightarrow> u64) \<Rightarrow> u64 \<Rightarrow> (u32 \<Rightarrow> nat) \<Rightarrow> (u32 \<Rightarrow> bool) \<Rightarrow> u32 \<Rightarrow> ioctl_arg \<Rightarrow> petmem \<Rightarrow>
   (int \<times> u64 option \<times> petmem) run" where
  "petmem_ioctl va pa cr3 fls kmalloc_ok cmd a d =
     (if cmd = ADD_MEMORY then
        if \<not> copy_in a then ret (- EFAULT, None, d)
        else pbind (add_memory fls kmalloc_ok (va (word0 a)) (ucast (word1 a)) (pool_list d))
               (\<lambda>ps. ret (0, None, d\<lparr>pool_list := ps\<rparr>))
      else if cmd = LAZY_ALLOC then ret (lazy_alloc a d)
      else if cmd = LAZY_FREE then
        pbind (petmem_free_range va cr3 (vmap d) (raw a) (kern d))
          (\<lambda>(vs, s, rel). ret (0, None, d\<lparr>vmap := vs, kern := s, given_back := given_back d @ rel\<rparr>))
      else if cmd = PAGE_FAULT then
        if \<not> copy_in a then ret (- EFAULT, None, d)
        else let (rc, s) = petmem_handle_pagefault va pa cr3 (vmap d) (word0 a) (ucast (word1 a)) (kern d)
             in ret (if rc \<noteq> 0 then 1 else 0, None, d\<lparr>kern := s\<rparr>)
      else ret (0, None, d))"

definition petmem_open :: "u64 \<Rightarrow> bool \<Rightarrow> petmem \<Rightarrow> petmem" where
  "petmem_open p garbage d = d\<lparr>vmap := petmem_init_process p garbage\<rparr>"

definition petmem_release :: "petmem \<Rightarrow> petmem res" where
  "petmem_release d = rbind (petmem_deinit_process (vmap d)) (\<lambda>vs. Inr (d\<lparr>vmap := vs\<rparr>))"

end
