(* ===== verification/Harness.thy ===== *)
theory Harness
  imports PetmemMain
begin

text \<open>
  The user side of \<open>src/VMproject\<close>: the library \<open>user/harness.c\<close> through which a process uses the device.
  It reserves and releases memory by ioctl requests and resolves page faults in a handler for
  \<open>SIGSEGV\<close>.  The kernel that the process runs on is a record of parameters.
\<close>

record kernel =
  k_va :: "u64 \<Rightarrow> u64"
  k_pa :: "u64 \<Rightarrow> u64"
  k_cr3 :: u64
  k_fls :: "u32 \<Rightarrow> nat"
  k_kmalloc :: "u32 \<Rightarrow> bool"

text \<open>
  The state of a process: whether the file descriptor is open, whether \<open>segv_handler\<close> is installed,
  whether the process has been killed, and the device with the process's map.
\<close>

record process =
  fd_open :: bool
  handler_set :: bool
  killed :: bool
  device :: petmem

text \<open>\<open>ioctl\<close> on the descriptor; it fails with -1 when that is not open.\<close>

definition ioctl :: "kernel \<Rightarrow> u32 \<Rightarrow> ioctl_arg \<Rightarrow> process \<Rightarrow> (int \<times> u64 option \<times> process) run" where
  "ioctl K cmd a p =
     (if \<not> fd_open p then ret (- 1, None, p)
      else pbind (petmem_ioctl (k_va K) (k_pa K) (k_cr3 K) (k_fls K) (k_kmalloc K) cmd a (device p))
             (\<lambda>(rc, out, d). ret (rc, out, p\<lparr>device := d\<rparr>)))"

text \<open>
  The argument that points to a local variable, at \<open>buf\<close>, with the words \<open>w0\<close> and \<open>w1\<close>: the kernel can
  read and write it.  \<open>node\<close> is the node that \<open>kmalloc\<close> returns.
\<close>

definition local_arg :: "u64 \<Rightarrow> u64 \<Rightarrow> u64 \<Rightarrow> u64 \<Rightarrow> ioctl_arg" where
  "local_arg buf w0 w1 node =
     \<lparr>raw = buf, word0 = w0, word1 = w1, copy_in = True, copy_out = True, new_node = node\<rparr>"

text \<open>\<open>req.addr\<close> is zero before the request, and is overwritten only by a request that succeeds.\<close>

definition pet_malloc :: "kernel \<Rightarrow> u64 \<Rightarrow> u64 \<Rightarrow> u64 \<Rightarrow> process \<Rightarrow> (u64 \<times> process) run" where
  "pet_malloc K buf node sz p =
     pbind (ioctl K LAZY_ALLOC (local_arg buf sz 0 node) p)
       (\<lambda>(_, out, p). ret (case out of None \<Rightarrow> 0 | Some addr \<Rightarrow> addr, p))"

definition pet_free :: "kernel \<Rightarrow> u64 \<Rightarrow> process \<Rightarrow> process run" where
  "pet_free K addr p =
     pbind (ioctl K LAZY_FREE \<lparr>raw = addr, word0 = 0, word1 = 0, copy_in = False, copy_out = False, new_node = 0\<rparr> p)
       (\<lambda>(_, _, p). ret p)"

definition SIGSEGV :: u32 where "SIGSEGV = 11"

text \<open>
  The handler.  When the request fails, the default action is restored and the process sends itself
  the signal again, which kills it.
\<close>

definition segv_handler :: "kernel \<Rightarrow> u64 \<Rightarrow> u32 \<Rightarrow> u64 \<Rightarrow> u32 \<Rightarrow> process \<Rightarrow> process run" where
  "segv_handler K buf signum si_addr si_code p =
     (if signum \<noteq> SIGSEGV then ret p
      else pbind (ioctl K PAGE_FAULT (local_arg buf si_addr (ucast si_code) 0) p)
             (\<lambda>(u, _, p). ret (if u \<noteq> 0 then p\<lparr>handler_set := False, killed := True\<rparr> else p)))"

text \<open>
  \<open>init_petmem\<close>: the handler is installed before the device is opened; \<open>can_open\<close> is the outcome of
  \<open>open\<close>, and \<open>node\<close> and \<open>garbage\<close> are the node and the bits that the kernel's \<open>kmalloc\<close> returns.
\<close>

definition init_petmem :: "bool \<Rightarrow> u64 \<Rightarrow> bool \<Rightarrow> process \<Rightarrow> int \<times> process" where
  "init_petmem can_open node garbage p =
     (let p = p\<lparr>handler_set := True\<rparr>
      in if \<not> can_open then (- 1, p\<lparr>fd_open := False\<rparr>)
         else (0, p\<lparr>fd_open := True, device := petmem_open node garbage (device p)\<rparr>))"

section \<open>Memory accesses\<close>

text \<open>
  What the processor and the kernel do with an access of the process: a present page is accessed, and
  any other address of the region, which is in no mapping that Linux knows, raises \<open>SIGSEGV\<close> with code
  1.  Without a handler the signal kills the process.
\<close>

definition table_root :: "kernel \<Rightarrow> u64" where
  "table_root K = k_va K (CR3_TO_PML4E64_PA (k_cr3 K))"

definition frame :: "kernel \<Rightarrow> process \<Rightarrow> u64 \<Rightarrow> u64 option" where
  "frame K p x = translate (k_va K) (kmem (kern (device p))) (table_root K) x"

definition touch :: "kernel \<Rightarrow> u64 \<Rightarrow> u64 \<Rightarrow> process \<Rightarrow> process run" where
  "touch K buf x p =
     (if frame K p x \<noteq> None then ret p
      else if \<not> handler_set p then ret (p\<lparr>killed := True\<rparr>)
      else segv_handler K buf SIGSEGV x 1 p)"

text \<open>
  The runs of a process that reserves memory and uses it, with the buffers \<open>G\<close> it has been given.  Each
  new node is an address that is not in use, and a fault finds the four pages it may need.
\<close>

inductive process_run :: "kernel \<Rightarrow> process \<Rightarrow> process \<Rightarrow> (nat \<times> nat) set \<Rightarrow> bool" for K p0 where
  init: "init_petmem True node garbage p0 = (0, p) \<Longrightarrow> process_run K p0 p {}"
| malloc: "process_run K p0 p G \<Longrightarrow> 0 < unat sz \<Longrightarrow> unat sz + 4095 < 2 ^ 64 \<Longrightarrow>
    node \<notin> mm_node ` set (vs_nodes (vmap (device p))) \<Longrightarrow>
    pet_malloc K buf node sz p = ret (v, p') \<Longrightarrow>
    process_run K p0 p' (if v = NULL then G else insert (unat v, unat sz) G)"
| touch: "process_run K p0 p G \<Longrightarrow> 4 \<le> length (kpages (kern (device p))) \<Longrightarrow>
    touch K buf x p = ret p' \<Longrightarrow> \<not> killed p' \<Longrightarrow> process_run K p0 p' G"

end
