(* ===== verification/BuddyInv.thy ===== *)
theory BuddyInv
  imports Buddy
begin

text \<open>
  The invariant of the buddy allocator: free and allocated blocks together partition the pool,
  tag bits and order fields agree with the free lists, and no two buddies are free.  The
  geometry of aligned blocks is developed on natural-number offsets first.
\<close>

section \<open>Aligned blocks\<close>

type_synonym blk = "nat \<times> nat"

definition rng :: "blk \<Rightarrow> nat set" where
  "rng b = {fst b..<fst b + 2 ^ snd b}"

definition blk_ok :: "nat \<Rightarrow> blk \<Rightarrow> bool" where
  "blk_ok P b \<longleftrightarrow> snd b \<le> P \<and> 2 ^ snd b dvd fst b \<and> fst b + 2 ^ snd b \<le> 2 ^ P"

definition partition_of :: "nat \<Rightarrow> blk set \<Rightarrow> bool" where
  "partition_of P S \<longleftrightarrow>
     (\<forall>b \<in> S. blk_ok P b) \<and> (\<forall>x < 2 ^ P. \<exists>!b. b \<in> S \<and> x \<in> rng b)"

text \<open>The offset of the buddy of a block.\<close>

definition nbuddy :: "nat \<Rightarrow> nat \<Rightarrow> nat" where
  "nbuddy a k = (if even (a div 2 ^ k) then a + 2 ^ k else a - 2 ^ k)"

text \<open>A block is the lower or the upper half of the block of the next order.\<close>

lemma halves:
  assumes "2 ^ k dvd a"
  obtains (lower) r where "a = 2 ^ Suc k * r" "nbuddy a k = 2 ^ Suc k * r + 2 ^ k"
  | (upper) r where "a = 2 ^ Suc k * r + 2 ^ k" "nbuddy a k = 2 ^ Suc k * r"
proof -
  from assms obtain q where q: "a = 2 ^ k * q" by auto
  then have dv: "a div 2 ^ k = q" by simp
  show thesis
  proof (cases "even q")
    case True
    then obtain r where "q = 2 * r" by (rule evenE)
    then show thesis using lower [of r] True by (simp add: q nbuddy_def dv)
  next
    case False
    then obtain r where r: "q = 2 * r + 1" by (rule oddE)
    then have "a = 2 ^ Suc k * r + 2 ^ k" by (simp add: q algebra_simps)
    then show thesis using upper [of r] False by (simp add: nbuddy_def dv)
  qed
qed

lemma xor_nbuddy:
  fixes a k :: nat
  assumes "2 ^ k dvd a"
  shows "a XOR push_bit k 1 = nbuddy a k"
proof -
  from assms obtain q where q: "a = push_bit k q" by (auto simp: push_bit_eq_mult mult.commute)
  then have dv: "a div 2 ^ k = q" by (simp add: push_bit_eq_mult)
  have "a XOR push_bit k 1 = push_bit k (q XOR 1)" by (simp only: q push_bit_xor)
  also have "\<dots> = nbuddy a k"
  proof (cases "even q")
    case True
    then have "q XOR 1 = q + 1" using xor_one_eq [of q] by simp
    then show ?thesis using True by (simp add: nbuddy_def dv q push_bit_eq_mult algebra_simps)
  next
    case False
    then have "q XOR 1 = q - 1" using xor_one_eq [of q] by simp
    then show ?thesis using False by (simp add: nbuddy_def dv q push_bit_eq_mult algebra_simps)
  qed
  finally show ?thesis .
qed

text \<open>In a pool of order \<open>P > k\<close> the surrounding block of order \<open>k + 1\<close> lies in the pool.\<close>

lemma parent_fits:
  fixes r :: nat
  assumes "2 ^ Suc k * r < 2 ^ P" and "k < P"
  shows "2 ^ Suc k * r + 2 ^ Suc k \<le> 2 ^ P"
proof -
  have P: "(2 :: nat) ^ P = 2 ^ Suc k * 2 ^ (P - Suc k)" using assms(2) power_add [of "2 :: nat" "Suc k" "P - Suc k"] by simp
  then have "2 ^ Suc k * r < 2 ^ Suc k * 2 ^ (P - Suc k)" using assms(1) by simp
  then have "r < 2 ^ (P - Suc k)" by simp
  then have "2 ^ Suc k * Suc r \<le> 2 ^ Suc k * 2 ^ (P - Suc k)" by (intro mult_le_mono2) simp
  then show ?thesis using P by (simp add: algebra_simps)
qed

lemma nbuddy_ok:
  assumes ok: "blk_ok P (a, k)" and k: "k < P"
  shows "blk_ok P (nbuddy a k, k)" and "nbuddy a k \<noteq> a"
    and "blk_ok P (min a (nbuddy a k), Suc k)"
    and "rng (min a (nbuddy a k), Suc k) = rng (a, k) \<union> rng (nbuddy a k, k)"
    and "rng (a, k) \<inter> rng (nbuddy a k, k) = {}"
proof -
  have dv: "2 ^ k dvd a" and le: "a + 2 ^ k \<le> 2 ^ P" using ok by (auto simp: blk_ok_def)
  have pos: "0 < (2 :: nat) ^ k" by simp
  from dv have "blk_ok P (nbuddy a k, k) \<and> nbuddy a k \<noteq> a \<and> blk_ok P (min a (nbuddy a k), Suc k)
    \<and> rng (min a (nbuddy a k), Suc k) = rng (a, k) \<union> rng (nbuddy a k, k)
    \<and> rng (a, k) \<inter> rng (nbuddy a k, k) = {}"
  proof (cases rule: halves)
    case (lower r)
    then have "2 ^ Suc k * r + 2 ^ Suc k \<le> 2 ^ P" using le pos by (intro parent_fits k) linarith
    then show ?thesis using lower k pos by (auto simp: blk_ok_def rng_def)
  next
    case (upper r)
    then have "2 ^ Suc k * r + 2 ^ Suc k \<le> 2 ^ P" using le pos by (intro parent_fits k) linarith
    then show ?thesis using upper k pos by (auto simp: blk_ok_def rng_def)
  qed
  then show "blk_ok P (nbuddy a k, k)" and "nbuddy a k \<noteq> a" and "blk_ok P (min a (nbuddy a k), Suc k)"
    and "rng (min a (nbuddy a k), Suc k) = rng (a, k) \<union> rng (nbuddy a k, k)"
    and "rng (a, k) \<inter> rng (nbuddy a k, k) = {}" by blast+
qed

lemma nbuddy_invol: "2 ^ k dvd a \<Longrightarrow> nbuddy (nbuddy a k) k = a"
  by (erule halves) (auto simp: nbuddy_def)

text \<open>Aligned blocks that meet are nested.\<close>

lemma aligned_nested:
  assumes "2 ^ k dvd a" and "2 ^ l dvd c" and "k \<le> l" and "rng (a, k) \<inter> rng (c, l) \<noteq> {}"
  shows "rng (a, k) \<subseteq> rng (c, l)"
proof -
  define m where "m = (2 :: nat) ^ (l - k)"
  have l: "(2 :: nat) ^ l = 2 ^ k * m"
    using assms(3) power_add [of "2 :: nat" k "l - k"] by (simp add: m_def)
  obtain q where q: "a = 2 ^ k * q" using assms(1) by (rule dvdE)
  obtain r where "c = 2 ^ l * r" using assms(2) by (rule dvdE)
  then have r: "c = 2 ^ k * (m * r)" by (simp add: l mult.assoc)
  from assms(4) obtain x where "x \<in> rng (a, k)" "x \<in> rng (c, l)" by blast
  then have x: "2 ^ k * q \<le> x" "x < 2 ^ k * q + 2 ^ k" "2 ^ k * (m * r) \<le> x" "x < 2 ^ k * (m * r) + 2 ^ k * m"
    by (simp_all add: rng_def q r l)
  have "2 ^ k * (m * r) < 2 ^ k * Suc q" "2 ^ k * q < 2 ^ k * (m * r + m)"
    using x by (simp_all add: algebra_simps)
  then have "m * r < Suc q" "q < m * r + m" by (simp_all only: mult_less_cancel1)
  then have "m * r \<le> q" "Suc q \<le> m * r + m" by simp_all
  then have "2 ^ k * (m * r) \<le> 2 ^ k * q" "2 ^ k * Suc q \<le> 2 ^ k * (m * r + m)" by (simp_all only: mult_le_mono2)
  then show ?thesis by (auto simp: rng_def q r l algebra_simps)
qed

section \<open>Partitions into aligned blocks\<close>

lemma partition_ok: "partition_of P S \<Longrightarrow> b \<in> S \<Longrightarrow> blk_ok P b"
  by (simp add: partition_of_def)

lemma partition_cover: "partition_of P S \<Longrightarrow> x < 2 ^ P \<Longrightarrow> \<exists>b \<in> S. x \<in> rng b"
  unfolding partition_of_def by blast

lemma partition_unique:
  assumes "partition_of P S" and "b \<in> S" and "c \<in> S" and "x \<in> rng b" and "x \<in> rng c"
  shows "b = c"
proof -
  have "x < 2 ^ P" using partition_ok [OF assms(1,2)] assms(4) by (auto simp: blk_ok_def rng_def)
  then show ?thesis using assms unfolding partition_of_def by blast
qed

lemma rng_start [simp]: "a \<in> rng (a, k)"
  by (simp add: rng_def)

lemma partition_start: "partition_of P S \<Longrightarrow> (a, k) \<in> S \<Longrightarrow> (a, l) \<in> S \<Longrightarrow> k = l"
  using partition_unique [of P S "(a, k)" "(a, l)" a] by simp

lemma partition_replace:
  assumes p: "partition_of P S" and B: "B \<subseteq> S" and C: "\<forall>c \<in> C. blk_ok P c"
    and r: "(\<Union>c \<in> C. rng c) = (\<Union>b \<in> B. rng b)"
    and d: "\<forall>c \<in> C. \<forall>e \<in> C. c \<noteq> e \<longrightarrow> rng c \<inter> rng e = {}"
  shows "partition_of P (S - B \<union> C)"
  unfolding partition_of_def
proof (intro conjI allI impI)
  show "\<forall>b \<in> S - B \<union> C. blk_ok P b" using p C by (auto simp: partition_of_def)
  fix x :: nat assume "x < 2 ^ P"
  then obtain b where b: "b \<in> S" "x \<in> rng b" using partition_cover [OF p] by blast
  have only: "c = b" if "c \<in> S" "x \<in> rng c" for c using partition_unique [OF p that(1) b(1) that(2) b(2)] .
  show "\<exists>!b. b \<in> S - B \<union> C \<and> x \<in> rng b"
  proof (cases "b \<in> B")
    case True
    then have "x \<in> (\<Union>c \<in> C. rng c)" unfolding r using b by blast
    then obtain c where c: "c \<in> C" "x \<in> rng c" by blast
    show ?thesis by (rule ex1I [of _ c]) (use c True only d in blast)+
  next
    case False
    then have "x \<notin> (\<Union>b \<in> B. rng b)" using only B by blast
    then have "x \<notin> (\<Union>c \<in> C. rng c)" using r by simp
    then show ?thesis by (intro ex1I [of _ b]) (use b False only in blast)+
  qed
qed

lemma partition_split:
  assumes p: "partition_of P S" and a: "(a, Suc k) \<in> S"
  shows "partition_of P (S - {(a, Suc k)} \<union> {(a, k), (a + 2 ^ k, k)})"
proof (rule partition_replace [OF p])
  have ok: "blk_ok P (a, Suc k)" using partition_ok [OF p a] .
  then have "2 ^ k dvd a" by (auto simp: blk_ok_def dest: dvd_mult_left)
  moreover have "a + 2 ^ k + 2 ^ k \<le> 2 ^ P" using ok by (simp add: blk_ok_def)
  ultimately show "\<forall>c \<in> {(a, k), (a + 2 ^ k, k)}. blk_ok P c" using ok by (auto simp: blk_ok_def)
qed (use a in \<open>auto simp: rng_def\<close>)

lemma partition_merge:
  assumes p: "partition_of P S" and a: "(a, k) \<in> S" "(nbuddy a k, k) \<in> S" and k: "k < P"
  shows "partition_of P (S - {(a, k), (nbuddy a k, k)} \<union> {(min a (nbuddy a k), Suc k)})"
  using nbuddy_ok [OF partition_ok [OF p a(1)] k] a by (intro partition_replace [OF p]) auto

text \<open>The buddy of a block of the partition is where another block starts, not a larger one.\<close>

lemma buddy_starts:
  assumes p: "partition_of P S" and a: "(a, k) \<in> S" and k: "k < P"
  shows "\<exists>l \<le> k. (nbuddy a k, l) \<in> S"
proof -
  let ?b = "nbuddy a k"
  have ok: "blk_ok P (a, k)" using partition_ok [OF p a] .
  note nb = nbuddy_ok [OF ok k]
  have "?b < 2 ^ P" using nb(1) by (simp add: blk_ok_def) (metis add_lessD1 le_less_trans less_add_same_cancel1 not_le zero_less_numeral zero_less_power)
  then obtain c l where c: "(c, l) \<in> S" "?b \<in> rng (c, l)" using partition_cover [OF p] by (metis surj_pair)
  have al: "2 ^ k dvd ?b" "2 ^ l dvd c" using nb(1) partition_ok [OF p c(1)] by (auto simp: blk_ok_def)
  show ?thesis
  proof (cases "l \<le> k")
    case True
    have "rng (c, l) \<subseteq> rng (?b, k)" using c(2) by (intro aligned_nested al True) auto
    then have "c \<in> rng (?b, k)" using rng_start by blast
    then have "c = ?b" using c(2) by (simp add: rng_def)
    then show ?thesis using True c(1) by blast
  next
    case False
    have "2 ^ Suc k dvd min a ?b" using nb(3) by (simp add: blk_ok_def)
    moreover have "?b \<in> rng (min a ?b, Suc k)" unfolding nb(4) by simp
    ultimately have "rng (min a ?b, Suc k) \<subseteq> rng (c, l)" using c(2) False al by (intro aligned_nested) auto
    then have "a \<in> rng (c, l)" unfolding nb(4) by auto
    then have "(a, k) = (c, l)" using partition_unique [OF p a c(1) rng_start] by blast
    then show ?thesis using False by simp
  qed
qed

text \<open>A partition in which no buddy of a block is a block is the whole pool.\<close>

lemma no_buddies_whole:
  assumes p: "partition_of P S" and n: "\<forall>a k. (a, k) \<in> S \<longrightarrow> k < P \<longrightarrow> (nbuddy a k, k) \<notin> S"
  shows "S = {(0, P)}"
proof -
  have "S \<noteq> {}" using partition_cover [OF p, of 0] by auto
  then obtain b where b: "b \<in> S" "\<forall>c \<in> S. snd b \<le> snd c"
    using ex_has_least_nat [of "\<lambda>b. b \<in> S" _ snd] by blast
  have "\<not> snd b < P"
  proof
    assume k: "snd b < P"
    have "(fst b, snd b) \<in> S" using b(1) by simp
    from buddy_starts [OF p this k] obtain l where l: "l \<le> snd b" "(nbuddy (fst b) (snd b), l) \<in> S" by blast
    then have "l = snd b" using b(2) by force
    then show False using n l(2) k b(1) by (metis surjective_pairing)
  qed
  then have whole: "c = (0, P)" if "c \<in> S" for c
  proof -
    obtain a k where c: "c = (a, k)" by (cases c)
    have "snd b \<le> snd c" using b(2) that by blast
    then have "k = P" using \<open>\<not> snd b < P\<close> partition_ok [OF p that] by (simp add: c blk_ok_def)
    then show ?thesis using partition_ok [OF p that] by (simp add: c blk_ok_def)
  qed
  then have "b = (0, P)" "S \<subseteq> {(0, P)}" using b(1) by blast+
  then show ?thesis using b(1) by blast
qed

section \<open>The invariant\<close>

definition geom :: "buddy_mempool \<Rightarrow> bool" where
  "geom mp \<longleftrightarrow> pool_order mp < 64 \<and> min_order mp \<le> pool_order mp \<and> base_addr mp \<noteq> NULL
     \<and> unat (base_addr mp) + 2 ^ pool_order mp \<le> 2 ^ 64
     \<and> num_blocks mp = 2 ^ (pool_order mp - min_order mp)
     \<and> length (tag_bits mp) = 2 ^ (pool_order mp - min_order mp)
     \<and> length (avail mp) = Suc (pool_order mp)"

text \<open>The address at an offset, the free blocks, and the tag of the block at an offset.\<close>

definition addr :: "buddy_mempool \<Rightarrow> nat \<Rightarrow> u64" where
  "addr mp x = base_addr mp + of_nat x"

definition free_blks :: "buddy_mempool \<Rightarrow> blk set" where
  "free_blks mp = {(x, k). x < 2 ^ 64 \<and> k \<le> pool_order mp \<and> addr mp x \<in> set (avail mp ! k)}"

definition tag :: "buddy_mempool \<Rightarrow> nat \<Rightarrow> bool" where
  "tag mp x = tag_bits mp ! (x div 2 ^ min_order mp)"

text \<open>
  \<open>L\<close> are the allocated blocks; the tag bits of those in \<open>T\<close> are clear.  (While a block is being
  coalesced, its own tag bit may be set.)
\<close>

definition core :: "buddy_mempool \<Rightarrow> blk set \<Rightarrow> blk set \<Rightarrow> bool" where
  "core mp L T \<longleftrightarrow>
     geom mp \<and> partition_of (pool_order mp) (free_blks mp \<union> L) \<and> free_blks mp \<inter> L = {}
     \<and> (\<forall>x k. (x, k) \<in> free_blks mp \<union> L \<longrightarrow> min_order mp \<le> k)
     \<and> (\<forall>k \<le> pool_order mp. distinct (avail mp ! k))
     \<and> (\<forall>x k. (x, k) \<in> free_blks mp \<longrightarrow> blk_order mp (addr mp x) = k \<and> tag mp x)
     \<and> (\<forall>x k. (x, k) \<in> T \<longrightarrow> \<not> tag mp x)
     \<and> (\<forall>x k. (x, k) \<in> free_blks mp \<longrightarrow> k < pool_order mp \<longrightarrow> (nbuddy x k, k) \<notin> free_blks mp)"

abbreviation buddy_inv :: "buddy_mempool \<Rightarrow> blk set \<Rightarrow> bool" where
  "buddy_inv mp L \<equiv> core mp L L"

lemma addr_inj: "addr mp x = addr mp y \<Longrightarrow> x < 2 ^ 64 \<Longrightarrow> y < 2 ^ 64 \<Longrightarrow> x = y"
proof -
  assume *: "addr mp x = addr mp y" "x < 2 ^ 64" "y < 2 ^ 64"
  then have "unat (of_nat x :: u64) = unat (of_nat y :: u64)" by (simp add: addr_def)
  then show "x = y" using * by (simp add: unat_of_nat)
qed

lemma addr_off: "\<exists>x < 2 ^ 64. a = addr mp x"
  by (rule exI [of _ "unat (a - base_addr mp)"]) (use unsigned_less [of "a - base_addr mp"] in \<open>simp add: addr_def\<close>)

lemma unat_addr:
  assumes "geom mp" and "x < 2 ^ pool_order mp"
  shows "unat (addr mp x) = unat (base_addr mp) + x"
proof -
  have "unat (base_addr mp) + x < 2 ^ 64" using assms by (simp add: geom_def)
  then show ?thesis by (simp add: addr_def unat_word_ariths unat_of_nat)
qed

section \<open>The helpers on addresses\<close>

lemma pool_less:
  fixes x :: nat
  shows "geom mp \<Longrightarrow> x < 2 ^ pool_order mp \<Longrightarrow> x < 2 ^ 64"
  unfolding geom_def by linarith

lemma block_to_id_addr:
  assumes g: "geom mp" and x: "x < 2 ^ pool_order mp"
  shows "\<exists>i. block_to_id mp (addr mp x) = Inr i \<and> unat i = x div 2 ^ min_order mp
           \<and> x div 2 ^ min_order mp < length (tag_bits mp)"
proof -
  let ?i = "drop_bit (min_order mp) (of_nat x :: u64)"
  have t: "take_bit 64 x = x" using pool_less [OF g x] by (rule take_bit_nat_eq_self)
  have "unat ?i = drop_bit (min_order mp) (take_bit 64 (unat (of_nat x :: u64)))"
    by (simp only: unsigned_drop_bit_eq) simp
  also have "unat (of_nat x :: u64) = x" using pool_less [OF g x] by (rule unat_of_nat_u64)
  finally have u: "unat ?i = x div 2 ^ min_order mp" by (simp only: t drop_bit_eq_div)
  have P: "(2 :: nat) ^ pool_order mp = 2 ^ min_order mp * 2 ^ (pool_order mp - min_order mp)"
    using g power_add [of "2 :: nat" "min_order mp" "pool_order mp - min_order mp"] by (simp add: geom_def)
  have lt: "x div 2 ^ min_order mp < 2 ^ (pool_order mp - min_order mp)"
    using x unfolding P by (simp add: div_less_iff_less_mult mult.commute)
  have "pool_order mp - min_order mp < 64" using g by (auto simp: geom_def)
  then have "unat (2 ^ (pool_order mp - min_order mp) :: u64) = 2 ^ (pool_order mp - min_order mp)"
    by (rule unat_pow2_u64)
  then have "?i < num_blocks mp" using g lt u by (simp add: word_less_nat_alt geom_def)
  then show ?thesis using u lt g by (auto simp: block_to_id_def addr_def geom_def Let_def not_le)
qed

lemma is_available_addr: "geom mp \<Longrightarrow> x < 2 ^ pool_order mp \<Longrightarrow> is_available mp (addr mp x) = Inr (tag mp x)"
  using block_to_id_addr [of mp x] by (auto simp: is_available_def tag_def)

lemma mark_addr:
  assumes "geom mp" and "x < 2 ^ pool_order mp"
  shows "mark_available mp (addr mp x) = Inr (mp\<lparr>tag_bits := (tag_bits mp)[x div 2 ^ min_order mp := True]\<rparr>)"
    and "mark_allocated mp (addr mp x) = Inr (mp\<lparr>tag_bits := (tag_bits mp)[x div 2 ^ min_order mp := False]\<rparr>)"
  using block_to_id_addr [OF assms] by (auto simp: mark_available_def mark_allocated_def)

lemma find_buddy_addr:
  assumes g: "geom mp" and b: "blk_ok (pool_order mp) (x, k)"
  shows "find_buddy mp (addr mp x) k = Inr (addr mp (nbuddy x k))"
proof -
  have x: "x + 2 ^ k \<le> 2 ^ pool_order mp" "2 ^ k dvd x" using b by (simp_all add: blk_ok_def)
  then have "x < 2 ^ pool_order mp" by (metis add_lessD1 le_add1 le_neq_implies_less less_add_same_cancel1 order_le_less_trans zero_less_numeral zero_less_power nless_le)
  then have "base_addr mp \<le> addr mp x" using unat_addr [OF g] by (simp add: word_le_nat_alt)
  moreover have "(of_nat x :: u64) XOR push_bit k 1 = of_nat (nbuddy x k)"
    using arg_cong [OF xor_nbuddy [OF x(2)], of "of_nat :: nat \<Rightarrow> u64"] by (simp add: of_nat_xor_eq)
  ultimately show ?thesis by (simp add: find_buddy_def addr_def add.commute)
qed

lemma addr_less:
  "geom mp \<Longrightarrow> x < 2 ^ pool_order mp \<Longrightarrow> y < 2 ^ pool_order mp \<Longrightarrow> addr mp y < addr mp x \<longleftrightarrow> y < x"
  by (simp add: word_less_nat_alt unat_addr)

text \<open>Tags of different starts are different bits.\<close>

lemma tag_update:
  assumes "geom mp" and "x < 2 ^ pool_order mp" and "2 ^ min_order mp dvd x" and "2 ^ min_order mp dvd y"
  shows "tag (mp\<lparr>tag_bits := (tag_bits mp)[x div 2 ^ min_order mp := b]\<rparr>) y = (if y = x then b else tag mp y)"
proof -
  have "x div 2 ^ min_order mp < length (tag_bits mp)" using block_to_id_addr [OF assms(1,2)] by blast
  moreover have "x div 2 ^ min_order mp = y div 2 ^ min_order mp \<longleftrightarrow> x = y"
    using assms(3,4) dvd_div_eq_iff by blast
  ultimately show ?thesis by (auto simp: tag_def nth_list_update)
qed

section \<open>Updates of the pool\<close>

lemma upd_simps [simp]:
  "free_blks (mp\<lparr>tag_bits := t\<rparr>) = free_blks mp" "free_blks (mp\<lparr>blk_order := f\<rparr>) = free_blks mp"
  "addr (mp\<lparr>tag_bits := t\<rparr>) = addr mp" "addr (mp\<lparr>blk_order := f\<rparr>) = addr mp" "addr (mp\<lparr>avail := v\<rparr>) = addr mp"
  "tag (mp\<lparr>blk_order := f\<rparr>) = tag mp" "tag (mp\<lparr>avail := v\<rparr>) = tag mp"
  "geom (mp\<lparr>blk_order := f\<rparr>) = geom mp"
  by (auto simp: free_blks_def addr_def tag_def geom_def fun_eq_iff)

lemma geom_upd [simp]:
  "length v = length (avail mp) \<Longrightarrow> geom (mp\<lparr>avail := v\<rparr>) = geom mp"
  "length t = length (tag_bits mp) \<Longrightarrow> geom (mp\<lparr>tag_bits := t\<rparr>) = geom mp"
  by (auto simp: geom_def)

lemma free_blks_push:
  assumes "geom mp" and "k \<le> pool_order mp" and "x < 2 ^ 64"
  shows "free_blks (mp\<lparr>avail := (avail mp)[k := addr mp x # avail mp ! k]\<rparr>) = insert (x, k) (free_blks mp)"
proof -
  have "k < length (avail mp)" using assms by (auto simp: geom_def)
  then have "(y, l) \<in> free_blks (mp\<lparr>avail := (avail mp)[k := addr mp x # avail mp ! k]\<rparr>) \<longleftrightarrow>
      (y, l) \<in> insert (x, k) (free_blks mp)" for y l
    using assms(2,3) addr_inj [of mp y x] by (auto simp: free_blks_def nth_list_update)
  then show ?thesis by auto
qed

lemma free_blks_pop:
  assumes "geom mp" and "k \<le> pool_order mp" and "x < 2 ^ 64" and "avail mp ! k = addr mp x # as" and "distinct (avail mp ! k)"
  shows "free_blks (mp\<lparr>avail := (avail mp)[k := as]\<rparr>) = free_blks mp - {(x, k)}"
proof -
  have "k < length (avail mp)" using assms by (auto simp: geom_def)
  then have "(y, l) \<in> free_blks (mp\<lparr>avail := (avail mp)[k := as]\<rparr>) \<longleftrightarrow> (y, l) \<in> free_blks mp - {(x, k)}" for y l
    using assms(2-5) addr_inj [of mp y x] by (auto simp: free_blks_def nth_list_update)
  then show ?thesis by auto
qed

text \<open>Facts about the blocks of a pool that satisfies the invariant.\<close>

lemma core_blk:
  assumes "core mp L T" and "(x, k) \<in> free_blks mp \<union> L"
  shows "blk_ok (pool_order mp) (x, k)" and "x < 2 ^ pool_order mp" and "2 ^ min_order mp dvd x"
    and "x < 2 ^ 64" and "min_order mp \<le> k" and "k \<le> pool_order mp"
proof -
  have p: "partition_of (pool_order mp) (free_blks mp \<union> L)" and g: "geom mp"
    and mo: "\<forall>x k. (x, k) \<in> free_blks mp \<union> L \<longrightarrow> min_order mp \<le> k" using assms(1) unfolding core_def by blast+
  show ok: "blk_ok (pool_order mp) (x, k)" using partition_ok [OF p assms(2)] .
  then have "x + 2 ^ k \<le> 2 ^ pool_order mp" "0 < (2 :: nat) ^ k" by (simp_all add: blk_ok_def)
  then show lt: "x < 2 ^ pool_order mp" by linarith
  show mk: "min_order mp \<le> k" using mo assms(2) by blast
  show "2 ^ min_order mp dvd x" using ok le_imp_power_dvd [OF mk, of "2 :: nat"] by (auto simp: blk_ok_def)
  show "x < 2 ^ 64" using pool_less [OF g lt] .
  show "k \<le> pool_order mp" using ok by (simp add: blk_ok_def)
qed

lemma core_start:
  assumes "core mp L T" and "(x, k) \<in> free_blks mp \<union> L" and "(x, l) \<in> free_blks mp \<union> L"
  shows "k = l"
  using assms partition_start unfolding core_def by blast

lemma core_free: "core mp L T \<Longrightarrow> (x, k) \<in> free_blks mp \<Longrightarrow> blk_order mp (addr mp x) = k \<and> tag mp x"
  unfolding core_def by blast

lemma core_alloc: "core mp L T \<Longrightarrow> (x, k) \<in> T \<Longrightarrow> \<not> tag mp x"
  unfolding core_def by blast

lemma core_buddy: "core mp L T \<Longrightarrow> (x, k) \<in> free_blks mp \<Longrightarrow> k < pool_order mp \<Longrightarrow> (nbuddy x k, k) \<notin> free_blks mp"
  unfolding core_def by blast

lemma core_distinct: "core mp L T \<Longrightarrow> k \<le> pool_order mp \<Longrightarrow> distinct (avail mp ! k)"
  unfolding core_def by blast

lemma core_geom: "core mp L T \<Longrightarrow> geom mp"
  unfolding core_def by blast

lemma core_part: "core mp L T \<Longrightarrow> partition_of (pool_order mp) (free_blks mp \<union> L)"
  unfolding core_def by blast

lemma core_disj: "core mp L T \<Longrightarrow> free_blks mp \<inter> L = {}"
  unfolding core_def by blast

lemma unlink_effect:
  assumes c: "core mp L T" and x: "(x, k) \<in> free_blks mp"
  shows "unlink_block (addr mp x) mp = Inr (mp\<lparr>avail := map (remove1 (addr mp x)) (avail mp)\<rparr>)"
    and "free_blks (mp\<lparr>avail := map (remove1 (addr mp x)) (avail mp)\<rparr>) = free_blks mp - {(x, k)}"
proof -
  have g: "geom mp" by (rule core_geom [OF c])
  then have len: "length (avail mp) = Suc (pool_order mp)" by (simp add: geom_def)
  have k: "k \<le> pool_order mp" "addr mp x \<in> set (avail mp ! k)" "x < 2 ^ 64" using x by (auto simp: free_blks_def)
  then have "avail mp ! k \<in> set (avail mp)" using len by simp
  then show "unlink_block (addr mp x) mp = Inr (mp\<lparr>avail := map (remove1 (addr mp x)) (avail mp)\<rparr>)"
    using k(2) by (auto simp: unlink_block_def)
  have "(y, l) \<in> free_blks (mp\<lparr>avail := map (remove1 (addr mp x)) (avail mp)\<rparr>) \<longleftrightarrow> (y, l) \<in> free_blks mp - {(x, k)}" for y l
  proof (cases "l \<le> pool_order mp \<and> y < 2 ^ 64")
    case True
    then have "distinct (avail mp ! l)" using core_distinct [OF c] by blast
    then have "(y, l) \<in> free_blks (mp\<lparr>avail := map (remove1 (addr mp x)) (avail mp)\<rparr>) \<longleftrightarrow> (y, l) \<in> free_blks mp \<and> y \<noteq> x"
      using True len k(3) addr_inj [of mp y x] by (auto simp: free_blks_def set_remove1_eq)
    moreover have "y = x \<longrightarrow> (y, l) \<in> free_blks mp \<longrightarrow> l = k" using core_start [OF c] x by blast
    ultimately show ?thesis by blast
  qed (auto simp: free_blks_def)
  then show "free_blks (mp\<lparr>avail := map (remove1 (addr mp x)) (avail mp)\<rparr>) = free_blks mp - {(x, k)}" by auto
qed

section \<open>The four moves\<close>

text \<open>A free block is taken from the head of its list.\<close>

lemma core_take:
  assumes c: "buddy_inv mp L" and j: "j \<le> pool_order mp" and a: "avail mp ! j = addr mp x # as" and x: "x < 2 ^ 64"
  defines "mp' \<equiv> mp\<lparr>avail := (avail mp)[j := as], tag_bits := (tag_bits mp)[x div 2 ^ min_order mp := False]\<rparr>"
  shows "buddy_inv mp' (insert (x, j) L)" and "(x, j) \<in> free_blks mp" and "(x, j) \<notin> L"
proof -
  have g: "geom mp" by (rule core_geom [OF c])
  show xF: "(x, j) \<in> free_blks mp" using j a x by (simp add: free_blks_def)
  then show "(x, j) \<notin> L" using core_disj [OF c] by blast
  have F: "free_blks mp' = free_blks mp - {(x, j)}"
    using free_blks_pop [OF g j x a core_distinct [OF c j]] by (simp add: mp'_def)
  then have FL: "free_blks mp' \<union> insert (x, j) L = free_blks mp \<union> L" using xF by blast
  have sel: "pool_order mp' = pool_order mp" "min_order mp' = min_order mp" "blk_order mp' = blk_order mp" "addr mp' = addr mp"
    by (simp_all add: mp'_def)
  note xb = core_blk [OF c, of x j]
  have tg: "tag mp' y = (if y = x then False else tag mp y)" if "(y, l) \<in> free_blks mp \<union> L" for y l
    using tag_update [OF g, of x y False] core_blk [OF c that] xb xF by (simp add: mp'_def tag_def)
  have st: "y \<noteq> x" if "(y, l) \<in> free_blks mp \<union> L" "(y, l) \<noteq> (x, j)" for y l
    using that core_start [OF c, of x j l] xF by blast
  show "buddy_inv mp' (insert (x, j) L)"
    unfolding core_def FL sel
  proof (intro conjI allI impI)
    show "geom mp'" using g by (simp add: mp'_def)
    show "partition_of (pool_order mp) (free_blks mp \<union> L)" by (rule core_part [OF c])
    show "free_blks mp' \<inter> insert (x, j) L = {}" using core_disj [OF c] unfolding F by blast
    show "min_order mp \<le> k" if "(y, k) \<in> free_blks mp \<union> L" for y k using core_blk [OF c that] by blast
    show "distinct (avail mp' ! k)" if "k \<le> pool_order mp" for k
      using core_distinct [OF c that] a j g by (cases "k = j") (simp_all add: mp'_def geom_def)
    show "blk_order mp (addr mp y) = k" if "(y, k) \<in> free_blks mp'" for y k
      using core_free [OF c, of y k] that F by blast
    show "tag mp' y" if "(y, k) \<in> free_blks mp'" for y k
    proof -
      have y: "(y, k) \<in> free_blks mp" "(y, k) \<noteq> (x, j)" using that F by auto
      then have "y \<noteq> x" using st [of y k] by blast
      then show ?thesis using tg [of y k] y(1) core_free [OF c y(1), THEN conjunct2] by simp
    qed
    show "\<not> tag mp' y" if "(y, k) \<in> insert (x, j) L" for y k
      using that tg [of y k] core_alloc [OF c, of y k] xF by (auto split: if_splits)
    show "(nbuddy y k, k) \<notin> free_blks mp'" if "(y, k) \<in> free_blks mp'" "k < pool_order mp" for y k
      using core_buddy [OF c _ that(2), of y] that F by blast
  qed
qed

text \<open>The upper half of an allocated block is freed.\<close>

lemma core_split:
  assumes c: "buddy_inv mp (insert (x, Suc j) L)" and n: "(x, Suc j) \<notin> L" and mj: "min_order mp \<le> j"
  defines "y \<equiv> x + 2 ^ j"
  defines "mp' \<equiv> mp\<lparr>blk_order := (blk_order mp)(addr mp y := j), tag_bits := (tag_bits mp)[y div 2 ^ min_order mp := True],
     avail := (avail mp)[j := addr mp y # avail mp ! j]\<rparr>"
  shows "buddy_inv mp' (insert (x, j) L)" and "(x, j) \<notin> L" and "y < 2 ^ pool_order mp"
proof -
  have g: "geom mp" by (rule core_geom [OF c])
  let ?S = "free_blks mp \<union> insert (x, Suc j) L"
  have xS: "(x, Suc j) \<in> ?S" by simp
  note xb = core_blk [OF c xS] and p = core_part [OF c]
  have y64: "y < 2 ^ 64" and yP: "y < 2 ^ pool_order mp" and ydvd: "2 ^ min_order mp dvd y" and jP: "j < pool_order mp"
  proof -
    have e: "x + 2 ^ Suc j \<le> 2 ^ pool_order mp" using xb(1) by (simp add: blk_ok_def)
    moreover have "x + 2 ^ j < x + 2 ^ Suc j" by simp
    ultimately show *: "y < 2 ^ pool_order mp" unfolding y_def by linarith
    then show "y < 2 ^ 64" using pool_less [OF g] by blast
    show "2 ^ min_order mp dvd y" using xb(3) le_imp_power_dvd [OF mj, of "2 :: nat"] by (simp add: y_def)
    show "j < pool_order mp" using xb(6) by simp
  qed
  then show "y < 2 ^ pool_order mp" by simp
  have jl: "j < length (avail mp)" using g jP by (simp add: geom_def)
  have F: "free_blks mp' = insert (y, j) (free_blks mp)"
    using free_blks_push [of "mp\<lparr>blk_order := (blk_order mp)(addr mp y := j), tag_bits := (tag_bits mp)[y div 2 ^ min_order mp := True]\<rparr>" j y]
      g y64 jP by (simp add: mp'_def)
  have xy: "x \<noteq> y" by (simp add: y_def)
  have inx: "y \<in> rng (x, Suc j)" by (simp add: rng_def y_def)
  have ynew: "(y, l) \<notin> ?S" for l
  proof
    assume "(y, l) \<in> ?S"
    from partition_unique [OF p this xS rng_start inx] show False using xy by simp
  qed
  have xnew: "(x, l) \<in> ?S \<Longrightarrow> l = Suc j" for l using core_start [OF c _ xS] by blast
  show xL: "(x, j) \<notin> L" using xnew [of j] by auto
  have FL: "free_blks mp' \<union> insert (x, j) L = ?S - {(x, Suc j)} \<union> {(x, j), (y, j)}"
  proof -
    have "(x, Suc j) \<notin> free_blks mp" using core_disj [OF c] by auto
    then show ?thesis using n unfolding F by auto
  qed
  have sel: "pool_order mp' = pool_order mp" "min_order mp' = min_order mp" "addr mp' = addr mp"
    "blk_order mp' = (blk_order mp)(addr mp y := j)"
    by (simp_all add: mp'_def)
  have tg: "tag mp' z = (if z = y then True else tag mp z)" if "2 ^ min_order mp dvd z" for z
    using tag_update [OF g yP ydvd that, of True] by (simp add: mp'_def tag_def)
  have bo: "blk_order mp' (addr mp z) = blk_order mp (addr mp z)" if "z < 2 ^ 64" "z \<noteq> y" for z
    using that addr_inj [of mp z y] y64 by (auto simp: sel)
  have ne: "z \<noteq> y" if "(z, k) \<in> ?S" for z k using ynew that by blast
  show "buddy_inv mp' (insert (x, j) L)"
    unfolding core_def FL sel(1-3)
  proof (intro conjI allI impI)
    show "geom mp'" using g by (simp add: mp'_def)
    show "partition_of (pool_order mp) (?S - {(x, Suc j)} \<union> {(x, j), (y, j)})"
      using partition_split [OF p xS] by (simp add: y_def)
    show "free_blks mp' \<inter> insert (x, j) L = {}" using core_disj [OF c] ynew [of j] xnew [of j] xy unfolding F by auto
    show "min_order mp \<le> k" if "(z, k) \<in> ?S - {(x, Suc j)} \<union> {(x, j), (y, j)}" for z k
      using that mj core_blk(5) [OF c, of z k] by blast
    show "distinct (avail mp' ! k)" if "k \<le> pool_order mp" for k
      using core_distinct [OF c that] ynew [of j] jP y64 jl by (cases "k = j") (auto simp: mp'_def free_blks_def)
    show "blk_order mp' (addr mp z) = k" if z: "(z, k) \<in> free_blks mp'" for z k
    proof (cases "z = y")
      case True
      then have "k = j" using z ynew [of k] by (auto simp: F)
      then show ?thesis using True by (simp add: sel)
    next
      case False
      then have zF: "(z, k) \<in> free_blks mp" using z by (auto simp: F)
      then show ?thesis using bo [OF _ False] core_free [OF c zF] by (auto simp: free_blks_def)
    qed
    show "tag mp' z" if z: "(z, k) \<in> free_blks mp'" for z k
    proof (cases "z = y")
      case False
      then have zF: "(z, k) \<in> free_blks mp" using z by (auto simp: F)
      then show ?thesis using tg [of z] core_blk(3) [OF c, of z k] core_free [OF c zF] by simp
    qed (use tg ydvd in simp)
    show "\<not> tag mp' z" if z: "(z, k) \<in> insert (x, j) L" for z k
    proof -
      have "\<exists>k'. (z, k') \<in> insert (x, Suc j) L" using z by auto
      then obtain k' where k': "(z, k') \<in> insert (x, Suc j) L" by blast
      then show ?thesis using tg [of z] core_alloc [OF c k'] core_blk(3) [OF c, of z k'] ne [of z k'] by auto
    qed
    show "(nbuddy z k, k) \<notin> free_blks mp'" if z: "(z, k) \<in> free_blks mp'" "k < pool_order mp" for z k
    proof -
      have dx: "2 ^ Suc j dvd x" using xb(1) by (simp add: blk_ok_def)
      then have ev: "even (x div 2 ^ j)" by (auto elim!: dvdE)
      have dj: "2 ^ j dvd x" using dx by (auto dest: dvd_mult_left)
      then have bd: "nbuddy x j = y" "nbuddy y j = x"
        using ev nbuddy_invol [OF dj] by (simp_all add: nbuddy_def y_def)
      show ?thesis
      proof (cases "(z, k) = (y, j)")
        case True
        then show ?thesis using bd xnew [of j] xy by (auto simp: F)
      next
        case False
        then have zF: "(z, k) \<in> free_blks mp" using z by (auto simp: F)
        have "(nbuddy z k, k) \<noteq> (y, j)"
        proof
          assume e: "(nbuddy z k, k) = (y, j)"
          have "2 ^ k dvd z" using core_blk(1) [OF c, of z k] zF by (simp add: blk_ok_def)
          then have "z = nbuddy (nbuddy z k) k" by (rule nbuddy_invol [symmetric])
          also have "\<dots> = nbuddy y j" using e by auto
          also have "\<dots> = x" by (rule bd(2))
          finally have "(x, k) \<in> ?S" using zF by blast
          then show False using xnew [of k] e by simp
        qed
        then show ?thesis using core_buddy [OF c zF z(2)] by (simp add: F)
      qed
    qed
  qed
qed

text \<open>A block that is being freed absorbs its free buddy.\<close>

lemma core_merge:
  assumes c: "core mp (insert (x, k) L) L" and n: "(x, k) \<notin> L" and k: "k < pool_order mp"
    and y: "(nbuddy x k, k) \<in> free_blks mp"
  defines "z \<equiv> min x (nbuddy x k)"
  defines "mp' \<equiv> mp\<lparr>avail := map (remove1 (addr mp (nbuddy x k))) (avail mp), blk_order := (blk_order mp)(addr mp z := Suc k)\<rparr>"
  shows "core mp' (insert (z, Suc k) L) L" and "(z, Suc k) \<notin> L"
proof -
  let ?y = "nbuddy x k" and ?S = "free_blks mp \<union> insert (x, k) L"
  have xS: "(x, k) \<in> ?S" and yS: "(?y, k) \<in> ?S" using y by auto
  have g: "geom mp" by (rule core_geom [OF c])
  note p = core_part [OF c] and u = unlink_effect [OF c y]
  note nb = nbuddy_ok [OF core_blk(1) [OF c xS] k]
  have F: "free_blks mp' = free_blks mp - {(?y, k)}" using u(2) by (simp add: mp'_def)
  have zor: "z = x \<or> z = ?y" by (auto simp: z_def min_def)
  have zk: "l = k" if "(z, l) \<in> ?S" for l
    using zor
  proof
    assume "z = x"
    then show ?thesis using core_start [OF c _ xS, of l] that by simp
  next
    assume "z = ?y"
    then show ?thesis using core_start [OF c _ yS, of l] that by simp
  qed
  show zL: "(z, Suc k) \<notin> L" using zk [of "Suc k"] by auto
  have FL: "free_blks mp' \<union> insert (z, Suc k) L = ?S - {(x, k), (?y, k)} \<union> {(z, Suc k)}"
  proof -
    have "(x, k) \<notin> free_blks mp" "(?y, k) \<notin> L" using core_disj [OF c] y nb(2) by auto
    then show ?thesis using n unfolding F by auto
  qed
  have sel: "pool_order mp' = pool_order mp" "min_order mp' = min_order mp" "addr mp' = addr mp" "tag mp' = tag mp"
    by (simp_all add: mp'_def)
  have other: "w \<noteq> z" if "(w, l) \<in> free_blks mp'" for w l
  proof
    assume "w = z"
    then have "l = k" "w = x \<or> w = ?y" using that zk [of l] zor unfolding F by auto
    then show False using that core_disj [OF c] unfolding F by auto
  qed
  show "core mp' (insert (z, Suc k) L) L"
    unfolding core_def FL sel
  proof (intro conjI allI impI)
    show "geom mp'" using g by (simp add: mp'_def)
    show "partition_of (pool_order mp) (?S - {(x, k), (?y, k)} \<union> {(z, Suc k)})"
      using partition_merge [OF p xS yS k] by (simp only: z_def)
    show "free_blks mp' \<inter> insert (z, Suc k) L = {}" using core_disj [OF c] other [of z "Suc k"] unfolding F by auto
    show "min_order mp \<le> l" if "(w, l) \<in> ?S - {(x, k), (?y, k)} \<union> {(z, Suc k)}" for w l
      using that core_blk(5) [OF c, of w l] core_blk(5) [OF c xS] by auto
    show "distinct (avail mp' ! l)" if "l \<le> pool_order mp" for l
      using core_distinct [OF c that] that g by (simp add: mp'_def geom_def distinct_remove1)
    show "blk_order mp' (addr mp w) = l" if w: "(w, l) \<in> free_blks mp'" for w l
    proof -
      have wF: "(w, l) \<in> free_blks mp" using w F by blast
      have "addr mp w \<noteq> addr mp z"
        using addr_inj [of mp w z] other [OF w] core_blk(4) [OF c, of w l] zor core_blk(4) [OF c xS] core_blk(4) [OF c yS] wF by auto
      then show ?thesis using core_free [OF c wF, THEN conjunct1] by (simp add: mp'_def)
    qed
    show "tag mp w" if w: "(w, l) \<in> free_blks mp'" for w l
      using core_free [OF c, of w l, THEN conjunct2] w F by blast
    show "\<not> tag mp w" if "(w, l) \<in> L" for w l using core_alloc [OF c that] .
    show "(nbuddy w l, l) \<notin> free_blks mp'" if "(w, l) \<in> free_blks mp'" "l < pool_order mp" for w l
      using core_buddy [OF c _ that(2), of w] that(1) F by blast
  qed
qed

text \<open>A block whose buddy is not free joins the free blocks.\<close>

lemma core_release:
  assumes c: "core mp (insert (x, k) L) L" and n: "(x, k) \<notin> L"
    and nb: "k < pool_order mp \<Longrightarrow> (nbuddy x k, k) \<notin> free_blks mp"
  defines "mp' \<equiv> mp\<lparr>blk_order := (blk_order mp)(addr mp x := k), tag_bits := (tag_bits mp)[x div 2 ^ min_order mp := True],
     avail := (avail mp)[k := addr mp x # avail mp ! k]\<rparr>"
  shows "buddy_inv mp' L" and "free_blks mp' = insert (x, k) (free_blks mp)"
proof -
  let ?S = "free_blks mp \<union> insert (x, k) L"
  have xS: "(x, k) \<in> ?S" by simp
  have g: "geom mp" by (rule core_geom [OF c])
  note xb = core_blk [OF c xS]
  have kl: "k < length (avail mp)" using g xb(6) by (simp add: geom_def)
  show F: "free_blks mp' = insert (x, k) (free_blks mp)"
    using free_blks_push [of "mp\<lparr>blk_order := (blk_order mp)(addr mp x := k), tag_bits := (tag_bits mp)[x div 2 ^ min_order mp := True]\<rparr>" k x]
      g xb(4,6) by (simp add: mp'_def)
  have xF: "(x, l) \<notin> free_blks mp" for l
    using core_start [OF c, of x l k] core_disj [OF c] by auto
  have xL: "(x, l) \<notin> L" for l using core_start [OF c, of x l k] n by auto
  have sel: "pool_order mp' = pool_order mp" "min_order mp' = min_order mp" "addr mp' = addr mp"
    by (simp_all add: mp'_def)
  have tg: "tag mp' w = (if w = x then True else tag mp w)" if "2 ^ min_order mp dvd w" for w
    using tag_update [OF g xb(2,3) that, of True] by (simp add: mp'_def tag_def)
  have FL: "free_blks mp' \<union> L = ?S" unfolding F by auto
  show "buddy_inv mp' L"
    unfolding core_def FL sel
  proof (intro conjI allI impI)
    show "geom mp'" using g by (simp add: mp'_def)
    show "partition_of (pool_order mp) ?S" by (rule core_part [OF c])
    show "free_blks mp' \<inter> L = {}" using core_disj [OF c] n unfolding F by auto
    show "min_order mp \<le> l" if "(w, l) \<in> ?S" for w l using core_blk(5) [OF c that] .
    show "distinct (avail mp' ! l)" if "l \<le> pool_order mp" for l
      using core_distinct [OF c that] xF [of k] xb(4,6) kl by (cases "l = k") (auto simp: mp'_def free_blks_def)
    show "blk_order mp' (addr mp w) = l" if w: "(w, l) \<in> free_blks mp'" for w l
    proof (cases "w = x")
      case True
      then have "l = k" using w xF [of l] by (simp add: F)
      then show ?thesis using True by (simp add: mp'_def)
    next
      case False
      then have wF: "(w, l) \<in> free_blks mp" using w by (simp add: F)
      then have "addr mp w \<noteq> addr mp x" using addr_inj [of mp w x] False core_blk(4) [OF c, of w l] xb(4) by auto
      then show ?thesis using core_free [OF c wF, THEN conjunct1] by (simp add: mp'_def)
    qed
    show "tag mp' w" if w: "(w, l) \<in> free_blks mp'" for w l
    proof (cases "w = x")
      case False
      then have wF: "(w, l) \<in> free_blks mp" using w by (simp add: F)
      then show ?thesis using tg [of w] core_blk(3) [OF c, of w l] core_free [OF c wF, THEN conjunct2] by simp
    qed (use tg xb(3) in simp)
    show "\<not> tag mp' w" if w: "(w, l) \<in> L" for w l
    proof -
      have "w \<noteq> x" using w xL by auto
      then show ?thesis using tg [of w] core_blk(3) [OF c, of w l] core_alloc [OF c w] w by simp
    qed
    show "(nbuddy w l, l) \<notin> free_blks mp'" if w: "(w, l) \<in> free_blks mp'" "l < pool_order mp" for w l
    proof (cases "(w, l) = (x, k)")
      case True
      then show ?thesis using nb w(2) nbuddy_ok(2) [OF xb(1)] by (simp add: F)
    next
      case False
      then have wF: "(w, l) \<in> free_blks mp" using w by (auto simp: F)
      have "(nbuddy w l, l) \<noteq> (x, k)"
      proof
        assume e: "(nbuddy w l, l) = (x, k)"
        have "2 ^ l dvd w" using core_blk(1) [OF c, of w l] wF by (simp add: blk_ok_def)
        then have "w = nbuddy (nbuddy w l) l" by (rule nbuddy_invol [symmetric])
        also have "\<dots> = nbuddy x k" using e by auto
        finally show False using nb wF w(2) e by simp
      qed
      then show ?thesis using core_buddy [OF c wF w(2)] by (simp add: F)
    qed
  qed
qed

end
