(* ===== verification/Allocator.thy ===== *)
theory Allocator
  imports Prelude
begin

text \<open>
  The contract of an allocator, stated once for the two allocators of \<open>src/VMproject\<close>: the buddy
  allocator of physical memory and the first-fit allocator of virtual address ranges.  An
  allocation hands out a block that was not live and keeps the allocator's invariant for one
  more live block, a release of a live block keeps it for one fewer, and the invariant says
  that live blocks do not overlap.
\<close>

text \<open>Any sequence of allocations and of releases of blocks that are live.\<close>

inductive alloc_run ::
  "('s \<Rightarrow> 'b \<Rightarrow> 's \<Rightarrow> bool) \<Rightarrow> ('s \<Rightarrow> 'b \<Rightarrow> 's \<Rightarrow> bool) \<Rightarrow> 's \<times> 'b set \<Rightarrow> 's \<times> 'b set \<Rightarrow> bool"
  for acquire release where
  start: "alloc_run acquire release c c"
| acquired: "alloc_run acquire release c (s, L) \<Longrightarrow> acquire s b s' \<Longrightarrow> alloc_run acquire release c (s', insert b L)"
| released: "alloc_run acquire release c (s, L) \<Longrightarrow> b \<in> L \<Longrightarrow> release s b s' \<Longrightarrow> alloc_run acquire release c (s', L - {b})"

locale block_allocator =
  fixes footprint :: "'b \<Rightarrow> nat set"
    and live_ok :: "'s \<Rightarrow> 'b set \<Rightarrow> bool"
    and acquire :: "'s \<Rightarrow> 'b \<Rightarrow> 's \<Rightarrow> bool"
    and release :: "'s \<Rightarrow> 'b \<Rightarrow> 's \<Rightarrow> bool"
  assumes live_disjoint: "live_ok s L \<Longrightarrow> b \<in> L \<Longrightarrow> c \<in> L \<Longrightarrow> b \<noteq> c \<Longrightarrow> footprint b \<inter> footprint c = {}"
    and acquire_fresh: "live_ok s L \<Longrightarrow> acquire s b s' \<Longrightarrow> b \<notin> L \<and> live_ok s' (insert b L)"
    and release_live: "live_ok s L \<Longrightarrow> b \<in> L \<Longrightarrow> release s b s' \<Longrightarrow> live_ok s' (L - {b})"
begin

lemma run_live:
  assumes "alloc_run acquire release (s, L) (s', L')" and "live_ok s L"
  shows "live_ok s' L'"
  using assms
  by (induction "(s, L)" "(s', L')" arbitrary: s' L' rule: alloc_run.induct)
    (use acquire_fresh release_live in blast)+

lemma run_disjoint:
  assumes "alloc_run acquire release (s, L) (s', L')" and "live_ok s L"
    and "b \<in> L'" and "c \<in> L'" and "b \<noteq> c"
  shows "footprint b \<inter> footprint c = {}"
  using live_disjoint [OF run_live [OF assms(1,2)] assms(3-5)] .

end

end
