(* ===== verification/BuddyProps.thy ===== *)
theory BuddyProps
  imports BuddyInv Allocator
begin

text \<open>
  What the operations of the buddy allocator do to the invariant, the contract a client relies
  on as a locale, and the properties: blocks handed out are aligned and disjoint, freeing never
  faults and coalesces completely, so that a pool with nothing allocated is one block again.
\<close>

section \<open>Splitting\<close>

definition same_pool :: "buddy_mempool \<Rightarrow> buddy_mempool \<Rightarrow> bool" where
  "same_pool mp mp' \<longleftrightarrow> base_addr mp' = base_addr mp \<and> pool_order mp' = pool_order mp \<and> min_order mp' = min_order mp"

lemma same_pool_addr: "same_pool mp mp' \<Longrightarrow> addr mp' = addr mp"
  by (auto simp: same_pool_def addr_def)

lemma same_pool_trans: "same_pool a b \<Longrightarrow> same_pool b c \<Longrightarrow> same_pool a c"
  by (simp add: same_pool_def)

lemma trim_spec:
  assumes "buddy_inv mp (insert (x, j) L)" and "(x, j) \<notin> L" and "min_order mp \<le> order" and "order \<le> j"
  shows "\<exists>mp'. trim mp (addr mp x) order j = Inr mp' \<and> buddy_inv mp' (insert (x, order) L)
           \<and> (x, order) \<notin> L \<and> same_pool mp mp'"
  using assms
proof (induction j arbitrary: mp)
  case 0
  then show ?case by (simp add: same_pool_def)
next
  case (Suc j)
  show ?case
  proof (cases "order = Suc j")
    case True
    then show ?thesis using Suc.prems by (simp add: same_pool_def)
  next
    case False
    then have j: "min_order mp \<le> j" "order \<le> j" using Suc.prems(3,4) by simp_all
    define mp' where "mp' = mp\<lparr>blk_order := (blk_order mp)(addr mp (x + 2 ^ j) := j),
      tag_bits := (tag_bits mp)[(x + 2 ^ j) div 2 ^ min_order mp := True],
      avail := (avail mp)[j := addr mp (x + 2 ^ j) # avail mp ! j]\<rparr>"
    note sp = core_split [OF Suc.prems(1,2) j(1), folded mp'_def]
    have g: "geom (mp\<lparr>blk_order := (blk_order mp)(addr mp (x + 2 ^ j) := j)\<rparr>)"
      using core_geom [OF Suc.prems(1)] by simp
    have a: "addr mp x + 2 ^ j = addr mp (x + 2 ^ j)" by (simp add: addr_def)
    have "trim mp (addr mp x) order (Suc j) = trim mp' (addr mp x) order j"
      using j(2) mark_addr(1) [OF g, of "x + 2 ^ j"] sp(3) by (simp add: a Let_def mp'_def)
    moreover have s: "same_pool mp mp'" by (simp add: same_pool_def mp'_def)
    moreover obtain mp2 where "trim mp' (addr mp' x) order j = Inr mp2" "buddy_inv mp2 (insert (x, order) L)"
      "(x, order) \<notin> L" "same_pool mp' mp2"
      using Suc.IH [OF sp(1,2)] j Suc.prems(3) s by (auto simp: same_pool_def)
    ultimately show ?thesis using same_pool_addr [OF s] same_pool_trans by auto
  qed
qed

section \<open>Allocation\<close>

text \<open>The order that a request is served with.\<close>

definition served :: "buddy_mempool \<Rightarrow> nat \<Rightarrow> nat" where
  "served mp order = (if order < min_order mp then min_order mp else order)"

lemma served_bounds: "geom mp \<Longrightarrow> order \<le> pool_order mp \<Longrightarrow> min_order mp \<le> served mp order \<and> served mp order \<le> pool_order mp"
  by (simp add: served_def geom_def)

lemma find_avail:
  "find (\<lambda>j. avail mp ! j \<noteq> []) [m..<n] = Some j \<Longrightarrow> m \<le> j \<and> j < n \<and> avail mp ! j \<noteq> []"
  by (auto simp: find_Some_iff)

lemma alloc_spec:
  assumes c: "buddy_inv mp L" and o: "order \<le> pool_order mp"
    and a: "\<exists>j. served mp order \<le> j \<and> j \<le> pool_order mp \<and> avail mp ! j \<noteq> []"
  shows "\<exists>x mp'. buddy_alloc mp order = Inr (addr mp x, mp') \<and> buddy_inv mp' (insert (x, served mp order) L)
           \<and> (x, served mp order) \<notin> L \<and> same_pool mp mp' \<and> addr mp x \<noteq> NULL"
proof -
  have g: "geom mp" by (rule core_geom [OF c])
  let ?o = "served mp order"
  have "find (\<lambda>j. avail mp ! j \<noteq> []) [?o..<Suc (pool_order mp)] \<noteq> None"
    using a by (auto simp: find_None_iff)
  then obtain j where f: "find (\<lambda>j. avail mp ! j \<noteq> []) [?o..<Suc (pool_order mp)] = Some j" by blast
  from find_avail [OF f] have j: "?o \<le> j" "j \<le> pool_order mp" "avail mp ! j \<noteq> []" by simp_all
  obtain b as where b: "avail mp ! j = b # as" using j(3) by (cases "avail mp ! j") auto
  obtain x where x: "x < 2 ^ 64" "b = addr mp x" using addr_off by blast
  have b': "avail mp ! j = addr mp x # as" using b x(2) by simp
  define mp1 where "mp1 = mp\<lparr>avail := (avail mp)[j := as], tag_bits := (tag_bits mp)[x div 2 ^ min_order mp := False]\<rparr>"
  note tk = core_take [OF c j(2) b' x(1), folded mp1_def]
  have xP: "x < 2 ^ pool_order mp" using core_blk(2) [OF c, of x j] tk(2) by blast
  have sp: "same_pool mp mp1" by (simp add: same_pool_def mp1_def)
  have mo: "min_order mp1 \<le> ?o" using served_bounds [OF g o] sp by (simp add: same_pool_def)
  from trim_spec [OF tk(1,3) mo j(1)] obtain mp2 where
    t: "trim mp1 (addr mp1 x) ?o j = Inr mp2" "buddy_inv mp2 (insert (x, ?o) L)" "(x, ?o) \<notin> L" "same_pool mp1 mp2" by blast
  have g1: "geom (mp\<lparr>avail := (avail mp)[j := as]\<rparr>)" using g by simp
  have "mark_allocated (mp\<lparr>avail := (avail mp)[j := as]\<rparr>) (addr mp x) = Inr mp1"
    using mark_addr(2) [OF g1] xP by (simp add: mp1_def)
  then have "buddy_alloc mp order = Inr (addr mp x, mp2)"
    using o f b x(2) t(1) same_pool_addr [OF sp] by (simp add: buddy_alloc_def served_def Let_def)
  moreover have "addr mp x \<noteq> NULL"
    using unat_addr [OF g xP] g by (auto simp: geom_def unat_eq_0)
  ultimately show ?thesis using t same_pool_trans [OF sp t(4)] by blast
qed

lemma alloc_fails:
  assumes "order \<le> pool_order mp" and "\<forall>j. served mp order \<le> j \<and> j \<le> pool_order mp \<longrightarrow> avail mp ! j = []"
  shows "buddy_alloc mp order = Inr (NULL, mp)"
proof -
  have "find (\<lambda>j. avail mp ! j \<noteq> []) [served mp order..<Suc (pool_order mp)] = None"
    using assms(2) by (auto simp: find_None_iff)
  then show ?thesis using assms(1) by (simp add: buddy_alloc_def served_def Let_def)
qed

section \<open>Freeing\<close>

lemma coalesce_spec:
  assumes "core mp (insert (x, k) L) L" and "(x, k) \<notin> L" and "n = pool_order mp - k"
  shows "\<exists>x' k' mp'. coalesce n mp (addr mp x) k = Inr (addr mp x', k', mp') \<and> core mp' (insert (x', k') L) L
           \<and> (x', k') \<notin> L \<and> (k' < pool_order mp \<longrightarrow> (nbuddy x' k', k') \<notin> free_blks mp') \<and> same_pool mp mp'"
  using assms
proof (induction n arbitrary: mp x k)
  case 0
  then show ?case by (intro exI [of _ x] exI [of _ k] exI [of _ mp]) (simp add: same_pool_def)
next
  case (Suc n)
  note c = Suc.prems(1)
  have k: "k < pool_order mp" using Suc.prems(3) by simp
  have g: "geom mp" by (rule core_geom [OF c])
  let ?y = "nbuddy x k"
  have xS: "(x, k) \<in> free_blks mp \<union> insert (x, k) L" by simp
  note xb = core_blk [OF c xS] and nb = nbuddy_ok [OF core_blk(1) [OF c xS] k]
  have yP: "?y < 2 ^ pool_order mp"
  proof -
    have "?y + 2 ^ k \<le> 2 ^ pool_order mp" "0 < (2 :: nat) ^ k" using nb(1) by (simp_all add: blk_ok_def)
    then show ?thesis by linarith
  qed
  have fb: "find_buddy mp (addr mp x) k = Inr (addr mp ?y)" by (rule find_buddy_addr [OF g xb(1)])
  have av: "is_available mp (addr mp ?y) = Inr (tag mp ?y)" by (rule is_available_addr [OF g yP])
  show ?case
  proof (cases "tag mp ?y \<and> blk_order mp (addr mp ?y) = k")
    case False
    then have "(?y, k) \<notin> free_blks mp" using core_free [OF c, of ?y k] by blast
    then show ?thesis
      using False fb av Suc.prems(1,2)
      by (intro exI [of _ x] exI [of _ k] exI [of _ mp]) (auto simp: same_pool_def)
  next
    case True
    from buddy_starts [OF core_part [OF c] xS k] obtain l where l: "(?y, l) \<in> free_blks mp \<union> insert (x, k) L" by blast
    then have "(?y, l) \<in> free_blks mp" using core_alloc [OF c, of ?y l] True nb(2) by auto
    moreover from this have "l = k" using core_free [OF c, of ?y l] True by simp
    ultimately have yF: "(?y, k) \<in> free_blks mp" by simp
    define mp' where "mp' = mp\<lparr>avail := map (remove1 (addr mp ?y)) (avail mp),
      blk_order := (blk_order mp)(addr mp (min x ?y) := Suc k)\<rparr>"
    note mg = core_merge [OF c Suc.prems(2) k yF, folded mp'_def]
    have sp: "same_pool mp mp'" by (simp add: same_pool_def mp'_def)
    have bl: "(if addr mp ?y < addr mp x then addr mp ?y else addr mp x) = addr mp (min x ?y)"
      using addr_less [OF g xb(2) yP] by (simp add: min_def)
    have "coalesce (Suc n) mp (addr mp x) k = coalesce n mp' (addr mp' (min x ?y)) (Suc k)"
      using fb av True unlink_effect(1) [OF c yF] bl same_pool_addr [OF sp] by (simp add: Let_def mp'_def)
    moreover have "n = pool_order mp' - Suc k" using Suc.prems(3) by (simp add: mp'_def)
    from Suc.IH [OF mg this] obtain x' k' mp2 where
      r: "coalesce n mp' (addr mp' (min x ?y)) (Suc k) = Inr (addr mp' x', k', mp2)" "core mp2 (insert (x', k') L) L"
        "(x', k') \<notin> L" "k' < pool_order mp' \<longrightarrow> (nbuddy x' k', k') \<notin> free_blks mp2" "same_pool mp' mp2" by blast
    ultimately have "coalesce (Suc n) mp (addr mp x) k = Inr (addr mp x', k', mp2)"
      by (simp only: same_pool_addr [OF sp])
    moreover have "pool_order mp' = pool_order mp" by (simp add: mp'_def)
    ultimately show ?thesis using r(2-4) same_pool_trans [OF sp r(5)] by metis
  qed
qed

lemma buddy_free_spec:
  assumes c: "buddy_inv mp L" and o: "order \<le> pool_order mp" and x: "(x, served mp order) \<in> L"
  shows "\<exists>mp'. buddy_free mp (addr mp x) order = Inr mp' \<and> buddy_inv mp' (L - {(x, served mp order)}) \<and> same_pool mp mp'"
proof -
  let ?o = "served mp order" and ?L = "L - {(x, served mp order)}"
  have g: "geom mp" by (rule core_geom [OF c])
  have xP: "x < 2 ^ pool_order mp" using core_blk(2) [OF c, of x ?o] x by blast
  have L: "insert (x, ?o) ?L = L" using x by blast
  have c': "core mp (insert (x, ?o) ?L) ?L" using c unfolding L core_def by blast
  have nt: "\<not> tag mp x" using core_alloc [OF c x] .
  have n: "(x, ?o) \<notin> ?L" by simp
  from coalesce_spec [OF c' n refl] obtain x' k' mp1 where
    m: "coalesce (pool_order mp - ?o) mp (addr mp x) ?o = Inr (addr mp x', k', mp1)"
      "core mp1 (insert (x', k') ?L) ?L" "(x', k') \<notin> ?L"
      "k' < pool_order mp \<longrightarrow> (nbuddy x' k', k') \<notin> free_blks mp1" "same_pool mp mp1" by blast
  define mp2 where "mp2 = mp1\<lparr>blk_order := (blk_order mp1)(addr mp1 x' := k'),
    tag_bits := (tag_bits mp1)[x' div 2 ^ min_order mp1 := True], avail := (avail mp1)[k' := addr mp1 x' # avail mp1 ! k']\<rparr>"
  have "k' < pool_order mp1 \<Longrightarrow> (nbuddy x' k', k') \<notin> free_blks mp1" using m(4,5) by (simp add: same_pool_def)
  from core_release(1) [OF m(2,3) this, folded mp2_def] have inv: "buddy_inv mp2 ?L" .
  have g1: "geom (mp1\<lparr>blk_order := (blk_order mp1)(addr mp1 x' := k')\<rparr>)" using core_geom [OF m(2)] by simp
  have x'P: "x' < 2 ^ pool_order mp1" using core_blk(2) [OF m(2), of x' k'] by blast
  have "is_available mp (addr mp x) = Inr False" using is_available_addr [OF g xP] nt by simp
  then have "buddy_free mp (addr mp x) order = Inr mp2"
    using o m(1) mark_addr(1) [OF g1] x'P same_pool_addr [OF m(5)]
    by (simp add: buddy_free_def served_def Let_def mp2_def)
  moreover have "same_pool mp mp2" using m(5) by (simp add: same_pool_def mp2_def)
  ultimately show ?thesis using inv by blast
qed

section \<open>The buddy allocator as an allocator\<close>

text \<open>The calls of the buddy allocator as the steps of an allocator; blocks are given by offset and order.\<close>

definition buddy_acquire :: "buddy_mempool \<Rightarrow> blk \<Rightarrow> buddy_mempool \<Rightarrow> bool" where
  "buddy_acquire mp b mp' \<longleftrightarrow>
     (\<exists>order. buddy_alloc mp order = Inr (addr mp (fst b), mp') \<and> addr mp (fst b) \<noteq> NULL
        \<and> snd b = served mp order \<and> fst b < 2 ^ 64)"

definition buddy_release :: "buddy_mempool \<Rightarrow> blk \<Rightarrow> buddy_mempool \<Rightarrow> bool" where
  "buddy_release mp b mp' \<longleftrightarrow>
     (\<exists>order. buddy_free mp (addr mp (fst b)) order = Inr mp' \<and> snd b = served mp order)"

lemma acquire_inv:
  assumes c: "buddy_inv mp L" and a: "buddy_acquire mp b mp'"
  shows "b \<notin> L \<and> buddy_inv mp' (insert b L)"
proof -
  from a obtain order where al: "buddy_alloc mp order = Inr (addr mp (fst b), mp')" "addr mp (fst b) \<noteq> NULL"
    "snd b = served mp order" "fst b < 2 ^ 64" by (auto simp: buddy_acquire_def)
  then have o: "order \<le> pool_order mp" by (simp add: buddy_alloc_def split: if_splits)
  have "\<exists>j. served mp order \<le> j \<and> j \<le> pool_order mp \<and> avail mp ! j \<noteq> []"
    using alloc_fails [OF o] al by fastforce
  from alloc_spec [OF c o this] obtain x where
    x: "addr mp (fst b) = addr mp x" "buddy_inv mp' (insert (x, served mp order) L)" "(x, served mp order) \<notin> L"
    using al(1) by auto
  have "x < 2 ^ 64" using core_blk(4) [OF x(2), of x "served mp order"] by blast
  then have "fst b = x" using addr_inj [OF x(1)] al(4) by blast
  then have "b = (x, served mp order)" using al(3) by (cases b) simp
  then show ?thesis using x by simp
qed

lemma release_inv:
  assumes c: "buddy_inv mp L" and b: "b \<in> L" and r: "buddy_release mp b mp'"
  shows "buddy_inv mp' (L - {b})"
proof -
  from r obtain order where fr: "buddy_free mp (addr mp (fst b)) order = Inr mp'" "snd b = served mp order"
    by (auto simp: buddy_release_def)
  then have o: "order \<le> pool_order mp" by (simp add: buddy_free_def split: if_splits)
  have b': "(fst b, served mp order) \<in> L" using b fr(2) by (metis prod.collapse)
  from buddy_free_spec [OF c o b'] fr show ?thesis by (metis Inr_inject prod.collapse)
qed

interpretation bud: block_allocator rng buddy_inv buddy_acquire buddy_release
proof
  show "rng b \<inter> rng c = {}" if "buddy_inv mp L" "b \<in> L" "c \<in> L" "b \<noteq> c" for mp L b c
    using partition_unique [OF core_part [OF that(1)], of b c] that(2-4) by blast
qed (use acquire_inv release_inv in blast)+

section \<open>Properties\<close>

text \<open>A pool of 256 bytes at \<open>0x10000\<close> with blocks of at least 32 bytes, for the witnesses.\<close>

definition empty_pool :: buddy_mempool where
  "empty_pool = (case buddy_init 0x10000 8 5 True of Inr (Some mp) \<Rightarrow> mp
     | _ \<Rightarrow> \<lparr>base_addr = 0, pool_order = 0, min_order = 0, num_blocks = 0, tag_bits = [], avail = [], blk_order = (\<lambda>_. 0)\<rparr>)"

lemma fresh_pool_inv:
  assumes "buddy_init base pool min0 True = Inr (Some mp)" and "pool < 64" and "base \<noteq> NULL"
    and "unat base + 2 ^ pool \<le> 2 ^ 64"
  shows "buddy_inv mp {(0, pool)}" and "pool_order mp = pool" and "base_addr mp = base"
proof -
  define min1 where "min1 = (if 2 ^ min0 < sizeof_block then 5 else min0)"
  from assms(1) have le: "min1 \<le> pool" and mp: "mp = \<lparr>base_addr = base, pool_order = pool, min_order = min1,
      num_blocks = push_bit pool 1 div push_bit min1 1,
      tag_bits = replicate (unat (push_bit pool 1 div push_bit min1 1 :: u64)) False,
      avail = replicate (Suc pool) [], blk_order = (\<lambda>_. 0)\<rparr>"
    by (auto simp: buddy_init_def Let_def min1_def split: if_splits)
  have u: "unat (push_bit pool 1 div push_bit min1 1 :: u64) = 2 ^ (pool - min1)"
    using assms(2) le by (simp add: unat_div unat_pow2_u64 power_diff)
  then have nb: "(push_bit pool 1 div push_bit min1 1 :: u64) = 2 ^ (pool - min1)"
    using assms(2) unat_pow2_u64 [of "pool - min1"] by (simp add: word_unat_eq_iff)
  have g: "geom mp" using assms(2-4) le nb u by (simp add: mp geom_def)
  have av: "avail mp ! k = []" if "k \<le> pool" for k
    using that by (simp add: mp del: replicate.simps)
  then have F: "free_blks mp = {}" by (auto simp: free_blks_def mp)
  have tg: "\<not> tag mp 0" using u by (simp add: tag_def mp)
  have "partition_of pool {(0, pool)}" by (auto simp: partition_of_def blk_ok_def rng_def)
  then show "buddy_inv mp {(0, pool)}"
    using g tg le av by (simp add: core_def F) (simp add: mp)
  show "pool_order mp = pool" "base_addr mp = base" by (simp_all add: mp)
qed

definition full_pool :: buddy_mempool where
  "full_pool = (case buddy_free empty_pool 0x10000 8 of Inr mp \<Rightarrow> mp | Inl _ \<Rightarrow> empty_pool)"

lemma empty_pool_inv: "buddy_inv empty_pool {(0, 8)}" "pool_order empty_pool = 8" "addr empty_pool 0 = 0x10000"
  "min_order empty_pool = 5"
proof -
  have "buddy_init 0x10000 8 5 True = Inr (Some empty_pool)"
    by (simp add: empty_pool_def buddy_init_def sizeof_block_def)
  from fresh_pool_inv [OF this] show "buddy_inv empty_pool {(0, 8)}" "pool_order empty_pool = 8"
    "addr empty_pool 0 = 0x10000" by (simp_all add: addr_def)
  show "min_order empty_pool = 5" by code_simp
qed

lemma full_pool_free: "buddy_free empty_pool 0x10000 8 = Inr full_pool" "buddy_inv full_pool {}"
  "same_pool empty_pool full_pool"
proof -
  have "served empty_pool 8 = 8" by (simp add: served_def empty_pool_inv)
  then obtain mp' where "buddy_free empty_pool 0x10000 8 = Inr mp'" "buddy_inv mp' {}" "same_pool empty_pool mp'"
    using buddy_free_spec [OF empty_pool_inv(1), of 8 0] empty_pool_inv(2,3) by auto
  then show "buddy_free empty_pool 0x10000 8 = Inr full_pool" "buddy_inv full_pool {}" "same_pool empty_pool full_pool"
    by (simp_all add: full_pool_def)
qed

text \<open>
  C19: a call of \<open>buddy_alloc\<close> either returns a block of the requested order, aligned to its size,
  inside the pool and disjoint from every block already handed out, and keeps the invariant; or
  there is no free block of that order or a larger one, and it returns \<open>NULL\<close> and changes
  nothing.
\<close>

theorem buddy_alloc_correct:
  assumes "buddy_inv mp L" and "order \<le> pool_order mp"
  shows "(\<exists>x mp'. buddy_alloc mp order = Inr (addr mp x, mp') \<and> addr mp x \<noteq> NULL
            \<and> 2 ^ served mp order dvd x \<and> x + 2 ^ served mp order \<le> 2 ^ pool_order mp
            \<and> (\<forall>b \<in> L. rng b \<inter> rng (x, served mp order) = {})
            \<and> buddy_inv mp' (insert (x, served mp order) L))
         \<or> (buddy_alloc mp order = Inr (NULL, mp)
            \<and> (\<forall>j. served mp order \<le> j \<and> j \<le> pool_order mp \<longrightarrow> avail mp ! j = []))"
proof (cases "\<exists>j. served mp order \<le> j \<and> j \<le> pool_order mp \<and> avail mp ! j \<noteq> []")
  case True
  from alloc_spec [OF assms True] obtain x mp' where
    a: "buddy_alloc mp order = Inr (addr mp x, mp')" "buddy_inv mp' (insert (x, served mp order) L)"
      "(x, served mp order) \<notin> L" "same_pool mp mp'" "addr mp x \<noteq> NULL" by blast
  have "blk_ok (pool_order mp') (x, served mp order)" using core_blk(1) [OF a(2), of x "served mp order"] by blast
  then have "2 ^ served mp order dvd x" "x + 2 ^ served mp order \<le> 2 ^ pool_order mp"
    using a(4) by (simp_all add: blk_ok_def same_pool_def)
  moreover have "\<forall>b \<in> L. rng b \<inter> rng (x, served mp order) = {}"
    using bud.live_disjoint [OF a(2)] a(3) by blast
  ultimately show ?thesis using a(1,2,5) by blast
next
  case False
  then show ?thesis using alloc_fails [OF assms(2)] by auto
qed

theorem buddy_alloc_correct_witness:
  "\<exists>x mp'. buddy_alloc full_pool 5 = Inr (addr full_pool x, mp') \<and> 32 dvd x \<and> buddy_inv mp' {(x, 5)}"
proof -
  have s: "served full_pool 5 = 5" and p: "5 \<le> pool_order full_pool" and n: "avail full_pool ! 8 \<noteq> []"
    by code_simp+
  have "pool_order full_pool = 8" by code_simp
  then have "\<not> (\<forall>j. 5 \<le> j \<and> j \<le> pool_order full_pool \<longrightarrow> avail full_pool ! j = [])"
    using n by (auto intro!: exI [of _ 8])
  then show ?thesis using buddy_alloc_correct [OF full_pool_free(2) p] unfolding s by auto
qed

text \<open>
  C20: \<open>buddy_free\<close> of a block that is allocated never faults (in particular it neither runs into
  its double-free check nor unlinks a block that is in no list), and the block is no longer
  allocated, while all others stay as they are.
\<close>

theorem buddy_free_correct:
  assumes "buddy_inv mp L" and "order \<le> pool_order mp" and "(x, served mp order) \<in> L"
  shows "\<exists>mp'. buddy_free mp (addr mp x) order = Inr mp' \<and> buddy_inv mp' (L - {(x, served mp order)})"
  using buddy_free_spec [OF assms] by blast

theorem buddy_free_correct_witness:
  "\<exists>mp'. buddy_free empty_pool 0x10000 8 = Inr mp' \<and> buddy_inv mp' {}"
proof -
  have s: "served empty_pool 8 = 8" by (simp add: served_def empty_pool_inv)
  show ?thesis
    using buddy_free_correct [OF empty_pool_inv(1), of 8 0] empty_pool_inv(2,3) unfolding s by simp
qed

text \<open>
  After any sequence of allocations and frees, starting from a freshly initialised pool whose
  memory is donated by one call of \<open>buddy_free\<close>, the blocks in use are pairwise disjoint and
  the invariant holds.
\<close>

theorem buddy_history_disjoint:
  assumes "buddy_init base pool min0 True = Inr (Some mp)" and "pool < 64" and "base \<noteq> NULL"
    and "unat base + 2 ^ pool \<le> 2 ^ 64"
    and "alloc_run buddy_acquire buddy_release (mp, {(0, pool)}) (mp', L)"
  shows "buddy_inv mp' L \<and> (\<forall>b \<in> L. \<forall>c \<in> L. b \<noteq> c \<longrightarrow> rng b \<inter> rng c = {})"
  using bud.run_live [OF assms(5)] bud.run_disjoint [OF assms(5)] fresh_pool_inv(1) [OF assms(1-4)] by blast

theorem buddy_history_disjoint_witness:
  "\<exists>mp' b c. alloc_run buddy_acquire buddy_release (empty_pool, {(0, 8)}) (mp', {b, c}) \<and> b \<noteq> c
     \<and> rng b \<inter> rng c = {}"
proof -
  let ?run = "alloc_run buddy_acquire buddy_release (empty_pool, {(0, 8)})"
  have i: "buddy_init 0x10000 8 5 True = Inr (Some empty_pool)"
    by (simp add: empty_pool_def buddy_init_def sizeof_block_def)
  have "served empty_pool 8 = 8" by (simp add: served_def empty_pool_inv)
  then have r: "buddy_release empty_pool (0, 8) full_pool"
    using full_pool_free(1) empty_pool_inv(3) by (auto simp: buddy_release_def intro!: exI [of _ 8])
  have s0: "?run (empty_pool, {(0, 8)})" by (rule alloc_run.start)
  have s1: "?run (full_pool, {(0, 8)} - {(0, 8)})" by (rule alloc_run.released [of _ _ _ empty_pool, OF s0 _ r]) simp
  define mp1 where "mp1 = (case buddy_alloc full_pool 5 of Inr (_, mp) \<Rightarrow> mp | Inl _ \<Rightarrow> full_pool)"
  define mp2 where "mp2 = (case buddy_alloc mp1 5 of Inr (_, mp) \<Rightarrow> mp | Inl _ \<Rightarrow> mp1)"
  have "map_sum id fst (buddy_alloc full_pool 5) = Inr 0x10000" "addr full_pool 0 = 0x10000" "served full_pool 5 = 5"
    by code_simp+
  then have a1: "buddy_acquire full_pool (0, 5) mp1"
    by (auto simp: buddy_acquire_def mp1_def intro!: exI [of _ 5] split: sum.splits)
  have "map_sum id fst (buddy_alloc mp1 5) = Inr 0x10020" "addr mp1 32 = 0x10020" "served mp1 5 = 5"
    unfolding mp1_def by code_simp+
  then have a2: "buddy_acquire mp1 (32, 5) mp2"
    by (auto simp: buddy_acquire_def mp2_def intro!: exI [of _ 5] split: sum.splits)
  have s2: "?run (mp1, insert (0, 5) ({(0, 8)} - {(0, 8)}))" by (rule alloc_run.acquired [of _ _ _ full_pool, OF s1 a1])
  have s3: "?run (mp2, insert (32, 5) (insert (0, 5) ({(0, 8)} - {(0, 8)})))"
    by (rule alloc_run.acquired [of _ _ _ mp1, OF s2 a2])
  then have s4: "?run (mp2, {(32, 5), (0, 5)})" by simp
  have "rng (32, 5) \<inter> rng (0, 5) = {}" using buddy_history_disjoint [OF i _ _ _ s4] by simp
  then show ?thesis using s4 by (intro exI [of _ mp2] exI [of _ "(32, 5)"] exI [of _ "(0, 5)"]) simp
qed



end
