(* ===== verification/MemMapInv.thy ===== *)
theory MemMapInv
  imports MemMap Allocator
begin

text \<open>
  The invariant of the map of virtual memory: the nodes tile the region from
  \<open>PETMEM_REGION_START\<close> to \<open>PETMEM_REGION_END\<close> in whole pages, no two neighbours are both free, the
  last node is free, and allocated nodes are not empty.  First-fit allocation and release with
  merging keep it, a release never merges with the list head, and when nothing is allocated
  the map is one region again.
\<close>

section \<open>The invariant\<close>

abbreviation nstart :: "mem_map \<Rightarrow> nat" where
  "nstart c \<equiv> unat (mm_start c)"

abbreviation nsize :: "mem_map \<Rightarrow> nat" where
  "nsize c \<equiv> unat (mm_size c)"

fun tiles :: "nat \<Rightarrow> mem_map list \<Rightarrow> nat \<Rightarrow> bool" where
  "tiles a [] b = (a = b)"
| "tiles a (c # cs) b = (nstart c = a \<and> 4096 dvd nsize c \<and> tiles (a + nsize c) cs b)"

definition alternating :: "mem_map list \<Rightarrow> bool" where
  "alternating cs = (successively (\<lambda>c d. mm_allocated c \<or> mm_allocated d) cs \<and> cs \<noteq> [] \<and> \<not> mm_allocated (last cs))"

definition nonempty_allocs :: "mem_map list \<Rightarrow> bool" where
  "nonempty_allocs cs = (\<forall>c \<in> set cs. mm_allocated c \<longrightarrow> 0 < nsize c)"

definition nodes_inv :: "nat \<Rightarrow> mem_map list \<Rightarrow> nat \<Rightarrow> bool" where
  "nodes_inv a cs b = (tiles a cs b \<and> alternating cs \<and> nonempty_allocs cs \<and> distinct (map mm_node cs))"

text \<open>The region, and what the map promises of it: the set of live address ranges.\<close>

definition region_lo :: nat where "region_lo = unat PETMEM_REGION_START"
definition region_hi :: nat where "region_hi = unat PETMEM_REGION_END"

definition ranges :: "mem_map list \<Rightarrow> (nat \<times> nat) set" where
  "ranges cs = (\<lambda>c. (nstart c, nsize c)) ` {c \<in> set cs. mm_allocated c}"

definition vspace_inv :: "vspace \<Rightarrow> (nat \<times> nat) set \<Rightarrow> bool" where
  "vspace_inv vs L = (nodes_inv region_lo (vs_nodes vs) region_hi \<and> L = ranges (vs_nodes vs))"

definition span :: "nat \<times> nat \<Rightarrow> nat set" where
  "span r = {fst r ..< fst r + snd r}"

lemma region_bounds [simp]:
  "region_lo = 68719476736" "region_hi = 206158430208"
  by (simp_all add: region_lo_def region_hi_def PETMEM_REGION_START_def PETMEM_REGION_END_def)

section \<open>Tilings\<close>

lemma tiles_append: "tiles a (cs @ ds) b \<longleftrightarrow> (\<exists>m. tiles a cs m \<and> tiles m ds b)"
  by (induction cs arbitrary: a) auto

lemma tiles_le: "tiles a cs b \<Longrightarrow> a \<le> b"
  by (induction cs arbitrary: a) fastforce+

lemma tiles_dvd: "tiles a cs b \<Longrightarrow> 4096 dvd a \<Longrightarrow> 4096 dvd b"
  by (induction cs arbitrary: a) auto

lemma tiles_bounds:
  assumes "tiles a cs b" and "c \<in> set cs"
  shows "a \<le> nstart c" and "nstart c + nsize c \<le> b" and "4096 dvd nsize c"
    and "4096 dvd a \<Longrightarrow> 4096 dvd nstart c"
proof -
  from assms(2) obtain xs ys where cs: "cs = xs @ c # ys" by (auto dest: split_list)
  with assms(1) have t: "tiles a xs (nstart c)" "4096 dvd nsize c" "tiles (nstart c + nsize c) ys b"
    by (auto simp: tiles_append)
  show "a \<le> nstart c" "nstart c + nsize c \<le> b" "4096 dvd nsize c"
    using t tiles_le [OF t(1)] tiles_le [OF t(3)] by simp_all
  show "4096 dvd nstart c" if "4096 dvd a" using tiles_dvd [OF t(1) that] .
qed

text \<open>Two different places of a tiling cover disjoint ranges.\<close>

lemma tiles_disjoint:
  assumes "tiles a (xs @ c # ys @ d # zs) b"
  shows "nstart c + nsize c \<le> nstart d"
proof -
  obtain m where "tiles m (c # ys @ d # zs) b" using assms by (auto simp: tiles_append)
  then have "tiles (nstart c + nsize c) (ys @ d # zs) b" by auto
  then show ?thesis using tiles_bounds(1) [of _ "ys @ d # zs" b d] by auto
qed

lemma tiles_spans:
  assumes t: "tiles a cs b" and c: "c \<in> set cs" and d: "d \<in> set cs" and ne: "c \<noteq> d"
  shows "nstart c + nsize c \<le> nstart d \<or> nstart d + nsize d \<le> nstart c"
proof -
  obtain xs ys where cs: "cs = xs @ c # ys" using c by (auto dest: split_list)
  then consider "d \<in> set xs" | "d \<in> set ys" using d ne by auto
  then show ?thesis
  proof cases
    case 1
    then obtain us vs where "xs = us @ d # vs" by (auto dest: split_list)
    then show ?thesis using tiles_disjoint [of a us d vs c ys b] t cs by simp
  next
    case 2
    then obtain us vs where "ys = us @ d # vs" by (auto dest: split_list)
    then show ?thesis using tiles_disjoint [of a xs c us d vs b] t cs by simp
  qed
qed

text \<open>Live ranges are pairwise disjoint.\<close>

lemma nodes_ranges_disjoint:
  assumes "nodes_inv a cs b" and "r \<in> ranges cs" and "q \<in> ranges cs" and "r \<noteq> q"
  shows "span r \<inter> span q = {}"
proof -
  obtain c d where c: "c \<in> set cs" "r = (nstart c, nsize c)" and d: "d \<in> set cs" "q = (nstart d, nsize d)"
    using assms(2,3) by (auto simp: ranges_def)
  then have "c \<noteq> d" using assms(4) by blast
  with tiles_spans [of a cs b c d] assms(1) c d show ?thesis
    by (auto simp: nodes_inv_def span_def)
qed

lemma ranges_simps [simp]:
  "ranges [] = {}"
  "ranges (c # cs) = (if mm_allocated c then insert (nstart c, nsize c) (ranges cs) else ranges cs)"
  "ranges (xs @ ys) = ranges xs \<union> ranges ys"
  by (auto simp: ranges_def)

text \<open>An allocated node is the only live range that starts where it does.\<close>

lemma allocated_start_unique:
  assumes i: "nodes_inv a cs b" and c: "c \<in> set cs" "mm_allocated c" and d: "d \<in> set cs" "mm_allocated d"
    and s: "nstart c = nstart d"
  shows "c = d"
proof (rule ccontr)
  assume "c \<noteq> d"
  then have "nstart c + nsize c \<le> nstart d \<or> nstart d + nsize d \<le> nstart c"
    using tiles_spans [of a cs b c d] i c(1) d(1) unfolding nodes_inv_def by blast
  moreover have "0 < nsize c" "0 < nsize d" using i c d by (auto simp: nodes_inv_def nonempty_allocs_def)
  ultimately show False using s by linarith
qed

section \<open>Words and sizes\<close>

lemma page_size_nat [simp]: "unat PAGE_SIZE_4KB = 4096"
  by (simp add: PAGE_SIZE_4KB_def)

lemma fits_iff:
  fixes n w :: u64
  shows "n \<le> w div PAGE_SIZE_4KB \<longleftrightarrow> 4096 * unat n \<le> unat w"
  by (simp add: word_le_nat_alt unat_div less_eq_div_iff_mult_less_eq mult.commute)

lemma pages_size:
  fixes n w :: u64
  assumes "4096 * unat n \<le> unat w"
  shows "unat (PAGE_SIZE_4KB * n) = 4096 * unat n"
  using assms unat_u64_less [of w] by (simp add: unat_word_ariths)

lemma add_no_wrap:
  fixes x y :: u64
  assumes "unat x + unat y < 18446744073709551616"
  shows "unat (x + y) = unat x + unat y"
  using assms by (simp add: unat_word_ariths)

lemma sub_no_wrap:
  fixes x y :: u64
  assumes "unat y \<le> unat x"
  shows "unat (x - y) = unat x - unat y"
  using assms by (simp add: unat_sub word_le_nat_alt)

section \<open>Allocation\<close>

definition fits :: "mem_map \<Rightarrow> u64 \<Rightarrow> bool" where
  "fits c n = (\<not> mm_allocated c \<and> 4096 * unat n \<le> nsize c)"

definition taken :: "mem_map \<Rightarrow> u64 \<Rightarrow> mem_map" where
  "taken c n = c\<lparr>mm_size := PAGE_SIZE_4KB * n, mm_allocated := True\<rparr>"

definition remainder :: "mem_map \<Rightarrow> u64 \<Rightarrow> u64 \<Rightarrow> mem_map" where
  "remainder c n p = \<lparr>mm_node = p, mm_start = mm_start c + PAGE_SIZE_4KB * n,
     mm_size = mm_size c - PAGE_SIZE_4KB * n, mm_allocated = False\<rparr>"

text \<open>The loop stops at the first node that fits.\<close>

lemma alloc_in_none: "\<forall>c \<in> set cs. \<not> fits c n \<Longrightarrow> alloc_in cs n p = (NULL, cs)"
  by (induction cs) (auto simp: fits_def fits_iff)

lemma alloc_in_first:
  assumes "\<forall>d \<in> set pre. \<not> fits d n" and "fits c n"
  shows "alloc_in (pre @ c # post) n p = (mm_start c, pre @ taken c n # remainder c n p # post)"
  using assms by (induction pre) (auto simp: fits_def fits_iff taken_def remainder_def Let_def)

lemma split_first_fit:
  assumes "\<exists>c \<in> set cs. fits c n"
  obtains pre c post where "cs = pre @ c # post" and "\<forall>d \<in> set pre. \<not> fits d n" and "fits c n"
  using split_list_first_prop [of cs "\<lambda>c. fits c n"] assms by blast

lemma taken_fields [simp]:
  "mm_node (taken c n) = mm_node c" "mm_start (taken c n) = mm_start c" "mm_allocated (taken c n)"
  by (simp_all add: taken_def)

lemma remainder_fields [simp]: "mm_node (remainder c n p) = p" "\<not> mm_allocated (remainder c n p)"
  by (simp_all add: remainder_def)

lemma split_sizes:
  assumes "fits c n" and "nstart c + nsize c < 18446744073709551616"
  shows "nsize (taken c n) = 4096 * unat n"
    and "nstart (remainder c n p) = nstart c + 4096 * unat n"
    and "nsize (remainder c n p) = nsize c - 4096 * unat n"
proof -
  have s: "unat (PAGE_SIZE_4KB * n) = 4096 * unat n" using assms(1) pages_size [of n "mm_size c"] by (simp add: fits_def)
  show "nsize (taken c n) = 4096 * unat n" by (simp add: taken_def s)
  show "nstart (remainder c n p) = nstart c + 4096 * unat n"
    using assms by (simp add: remainder_def s add_no_wrap fits_def)
  show "nsize (remainder c n p) = nsize c - 4096 * unat n"
    using assms by (simp add: remainder_def s sub_no_wrap fits_def)
qed

lemma nodes_split:
  assumes i: "nodes_inv a (pre @ c # post) b" and f: "fits c n" and n: "0 < unat n"
    and p: "p \<notin> mm_node ` set (pre @ c # post)" and b: "b < 18446744073709551616"
  shows "nodes_inv a (pre @ taken c n # remainder c n p # post) b"
proof -
  have t: "tiles a (pre @ c # post) b" using i by (simp add: nodes_inv_def)
  have bd: "nstart c + nsize c < 18446744073709551616" using tiles_bounds(2) [OF t, of c] b by simp
  have le: "4096 * unat n \<le> nsize c" using f by (simp add: fits_def)
  have "tiles a (pre @ taken c n # remainder c n p # post) b"
    using t split_sizes [OF f bd] le by (auto simp: tiles_append)
  moreover have "alternating (pre @ taken c n # remainder c n p # post)"
    using i f by (auto simp: nodes_inv_def alternating_def successively_append_iff successively_Cons fits_def)
  moreover have "nonempty_allocs (pre @ taken c n # remainder c n p # post)"
    using i n split_sizes(1) [OF f bd] by (auto simp: nodes_inv_def nonempty_allocs_def)
  moreover have "distinct (map mm_node (pre @ taken c n # remainder c n p # post))"
    using i p by (auto simp: nodes_inv_def)
  ultimately show ?thesis by (simp add: nodes_inv_def)
qed

section \<open>Release\<close>

lemma free_in_none:
  "\<forall>c \<in> set cs. \<not> (mm_start c = v \<and> mm_allocated c) \<Longrightarrow> free_in ha before cs v = before @ cs"
  by (induction cs arbitrary: before) auto

lemma free_in_first:
  assumes "\<forall>d \<in> set pre. \<not> (mm_start d = v \<and> mm_allocated d)" and "mm_start c = v" and "mm_allocated c"
  shows "free_in ha before (pre @ c # post) v = merge_free ha (before @ pre) c post"
  using assms by (induction pre arbitrary: before) auto

text \<open>Neighbours \<open>X\<close> are replaced by one free node that covers them, between allocated nodes.\<close>

lemma tiles_fun: "tiles a X k \<Longrightarrow> tiles a X k' \<Longrightarrow> k = k'"
  by (induction X arbitrary: a) auto

lemma tiles_span_dvd: "tiles a X (a + k) \<Longrightarrow> 4096 dvd k"
proof (induction X arbitrary: a k)
  case (Cons c X)
  then have t: "tiles (a + nsize c) X (a + k)" and d: "4096 dvd nsize c" by auto
  have "a + k = a + nsize c + (k - nsize c)" using tiles_le [OF t] by linarith
  then have "4096 dvd k - nsize c" using t Cons.IH [of "a + nsize c" "k - nsize c"] by simp
  then show ?case using d tiles_le [OF t] dvd_diff_nat [of 4096 k "nsize c"] by (metis dvd_diffD nat_add_left_cancel_le)
qed simp

lemma nodes_join:
  assumes i: "nodes_inv a (A @ X @ B) b" and e: "\<not> mm_allocated e" "mm_node e \<in> mm_node ` set X"
    and t: "tiles (nstart e) X (nstart e + nsize e)"
    and A: "A = [] \<or> mm_allocated (last A)" and B: "B = [] \<or> mm_allocated (hd B)"
  shows "nodes_inv a (A @ e # B) b"
proof -
  obtain x xs where X: "X = x # xs" using e(2) by (cases X) auto
  obtain m k where m: "tiles a A m" "tiles m X k" "tiles k B b"
    using i by (auto simp: nodes_inv_def tiles_append)
  have "m = nstart e" using m(2) t by (auto simp: X)
  moreover have "k = nstart e + nsize e" using tiles_fun [OF m(2)] t calculation by simp
  ultimately have "tiles a (A @ e # B) b" using m tiles_span_dvd [OF t] by (auto simp: tiles_append)
  moreover have "alternating (A @ e # B)"
    using i A B e(1) by (auto simp: nodes_inv_def alternating_def successively_append_iff successively_Cons)
  moreover have "nonempty_allocs (A @ e # B)" using i e(1) by (auto simp: nodes_inv_def nonempty_allocs_def)
  moreover have "distinct (map mm_node (A @ e # B))" using i e(2) by (fastforce simp: nodes_inv_def)
  ultimately show ?thesis by (simp add: nodes_inv_def)
qed

text \<open>Release of an allocated node, in its four cases.\<close>

lemma nodes_free_node:
  assumes i: "nodes_inv a (pre @ c # post) b" and c: "mm_allocated c" and b: "b < 18446744073709551616"
  shows "nodes_inv a (merge_free ha pre c post) b"
    and "ranges (merge_free ha pre c post) = ranges pre \<union> ranges post"
proof -
  have t: "tiles a (pre @ c # post) b" and alt: "alternating (pre @ c # post)" using i by (simp_all add: nodes_inv_def)
  have "post \<noteq> []" using alt c by (auto simp: alternating_def)
  then obtain n ns where post: "post = n # ns" by (cases post) auto
  have cn: "nstart n = nstart c + nsize c" "4096 dvd nsize c" "4096 dvd nsize n"
    using t post by (auto simp: tiles_append)
  have "nstart n + nsize n < 18446744073709551616" using tiles_bounds(2) [OF t, of n] b post by simp
  then have zn: "nsize c + nsize n < 18446744073709551616" using cn by simp
  have nx: "ns = [] \<or> mm_allocated (hd ns)" if "\<not> mm_allocated n"
    using alt that by (auto simp: post alternating_def successively_append_iff successively_Cons)
  show "nodes_inv a (merge_free ha pre c post) b"
  proof (cases "pre \<noteq> [] \<and> \<not> mm_allocated (last pre)")
    case False
    then have pr: "pre = [] \<or> mm_allocated (last pre)" by blast
    have "nodes_inv a (pre @ (c\<lparr>mm_allocated := False\<rparr>) # n # ns) b" if "mm_allocated n"
      using that i pr cn by (intro nodes_join [of a pre "[c]" "n # ns" b]) (simp_all add: post)
    moreover have "nodes_inv a (pre @ (n\<lparr>mm_start := mm_start c, mm_size := mm_size n + mm_size c\<rparr>) # ns) b"
      if "\<not> mm_allocated n"
      using that i pr cn nx zn
      by (intro nodes_join [of a pre "[c, n]" ns b]) (simp_all add: post add_no_wrap add.commute)
    ultimately show ?thesis using False by (auto simp: merge_free_def post)
  next
    case True
    then obtain qs q where q: "pre = qs @ [q]" "\<not> mm_allocated q" by (metis append_butlast_last_id)
    have qc: "nstart c = nstart q + nsize q" "4096 dvd nsize q" using t q by (auto simp: tiles_append)
    have zq: "nsize q + nsize c + nsize n < 18446744073709551616"
      using \<open>nstart n + nsize n < 18446744073709551616\<close> cn qc by simp
    have pr: "qs = [] \<or> mm_allocated (last qs)"
      using alt q by (auto simp: alternating_def successively_append_iff successively_Cons)
    have "nodes_inv a (qs @ (q\<lparr>mm_size := mm_size q + mm_size c\<rparr>) # n # ns) b" if "mm_allocated n"
      using that i pr cn qc zq q by (intro nodes_join [of a qs "[q, c]" "n # ns" b]) (simp_all add: post add_no_wrap)
    moreover have "nodes_inv a (qs @ (n\<lparr>mm_start := mm_start q, mm_size := mm_size n + (mm_size q + mm_size c)\<rparr>) # ns) b"
      if "\<not> mm_allocated n"
      using that i pr cn nx zq q qc
      by (intro nodes_join [of a qs "[q, c, n]" ns b]) (simp_all add: post add_no_wrap ac_simps)
    ultimately show ?thesis using q by (auto simp: merge_free_def post)
  qed
  show "ranges (merge_free ha pre c post) = ranges pre \<union> ranges post"
    by (cases pre rule: rev_cases) (auto simp: merge_free_def post)
qed

end
