(* ===== verification/MemMapProps.thy ===== *)
theory MemMapProps
  imports MemMapInv
begin

text \<open>
  What the operations on the map of virtual memory promise: allocation is sound and complete,
  release frees exactly one range and merges completely, lookup decides whether an address is
  live, and the map meets the allocator contract.  Destruction of a process works only when
  nothing is allocated.
\<close>

section \<open>Allocation\<close>

text \<open>Every address of a tiling lies in a node.\<close>

lemma tiles_cover:
  assumes "tiles a cs b" and "a \<le> x" and "x < b"
  obtains pre c post where "cs = pre @ c # post" and "nstart c \<le> x" and "x < nstart c + nsize c"
  using assms
proof (induction cs arbitrary: a thesis)
  case Nil
  then show ?case by simp
next
  case (Cons c cs)
  show ?case
  proof (cases "x < nstart c + nsize c")
    case True
    then show ?thesis using Cons.prems(1) [of "[]" c cs] Cons.prems(2,3) by simp
  next
    case False
    have "tiles (a + nsize c) cs b" and "a + nsize c \<le> x" using Cons.prems(2) False by auto
    from Cons.IH [OF _ this Cons.prems(4)] obtain pre d post
      where "cs = pre @ d # post" "nstart d \<le> x" "x < nstart d + nsize d" by blast
    then show ?thesis using Cons.prems(1) [of "c # pre" d post] by simp
  qed
qed

text \<open>A range that meets no allocated node lies in one free node.\<close>

lemma gap_in_node:
  assumes i: "nodes_inv a cs b" and x: "a \<le> x" "x + 4096 * unat n \<le> b" and n: "0 < unat n"
    and g: "\<forall>r \<in> ranges cs. span r \<inter> {x ..< x + 4096 * unat n} = {}"
  shows "\<exists>c \<in> set cs. fits c n"
proof -
  have t: "tiles a cs b" using i by (simp add: nodes_inv_def)
  have "x < b" using x n by linarith
  from tiles_cover [OF t x(1) this] obtain pre c post
    where cs: "cs = pre @ c # post" and c: "nstart c \<le> x" "x < nstart c + nsize c" .
  have fr: "\<not> mm_allocated c"
  proof
    assume "mm_allocated c"
    then have "(nstart c, nsize c) \<in> ranges cs" by (simp add: cs)
    with g have "span (nstart c, nsize c) \<inter> {x ..< x + 4096 * unat n} = {}" by blast
    moreover have "x \<in> span (nstart c, nsize c)" using c by (simp add: span_def)
    ultimately show False using n by auto
  qed
  have "x + 4096 * unat n \<le> nstart c + nsize c"
  proof (cases post)
    case Nil
    then have "nstart c + nsize c = b" using t cs by (auto simp: tiles_append)
    then show ?thesis using x(2) by simp
  next
    case (Cons d ds)
    have al: "mm_allocated d" using i fr cs Cons by (auto simp: nodes_inv_def alternating_def successively_append_iff)
    then have z: "0 < nsize d" using i cs Cons by (auto simp: nodes_inv_def nonempty_allocs_def)
    have s: "nstart d = nstart c + nsize c" using t cs Cons by (auto simp: tiles_append)
    have "(nstart d, nsize d) \<in> ranges cs" using al by (simp add: cs Cons)
    with g have "span (nstart d, nsize d) \<inter> {x ..< x + 4096 * unat n} = {}" by blast
    then have "nstart d \<notin> {x ..< x + 4096 * unat n}" using z by (auto simp: span_def)
    then show ?thesis using s c by auto
  qed
  then have "fits c n" using fr c by (simp add: fits_def)
  then show ?thesis using cs by auto
qed

lemma vspace_alloc_spec:
  assumes i: "vspace_inv vs L" and n: "0 < unat n" and p: "p \<notin> mm_node ` set (vs_nodes vs)"
    and al: "petmem_alloc_vspace vs n p = (v, vs')" and v: "v \<noteq> NULL"
  defines "r \<equiv> (unat v, 4096 * unat n)"
  shows "r \<notin> L" and "vspace_inv vs' (insert r L)" and "4096 dvd unat v"
    and "region_lo \<le> unat v" and "unat v + 4096 * unat n \<le> region_hi"
proof -
  have ni: "nodes_inv region_lo (vs_nodes vs) region_hi" and L: "L = ranges (vs_nodes vs)"
    using i by (simp_all add: vspace_inv_def)
  have "\<exists>c \<in> set (vs_nodes vs). fits c n"
    using alloc_in_none [of "vs_nodes vs" n p] al v by (fastforce simp: petmem_alloc_vspace_def)
  then obtain pre c post where vs: "vs_nodes vs = pre @ c # post" and pre: "\<forall>d \<in> set pre. \<not> fits d n" and f: "fits c n"
    by (rule split_first_fit)
  have v': "v = mm_start c" and vs': "vs_nodes vs' = pre @ taken c n # remainder c n p # post"
    using al alloc_in_first [OF pre f, of post p] by (auto simp: petmem_alloc_vspace_def vs)
  have hi: "region_hi < 18446744073709551616" by simp
  have ni': "nodes_inv region_lo (vs_nodes vs') region_hi"
    using nodes_split [OF _ f n _ hi] ni p by (simp add: vs vs')
  have t: "tiles region_lo (vs_nodes vs) region_hi" using ni by (simp add: nodes_inv_def)
  have bd: "nstart c + nsize c < 18446744073709551616"
    using tiles_bounds(2) [OF t, of c] hi vs by simp
  have sz: "nsize (taken c n) = 4096 * unat n" by (rule split_sizes(1) [OF f bd])
  have "\<not> mm_allocated c" using f by (simp add: fits_def)
  then have "ranges (vs_nodes vs') = insert r L"
    by (auto simp: vs' L vs sz r_def v')
  then show "vspace_inv vs' (insert r L)" using ni' by (simp add: vspace_inv_def)
  have le: "4096 * unat n \<le> nsize c" using f by (simp add: fits_def)
  show "4096 dvd unat v" using tiles_bounds(4) [OF t, of c] by (simp add: vs v')
  show "region_lo \<le> unat v" using tiles_bounds(1) [OF t, of c] by (simp add: vs v')
  show "unat v + 4096 * unat n \<le> region_hi" using tiles_bounds(2) [OF t, of c] le by (simp add: vs v')
  show "r \<notin> L"
  proof
    assume "r \<in> L"
    then obtain d where d: "d \<in> set (vs_nodes vs)" "mm_allocated d" "nstart d = nstart c" "nsize d = 4096 * unat n"
      by (auto simp: L ranges_def r_def v')
    then have "c \<noteq> d" using \<open>\<not> mm_allocated c\<close> by blast
    then show False using tiles_spans [OF t _ d(1), of c] d n le vs by force
  qed
qed

lemma vspace_alloc_null:
  assumes i: "vspace_inv vs L" and n: "0 < unat n" and x: "region_lo \<le> x" "x + 4096 * unat n \<le> region_hi"
    and g: "\<forall>r \<in> L. span r \<inter> {x ..< x + 4096 * unat n} = {}"
  shows "fst (petmem_alloc_vspace vs n p) \<noteq> NULL"
proof -
  have ni: "nodes_inv region_lo (vs_nodes vs) region_hi" and L: "L = ranges (vs_nodes vs)"
    using i by (simp_all add: vspace_inv_def)
  from gap_in_node [OF ni x n] g obtain pre c post
    where vs: "vs_nodes vs = pre @ c # post" and pre: "\<forall>d \<in> set pre. \<not> fits d n" and f: "fits c n"
    using split_first_fit [of "vs_nodes vs" n] L by metis
  have "region_lo \<le> nstart c" using tiles_bounds(1) [of region_lo "vs_nodes vs" region_hi c] ni
    by (simp add: nodes_inv_def vs)
  then have "mm_start c \<noteq> NULL" by (auto simp: unat_eq_0 [symmetric])
  then show ?thesis using alloc_in_first [OF pre f, of post p] by (simp add: petmem_alloc_vspace_def vs)
qed

section \<open>Release and lookup\<close>

lemma vspace_free_spec:
  assumes i: "vspace_inv vs L" and r: "r \<in> L" and v: "fst r = unat v"
  shows "vspace_inv (petmem_free_vspace vs v) (L - {r})"
proof -
  have ni: "nodes_inv region_lo (vs_nodes vs) region_hi" and L: "L = ranges (vs_nodes vs)"
    using i by (simp_all add: vspace_inv_def)
  obtain c where c: "c \<in> set (vs_nodes vs)" "mm_allocated c" "r = (nstart c, nsize c)"
    using r by (auto simp: L ranges_def)
  then have mv: "mm_start c = v" using v by (simp add: word_unat_eq_iff)
  obtain pre post where vs: "vs_nodes vs = pre @ c # post" using c(1) by (auto dest: split_list)
  have u: "d = c" if "d \<in> set (vs_nodes vs)" "mm_allocated d" "nstart d = nstart c" for d
    using allocated_start_unique [OF ni that(1,2) c(1,2)] that(3) by simp
  have dist: "distinct (map mm_node (pre @ c # post))" using ni by (simp add: nodes_inv_def vs)
  have cs: "c \<notin> set pre" "c \<notin> set post" using dist by auto
  have pre: "\<forall>d \<in> set pre. \<not> (mm_start d = v \<and> mm_allocated d)"
  proof (intro ballI notI)
    fix d assume "d \<in> set pre" "mm_start d = v \<and> mm_allocated d"
    then show False using u [of d] mv cs(1) by (auto simp: vs)
  qed
  have hi: "region_hi < 18446744073709551616" by simp
  have fr: "vs_nodes (petmem_free_vspace vs v) = merge_free (vs_head_allocated vs) pre c post"
    using free_in_first [OF pre mv c(2), of _ "[]"] by (simp add: petmem_free_vspace_def vs)
  have "r \<notin> ranges pre \<union> ranges post"
  proof
    assume "r \<in> ranges pre \<union> ranges post"
    then have "\<exists>d \<in> set pre \<union> set post. mm_allocated d \<and> nstart d = nstart c"
      unfolding ranges_def c(3) by fastforce
    then show False using u cs vs by (metis Un_iff set_append list.set_intros(2))
  qed
  then have "L - {r} = ranges pre \<union> ranges post" using c by (auto simp: L vs)
  then show ?thesis
    using nodes_free_node [OF _ c(2) hi, of _ pre post "vs_head_allocated vs"] ni
    by (simp add: vspace_inv_def fr vs)
qed

lemma vspace_free_none:
  assumes i: "vspace_inv vs L" and v: "unat v \<notin> fst ` L"
  shows "petmem_free_vspace vs v = vs"
proof -
  have "\<forall>c \<in> set (vs_nodes vs). \<not> (mm_start c = v \<and> mm_allocated c)"
    using assms by (force simp: vspace_inv_def ranges_def)
  then show ?thesis by (simp add: petmem_free_vspace_def free_in_none)
qed

lemma find_address_live:
  assumes i: "vspace_inv vs L"
  shows "(case petmem_find_address vs x of
            None \<Rightarrow> \<forall>r \<in> L. unat x \<notin> span r
          | Some c \<Rightarrow> (nstart c, nsize c) \<in> L \<and> unat x \<in> span (nstart c, nsize c))"
proof -
  have t: "tiles region_lo (vs_nodes vs) region_hi" and L: "L = ranges (vs_nodes vs)"
    using i by (simp_all add: vspace_inv_def nodes_inv_def)
  have e: "mm_start c \<le> x \<and> x < mm_start c + mm_size c \<longleftrightarrow> unat x \<in> span (nstart c, nsize c)"
    if "c \<in> set (vs_nodes vs)" for c
    using tiles_bounds(2) [OF t that] by (simp add: span_def word_le_nat_alt word_less_nat_alt add_no_wrap)
  show ?thesis
  proof (cases "petmem_find_address vs x")
    case None
    then have "\<forall>c \<in> set (vs_nodes vs). \<not> (mm_allocated c \<and> unat x \<in> span (nstart c, nsize c))"
      using e by (auto simp: petmem_find_address_def find_None_iff)
    then show ?thesis using None by (auto simp: L ranges_def)
  next
    case (Some c)
    then have c: "c \<in> set (vs_nodes vs)" "mm_allocated c" "mm_start c \<le> x \<and> x < mm_start c + mm_size c"
      by (auto simp: petmem_find_address_def find_Some_iff)
    then have "unat x \<in> span (nstart c, nsize c)" using e [of c] by blast
    then show ?thesis using Some c by (auto simp: L ranges_def)
  qed
qed

lemma empty_vspace_whole:
  assumes "vspace_inv vs {}"
  shows "petmem_dump_vspace vs = [(False, PETMEM_REGION_START, PETMEM_REGION_END - PETMEM_REGION_START)]"
proof -
  have ni: "nodes_inv region_lo (vs_nodes vs) region_hi" and L: "\<forall>c \<in> set (vs_nodes vs). \<not> mm_allocated c"
    using assms by (auto simp: vspace_inv_def ranges_def)
  then obtain c where c: "vs_nodes vs = [c]"
    by (cases "vs_nodes vs" rule: remdups_adj.cases) (auto simp: nodes_inv_def alternating_def)
  then have "nstart c = region_lo" "nstart c + nsize c = region_hi" "\<not> mm_allocated c"
    using ni L by (auto simp: nodes_inv_def)
  then show ?thesis
    by (simp add: petmem_dump_vspace_def c word_unat_eq_iff PETMEM_REGION_START_def PETMEM_REGION_END_def)
qed

section \<open>Destruction\<close>

lemma alternating_tl: "alternating (c # d # cs) \<Longrightarrow> alternating (d # cs)"
  by (auto simp: alternating_def)

text \<open>
  The loop deletes each node after it released it; the release of an allocated node before a
  free one has deleted the node already.
\<close>

lemma deinit_nodes_ok:
  assumes "alternating cs" and "distinct (map mm_node cs)" and "vs_nodes vs = cs"
  shows "ok (deinit_nodes cs vs) \<longleftrightarrow> (\<forall>c \<in> set cs. \<not> mm_allocated c)"
  using assms
proof (induction cs arbitrary: vs)
  case Nil
  then show ?case by simp
next
  case (Cons c cs)
  have f: "filter (\<lambda>d. mm_node d \<noteq> mm_node c) cs = cs" using Cons.prems(2) by (intro filter_True ballI) (simp add: image_iff, metis)
  have IH: "ok (deinit_nodes cs (vs\<lparr>vs_nodes := cs\<rparr>)) \<longleftrightarrow> (\<forall>c \<in> set cs. \<not> mm_allocated c)" if "cs \<noteq> []"
    using that Cons.prems(1,2) alternating_tl [of c "hd cs" "tl cs"] by (intro Cons.IH) simp_all
  show ?case
  proof (cases "mm_allocated c")
    case False
    then show ?thesis using IH Cons.prems(3) by (cases "cs = []") (simp_all add: del_node_def f)
  next
    case True
    then obtain n ns where cs: "cs = n # ns" using Cons.prems(1) by (cases cs) (auto simp: alternating_def)
    show ?thesis
      using True IH Cons.prems(2,3) f
      by (cases "mm_allocated n") (auto simp: petmem_free_vspace_def merge_free_def del_node_def cs image_iff)
  qed
qed

section \<open>The map as an allocator\<close>

definition vspace_acquire :: "vspace \<Rightarrow> nat \<times> nat \<Rightarrow> vspace \<Rightarrow> bool" where
  "vspace_acquire vs r vs' \<longleftrightarrow>
     (\<exists>n p v. 0 < unat n \<and> p \<notin> mm_node ` set (vs_nodes vs) \<and> petmem_alloc_vspace vs n p = (v, vs') \<and> v \<noteq> NULL
        \<and> r = (unat v, 4096 * unat n))"

definition vspace_release :: "vspace \<Rightarrow> nat \<times> nat \<Rightarrow> vspace \<Rightarrow> bool" where
  "vspace_release vs r vs' \<longleftrightarrow> (\<exists>v. unat v = fst r \<and> vs' = petmem_free_vspace vs v)"

interpretation vmap: block_allocator span vspace_inv vspace_acquire vspace_release
proof
  show "span b \<inter> span c = {}" if "vspace_inv vs L" "b \<in> L" "c \<in> L" "b \<noteq> c" for vs L b c
    using nodes_ranges_disjoint that unfolding vspace_inv_def by blast
  show "b \<notin> L \<and> vspace_inv vs' (insert b L)" if "vspace_inv vs L" "vspace_acquire vs b vs'" for vs L b vs'
    using that vspace_alloc_spec(1,2) unfolding vspace_acquire_def by blast
  show "vspace_inv vs' (L - {b})" if "vspace_inv vs L" "b \<in> L" "vspace_release vs b vs'" for vs L b vs'
    using that vspace_free_spec unfolding vspace_release_def by metis
qed

lemma init_process_inv: "vspace_inv (petmem_init_process p garbage) {}"
  by (simp add: vspace_inv_def nodes_inv_def alternating_def nonempty_allocs_def petmem_init_process_def
      PETMEM_REGION_START_def PETMEM_REGION_END_def)

lemma vspace_inv_ranges:
  assumes "vspace_inv vs L" and "r \<in> L"
  shows "4096 dvd fst r" and "4096 dvd snd r" and "region_lo \<le> fst r" and "fst r + snd r \<le> region_hi"
proof -
  obtain c where c: "c \<in> set (vs_nodes vs)" "r = (nstart c, nsize c)"
    using assms by (auto simp: vspace_inv_def ranges_def)
  have t: "tiles region_lo (vs_nodes vs) region_hi" using assms(1) by (simp add: vspace_inv_def nodes_inv_def)
  show "4096 dvd fst r" "4096 dvd snd r" "region_lo \<le> fst r" "fst r + snd r \<le> region_hi"
    using tiles_bounds [OF t c(1)] by (simp_all add: c(2))
qed

lemma vspace_alloc_outcome:
  assumes "vspace_inv vs L" and "0 < unat n" and "p \<notin> mm_node ` set (vs_nodes vs)"
    and "petmem_alloc_vspace vs n p = (v, vs')"
  shows "if v = NULL
         then vs' = vs \<and> (\<forall>x. region_lo \<le> x \<and> x + 4096 * unat n \<le> region_hi \<longrightarrow>
                (\<exists>r \<in> L. span r \<inter> {x ..< x + 4096 * unat n} \<noteq> {}))
         else 4096 dvd unat v \<and> region_lo \<le> unat v \<and> unat v + 4096 * unat n \<le> region_hi
                \<and> (\<forall>r \<in> L. span r \<inter> span (unat v, 4096 * unat n) = {})
                \<and> vspace_inv vs' (insert (unat v, 4096 * unat n) L)"
proof (cases "v = NULL")
  case True
  have "\<exists>r \<in> L. span r \<inter> {x ..< x + 4096 * unat n} \<noteq> {}"
    if "region_lo \<le> x" "x + 4096 * unat n \<le> region_hi" for x
    using vspace_alloc_null [OF assms(1,2) that] assms(4) True by (metis fst_conv)
  moreover have "vs' = vs"
  proof -
    have "\<forall>c \<in> set (vs_nodes vs). \<not> fits c n"
    proof (rule ccontr)
      assume "\<not> ?thesis"
      then obtain pre c post where vs: "vs_nodes vs = pre @ c # post" "\<forall>d \<in> set pre. \<not> fits d n" "fits c n"
        using split_first_fit [of "vs_nodes vs" n] by blast
      then have "mm_start c = NULL"
        using alloc_in_first [OF vs(2,3), of post p] assms(4) True by (simp add: petmem_alloc_vspace_def)
      moreover have "region_lo \<le> nstart c"
        using tiles_bounds(1) [of region_lo "vs_nodes vs" region_hi c] assms(1) vs
        by (simp add: vspace_inv_def nodes_inv_def)
      ultimately show False by simp
    qed
    then show ?thesis using assms(4) by (simp add: petmem_alloc_vspace_def alloc_in_none)
  qed
  ultimately show ?thesis using True by auto
next
  case False
  note s = vspace_alloc_spec [OF assms False]
  have "span r \<inter> span (unat v, 4096 * unat n) = {}" if "r \<in> L" for r
    using vmap.live_disjoint [OF s(2)] that s(1) by blast
  then show ?thesis using False s by auto
qed

section \<open>Properties\<close>

text \<open>The map of a new process, and the map after an allocation of three pages and one of two.\<close>

definition vm0 :: vspace where
  "vm0 = petmem_init_process 1 False"

definition vm1 :: vspace where
  "vm1 = snd (petmem_alloc_vspace vm0 3 2)"

definition vm2 :: vspace where
  "vm2 = snd (petmem_alloc_vspace vm1 2 3)"

lemma vm1_acquire: "vspace_acquire vm0 (68719476736, 12288) vm1"
proof -
  have "petmem_alloc_vspace vm0 3 2 = (0x1000000000, vm1)" "2 \<notin> mm_node ` set (vs_nodes vm0)" by code_simp+
  then show ?thesis unfolding vspace_acquire_def by (intro exI [of _ 3] exI [of _ 2] exI [of _ "0x1000000000"]) simp
qed

lemma vm2_acquire: "vspace_acquire vm1 (68719489024, 8192) vm2"
proof -
  have "petmem_alloc_vspace vm1 2 3 = (0x1000003000, vm2)" "3 \<notin> mm_node ` set (vs_nodes vm1)" by code_simp+
  then show ?thesis unfolding vspace_acquire_def by (intro exI [of _ 2] exI [of _ 3] exI [of _ "0x1000003000"]) simp
qed

lemma vm_invs:
  "vspace_inv vm0 {}" "vspace_inv vm1 {(68719476736, 12288)}"
  "vspace_inv vm2 {(68719489024, 8192), (68719476736, 12288)}"
proof -
  show 0: "vspace_inv vm0 {}" unfolding vm0_def by (rule init_process_inv)
  show 1: "vspace_inv vm1 {(68719476736, 12288)}" using vmap.acquire_fresh [OF 0 vm1_acquire] by blast
  show "vspace_inv vm2 {(68719489024, 8192), (68719476736, 12288)}"
    using vmap.acquire_fresh [OF 1 vm2_acquire] by blast
qed

text \<open>
  C21: allocation of \<open>n > 0\<close> pages of address space.  When the result is not \<open>NULL\<close> it is the start of a
  page-aligned range of \<open>n\<close> pages inside the region that overlaps no live range, and that range is
  live afterwards and nothing else changes; when the result is \<open>NULL\<close> the map is unchanged and
  every range of \<open>n\<close> pages in the region overlaps a live one, so that first fit never misses a gap.
\<close>

theorem vspace_alloc_correct:
  assumes "vspace_inv vs L" and "0 < unat n" and "p \<notin> mm_node ` set (vs_nodes vs)"
    and "petmem_alloc_vspace vs n p = (v, vs')"
  shows "if v = NULL
         then vs' = vs \<and> (\<forall>x. region_lo \<le> x \<and> x + 4096 * unat n \<le> region_hi \<longrightarrow>
                (\<exists>r \<in> L. span r \<inter> {x ..< x + 4096 * unat n} \<noteq> {}))
         else 4096 dvd unat v \<and> region_lo \<le> unat v \<and> unat v + 4096 * unat n \<le> region_hi
                \<and> (\<forall>r \<in> L. span r \<inter> span (unat v, 4096 * unat n) = {})
                \<and> vspace_inv vs' (insert (unat v, 4096 * unat n) L)"
  by (rule vspace_alloc_outcome [OF assms])

theorem vspace_alloc_correct_witness:
  "vspace_inv vm1 {(68719476736, 12288)} \<and> petmem_alloc_vspace vm1 2 3 = (0x1000003000, vm2)
     \<and> span (68719476736, 12288) \<inter> span (68719489024, 8192) = {}"
proof -
  have e: "petmem_alloc_vspace vm1 2 3 = (0x1000003000, vm2)" "3 \<notin> mm_node ` set (vs_nodes vm1)" by code_simp+
  show ?thesis using vspace_alloc_correct [OF vm_invs(2) _ e(2,1)] vm_invs(2) e(1) by simp
qed

text \<open>
  C22: release.  Releasing the start of a live range removes exactly that range and keeps the
  invariant, so that free neighbours are merged; releasing any other address changes nothing;
  and when nothing is live the map is again the one region that a new process has.
\<close>

theorem vspace_free_correct:
  assumes "vspace_inv vs L"
  shows "((unat v, k) \<in> L \<longrightarrow> vspace_inv (petmem_free_vspace vs v) (L - {(unat v, k)}))
       \<and> (unat v \<notin> fst ` L \<longrightarrow> petmem_free_vspace vs v = vs)
       \<and> (L = {} \<longrightarrow> petmem_dump_vspace vs = petmem_dump_vspace (petmem_init_process p garbage))"
  using vspace_free_spec [OF assms, of "(unat v, k)" v] vspace_free_none [OF assms, of v]
    empty_vspace_whole [OF init_process_inv] empty_vspace_whole assms
  by auto

theorem vspace_free_correct_witness:
  "vspace_inv (petmem_free_vspace vm1 0x1000000000) {}
     \<and> petmem_dump_vspace (petmem_free_vspace vm1 0x1000000000) = petmem_dump_vspace (petmem_init_process 1 False)"
proof -
  have f: "vspace_inv (petmem_free_vspace vm1 0x1000000000) {}"
    using vspace_free_correct [OF vm_invs(2), of "0x1000000000" 12288] by simp
  then show ?thesis using vspace_free_correct [OF f] by simp
qed

text \<open>
  After any sequence of allocations and releases from a new process, live ranges are disjoint
  page-aligned ranges of the region, and \<open>petmem_find_address\<close> finds a node for exactly the addresses
  of live ranges, the node of the range that contains the address.
\<close>

theorem vspace_history:
  assumes "alloc_run vspace_acquire vspace_release (petmem_init_process p garbage, {}) (vs, L)"
  shows "(\<forall>r \<in> L. \<forall>q \<in> L. r \<noteq> q \<longrightarrow> span r \<inter> span q = {})
       \<and> (\<forall>r \<in> L. 4096 dvd fst r \<and> 4096 dvd snd r \<and> region_lo \<le> fst r \<and> fst r + snd r \<le> region_hi)
       \<and> (case petmem_find_address vs x of
            None \<Rightarrow> \<forall>r \<in> L. unat x \<notin> span r
          | Some c \<Rightarrow> (nstart c, nsize c) \<in> L \<and> unat x \<in> span (nstart c, nsize c))"
proof -
  have i: "vspace_inv vs L" using vmap.run_live [OF assms init_process_inv] .
  then have "\<forall>r \<in> L. \<forall>q \<in> L. r \<noteq> q \<longrightarrow> span r \<inter> span q = {}" using vmap.live_disjoint by blast
  then show ?thesis using vspace_inv_ranges [OF i] find_address_live [OF i, of x] by (intro conjI) auto
qed

theorem vspace_history_witness:
  "\<exists>vs. alloc_run vspace_acquire vspace_release (vm0, {}) (vs, {(68719489024, 8192), (68719476736, 12288)})
     \<and> petmem_find_address vs 0x1000004fff \<noteq> None"
proof -
  have r0: "alloc_run vspace_acquire vspace_release (vm0, {}) (vm0, {})" by (rule alloc_run.start)
  have r1: "alloc_run vspace_acquire vspace_release (vm0, {}) (vm1, {(68719476736, 12288)})"
    by (rule alloc_run.acquired [OF r0 vm1_acquire])
  have r2: "alloc_run vspace_acquire vspace_release (vm0, {}) (vm2, {(68719489024, 8192), (68719476736, 12288)})"
    by (rule alloc_run.acquired [OF r1 vm2_acquire])
  have "petmem_find_address vm2 0x1000004fff \<noteq> None"
    using vspace_history [OF r2 [unfolded vm0_def], of "0x1000004fff"] by (simp add: span_def split: option.splits)
  then show ?thesis using r2 by blast
qed

text \<open>
  C38: destruction of a process runs to its end exactly when nothing is live.  With an allocation
  left, the release of the last allocated node merges it into the free node that follows, which
  deletes it, and the loop then deletes (and frees) the same node again.
\<close>

theorem deinit_process_double_delete:
  assumes "vspace_inv vs L"
  shows "ok (petmem_deinit_process vs) \<longleftrightarrow> L = {}"
proof -
  have "alternating (vs_nodes vs)" "distinct (map mm_node (vs_nodes vs))" "L = ranges (vs_nodes vs)"
    using assms by (simp_all add: vspace_inv_def nodes_inv_def)
  then show ?thesis using deinit_nodes_ok [of "vs_nodes vs" vs] by (auto simp: petmem_deinit_process_def ranges_def)
qed

theorem deinit_process_double_delete_witness: "ok (petmem_deinit_process vm0) \<and> \<not> ok (petmem_deinit_process vm1)"
  using deinit_process_double_delete [OF vm_invs(1)] deinit_process_double_delete [OF vm_invs(2)] by simp

end
