(* ===== verification/PageWalkInv.thy ===== *)
theory PageWalkInv
  imports PageWalk MemMapProps
begin

text \<open>
  How the page-fault path changes the tree of tables.  Every change is one of two kinds: an entry
  keeps its present bit and its base address, or an absent entry of a reachable table is made to
  refer to a fresh zeroed page.  The second kind adds exactly one table (or one user page) to the
  tree and leaves every other path and entry as it was.
\<close>

section \<open>Entries\<close>

lemma struct64_ok:
  "layout_ok pml4e64" "layout_ok pdpe64" "layout_ok pde64" "layout_ok pte64"
  by code_simp+

definition entry_kind :: "layout \<Rightarrow> string \<Rightarrow> bool" where
  "entry_kind L b = (layout_ok L \<and> field_at L ''present'' = (0, 1) \<and> field_at L ''writable'' = (1, 1)
     \<and> field_at L ''user_page'' = (2, 1) \<and> field_at L b = (12, 40))"

lemma entry_kinds:
  "entry_kind pml4e64 ''pdp_base_addr''" "entry_kind pdpe64 ''pd_base_addr''" "entry_kind pde64 ''pt_base_addr''"
  "entry_kind pte64 ''page_base_addr''"
  by code_simp+

lemma kind_present: "entry_kind L b \<Longrightarrow> get_field L ''present'' e = of_bool (ent_present e)"
  by (simp add: get_field_def entry_kind_def take_bit_Suc mod_2_eq_odd bit_0)

lemma make_entry_bits:
  assumes "entry_kind L b"
  shows "ent_present (make_entry L b p e)" and "ent_base (make_entry L b p e) = ent_base p"
  using assms
  by (auto simp: make_entry_def entry_kind_def bit_set_field PAGE_TO_BASE_ADDR_def bit_drop_bit_eq Let_def
      intro!: ent_base_cong)

lemma accessed_bits:
  "ent_present (set_field pml4e64 ''accessed'' 0 e) = ent_present e"
  "ent_base (set_field pml4e64 ''accessed'' 0 e) = ent_base e"
proof -
  have "field_at pml4e64 ''accessed'' = (5, 1)" by code_simp
  then show "ent_present (set_field pml4e64 ''accessed'' 0 e) = ent_present e"
    "ent_base (set_field pml4e64 ''accessed'' 0 e) = ent_base e"
    by (auto simp: bit_set_field intro!: ent_base_cong dest: bit_imp_le_length)
qed

section \<open>Addresses of entries\<close>

lemma slot_nat:
  assumes "page_aligned t" and "i < 512"
  shows "unat (t + 8 * i) = unat t + 8 * unat i"
proof -
  have i: "unat i < 512" using assms(2) by (simp add: word_less_nat_alt)
  obtain k where k: "unat t = 4096 * k" using assms(1) by (auto simp: page_aligned_def)
  then have "k < 4503599627370496" using unat_u64_less [of t] by simp
  then have "unat t + 4096 \<le> 18446744073709551616" using k by simp
  moreover have "unat (8 * i) = 8 * unat i" using i by (simp add: unat_word_ariths)
  ultimately show ?thesis using i by (simp add: add_no_wrap)
qed

lemma slot_page:
  assumes "page_aligned t" and "i < 512"
  shows "drop_bit 12 (t + 8 * i) = drop_bit 12 t"
proof -
  have i: "unat i < 512" using assms(2) by (simp add: word_less_nat_alt)
  obtain k where "unat t = 4096 * k" using assms(1) by (auto simp: page_aligned_def)
  then have "unat (t + 8 * i) div 4096 = unat t div 4096" using slot_nat [OF assms] i by simp
  then show ?thesis by (simp add: word_unat_eq_iff drop_bit_eq_div unat_div)
qed

lemma page_aligned_eq:
  assumes "page_aligned t" and "page_aligned u" and "drop_bit 12 t = drop_bit 12 u"
  shows "t = u"
proof -
  have "unat t div 4096 = unat u div 4096"
    using arg_cong [OF assms(3), of unat] by (simp add: drop_bit_eq_div unat_div)
  then have "unat t = unat u" using assms(1,2) by (auto simp: page_aligned_def elim!: dvdE)
  then show ?thesis by (simp add: word_unat_eq_iff)
qed

lemma slot_inj:
  assumes t: "page_aligned t" "i < 512" and u: "page_aligned u" "j < 512" and e: "t + 8 * i = u + 8 * j"
  shows "t = u \<and> i = j"
proof -
  have "t = u" using page_aligned_eq [OF t(1) u(1)] slot_page [OF t] slot_page [OF u] e by simp
  then have "8 * unat i = 8 * unat j" using slot_nat [OF t] slot_nat [OF u] e by simp
  then show ?thesis using \<open>t = u\<close> by (simp add: word_unat_eq_iff)
qed

lemma slot_fresh:
  assumes "page_aligned t" "i < 512" "page_aligned n" "t \<noteq> n"
  shows "\<not> same_page (t + 8 * i) n"
  using assms slot_page [OF assms(1,2)] page_aligned_eq [OF assms(1,3)] by (auto simp: same_page_def)

section \<open>Paths\<close>

lemma tbl_snoc:
  "tbl va m t (p @ [i]) = (case tbl va m t p of None \<Rightarrow> None
     | Some u \<Rightarrow> if ent_present (m (u + 8 * i)) then Some (va (ent_base (m (u + 8 * i)))) else None)"
  by (induction p arbitrary: t) auto

lemma tbl_same:
  assumes "\<And>a. ent_present (m' a) = ent_present (m a)" and "\<And>a. ent_base (m' a) = ent_base (m a)"
  shows "tbl va m' t p = tbl va m t p"
  by (induction p arbitrary: t) (simp_all add: assms)

lemma wf_same:
  assumes "\<And>a. ent_present (m' a) = ent_present (m a)" and "\<And>a. ent_base (m' a) = ent_base (m a)"
  shows "wf_tables va m' root F = wf_tables va m root F"
  unfolding wf_tables_def by (simp add: tbl_same [of m' m, OF assms])

lemma wf_aligned: "wf_tables va m root F \<Longrightarrow> valid_path p \<Longrightarrow> tbl va m root p = Some t \<Longrightarrow> page_aligned t"
  unfolding wf_tables_def by blast

lemma wf_fresh: "wf_tables va m root F \<Longrightarrow> valid_path p \<Longrightarrow> tbl va m root p = Some t \<Longrightarrow> t \<notin> F"
  unfolding wf_tables_def by blast

lemma wf_inj:
  "wf_tables va m root F \<Longrightarrow> valid_path p \<Longrightarrow> valid_path q \<Longrightarrow> tbl va m root p = Some t \<Longrightarrow>
   tbl va m root q = Some t \<Longrightarrow> p = q"
  unfolding wf_tables_def by blast

lemma valid_snocD: "valid_path (p @ [i]) \<Longrightarrow> valid_path p \<and> i < 512"
  by (auto simp: valid_path_def)

section \<open>Adding a page to the tree\<close>

text \<open>
  Memory \<open>m'\<close> is \<open>m\<close> with the fresh page \<open>n\<close> zeroed and the entry \<open>i\<close> of the table at \<open>p\<close> replaced by \<open>e\<close>.
\<close>

definition graft :: "(u64 \<Rightarrow> u64) \<Rightarrow> u64 \<Rightarrow> u64 \<Rightarrow> u64 \<Rightarrow> u64 \<Rightarrow> u64" where
  "graft m n a e = (\<lambda>x. if same_page x n then 0 else m x)(a := e)"

lemma graft_entry:
  assumes wf: "wf_tables va m root F" and n: "n \<in> F" "page_aligned n"
    and p: "valid_path p" "tbl va m root p = Some t" "i < 512"
    and q: "valid_path q" "tbl va m root q = Some u" "j < 512"
  shows "graft m n (t + 8 * i) e (u + 8 * j) = (if q = p \<and> j = i then e else m (u + 8 * j))"
proof -
  have al: "page_aligned t" "page_aligned u" using wf_aligned [OF wf] p q by blast+
  have "u \<noteq> n" using wf_fresh [OF wf q(1,2)] n by blast
  then have s: "\<not> same_page (u + 8 * j) n" using slot_fresh al q(3) n by blast
  have "u + 8 * j = t + 8 * i \<longleftrightarrow> q = p \<and> j = i"
    using slot_inj [OF al(2) q(3) al(1) p(3)] wf_inj [OF wf p(1) q(1) p(2)] p(2) q(2) by auto
  then show ?thesis using s by (auto simp: graft_def)
qed

lemma graft_new:
  assumes wf: "wf_tables va m root F" and n: "n \<in> F" "page_aligned n"
    and p: "valid_path p" "tbl va m root p = Some t" "i < 512" and j: "j < 512"
  shows "graft m n (t + 8 * i) e (n + 8 * j) = 0"
proof -
  have al: "page_aligned t" using wf_aligned [OF wf] p by blast
  have "t \<noteq> n" using wf_fresh [OF wf p(1,2)] n by blast
  then have "t + 8 * i \<noteq> n + 8 * j" using slot_inj [OF al p(3) n(2) j] by blast
  moreover have "same_page (n + 8 * j) n" using slot_page [OF n(2) j] by (simp add: same_page_def)
  ultimately show ?thesis by (simp add: graft_def)
qed

text \<open>The tables after the change: the new one, and the old ones where they were.\<close>

lemma graft_tbl:
  assumes wf: "wf_tables va m root F" and n: "n \<in> F" "page_aligned n"
    and p: "valid_path p" "tbl va m root p = Some t" "i < 512"
    and a: "\<not> ent_present (m (t + 8 * i))" and e: "ent_present e" "va (ent_base e) = n"
    and q: "valid_path q"
  shows "tbl va (graft m n (t + 8 * i) e) root q = (if q = p @ [i] then Some n else tbl va m root q)"
  using q
proof (induction q rule: rev_induct)
  case Nil
  then show ?case by simp
next
  case (snoc j q)
  then have q: "valid_path q" "j < 512" using valid_snocD by blast+
  note IH = snoc.IH [OF q(1)]
  show ?case
  proof (cases "q = p @ [i]")
    case True
    then have "tbl va m root q = None" using p(2) a by (simp add: tbl_snoc)
    moreover have "tbl va (graft m n (t + 8 * i) e) root q = Some n" using IH True by simp
    moreover have "q @ [j] \<noteq> p @ [i]" using True by simp
    ultimately show ?thesis
      using graft_new [OF wf n p q(2), of e] by (simp add: tbl_snoc [of va _ root q j])
  next
    case False
    show ?thesis
    proof (cases "tbl va m root q")
      case None
      have "q \<noteq> p" using None p(2) by auto
      then show ?thesis using IH False None by (simp add: tbl_snoc)
    next
      case (Some u)
      have g: "graft m n (t + 8 * i) e (u + 8 * j) = (if q = p \<and> j = i then e else m (u + 8 * j))"
        using graft_entry [OF wf n p q(1) Some q(2)] .
      show ?thesis using IH False Some g e p(2) a by (auto simp: tbl_snoc)
    qed
  qed
qed

lemma graft_wf:
  assumes wf: "wf_tables va m root F" and n: "n \<in> F" "page_aligned n"
    and p: "valid_path p" "tbl va m root p = Some t" "i < 512"
    and a: "\<not> ent_present (m (t + 8 * i))" and e: "ent_present e" "va (ent_base e) = n"
  shows "wf_tables va (graft m n (t + 8 * i) e) root (F - {n})"
proof -
  note g = graft_tbl [OF wf n p a e]
  have "tbl va m root q \<noteq> Some n" if "valid_path q" for q using wf_fresh [OF wf that] n(1) by blast
  then show ?thesis unfolding wf_tables_def using g wf n(2) wf_fresh [OF wf]
    by (auto simp: split: if_splits intro: wf_inj wf_aligned)
qed

section \<open>Translations\<close>

lemma valid_table_path: "valid_path (table_path x)"
  using index_less by (simp add: valid_path_def table_path_def word_less_nat_alt)

lemma pte_index_less: "PTE64_INDEX x < 512" "PDE64_INDEX x < 512" "PDPE64_INDEX x < 512" "PML4E64_INDEX x < 512"
  using index_less by (simp_all add: word_less_nat_alt)

lemma translate_same:
  assumes "\<And>a. ent_present (m' a) = ent_present (m a)" and "\<And>a. ent_base (m' a) = ent_base (m a)"
  shows "translate va m' root x = translate va m root x"
  unfolding translate_def tbl_same [of m' m, OF assms] Let_def assms ..

text \<open>A new table translates no address.\<close>

lemma graft_translate_table:
  assumes wf: "wf_tables va m root F" and n: "n \<in> F" "page_aligned n"
    and p: "valid_path p" "tbl va m root p = Some t" "i < 512"
    and a: "\<not> ent_present (m (t + 8 * i))" and e: "ent_present e" "va (ent_base e) = n"
    and len: "length p \<le> 2"
  shows "translate va (graft m n (t + 8 * i) e) root y = translate va m root y"
proof -
  have g: "tbl va (graft m n (t + 8 * i) e) root (table_path y)
      = (if table_path y = p @ [i] then Some n else tbl va m root (table_path y))"
    by (rule graft_tbl [OF wf n p a e valid_table_path])
  show ?thesis
  proof (cases "table_path y = p @ [i]")
    case True
    then have "tbl va m root (table_path y) = None" using p(2) a by (simp add: tbl_snoc)
    then show ?thesis
      using g True graft_new [OF wf n p pte_index_less(1), of e y] by (simp add: translate_def)
  next
    case False
    have "table_path y \<noteq> p" using len by (auto simp: table_path_def)
    then show ?thesis
      using g False graft_entry [OF wf n p valid_table_path _ pte_index_less(1), of y _ e y]
      by (simp add: translate_def split: option.split)
  qed
qed

text \<open>Addresses with the same four indices lie in the same page.\<close>

lemma same_indices_page:
  assumes x: "x < 0x1000000000000" and y: "y < 0x1000000000000"
    and e: "table_path x = table_path y" "PTE64_INDEX x = PTE64_INDEX y"
  shows "same_page x y"
proof -
  have i: "PML4E64_INDEX x = PML4E64_INDEX y" "PDPE64_INDEX x = PDPE64_INDEX y" "PDE64_INDEX x = PDE64_INDEX y"
    using e(1) by (simp_all add: table_path_def)
  define z where "z = push_bit 39 (PML4E64_INDEX y) OR push_bit 30 (PDPE64_INDEX y) OR push_bit 21 (PDE64_INDEX y)
     OR push_bit 12 (PTE64_INDEX y)"
  have "z OR PAGE_OFFSET_4KB x = x" "z OR PAGE_OFFSET_4KB y = y"
    using recompose [OF x] recompose [OF y] i e(2) by (simp_all add: z_def ac_simps)
  moreover have "drop_bit 12 (z OR PAGE_OFFSET_4KB w) = drop_bit 12 z" for w
    by (intro bit_eqI) (auto simp: offset_take bit_drop_bit_eq bit_or_iff bit_take_bit_iff)
  ultimately show ?thesis unfolding same_page_def by metis
qed

text \<open>A user page is entered at the last level.\<close>

lemma graft_translate_page:
  assumes wf: "wf_tables va m root F" and n: "n \<in> F" "page_aligned n"
    and p: "tbl va m root (table_path x) = Some t"
    and a: "\<not> ent_present (m (t + 8 * PTE64_INDEX x))" and e: "ent_present e" "va (ent_base e) = n"
  defines "m' \<equiv> graft m n (t + 8 * PTE64_INDEX x) e"
  shows "translate va m' root x = Some (ent_base e + PAGE_OFFSET_4KB x)"
    and "\<lbrakk>x < 0x1000000000000; y < 0x1000000000000; \<not> same_page x y\<rbrakk> \<Longrightarrow> translate va m' root y = translate va m root y"
proof -
  note p' = valid_table_path p pte_index_less(1)
  have g: "tbl va m' root (table_path y) = tbl va m root (table_path y)" for y
    using graft_tbl [OF wf n p' a e valid_table_path, of y] by (simp add: m'_def table_path_def)
  have ge: "tbl va m root (table_path y) = Some u \<Longrightarrow>
      m' (u + 8 * PTE64_INDEX y) = (if table_path y = table_path x \<and> PTE64_INDEX y = PTE64_INDEX x then e
        else m (u + 8 * PTE64_INDEX y))" for u y
    unfolding m'_def using graft_entry [OF wf n p' valid_table_path _ pte_index_less(1)] by blast
  show "translate va m' root x = Some (ent_base e + PAGE_OFFSET_4KB x)"
    using g [of x] ge [OF p] p e by (simp add: translate_def)
  show "translate va m' root y = translate va m root y"
    if "x < 0x1000000000000" "y < 0x1000000000000" "\<not> same_page x y"
  proof -
    have "\<not> (table_path y = table_path x \<and> PTE64_INDEX y = PTE64_INDEX x)"
      using same_indices_page [OF that(1,2)] that(3) by metis
    then have "m' (u + 8 * PTE64_INDEX y) = m (u + 8 * PTE64_INDEX y)" if "tbl va m root (table_path y) = Some u" for u
      using ge [OF that] by auto
    then show ?thesis using g [of y] by (simp add: translate_def split: option.split)
  qed
qed

section \<open>The walk\<close>

definition walk_ok :: "(u64 \<Rightarrow> u64) \<Rightarrow> (u64 \<Rightarrow> u64) \<Rightarrow> u64 \<Rightarrow> kstate \<Rightarrow> bool" where
  "walk_ok va pa root s = (wf_tables va (kmem s) root (set (kpages s)) \<and> good_pages va pa (kpages s))"

text \<open>
  Tables stay where they are, new ones are pages that were free, translations do not change, and at
  most \<open>k\<close> pages are used.
\<close>

definition grows :: "(u64 \<Rightarrow> u64) \<Rightarrow> u64 \<Rightarrow> nat \<Rightarrow> kstate \<Rightarrow> kstate \<Rightarrow> bool" where
  "grows va root k s s' =
     ((\<forall>q u. valid_path q \<and> tbl va (kmem s) root q = Some u \<longrightarrow> tbl va (kmem s') root q = Some u)
    \<and> (\<forall>q u. valid_path q \<and> tbl va (kmem s') root q = Some u \<longrightarrow> tbl va (kmem s) root q = Some u \<or> u \<in> set (kpages s))
    \<and> (\<forall>y. translate va (kmem s') root y = translate va (kmem s) root y)
    \<and> (\<exists>j \<le> k. kpages s' = drop j (kpages s)))"

lemma grows_sub: "grows va root k s s' \<Longrightarrow> set (kpages s') \<subseteq> set (kpages s)"
  by (auto simp: grows_def dest: in_set_dropD)

lemma grows_new: "grows va root k s s' \<Longrightarrow> valid_path q \<Longrightarrow> tbl va (kmem s') root q = Some u \<Longrightarrow>
    tbl va (kmem s) root q = Some u \<or> u \<in> set (kpages s)"
  unfolding grows_def by blast

lemma grows_trans:
  assumes "grows va root j s s'" and "grows va root k s' s''"
  shows "grows va root (j + k) s s''"
proof -
  have "\<exists>i \<le> j + k. kpages s'' = drop i (kpages s)"
    using assms unfolding grows_def by (metis add_le_mono drop_drop add.commute)
  moreover have "tbl va (kmem s) root q = Some u \<or> u \<in> set (kpages s)" if "valid_path q" "tbl va (kmem s'') root q = Some u" for q u
    using grows_new [OF assms(2) that] grows_new [OF assms(1) that(1)] grows_sub [OF assms(1)] by blast
  ultimately show ?thesis using assms unfolding grows_def by simp
qed

lemma grows_tbl: "grows va root k s s' \<Longrightarrow> valid_path q \<Longrightarrow> tbl va (kmem s) root q = Some u \<Longrightarrow> tbl va (kmem s') root q = Some u"
  unfolding grows_def by blast

lemma grows_pages: "grows va root k s s' \<Longrightarrow> length (kpages s) \<le> length (kpages s') + k"
  unfolding grows_def by auto

lemma clear_accessed_spec:
  assumes "walk_ok va pa root s"
  shows "walk_ok va pa root (clear_accessed d s)" and "grows va root 0 s (clear_accessed d s)"
    and "ent_base (kmem (clear_accessed d s) x) = ent_base (kmem s x)"
proof -
  let ?m = "kmem (clear_accessed d s)"
  have e: "ent_present (?m a) = ent_present (kmem s a)" "ent_base (?m a) = ent_base (kmem s a)" for a
    by (simp_all add: clear_accessed_def put_word_def accessed_bits)
  have k: "kpages (clear_accessed d s) = kpages s" by (simp add: clear_accessed_def put_word_def)
  show "ent_base (?m x) = ent_base (kmem s x)" by (rule e)
  show "walk_ok va pa root (clear_accessed d s)"
    using assms wf_same [of ?m "kmem s", OF e] by (simp add: walk_ok_def k)
  show "grows va root 0 s (clear_accessed d s)"
    using tbl_same [of ?m "kmem s", OF e] translate_same [of ?m "kmem s", OF e] by (simp add: grows_def k)
qed

text \<open>A page taken from \<open>get_zeroed_page\<close> and entered at \<open>d\<close> is a graft.\<close>

lemma take_page:
  assumes "kpages s = n # ps"
  shows "get_zeroed_page s = (n, s\<lparr>kmem := (\<lambda>a. if same_page a n then 0 else kmem s a), kpages := ps\<rparr>)"
    and "put_word d e (s\<lparr>kmem := (\<lambda>a. if same_page a n then 0 else kmem s a), kpages := ps\<rparr>)
       = s\<lparr>kmem := graft (kmem s) n d e, kpages := ps\<rparr>"
  by (simp_all add: get_zeroed_page_def put_word_def graft_def assms)

lemma ensure_table_spec:
  assumes k: "entry_kind L b" and w: "walk_ok va pa root s" and ne: "kpages s \<noteq> []"
    and p: "valid_path p" "tbl va (kmem s) root p = Some t" "i < 512" "length p \<le> 2"
  obtains s' where "ensure_table pa L b True (t + 8 * i) s = (True, s')" and "walk_ok va pa root s'"
    and "grows va root 1 s s'" and "tbl va (kmem s') root (p @ [i]) = Some (va (ent_base (kmem s' (t + 8 * i))))"
proof (cases "ent_present (kmem s (t + 8 * i))")
  case True
  have "ensure_table pa L b True (t + 8 * i) s = (True, s)"
    using True kind_present [OF k] by (simp add: ensure_table_def)
  moreover have "grows va root 1 s s" unfolding grows_def using drop_0 by (auto intro!: exI [of _ "0 :: nat"])
  moreover have "tbl va (kmem s) root (p @ [i]) = Some (va (ent_base (kmem s (t + 8 * i))))"
    using True p(2) by (simp add: tbl_snoc)
  ultimately show ?thesis using that w by blast
next
  case False
  obtain n ps where ps: "kpages s = n # ps" using ne by (cases "kpages s") auto
  define e where "e = make_entry L b (pa n) (if same_page (t + 8 * i) n then 0 else kmem s (t + 8 * i))"
  define s' where "s' = s\<lparr>kmem := graft (kmem s) n (t + 8 * i) e, kpages := ps\<rparr>"
  have wf: "wf_tables va (kmem s) root (set (kpages s))" and gp: "good_pages va pa (kpages s)"
    using w by (simp_all add: walk_ok_def)
  have n: "n \<in> set (kpages s)" "page_aligned n" "page_pa (pa n)" "va (pa n) = n"
    using gp by (simp_all add: ps good_pages_def)
  have e: "ent_present e" "va (ent_base e) = n"
    using make_entry_bits [OF k] n by (simp_all add: e_def page_pa_def)
  note g = wf n(1,2) p(1-3) False e
  have "ensure_table pa L b True (t + 8 * i) s = (True, s')"
    using False kind_present [OF k] by (simp add: ensure_table_def take_page [OF ps] e_def s'_def)
  moreover have "walk_ok va pa root s'"
  proof -
    have "set ps = set (kpages s) - {n}" using gp by (auto simp: ps good_pages_def)
    then show ?thesis using graft_wf [OF g] gp by (simp add: walk_ok_def s'_def) (simp add: ps good_pages_def)
  qed
  moreover have "grows va root 1 s s'"
  proof -
    have "tbl va (kmem s') root q = Some u" if "valid_path q" "tbl va (kmem s) root q = Some u" for q u
      using graft_tbl [OF g that(1)] that(2) p(2) False by (auto simp: s'_def tbl_snoc)
    moreover have "tbl va (kmem s) root q = Some u \<or> u \<in> set (kpages s)" if "valid_path q" "tbl va (kmem s') root q = Some u" for q u
      using graft_tbl [OF g that(1)] that(2) n(1) by (auto simp: s'_def split: if_splits)
    moreover have "translate va (kmem s') root y = translate va (kmem s) root y" for y
      using graft_translate_table [OF g p(4)] by (simp add: s'_def)
    moreover have "kpages s' = drop 1 (kpages s)" by (simp add: s'_def ps)
    ultimately show ?thesis unfolding grows_def by blast
  qed
  moreover have "tbl va (kmem s') root (p @ [i]) = Some (va (ent_base (kmem s' (t + 8 * i))))"
  proof -
    have "valid_path (p @ [i])" using p by (auto simp: valid_path_def)
    moreover have "kmem s' (t + 8 * i) = e" by (simp add: s'_def graft_def)
    ultimately show ?thesis using graft_tbl [OF g, of "p @ [i]"] e by (simp add: s'_def)
  qed
  ultimately show ?thesis using that by blast
qed

end
