(* ===== verification/PageWalkProps.thy ===== *)
theory PageWalkProps
  imports PageWalkInv
begin

text \<open>
  What the page-fault handler does: a fault inside a live range is resolved by mapping exactly one
  fresh zeroed page at the faulting address, every other translation stays as it was, and the
  tables stay a tree; any other fault is refused and changes nothing.
\<close>

section \<open>The walk reaches the entry\<close>

lemma scale: "i * sizeof_entry = 8 * i"
  by (simp add: sizeof_entry_def)

lemma walk_spec:
  assumes w: "walk_ok va pa root s" and root: "root = va (CR3_TO_PML4E64_PA cr3)"
    and pml: "PML4E64_INDEX a = 0" and len: "3 \<le> length (kpages s)"
  obtains t s' where "walk_page_table va pa cr3 a True s = (t + 8 * PTE64_INDEX a, s')" and "walk_ok va pa root s'"
    and "grows va root 3 s s'" and "tbl va (kmem s') root (table_path a) = Some t"
proof -
  let ?i0 = "PML4E64_INDEX a" and ?i1 = "PDPE64_INDEX a" and ?i2 = "PDE64_INDEX a"
  let ?d0 = "root + 8 * ?i0"
  have d0: "va (CR3_TO_PML4E64_PA cr3) + sizeof_entry * (?i0 * sizeof_entry) = ?d0" by (simp add: pml root)
  define s0 where "s0 = clear_accessed ?d0 s"
  note c0 = clear_accessed_spec [OF w, of ?d0, folded s0_def]
  have v: "valid_path []" "valid_path [?i0]" "valid_path [?i0, ?i1]"
    using pte_index_less by (simp_all add: valid_path_def)
  have n0: "3 \<le> length (kpages s0)" using grows_pages [OF c0(2)] len by simp
  then have "kpages s0 \<noteq> []" by auto
  from ensure_table_spec [OF entry_kinds(1) c0(1) this v(1) _ pte_index_less(4), of root]
  obtain s1 where e1: "ensure_table pa pml4e64 ''pdp_base_addr'' True ?d0 s0 = (True, s1)" "walk_ok va pa root s1"
    "grows va root 1 s0 s1" "tbl va (kmem s1) root [?i0] = Some (va (ent_base (kmem s1 ?d0)))" by auto
  let ?d1 = "va (ent_base (kmem s1 ?d0)) + 8 * ?i1"
  have n1: "2 \<le> length (kpages s1)" using grows_pages [OF e1(3)] n0 by simp
  then have "kpages s1 \<noteq> []" by auto
  from ensure_table_spec [OF entry_kinds(2) e1(2) this v(2) e1(4) pte_index_less(3)]
  obtain s2 where e2: "ensure_table pa pdpe64 ''pd_base_addr'' True ?d1 s1 = (True, s2)" "walk_ok va pa root s2"
    "grows va root 1 s1 s2" "tbl va (kmem s2) root [?i0, ?i1] = Some (va (ent_base (kmem s2 ?d1)))" by auto
  define s3 where "s3 = clear_accessed ?d0 s2"
  note c3 = clear_accessed_spec [OF e2(2), of ?d0, folded s3_def]
  let ?d2 = "va (ent_base (kmem s3 ?d1)) + 8 * ?i2"
  have t3: "tbl va (kmem s3) root [?i0, ?i1] = Some (va (ent_base (kmem s3 ?d1)))"
    using grows_tbl [OF c3(2) v(3) e2(4)] c3(3) by simp
  have n3: "1 \<le> length (kpages s3)" using grows_pages [OF e2(3)] grows_pages [OF c3(2)] n1 by simp
  then have "kpages s3 \<noteq> []" by auto
  from ensure_table_spec [OF entry_kinds(3) c3(1) this v(3) t3 pte_index_less(2)]
  obtain s4 where e4: "ensure_table pa pde64 ''pt_base_addr'' True ?d2 s3 = (True, s4)" "walk_ok va pa root s4"
    "grows va root 1 s3 s4" "tbl va (kmem s4) root (table_path a) = Some (va (ent_base (kmem s4 ?d2)))"
    by (auto simp: table_path_def)
  have "walk_page_table va pa cr3 a True s = (va (ent_base (kmem s4 ?d2)) + 8 * PTE64_INDEX a, s4)"
    unfolding walk_page_table_def Let_def d0 unfolding scale base_field s0_def [symmetric] e1(1) prod.case
    by (simp add: e2(1) s3_def [symmetric] e4(1))
  moreover have "grows va root (0 + (1 + (1 + (0 + 1)))) s s4"
    by (intro grows_trans [OF c0(2)] grows_trans [OF e1(3)] grows_trans [OF e2(3)] grows_trans [OF c3(2)] e4(3))
  ultimately show ?thesis using that e4(2,4) by (simp add: numeral_3_eq_3)
qed

text \<open>Addresses of the region use the first entry of the top table only.\<close>

lemma region_pml_index:
  assumes "unat a < region_hi"
  shows "PML4E64_INDEX a = 0" and "a < 0x1000000000000"
proof -
  have "unat a div 549755813888 = 0" using assms by simp
  then show "PML4E64_INDEX a = 0"
    by (simp add: index_take word_unat_eq_iff unsigned_take_bit_eq drop_bit_eq_div unat_div)
  show "a < 0x1000000000000" using assms by (simp add: word_less_nat_alt)
qed

section \<open>The handler\<close>

text \<open>
  A fault at a live address that is not mapped enters one fresh page \<open>n\<close>, into the table that the walk
  has reached.
\<close>

lemma handle_pagefault_graft:
  assumes i: "vspace_inv vs L" and r: "r \<in> L" "unat a \<in> span r" and ec: "error_code \<noteq> 2"
    and root: "root = va (CR3_TO_PML4E64_PA cr3)" and w: "walk_ok va pa root s" and len: "4 \<le> length (kpages s)"
    and un: "translate va (kmem s) root a = None"
    and h: "petmem_handle_pagefault va pa cr3 vs a error_code s = (rc, s')"
  obtains s1 t n ps e where "walk_ok va pa root s1" "grows va root 3 s s1" "kpages s1 = n # ps"
    and "tbl va (kmem s1) root (table_path a) = Some t" "\<not> ent_present (kmem s1 (t + 8 * PTE64_INDEX a))"
    and "ent_present e" "va (ent_base e) = n" "ent_base e = pa n" "rc = 0"
    and "s' = s1\<lparr>kmem := graft (kmem s1) n (t + 8 * PTE64_INDEX a) e, kpages := ps\<rparr>"
proof -
  have a: "unat a < region_hi" using vspace_inv_ranges(4) [OF i r(1)] r(2) by (simp add: span_def)
  have live: "petmem_find_address vs a \<noteq> None"
    using find_address_live [OF i, of a] r by (auto split: option.splits)
  from walk_spec [OF w root region_pml_index(1) [OF a]] len obtain t s1 where
    walk: "walk_page_table va pa cr3 a True s = (t + 8 * PTE64_INDEX a, s1)" and w1: "walk_ok va pa root s1"
    and g1: "grows va root 3 s s1" and t1: "tbl va (kmem s1) root (table_path a) = Some t" by auto
  have "1 \<le> length (kpages s1)" using grows_pages [OF g1] len by simp
  then obtain n ps where ps: "kpages s1 = n # ps" by (cases "kpages s1") auto
  have n: "page_pa (pa n)" "va (pa n) = n" using w1 by (simp_all add: ps walk_ok_def good_pages_def)
  have ab: "\<not> ent_present (kmem s1 (t + 8 * PTE64_INDEX a))"
  proof -
    have "translate va (kmem s1) root a = None" using g1 un by (simp add: grows_def)
    then show ?thesis using t1 by (auto simp: translate_def Let_def split: if_splits)
  qed
  define e where "e = make_entry pte64 ''page_base_addr'' (pa n)
    (if same_page (t + 8 * PTE64_INDEX a) n then 0 else kmem s1 (t + 8 * PTE64_INDEX a))"
  have "ent_present e" "va (ent_base e) = n" "ent_base e = pa n"
    using make_entry_bits [OF entry_kinds(4)] n by (simp_all add: e_def page_pa_def)
  moreover have "rc = 0" "s' = s1\<lparr>kmem := graft (kmem s1) n (t + 8 * PTE64_INDEX a) e, kpages := ps\<rparr>"
    using h ec live ab
    by (simp_all add: petmem_handle_pagefault_def walk present_field take_page [OF ps] e_def)
  ultimately show ?thesis using that w1 g1 ps t1 ab by blast
qed

lemma handle_pagefault_pages:
  assumes "vspace_inv vs L" and "r \<in> L" "unat a \<in> span r" and "error_code \<noteq> 2"
    and "root = va (CR3_TO_PML4E64_PA cr3)" and "walk_ok va pa root s" and "4 \<le> length (kpages s)"
    and "translate va (kmem s) root a = None"
    and "petmem_handle_pagefault va pa cr3 vs a error_code s = (rc, s')"
  shows "length (kpages s) \<le> length (kpages s') + 4"
proof -
  obtain s1 t n ps e where "grows va root 3 s s1" "kpages s1 = n # ps"
    "s' = s1\<lparr>kmem := graft (kmem s1) n (t + 8 * PTE64_INDEX a) e, kpages := ps\<rparr>"
    by (rule handle_pagefault_graft [OF assms])
  then show ?thesis using grows_pages [of va root 3 s s1] by simp
qed

text \<open>The tables after a fault are those from before and pages that were free.\<close>

lemma handle_pagefault_tables:
  assumes "vspace_inv vs L" and "r \<in> L" "unat a \<in> span r" and "error_code \<noteq> 2"
    and "root = va (CR3_TO_PML4E64_PA cr3)" and "walk_ok va pa root s" and "4 \<le> length (kpages s)"
    and "translate va (kmem s) root a = None"
    and "petmem_handle_pagefault va pa cr3 vs a error_code s = (rc, s')"
    and q: "valid_path q" "tbl va (kmem s') root q = Some u"
  shows "tbl va (kmem s) root q = Some u \<or> u \<in> set (kpages s)"
proof -
  obtain s1 t n ps e where w1: "walk_ok va pa root s1" and g1: "grows va root 3 s s1" and ps: "kpages s1 = n # ps"
    and t1: "tbl va (kmem s1) root (table_path a) = Some t" and ab: "\<not> ent_present (kmem s1 (t + 8 * PTE64_INDEX a))"
    and e: "ent_present e" "va (ent_base e) = n"
    and res: "s' = s1\<lparr>kmem := graft (kmem s1) n (t + 8 * PTE64_INDEX a) e, kpages := ps\<rparr>"
    by (rule handle_pagefault_graft [OF assms(1-9)])
  have g: "wf_tables va (kmem s1) root (set (kpages s1))" "n \<in> set (kpages s1)" "page_aligned n"
    using w1 by (simp_all add: walk_ok_def ps good_pages_def)
  have "q \<noteq> table_path a @ [PTE64_INDEX a]" using q(1) by (auto simp: valid_path_def table_path_def)
  then have "tbl va (kmem s1) root q = Some u"
    using q(2) graft_tbl [OF g valid_table_path t1 pte_index_less(1) ab e q(1)] by (simp add: res)
  then show ?thesis by (rule grows_new [OF g1 q(1)])
qed

lemma handle_pagefault_spec:
  assumes i: "vspace_inv vs L" and r: "r \<in> L" "unat a \<in> span r" and ec: "error_code \<noteq> 2"
    and root: "root = va (CR3_TO_PML4E64_PA cr3)" and wf: "wf_tables va (kmem s) root (set (kpages s))"
    and gp: "good_pages va pa (kpages s)" and len: "4 \<le> length (kpages s)"
    and un: "translate va (kmem s) root a = None"
    and h: "petmem_handle_pagefault va pa cr3 vs a error_code s = (rc, s')"
  shows "rc = 0
       \<and> (\<exists>pg \<in> set (kpages s). translate va (kmem s') root a = Some (pa pg + PAGE_OFFSET_4KB a)
            \<and> (\<forall>x. same_page x pg \<longrightarrow> kmem s' x = 0) \<and> pg \<notin> set (kpages s'))
       \<and> (\<forall>y < 0x1000000000000. \<not> same_page a y \<longrightarrow> translate va (kmem s') root y = translate va (kmem s) root y)
       \<and> wf_tables va (kmem s') root (set (kpages s')) \<and> good_pages va pa (kpages s')
       \<and> set (kpages s') \<subseteq> set (kpages s)"
proof -
  have w: "walk_ok va pa root s" using wf gp by (simp add: walk_ok_def)
  obtain s1 t n ps e where
    w1: "walk_ok va pa root s1" and g1: "grows va root 3 s s1" and ps: "kpages s1 = n # ps"
    and t1: "tbl va (kmem s1) root (table_path a) = Some t" and ab: "\<not> ent_present (kmem s1 (t + 8 * PTE64_INDEX a))"
    and e: "ent_present e" "va (ent_base e) = n" "ent_base e = pa n"
    and res: "rc = 0" "s' = s1\<lparr>kmem := graft (kmem s1) n (t + 8 * PTE64_INDEX a) e, kpages := ps\<rparr>"
    by (rule handle_pagefault_graft [OF i r ec root w len un h])
  have gp1: "good_pages va pa (n # ps)" and g: "wf_tables va (kmem s1) root (set (kpages s1))" "n \<in> set (kpages s1)" "page_aligned n"
    using w1 by (simp_all add: walk_ok_def ps good_pages_def)
  have a: "a < 0x1000000000000"
    using vspace_inv_ranges(4) [OF i r(1)] r(2) by (intro region_pml_index(2)) (simp add: span_def)
  have sub: "set (kpages s1) \<subseteq> set (kpages s)" by (rule grows_sub [OF g1])
  have "translate va (kmem s') root a = Some (pa n + PAGE_OFFSET_4KB a)"
    using graft_translate_page(1) [OF g t1 ab e(1,2)] e(3) by (simp add: res)
  moreover have "kmem s' x = 0" if "same_page x n" for x
  proof -
    have "t \<noteq> n" using wf_fresh [OF g(1) valid_table_path t1] g(2) by blast
    then have "\<not> same_page (t + 8 * PTE64_INDEX a) n"
      using slot_fresh [OF wf_aligned [OF g(1) valid_table_path t1] pte_index_less(1) g(3)] by blast
    then show ?thesis using that by (auto simp: res graft_def)
  qed
  moreover have "translate va (kmem s') root y = translate va (kmem s) root y"
    if "y < 0x1000000000000" "\<not> same_page a y" for y
    using graft_translate_page(2) [OF g t1 ab e(1,2) a that] g1 by (simp add: res grows_def)
  moreover have "wf_tables va (kmem s') root (set (kpages s'))"
  proof -
    have "set ps = set (kpages s1) - {n}" using gp1 by (auto simp: ps good_pages_def)
    then show ?thesis using graft_wf [OF g valid_table_path t1 pte_index_less(1) ab e(1,2)] by (simp add: res)
  qed
  moreover have "good_pages va pa (kpages s')" "n \<notin> set (kpages s')" using gp1 by (simp_all add: res good_pages_def)
  moreover have "n \<in> set (kpages s)" "set (kpages s') \<subseteq> set (kpages s)" using sub by (auto simp: ps res)
  ultimately show ?thesis using res(1) by blast
qed

section \<open>Properties\<close>

text \<open>
  C23: a page fault at an address of a live range that is not mapped yet is handled: afterwards the
  address translates to the same offset in a page that came from the kernel's page allocator and is
  all zero, every address of another page translates as before, and the tables are still a tree.
  The hypotheses on the pages are what \<open>get_zeroed_page\<close>, \<open>__pa\<close> and \<open>__va\<close> promise, with the four
  pages that a fault can need.
\<close>

theorem pagefault_maps_page:
  assumes i: "vspace_inv vs L" and r: "r \<in> L" "unat a \<in> span r" and ec: "error_code \<noteq> 2"
    and root: "root = va (CR3_TO_PML4E64_PA cr3)" and wf: "wf_tables va (kmem s) root (set (kpages s))"
    and gp: "good_pages va pa (kpages s)" and len: "4 \<le> length (kpages s)"
    and un: "translate va (kmem s) root a = None"
    and h: "petmem_handle_pagefault va pa cr3 vs a error_code s = (rc, s')"
  shows "rc = 0
       \<and> (\<exists>pg \<in> set (kpages s). translate va (kmem s') root a = Some (pa pg + PAGE_OFFSET_4KB a)
            \<and> (\<forall>x. same_page x pg \<longrightarrow> kmem s' x = 0))
       \<and> (\<forall>y < 0x1000000000000. \<not> same_page a y \<longrightarrow> translate va (kmem s') root y = translate va (kmem s) root y)
       \<and> wf_tables va (kmem s') root (set (kpages s'))"
  using handle_pagefault_spec [OF assms] by blast

text \<open>A machine with an empty top table at address \<open>0x5000\<close>, eight free pages and the identity as linear mapping.\<close>

definition fresh_machine :: kstate where
  "fresh_machine = \<lparr>kmem = (\<lambda>_. 0), kpages = [0x6000, 0x7000, 0x8000, 0x9000, 0xa000, 0xb000, 0xc000, 0xd000]\<rparr>"

lemma fresh_machine_ok:
  "wf_tables id (kmem fresh_machine) 0x5000 (set (kpages fresh_machine))" "good_pages id id (kpages fresh_machine)"
  "translate id (kmem fresh_machine) 0x5000 x = None"
proof -
  have t: "tbl id (kmem fresh_machine) 0x5000 p = (if p = [] then Some 0x5000 else None)" for p
    by (cases p) (simp_all add: fresh_machine_def)
  show "wf_tables id (kmem fresh_machine) 0x5000 (set (kpages fresh_machine))"
    unfolding wf_tables_def t by (auto simp: fresh_machine_def page_aligned_def split: if_splits)
  show "translate id (kmem fresh_machine) 0x5000 x = None"
    by (simp add: translate_def table_path_def fresh_machine_def)
  have "list_all page_pa (kpages fresh_machine)" by code_simp
  then show "good_pages id id (kpages fresh_machine)"
    by (simp add: good_pages_def list_all_iff fresh_machine_def page_aligned_def)
qed

theorem pagefault_maps_page_witness:
  "\<exists>pg s'. petmem_handle_pagefault id id 0x5000 vm1 0x1000000123 1 fresh_machine = (0, s')
     \<and> translate id (kmem s') 0x5000 0x1000000123 = Some (pg + PAGE_OFFSET_4KB 0x1000000123)"
proof -
  obtain rc s' where h: "petmem_handle_pagefault id id 0x5000 vm1 0x1000000123 1 fresh_machine = (rc, s')"
    by (cases "petmem_handle_pagefault id id 0x5000 vm1 0x1000000123 1 fresh_machine") auto
  have root: "0x5000 = id (CR3_TO_PML4E64_PA 0x5000)" by (simp add: CR3_TO_PML4E64_PA_def)
  have m: "(68719476736, 12288) \<in> {(68719476736 :: nat, 12288 :: nat)}"
    "unat (0x1000000123 :: u64) \<in> span (68719476736, 12288)" "(1 :: u32) \<noteq> 2"
    by (simp_all add: span_def)
  have l: "4 \<le> length (kpages fresh_machine)" by (simp add: fresh_machine_def)
  show ?thesis
    using pagefault_maps_page [OF vm_invs(2) m root fresh_machine_ok(1,2) l fresh_machine_ok(3) h] h by auto
qed

text \<open>
  A permission fault and a fault outside every live range are refused with -1 and change
  nothing.
\<close>

theorem pagefault_refuses:
  assumes "vspace_inv vs L" and "error_code = 2 \<or> (\<forall>r \<in> L. unat a \<notin> span r)"
  shows "petmem_handle_pagefault va pa cr3 vs a error_code s = (- 1, s)"
proof -
  have "error_code = 2 \<or> petmem_find_address vs a = None"
    using find_address_live [OF assms(1), of a] assms(2) by (auto split: option.splits)
  then show ?thesis by (auto simp: petmem_handle_pagefault_def)
qed

theorem pagefault_refuses_witness:
  "petmem_handle_pagefault id id 0x5000 vm1 0x1000003000 1 fresh_machine = (- 1, fresh_machine)
     \<and> petmem_handle_pagefault id id 0x5000 vm1 0x1000000000 2 fresh_machine = (- 1, fresh_machine)"
  using pagefault_refuses [OF vm_invs(2)] by (simp add: span_def)

end
