(* ===== verification/FreeWalkProps.thy ===== *)
theory FreeWalkProps
  imports FreeWalk PageWalkProps
begin

text \<open>
  What the release of a range does to the page tables.  As long as the walk stays inside one page
  table it clears and frees exactly the entries of the range and the one after it; a range in a
  part of the address space that has no tables yet makes it write through a null pointer.
\<close>

section \<open>A range without tables\<close>

text \<open>
  Releasing a range whose top-level entry, or whose second-level entry, is absent writes through
  the null pointer \<open>pd_cur\<close>, unless the range starts at the first entry of a page table.
\<close>

theorem free_untouched_range_faults:
  assumes "find (\<lambda>c. mm_start c = vaddr \<and> mm_allocated c) (vs_nodes vs) = Some c"
    and "PTE64_INDEX vaddr \<noteq> 0" and "PML4E64_INDEX vaddr = 0"
    and "\<not> ent_present (kmem s (va (CR3_TO_PML4E64_PA cr3)))
       \<or> \<not> ent_present (kmem s (va (ent_base (kmem s (va (CR3_TO_PML4E64_PA cr3)))) + 8 * PDPE64_INDEX vaddr))"
  shows "petmem_free_range va cr3 vs vaddr s = fail (BadDeref NULL)"
proof -
  let ?f = "free_walk_init va cr3 vaddr s"
  have c: "mm_start c = vaddr" using assms(1) by (auto simp: find_Some_iff)
  have m: "moved (PTE64_INDEX vaddr) 0"
  proof -
    have "unat (PTE64_INDEX vaddr) + 1 < 18446744073709551616" using index_less(4) [of vaddr] by simp
    then have "unat (PTE64_INDEX vaddr + 1) = unat (PTE64_INDEX vaddr) + 1" by (simp add: add_no_wrap)
    then have "PTE64_INDEX vaddr + 1 \<noteq> 0" by (metis add_is_0 one_neq_zero unat_0)
    then show ?thesis using assms(2) by (simp add: moved_def)
  qed
  have "free_step va ?f = Inl (BadDeref NULL)"
    using assms(3,4) m
    by (auto simp: free_step_def free_descend_def free_walk_init_def free_cascade_def free_table_def clear_present_def
        present_field base_field scale Let_def)
  moreover have "pages_covered ?f \<le> n" for n by (simp add: free_walk_init_def)
  ultimately have "free_walk va n ?f = fail (BadDeref NULL)" for n by (simp add: free_walk.simps)
  then show ?thesis by (simp add: petmem_free_range_def assms(1) c)
qed

theorem free_untouched_range_faults_witness:
  "petmem_free_range id 0x5000 vm2 0x1000003000 fresh_machine = fail (BadDeref NULL)"
proof -
  have f: "find (\<lambda>c. mm_start c = 0x1000003000 \<and> mm_allocated c) (vs_nodes vm2)
      = Some \<lparr>mm_node = 2, mm_start = 0x1000003000, mm_size = 0x2000, mm_allocated = True\<rparr>" by code_simp
  have "PTE64_INDEX 0x1000003000 = 3" "PML4E64_INDEX 0x1000003000 = 0" by code_simp+
  then show ?thesis using free_untouched_range_faults [OF f, of fresh_machine id "0x5000"] by (simp add: fresh_machine_def)
qed

section \<open>A range inside one page table\<close>

text \<open>Memory after the present bits of \<open>k\<close> entries of the table \<open>t\<close>, from entry \<open>i\<close> on, were cleared.\<close>

definition cleared :: "(u64 \<Rightarrow> u64) \<Rightarrow> u64 \<Rightarrow> u64 \<Rightarrow> nat \<Rightarrow> u64 \<Rightarrow> u64" where
  "cleared m t i k = (\<lambda>x. if x \<in> (\<lambda>j. t + 8 * (i + of_nat j)) ` {..<k} then set_field pte64 ''present'' 0 (m x) else m x)"

definition present_slots :: "(u64 \<Rightarrow> u64) \<Rightarrow> u64 \<Rightarrow> u64 \<Rightarrow> nat \<Rightarrow> u64 list" where
  "present_slots m t i k = filter (\<lambda>a. ent_present (m a)) (map (\<lambda>j. t + 8 * (i + of_nat j)) [0..<k])"

lemma clear_absent: "\<not> ent_present e \<Longrightarrow> set_field pte64 ''present'' 0 e = e"
proof (rule bit_eqI)
  fix n assume "\<not> ent_present e" and "possible_bit TYPE(u64) n"
  moreover have "field_at pte64 ''present'' = (0, 1)" by code_simp
  ultimately show "bit (set_field pte64 ''present'' 0 e) n = bit e n" by (cases n) (auto simp: bit_set_field)
qed

lemma clear_present_bit: "\<not> ent_present (set_field pte64 ''present'' 0 e)"
proof -
  have "field_at pte64 ''present'' = (0, 1)" by code_simp
  then show ?thesis by (simp add: bit_set_field)
qed

lemma slot_index:
  fixes i :: u64
  assumes "unat i + k < 512" and "j \<le> k"
  shows "i + of_nat j < 512" and "unat (i + of_nat j) = unat i + j"
proof -
  have "unat (of_nat j :: u64) = j" using assms by (intro unat_of_nat_u64) simp
  then show u: "unat (i + of_nat j) = unat i + j"
    using assms add_no_wrap [of i "of_nat j"] by simp
  show "i + of_nat j < 512" using u assms by (simp add: word_less_nat_alt)
qed

lemma cleared_Suc:
  assumes t: "page_aligned t" and k: "unat i + k < 512"
  shows "cleared m t i (Suc k) = (cleared m t i k)(t + 8 * (i + of_nat k) := set_field pte64 ''present'' 0 (m (t + 8 * (i + of_nat k))))"
    and "cleared m t i k (t + 8 * (i + of_nat k)) = m (t + 8 * (i + of_nat k))"
proof -
  have "t + 8 * (i + of_nat k) \<noteq> t + 8 * (i + of_nat j)" if "j < k" for j
  proof
    assume e: "t + 8 * (i + of_nat k) = t + 8 * (i + of_nat j)"
    have "j \<le> k" using that by simp
    then have "i + of_nat k = i + of_nat j"
      using slot_inj [OF t slot_index(1) [OF k order.refl] t slot_index(1) [OF k] e] by blast
    then show False using slot_index(2) [OF k, of k] slot_index(2) [OF k, of j] that by simp
  qed
  then show "cleared m t i k (t + 8 * (i + of_nat k)) = m (t + 8 * (i + of_nat k))" by (auto simp: cleared_def)
  show "cleared m t i (Suc k) = (cleared m t i k)(t + 8 * (i + of_nat k) := set_field pte64 ''present'' 0 (m (t + 8 * (i + of_nat k))))"
    by (auto simp: cleared_def lessThan_Suc)
qed

text \<open>Entries of other tables keep their value.\<close>

lemma cleared_other:
  assumes wf: "wf_tables va m root F" and t: "tbl va m root (table_path a) = Some t" and k: "unat i + k \<le> 512"
    and q: "valid_path q" "tbl va m root q = Some u" "j < 512" "q \<noteq> table_path a"
  shows "cleared m t i k (u + 8 * j) = m (u + 8 * j)"
proof -
  have al: "page_aligned t" "page_aligned u" using wf_aligned [OF wf] valid_table_path t q by blast+
  have ne: "u \<noteq> t" using wf_inj [OF wf valid_table_path q(1) t] q(2,4) by blast
  have "u + 8 * j \<noteq> t + 8 * (i + of_nat l)" if "l < k" for l
  proof
    assume e: "u + 8 * j = t + 8 * (i + of_nat l)"
    have "i + of_nat l < 512" using slot_index(1) [of i "k - 1" l] that k by simp
    then show False using slot_inj [OF al(2) q(3) al(1) _ e] ne by blast
  qed
  then show ?thesis by (auto simp: cleared_def)
qed

lemma cleared_tbl:
  assumes wf: "wf_tables va m root F" and t: "tbl va m root (table_path a) = Some t" and k: "unat i + k \<le> 512"
    and q: "valid_path q"
  shows "tbl va (cleared m t i k) root q = tbl va m root q"
  using q
proof (induction q rule: rev_induct)
  case (snoc j q)
  have q: "valid_path q" "j < 512" using valid_snocD [OF snoc.prems] by blast+
  have "length q \<le> 2" using snoc.prems by (simp add: valid_path_def)
  then have ne: "q \<noteq> table_path a" by (auto simp: table_path_def)
  show ?case
  proof (cases "tbl va m root q")
    case None
    then show ?thesis using snoc.IH [OF q(1)] by (simp add: tbl_snoc)
  next
    case (Some u)
    then show ?thesis using snoc.IH [OF q(1)] cleared_other [OF wf t k q(1) Some q(2) ne] by (simp add: tbl_snoc)
  qed
qed simp

text \<open>The state of the loop after \<open>k\<close> steps.\<close>

definition at_slot :: "(u64 \<Rightarrow> u64) \<Rightarrow> u64 \<Rightarrow> u64 \<Rightarrow> u64 \<Rightarrow> kstate \<Rightarrow> nat \<Rightarrow> fwalk \<Rightarrow> bool" where
  "at_slot va root a t s k f =
     (pdp_index f = PDPE64_INDEX a \<and> pd_index f = PDE64_INDEX a \<and> pml_cur f = root
    \<and> pt_index f = PTE64_INDEX a + of_nat k \<and> pages_covered f = of_nat k
    \<and> kst f = s\<lparr>kmem := cleared (kmem s) t (PTE64_INDEX a) k\<rparr>
    \<and> released f = map (\<lambda>x. va (ent_base (kmem s x))) (present_slots (kmem s) t (PTE64_INDEX a) k))"

lemma path_entries:
  assumes "tbl va m root (table_path a) = Some t" and "PML4E64_INDEX a = 0"
  defines "t1 \<equiv> va (ent_base (m root))"
  defines "t2 \<equiv> va (ent_base (m (t1 + 8 * PDPE64_INDEX a)))"
  shows "ent_present (m root)" and "ent_present (m (t1 + 8 * PDPE64_INDEX a))" and "ent_present (m (t2 + 8 * PDE64_INDEX a))"
    and "t = va (ent_base (m (t2 + 8 * PDE64_INDEX a)))"
    and "tbl va m root [PML4E64_INDEX a] = Some t1" and "tbl va m root [PML4E64_INDEX a, PDPE64_INDEX a] = Some t2"
  using assms by (auto simp: table_path_def split: if_splits)

lemma free_step_slot:
  assumes wf: "wf_tables va (kmem s) root F" and t: "tbl va (kmem s) root (table_path a) = Some t"
    and pml: "PML4E64_INDEX a = 0" and k: "unat (PTE64_INDEX a) + k + 1 < 512" and st: "at_slot va root a t s k f"
  shows "\<exists>f'. free_step va f = Inr f' \<and> at_slot va root a t s (Suc k) f'"
proof -
  let ?i = "PTE64_INDEX a" and ?m = "kmem s"
  let ?c = "cleared ?m t ?i k" and ?x = "t + 8 * (?i + of_nat k)"
  note p = path_entries [OF t pml]
  have kk: "unat ?i + k \<le> 512" "unat ?i + k < 512" using k by simp_all
  have v: "valid_path []" "valid_path [PML4E64_INDEX a]" "valid_path [PML4E64_INDEX a, PDPE64_INDEX a]"
    using pte_index_less by (simp_all add: valid_path_def)
  have al: "page_aligned t" using wf_aligned [OF wf valid_table_path t] .
  have r0: "?c root = ?m root" using cleared_other [OF wf t kk(1) v(1), of root 0] by (simp add: table_path_def)
  have r1: "?c (va (ent_base (?m root)) + 8 * PDPE64_INDEX a) = ?m (va (ent_base (?m root)) + 8 * PDPE64_INDEX a)"
    using cleared_other [OF wf t kk(1) v(2) p(5) pte_index_less(3)] by (simp add: table_path_def)
  have r2: "?c (va (ent_base (?m (va (ent_base (?m root)) + 8 * PDPE64_INDEX a))) + 8 * PDE64_INDEX a)
      = ?m (va (ent_base (?m (va (ent_base (?m root)) + 8 * PDPE64_INDEX a))) + 8 * PDE64_INDEX a)"
    using cleared_other [OF wf t kk(1) v(3) p(6) pte_index_less(2)] by (simp add: table_path_def)
  have "unat (?i + of_nat (Suc k)) = unat ?i + Suc k" using slot_index(2) [of ?i "Suc k" "Suc k"] k by simp
  then have "unat ((?i + of_nat (Suc k)) mod 512) = unat ?i + Suc k" using k by (simp add: unat_mod)
  then have "(?i + of_nat (Suc k)) mod 512 \<noteq> 0" by (metis add_Suc_right nat.distinct(1) unat_0)
  then have nc: "(?i + of_nat k + 1) mod 512 \<noteq> 0" by (simp add: ac_simps)
  have f: "pdp_index f = PDPE64_INDEX a" "pd_index f = PDE64_INDEX a" "pml_cur f = root" "pt_index f = ?i + of_nat k"
    "pages_covered f = of_nat k" "kst f = s\<lparr>kmem := ?c\<rparr>"
    using st by (simp_all add: at_slot_def)
  define g where "g = f\<lparr>pdp_cur := va (ent_base (?m root)) + 8 * PDPE64_INDEX a,
      pd_cur := va (ent_base (?m (va (ent_base (?m root)) + 8 * PDPE64_INDEX a))) + 8 * PDE64_INDEX a,
      pt_cur := ?x, pt_index := ?i + of_nat k + 1,
      pages_covered := of_nat k + 1\<rparr>"
  have d: "free_descend va f = free_user_page va g"
    using p(1-3) r0 r1 r2 f
    by (simp add: free_descend_def present_field base_field scale g_def p(4) [symmetric] Let_def)
  have mx: "kmem (kst g) ?x = ?m ?x" "kst g = s\<lparr>kmem := ?c\<rparr>"
    using st cleared_Suc(2) [OF al kk(2)] by (simp_all add: g_def at_slot_def)
  have ug: "at_slot va root a t s (Suc k) (free_user_page va g)"
  proof (cases "ent_present (?m ?x)")
    case True
    then show ?thesis using st mx cleared_Suc(1) [OF al kk(2), of ?m]
      by (simp add: at_slot_def free_user_page_def present_field base_field put_word_def present_slots_def g_def Let_def)
  next
    case False
    then show ?thesis using st mx cleared_Suc [OF al kk(2), of ?m] clear_absent [OF False]
      by (simp add: at_slot_def free_user_page_def present_field present_slots_def g_def Let_def fun_upd_idem)
  qed
  have "free_step va f = Inr (free_user_page va g)"
    using ug f nc by (simp add: free_step_def d free_cascade_def at_slot_def moved_def ac_simps)
  then show ?thesis using ug by blast
qed

lemma free_walk_slots:
  assumes wf: "wf_tables va (kmem s) root F" and t: "tbl va (kmem s) root (table_path a) = Some t"
    and pml: "PML4E64_INDEX a = 0" and n: "unat (PTE64_INDEX a) + unat n + 1 < 512"
    and st: "at_slot va root a t s k f" and k: "k \<le> Suc (unat n)"
  shows "\<exists>f'. free_walk va n f = ret f' \<and> at_slot va root a t s (Suc (unat n)) f'"
  using st k
proof (induction "Suc (unat n) - k" arbitrary: k f)
  case 0
  then have k: "k = Suc (unat n)" by simp
  have "unat (of_nat k :: u64) = k" using k n by (intro unat_of_nat_u64) simp
  then have "\<not> pages_covered f \<le> n" using 0 k by (simp add: at_slot_def word_le_nat_alt)
  then show ?case using 0 k by (simp add: free_walk.simps)
next
  case (Suc d)
  then have k: "k \<le> unat n" by simp
  have "unat (of_nat k :: u64) = k" using k n by (intro unat_of_nat_u64) simp
  then have c: "pages_covered f \<le> n" using Suc.prems(1) k by (simp add: at_slot_def word_le_nat_alt)
  have "unat (PTE64_INDEX a) + k + 1 < 512" using k n by simp
  from free_step_slot [OF wf t pml this Suc.prems(1)] obtain f1
    where f1: "free_step va f = Inr f1" "at_slot va root a t s (Suc k) f1" by blast
  have "d = Suc (unat n) - Suc k" using Suc.hyps(2) by simp
  from Suc.hyps(1) [OF this f1(2)] k obtain f' where
    "free_walk va n f1 = ret f'" "at_slot va root a t s (Suc (unat n)) f'" by auto
  then show ?case using c f1(1) by (auto simp: free_walk.simps [of va n f])
qed

text \<open>
  C33: releasing a range of \<open>n\<close> pages whose entries lie inside one existing page table ends without a
  fault.  Afterwards exactly the \<open>n + 1\<close> entries from the first one on translate nothing: the pages of
  the range and the page after it; every other address translates as before, and the pages given
  back are those of the present entries among them, in order.
\<close>

theorem free_range_in_table:
  assumes c: "find (\<lambda>c. mm_start c = a \<and> mm_allocated c) (vs_nodes vs) = Some c"
    and pml: "PML4E64_INDEX a = 0" and root: "root = va (CR3_TO_PML4E64_PA cr3)"
    and wf: "wf_tables va (kmem s) root F" and t: "tbl va (kmem s) root (table_path a) = Some t"
    and n: "n = num_pages_of (mm_size c)" "unat (PTE64_INDEX a) + unat n + 1 < 512"
  shows "\<exists>s'. petmem_free_range va cr3 vs a s
             = ret (petmem_free_vspace vs a, s',
                    map (\<lambda>x. va (ent_base (kmem s x))) (present_slots (kmem s) t (PTE64_INDEX a) (unat n + 1)))
           \<and> (\<forall>y. translate va (kmem s') root y =
                (if table_path y = table_path a \<and> PTE64_INDEX a \<le> PTE64_INDEX y \<and> PTE64_INDEX y \<le> PTE64_INDEX a + n
                 then None else translate va (kmem s) root y))"
proof -
  let ?i = "PTE64_INDEX a" and ?k = "Suc (unat n)"
  have a: "mm_start c = a" using c by (auto simp: find_Some_iff)
  have "at_slot va root a t s 0 (free_walk_init va cr3 a s)"
    by (simp add: at_slot_def free_walk_init_def root pml cleared_def present_slots_def)
  from free_walk_slots [OF wf t pml n(2) this] obtain f where
    f: "free_walk va n (free_walk_init va cr3 a s) = ret f" "at_slot va root a t s ?k f" by auto
  let ?m = "cleared (kmem s) t ?i ?k"
  have r: "petmem_free_range va cr3 vs a s
      = ret (petmem_free_vspace vs a, s\<lparr>kmem := ?m\<rparr>, map (\<lambda>x. va (ent_base (kmem s x))) (present_slots (kmem s) t ?i ?k))"
    using c a n(1) f by (simp add: petmem_free_range_def at_slot_def)
  have kk: "unat ?i + ?k \<le> 512" using n(2) by simp
  have tp: "tbl va ?m root (table_path y) = tbl va (kmem s) root (table_path y)" for y
    by (rule cleared_tbl [OF wf t kk valid_table_path])
  have al: "page_aligned t" using wf_aligned [OF wf valid_table_path t] .
  have un: "unat (?i + n) = unat ?i + unat n" using n(2) by (simp add: add_no_wrap)
  have inr: "t + 8 * PTE64_INDEX y \<in> (\<lambda>j. t + 8 * (?i + of_nat j)) ` {..<?k} \<longleftrightarrow> ?i \<le> PTE64_INDEX y \<and> PTE64_INDEX y \<le> ?i + n" for y
  proof
    assume "t + 8 * PTE64_INDEX y \<in> (\<lambda>j. t + 8 * (?i + of_nat j)) ` {..<?k}"
    then obtain j where e: "t + 8 * PTE64_INDEX y = t + 8 * (?i + of_nat j)" "j \<in> {..<?k}" by (rule imageE)
    have "j \<le> unat n" using e(2) by simp
    note j = this e(1)
    have "unat ?i + unat n < 512" using n(2) by simp
    note ix = slot_index [OF this j(1)]
    have "PTE64_INDEX y = ?i + of_nat j" using slot_inj [OF al pte_index_less(1) al ix(1) j(2)] by blast
    then show "?i \<le> PTE64_INDEX y \<and> PTE64_INDEX y \<le> ?i + n" using ix(2) un j(1) by (simp add: word_le_nat_alt)
  next
    assume y: "?i \<le> PTE64_INDEX y \<and> PTE64_INDEX y \<le> ?i + n"
    let ?j = "unat (PTE64_INDEX y) - unat ?i"
    have j: "?j < ?k" "unat ?i + ?j = unat (PTE64_INDEX y)" using y un unfolding word_le_nat_alt by linarith+
    have "unat ?i + unat n < 512" using n(2) by simp
    then have "PTE64_INDEX y = ?i + of_nat ?j" using slot_index(2) [of ?i "unat n" ?j] j by (simp add: word_unat_eq_iff)
    then show "t + 8 * PTE64_INDEX y \<in> (\<lambda>j. t + 8 * (?i + of_nat j)) ` {..<?k}" using j(1) by (metis imageI lessThan_iff)
  qed
  have "translate va ?m root y =
      (if table_path y = table_path a \<and> ?i \<le> PTE64_INDEX y \<and> PTE64_INDEX y \<le> ?i + n
       then None else translate va (kmem s) root y)" for y
  proof (cases "table_path y = table_path a")
    case True
    then show ?thesis using tp [of y] t inr [of y] clear_present_bit
      by (simp add: translate_def cleared_def Let_def)
  next
    case False
    have "?m (u + 8 * PTE64_INDEX y) = kmem s (u + 8 * PTE64_INDEX y)"
      if "tbl va (kmem s) root (table_path y) = Some u" for u
      using cleared_other [OF wf t kk valid_table_path that pte_index_less(1) False] .
    then show ?thesis using tp [of y] False by (simp add: translate_def split: option.split)
  qed
  then show ?thesis using r by (intro exI [of _ "s\<lparr>kmem := ?m\<rparr>"]) simp
qed

text \<open>The machine after the first page of the first range was touched.\<close>

definition touched_machine :: kstate where
  "touched_machine = snd (petmem_handle_pagefault id id 0x5000 vm1 0x1000000000 1 fresh_machine)"

lemma touched_machine_ok:
  "wf_tables id (kmem touched_machine) 0x5000 (set (kpages touched_machine))"
  "\<exists>t. tbl id (kmem touched_machine) 0x5000 (table_path 0x1000000000) = Some t"
proof -
  obtain rc where h: "petmem_handle_pagefault id id 0x5000 vm1 0x1000000000 1 fresh_machine = (rc, touched_machine)"
    unfolding touched_machine_def by (metis surjective_pairing)
  have root: "0x5000 = id (CR3_TO_PML4E64_PA 0x5000)" by (simp add: CR3_TO_PML4E64_PA_def)
  have m: "(68719476736, 12288) \<in> {(68719476736 :: nat, 12288 :: nat)}"
    "unat (0x1000000000 :: u64) \<in> span (68719476736, 12288)" "(1 :: u32) \<noteq> 2"
    by (simp_all add: span_def)
  have l: "4 \<le> length (kpages fresh_machine)" by (simp add: fresh_machine_def)
  note s = handle_pagefault_spec [OF vm_invs(2) m root fresh_machine_ok(1,2) l fresh_machine_ok(3) h]
  show "wf_tables id (kmem touched_machine) 0x5000 (set (kpages touched_machine))" using s by blast
  have "translate id (kmem touched_machine) 0x5000 0x1000000000 \<noteq> None" using s by auto
  then show "\<exists>t. tbl id (kmem touched_machine) 0x5000 (table_path 0x1000000000) = Some t"
    by (auto simp: translate_def split: option.splits)
qed

theorem free_range_in_table_witness:
  "\<exists>s' rel. petmem_free_range id 0x5000 vm1 0x1000000000 touched_machine
       = ret (petmem_free_vspace vm1 0x1000000000, s', rel)
     \<and> translate id (kmem s') 0x5000 0x1000000000 = None"
proof -
  have f: "find (\<lambda>c. mm_start c = 0x1000000000 \<and> mm_allocated c) (vs_nodes vm1)
      = Some \<lparr>mm_node = 1, mm_start = 0x1000000000, mm_size = 0x3000, mm_allocated = True\<rparr>" by code_simp
  have i: "PTE64_INDEX 0x1000000000 = 0" "PML4E64_INDEX 0x1000000000 = 0" "num_pages_of 0x3000 = 3" by code_simp+
  have root: "0x5000 = id (CR3_TO_PML4E64_PA 0x5000)" by (simp add: CR3_TO_PML4E64_PA_def)
  obtain t where t: "tbl id (kmem touched_machine) 0x5000 (table_path 0x1000000000) = Some t"
    using touched_machine_ok(2) by blast
  show ?thesis using free_range_in_table [OF f i(2) root touched_machine_ok(1) t refl] i by auto
qed

end
