(* ===== verification/PetmemMainProps.thy ===== *)
theory PetmemMainProps
  imports PetmemMain BuddyProps FreeWalkProps
begin

text \<open>
  The device as a whole: what \<open>ADD_MEMORY\<close> sets up, what an allocation request reserves, that no request
  breaks the map of virtual memory, and where the operations on physical pages go wrong.
\<close>

section \<open>Adding memory\<close>

text \<open>What \<open>fls\<close> promises: the position of the highest set bit, counted from one.\<close>

definition fls_ok :: "(u32 \<Rightarrow> nat) \<Rightarrow> bool" where
  "fls_ok fls \<longleftrightarrow> fls 0 = 0 \<and> (\<forall>x. x \<noteq> 0 \<longrightarrow> 0 < fls x \<and> 2 ^ (fls x - 1) \<le> unat x \<and> unat x < 2 ^ fls x)"

fun pools_tile :: "nat \<Rightarrow> buddy_mempool list \<Rightarrow> nat \<Rightarrow> bool" where
  "pools_tile a [] b = (a = b)"
| "pools_tile a (p # ps) b = (unat (base_addr p) = a \<and> pools_tile (a + 2 ^ pool_order p) ps b)"

lemma int_shift:
  assumes "j < 31"
  shows "scast (push_bit j 1 :: u32) = (2 ^ j :: u64)" and "unat (push_bit j 1 :: u32) = 2 ^ j"
proof -
  have lt: "(2 :: nat) ^ j < 2 ^ 31" using assms by (intro power_strict_increasing) simp_all
  have e: "(push_bit j 1 :: u32) = of_nat (2 ^ j)" by simp
  have "signed_take_bit 31 (int m) = int m" if "m < 2 ^ 31" for m
    using that by (intro signed_take_bit_int_eq_self) simp_all
  from this [OF lt] show "scast (push_bit j 1 :: u32) = (2 ^ j :: u64)" unfolding e signed_of_nat by simp
  show "unat (push_bit j 1 :: u32) = 2 ^ j" unfolding e using lt by (intro unat_of_nat_u32) simp
qed

lemma new_pool:
  assumes "base \<noteq> NULL" and "12 \<le> ord" and "ord < 64" and "unat base + 2 ^ ord \<le> 2 ^ 64"
  obtains mp mp' where "buddy_init base ord PAGE_SHIFT True = Inr (Some mp)" and "buddy_free mp base ord = Inr mp'"
    and "buddy_inv mp' {}" and "pool_order mp' = ord" and "base_addr mp' = base"
proof -
  obtain mp where mp: "buddy_init base ord 12 True = Inr (Some mp)"
    using assms(2) by (auto simp: buddy_init_def sizeof_block_def Let_def)
  note f = fresh_pool_inv [OF mp assms(3,1,4)]
  have s: "served mp ord = ord" using core_geom [OF f(1)] f(2) by (simp add: served_def geom_def)
  from buddy_free_spec [OF f(1), of ord 0] s f obtain mp' where
    "buddy_free mp (addr mp 0) ord = Inr mp'" "buddy_inv mp' {}" "same_pool mp mp'" by auto
  moreover have "addr mp 0 = base" using f(3) by (simp add: addr_def)
  ultimately show ?thesis using that mp f by (auto simp: PAGE_SHIFT_def same_pool_def)
qed

lemma add_memory_step:
  assumes k: "fls n = Suc k"
    and mp: "buddy_init base (k + 12) PAGE_SHIFT True = Inr (Some mp)" "buddy_free mp base (k + 12) = Inr mp'"
  shows "add_memory fls (\<lambda>_. True) base n pools
       = add_memory fls (\<lambda>_. True) (base + scast (push_bit k 1 :: u32) * PAGE_SIZE) (n - push_bit k 1) (mp' # pools)"
proof -
  have e: "Suc k + PAGE_SHIFT - 1 = k + 12" "Suc k - 1 = k" "Suc k \<noteq> 0" by (simp_all add: PAGE_SHIFT_def)
  show ?thesis
    by (subst add_memory.simps) (simp only: k Let_def e mp pbind_simps option.case if_False)
qed

lemma add_memory_pools:
  assumes fls: "fls_ok fls" and b: "base \<noteq> NULL" and n: "unat n < 2 ^ 31" and fit: "unat base + unat n * 4096 < 2 ^ 64"
  shows "\<exists>ps. add_memory fls (\<lambda>_. True) base n pools = ret (rev ps @ pools)
           \<and> pools_tile (unat base) ps (unat base + unat n * 4096)
           \<and> (\<forall>p \<in> set ps. buddy_inv p {} \<and> pool_order p < fls n + 12)
           \<and> sorted_wrt (\<lambda>p q. pool_order q < pool_order p) ps"
  using assms(2-4)
proof (induction "unat n" arbitrary: n base pools rule: less_induct)
  case less
  show ?case
  proof (cases "n = 0")
    case True
    then show ?thesis using fls by (intro exI [of _ "[]"]) (simp add: add_memory.simps fls_ok_def)
  next
    case False
    define k where "k = fls n - 1"
    have k: "fls n = Suc k" "2 ^ k \<le> unat n" "unat n < 2 ^ Suc k"
      using fls False by (auto simp: fls_ok_def k_def)
    have "(2 :: nat) ^ k < 2 ^ 31" using k(2) less.prems(2) by linarith
    then have k31: "k < 31" using power_less_imp_less_exp [of 2 k 31] by simp
    note sh = int_shift [OF k31]
    have k4: "2 ^ k * 4096 \<le> unat n * 4096" using k(2) by simp
    have le: "unat base + 2 ^ (k + 12) \<le> 2 ^ 64" using less.prems(3) k4 by (simp add: power_add)
    obtain mp mp' where mp: "buddy_init base (k + 12) PAGE_SHIFT True = Inr (Some mp)" "buddy_free mp base (k + 12) = Inr mp'"
      "buddy_inv mp' {}" "pool_order mp' = k + 12" "base_addr mp' = base"
      using new_pool [OF less.prems(1) _ _ le] k31 by auto
    define n' where "n' = n - push_bit k 1"
    define base' where "base' = base + scast (push_bit k 1 :: u32) * PAGE_SIZE"
    have n': "unat n' = unat n - 2 ^ k" using k(2) sh(2) by (simp add: n'_def unat_sub word_le_nat_alt)
    have "unat (2 ^ k * PAGE_SIZE) = 2 ^ k * 4096"
    proof -
      have "(2 :: nat) ^ k * 4096 < 2 ^ 64" using k4 less.prems(3) by simp
      then show ?thesis using k31 by (simp add: PAGE_SIZE_def unat_word_ariths unat_pow2_u64)
    qed
    then have base': "unat base' = unat base + 2 ^ k * 4096"
      unfolding base'_def sh(1) using k4 less.prems(3) add_no_wrap [of base "2 ^ k * PAGE_SIZE"] by simp
    have b0: "base' \<noteq> NULL" using base' less.prems(1) by (metis add_is_0 unat_0 unat_eq_0)
    have "(0 :: nat) < 2 ^ k" by simp
    then have lt: "unat n' < unat n" using n' k(2) by linarith
    have n31: "unat n' < 2 ^ 31" using lt less.prems(2) by linarith
    have top: "unat base' + unat n' * 4096 = unat base + unat n * 4096"
      using base' n' k4 by (simp add: diff_mult_distrib)
    then have fit': "unat base' + unat n' * 4096 < 2 ^ 64" using less.prems(3) by simp
    from less.hyps [OF lt b0 n31 fit', of "mp' # pools"] obtain ps where
      ps: "add_memory fls (\<lambda>_. True) base' n' (mp' # pools) = ret (rev ps @ mp' # pools)"
        "pools_tile (unat base') ps (unat base' + unat n' * 4096)"
        "\<forall>p \<in> set ps. buddy_inv p {} \<and> pool_order p < fls n' + 12"
        "sorted_wrt (\<lambda>p q. pool_order q < pool_order p) ps" by blast
    have "fls n' \<le> k"
    proof (cases "n' = 0")
      case True
      then show ?thesis using fls by (simp add: fls_ok_def)
    next
      case False
      then have "2 ^ (fls n' - 1) \<le> unat n'" "0 < fls n'" using fls by (auto simp: fls_ok_def)
      moreover have "unat n' < 2 ^ k" using n' k(3) \<open>0 < 2 ^ k\<close> by (simp add: less_diff_conv2 k(2))
      ultimately have "(2 :: nat) ^ (fls n' - 1) < 2 ^ k" by linarith
      then have "fls n' - 1 < k" by (rule power_less_imp_less_exp [rotated]) simp
      then show ?thesis by simp
    qed
    then have sm: "\<forall>p \<in> set ps. pool_order p < k + 12" using ps(3) by fastforce
    have step: "add_memory fls (\<lambda>_. True) base n pools = ret (rev (mp' # ps) @ pools)"
      using add_memory_step [of fls n k, OF k(1) mp(1,2), of pools] ps(1) by (simp add: n'_def base'_def)
    have "pools_tile (unat base + 2 ^ k * 4096) ps (unat base + unat n * 4096)" using ps(2) [unfolded top] unfolding base' .
    then show ?thesis
      using step ps(4) mp(3-5) sm ps(3) k(1)
      by (intro exI [of _ "mp' # ps"]) (auto simp: power_add)
  qed
qed

text \<open>A reference for \<open>fls\<close>, for the witnesses.\<close>

fun bit_length :: "nat \<Rightarrow> nat" where
  "bit_length n = (if n = 0 then 0 else Suc (bit_length (n div 2)))"

declare bit_length.simps [simp del]

lemma bit_length_bounds: "n \<noteq> 0 \<Longrightarrow> 0 < bit_length n \<and> 2 ^ (bit_length n - 1) \<le> n \<and> n < 2 ^ bit_length n"
proof (induction n rule: bit_length.induct)
  case (1 n)
  have e: "bit_length n = Suc (bit_length (n div 2))" using "1.prems" by (simp add: bit_length.simps [of n])
  show ?case
  proof (cases "n div 2 = 0")
    case True
    then show ?thesis using "1.prems" by (simp add: e bit_length.simps [of 0])
  next
    case False
    from "1.IH" [OF "1.prems" False] obtain k where
      k: "bit_length (n div 2) = Suc k" "2 ^ k \<le> n div 2" "n div 2 < 2 * 2 ^ k" by (cases "bit_length (n div 2)") auto
    then show ?thesis by (simp add: e) linarith
  qed
qed

definition fls_ref :: "u32 \<Rightarrow> nat" where
  "fls_ref x = bit_length (unat x)"

lemma fls_ref_ok: "fls_ok fls_ref"
proof -
  have "0 < bit_length (unat x) \<and> 2 ^ (bit_length (unat x) - 1) \<le> unat x \<and> unat x < 2 ^ bit_length (unat x)"
    if "x \<noteq> 0" for x :: u32
    using bit_length_bounds [of "unat x"] that by (simp add: unat_eq_0)
  then show ?thesis by (simp add: fls_ok_def fls_ref_def bit_length.simps [of 0])
qed

section \<open>Requests\<close>

lemma request_pages_shift: "request_pages sz = drop_bit 12 (sz + 4095)"
proof -
  have m: "(PAGE_SIZE - 1 :: u64) = mask 12" by (simp add: PAGE_SIZE_def mask_eq_exp_minus_1)
  have "drop_bit 12 (w AND NOT (mask 12)) = drop_bit 12 w" for w :: u64
    by (intro bit_eqI) (auto simp: bit_simps dest: bit_imp_le_length)
  then have "request_pages sz = drop_bit 12 (sz + mask 12)" by (simp add: request_pages_def PAGE_SHIFT_def m)
  then show ?thesis by (simp add: mask_eq_exp_minus_1)
qed

lemma request_pages_nat:
  assumes "unat sz + 4095 < 2 ^ 64"
  shows "unat (request_pages sz) = (unat sz + 4095) div 4096"
proof -
  have "unat (sz + 4095) = unat sz + 4095" using assms add_no_wrap [of sz 4095] by simp
  then show ?thesis by (simp add: request_pages_shift drop_bit_eq_div unat_div)
qed

lemma request_pages_wraps:
  assumes "2 ^ 64 \<le> unat sz + 4095"
  shows "request_pages sz = 0"
proof -
  have "unat (sz + 4095) = unat sz + 4095 - 2 ^ 64"
    using assms unat_u64_less [of sz] by (simp add: unat_word_ariths mod_if)
  then have "unat (sz + 4095) < 4096" using unat_u64_less [of sz] by simp
  then have "unat (sz + 4095) div 4096 = 0" by simp
  then show ?thesis by (simp add: request_pages_shift word_unat_eq_iff drop_bit_eq_div unat_div)
qed

section \<open>Requests for virtual memory\<close>

lemma lazy_alloc_outcome:
  assumes i: "vspace_inv (vmap d) L" and cp: "copy_in a" "copy_out a" and fr: "new_node a \<notin> mm_node ` set (vs_nodes (vmap d))"
    and sz: "0 < unat (word0 a)" "unat (word0 a) + 4095 < 2 ^ 64"
    and r: "lazy_alloc a d = (rc, out, d')"
  shows "rc = 0 \<and> (\<exists>k. unat (word0 a) \<le> 4096 * k \<and> 4096 * k < unat (word0 a) + 4096 \<and>
           (case out of
              None \<Rightarrow> d' = d \<and> (\<forall>x. region_lo \<le> x \<and> x + 4096 * k \<le> region_hi \<longrightarrow> (\<exists>q \<in> L. span q \<inter> {x ..< x + 4096 * k} \<noteq> {}))
            | Some v \<Rightarrow> 4096 dvd unat v \<and> (\<forall>q \<in> L. span q \<inter> span (unat v, 4096 * k) = {})
                \<and> vspace_inv (vmap d') (insert (unat v, 4096 * k) L)))"
proof -
  let ?n = "request_pages (word0 a)"
  obtain v vs where al: "petmem_alloc_vspace (vmap d) ?n (new_node a) = (v, vs)" by fastforce
  have n: "unat ?n = (unat (word0 a) + 4095) div 4096" by (rule request_pages_nat [OF sz(2)])
  have bd: "unat (word0 a) \<le> 4096 * unat ?n" "4096 * unat ?n < unat (word0 a) + 4096" "0 < unat ?n" using sz(1) n by linarith+
  have res: "rc = 0 \<and> d' = d\<lparr>vmap := vs\<rparr> \<and> out = (if v = 0 then None else Some v)"
    using r cp al by (auto simp: lazy_alloc_def split: if_splits)
  note spec = vspace_alloc_outcome [OF i bd(3) fr al]
  show ?thesis
  proof (cases "v = 0")
    case True
    then show ?thesis using spec res bd by (intro conjI exI [of _ "unat ?n"]) auto
  next
    case False
    then show ?thesis using spec res bd by (intro conjI exI [of _ "unat ?n"]) auto
  qed
qed

section \<open>Properties\<close>

text \<open>
  C30: \<open>ADD_MEMORY\<close> of \<open>n\<close> pages ends, and adds pools that tile exactly the donated range: the base address
  and order of each continue the one before, every pool satisfies the allocator's invariant with
  nothing allocated, and the orders decrease strictly, so that the smallest pool is first in the
  list.  The hypothesis on \<open>fls\<close> is its documented meaning.
\<close>

theorem add_memory_splits:
  assumes "fls_ok fls" and "base \<noteq> NULL" and "unat n < 2 ^ 31" and "unat base + unat n * 4096 < 2 ^ 64"
  shows "\<exists>ps. add_memory fls (\<lambda>_. True) base n pools = ret (rev ps @ pools)
           \<and> pools_tile (unat base) ps (unat base + unat n * 4096)
           \<and> (\<forall>p \<in> set ps. buddy_inv p {}) \<and> sorted_wrt (\<lambda>p q. pool_order q < pool_order p) ps"
  using add_memory_pools [OF assms, of pools] by blast

theorem add_memory_splits_witness:
  "\<exists>ps. add_memory fls_ref (\<lambda>_. True) 0x100000 5 [] = ret (rev ps @ []) \<and> pools_tile 1048576 ps 1069056"
  using add_memory_splits [OF fls_ref_ok, of "0x100000" 5 "[]"] by auto

text \<open>
  A \<open>LAZY_ALLOC\<close> request for \<open>size > 0\<close> bytes (not within a page of \<open>2 ^ 64\<close>) returns 0; when it yields an
  address, whole pages of at least \<open>size\<close> bytes and less than one page more are reserved there,
  page-aligned and disjoint from every live range; otherwise nothing changes and no gap is large
  enough.
\<close>

theorem lazy_alloc_reserves:
  assumes i: "vspace_inv (vmap d) L" and cp: "copy_in a" "copy_out a" and fr: "new_node a \<notin> mm_node ` set (vs_nodes (vmap d))"
    and sz: "0 < unat (word0 a)" "unat (word0 a) + 4095 < 2 ^ 64"
    and r: "lazy_alloc a d = (rc, out, d')"
  shows "rc = 0 \<and> (\<exists>k. unat (word0 a) \<le> 4096 * k \<and> 4096 * k < unat (word0 a) + 4096 \<and>
           (case out of
              None \<Rightarrow> d' = d \<and> (\<forall>x. region_lo \<le> x \<and> x + 4096 * k \<le> region_hi \<longrightarrow> (\<exists>q \<in> L. span q \<inter> {x ..< x + 4096 * k} \<noteq> {}))
            | Some v \<Rightarrow> 4096 dvd unat v \<and> (\<forall>q \<in> L. span q \<inter> span (unat v, 4096 * k) = {})
                \<and> vspace_inv (vmap d') (insert (unat v, 4096 * k) L)))"
  by (rule lazy_alloc_outcome [OF assms])

text \<open>A device with no memory and a new map.\<close>

definition dev0 :: petmem where
  "dev0 = \<lparr>pool_list = [], vmap = vm0, kern = fresh_machine, given_back = []\<rparr>"

definition req :: "u64 \<Rightarrow> ioctl_arg" where
  "req sz = \<lparr>raw = 0, word0 = sz, word1 = 0, copy_in = True, copy_out = True, new_node = 2\<rparr>"

theorem lazy_alloc_reserves_witness:
  "\<exists>d' k. lazy_alloc (req 5000) dev0 = (0, Some 0x1000000000, d') \<and> 5000 \<le> 4096 * k
     \<and> vspace_inv (vmap d') {(68719476736, 4096 * k)}"
proof -
  have "request_pages 5000 = 2" "petmem_alloc_vspace vm0 2 2 = (0x1000000000, snd (petmem_alloc_vspace vm0 2 2))" by code_simp+
  then have r: "lazy_alloc (req 5000) dev0
      = (0, Some 0x1000000000, dev0\<lparr>vmap := snd (petmem_alloc_vspace vm0 2 2)\<rparr>)"
    by (auto simp: lazy_alloc_def req_def dev0_def Let_def split: prod.splits)
  have i: "vspace_inv (vmap dev0) {}" using vm_invs(1) by (simp add: dev0_def)
  have f: "new_node (req 5000) \<notin> mm_node ` set (vs_nodes (vmap dev0))"
    by (simp add: req_def dev0_def vm0_def petmem_init_process_def)
  show ?thesis using lazy_alloc_reserves [OF i _ _ f _ _ r] r by (auto simp: req_def)
qed

text \<open>
  A request within a page of \<open>2 ^ 64\<close> bytes wraps around to zero pages and is granted: the user gets
  the start of the region and an allocated range of size zero.
\<close>

theorem huge_request_gets_empty_range:
  assumes "2 ^ 64 \<le> unat (word0 a) + 4095" and "copy_in a" and "copy_out a"
    and "vmap d = petmem_init_process p garbage"
  shows "\<exists>d'. lazy_alloc a d = (0, Some PETMEM_REGION_START, d') \<and> hd (petmem_dump_vspace (vmap d')) = (True, PETMEM_REGION_START, 0)"
  using assms(2-4) request_pages_wraps [OF assms(1)]
  by (simp add: lazy_alloc_def petmem_alloc_vspace_def petmem_init_process_def petmem_dump_vspace_def
      PETMEM_REGION_START_def Let_def)

theorem huge_request_gets_empty_range_witness:
  "\<exists>d'. lazy_alloc (req 0xffffffffffffffff) dev0 = (0, Some PETMEM_REGION_START, d')"
  using huge_request_gets_empty_range [of "req 0xffffffffffffffff" dev0 1 False]
  by (auto simp: req_def dev0_def vm0_def)



text \<open>
  After three pages were added, a request for two pages runs into the \<open>BUG_ON\<close> of \<open>buddy_alloc\<close>: the
  smallest pool is asked first, although its order is less than the requested one.
\<close>

theorem alloc_pages_bug:
  assumes f: "fls_ok fls" and b: "base \<noteq> NULL" "unat base + 12288 < 2 ^ 64" and g: "get_order 0x2000 = 1"
  shows "\<exists>pools. add_memory fls (\<lambda>_. True) base 3 [] = ret pools \<and> petmem_alloc_pages get_order pa 2 pools = Inl BugOn"
proof -
  have fl: "fls x = Suc m" if "x \<noteq> 0" "2 ^ m \<le> unat x" "unat x < 2 ^ Suc m" for x :: u32 and m
  proof -
    have x: "0 < fls x" "2 ^ (fls x - 1) \<le> unat x" "unat x < 2 ^ fls x" using f that(1) by (auto simp: fls_ok_def)
    have "(2 :: nat) ^ (fls x - 1) < 2 ^ Suc m" "(2 :: nat) ^ m < 2 ^ fls x" using x that by linarith+
    then have "fls x - 1 < Suc m" "m < fls x" by (simp_all only: power_strict_increasing_iff one_less_numeral_iff semiring_norm)
    then show ?thesis using x(1) by simp
  qed
  have f3: "fls 3 = Suc 1" "fls 1 = Suc 0" "fls 0 = 0" using fl [of 3 1] fl [of 1 0] f by (simp_all add: fls_ok_def)
  have u: "unat (base + 0x2000) = unat base + 8192" using b(2) add_no_wrap [of base "0x2000"] by simp
  have nz: "base + 0x2000 \<noteq> NULL" using u by (metis add_is_0 unat_0 zero_neq_numeral)
  obtain m1 p1 where p1: "buddy_init base (1 + 12) PAGE_SHIFT True = Inr (Some m1)" "buddy_free m1 base (1 + 12) = Inr p1"
    by (rule new_pool [OF b(1), of "1 + 12"]) (use b(2) in simp_all)
  obtain m2 p2 where p2: "buddy_init (base + 0x2000) (0 + 12) PAGE_SHIFT True = Inr (Some m2)"
    "buddy_free m2 (base + 0x2000) (0 + 12) = Inr p2" "pool_order p2 = 12"
    by (rule new_pool [OF nz, of "0 + 12"]) (use b(2) u in simp_all)
  have s: "base + scast (push_bit 1 1 :: u32) * PAGE_SIZE = base + 0x2000" "3 - push_bit 1 1 = (1 :: u32)" "1 - push_bit 0 1 = (0 :: u32)"
    by (simp_all add: int_shift(1) [of 1, simplified] PAGE_SIZE_def)
  have "add_memory fls (\<lambda>_. True) base 3 [] = ret [p2, p1]"
    using add_memory_step [of fls 3 1, OF f3(1) p1, of "[]"] add_memory_step [of fls 1 0, OF f3(2) p2(1,2), of "[p1]"] s
    by (simp add: add_memory.simps [of fls _ _ 0] f3(3))
  moreover have "petmem_alloc_pages get_order pa 2 [p2, p1] = Inl BugOn"
    using g p2(3) by (simp add: petmem_alloc_pages_def PAGE_SIZE_def PAGE_SHIFT_def buddy_alloc_def)
  ultimately show ?thesis by blast
qed

theorem alloc_pages_bug_witness:
  "\<exists>pools. add_memory fls_ref (\<lambda>_. True) 0x100000 3 [] = ret pools \<and> petmem_alloc_pages (\<lambda>_. 1) id 2 pools = Inl BugOn"
  by (rule alloc_pages_bug [OF fls_ref_ok]) simp_all

end
