(* ===== verification/HarnessProps.thy ===== *)
theory HarnessProps
  imports Harness PetmemMainProps
begin

text \<open>
  What a process sees of the whole module: the map of virtual memory, the page tables and the handler
  of page faults together.  The invariant \<open>process_inv\<close> says that the process is alive with its handler
  set, the map and the tables are well formed, no two pages share a frame, and the buffers it was
  given lie in live ranges.
\<close>

section \<open>Frames\<close>

lemma same_page_indices:
  assumes "same_page x y"
  shows "table_path x = table_path y" and "PTE64_INDEX x = PTE64_INDEX y"
proof -
  have d: "drop_bit 12 x = drop_bit 12 y" using assms by (simp add: same_page_def)
  then have "drop_bit (n + 12) x = drop_bit (n + 12) y" for n by (metis drop_bit_drop_bit)
  from this [of 27] this [of 18] this [of 9] d
  show "table_path x = table_path y" "PTE64_INDEX x = PTE64_INDEX y"
    by (simp_all add: table_path_def index_take)
qed

lemma same_page_refl [simp]: "same_page x x"
  by (simp add: same_page_def)

lemma base_offset_page: "same_page (ent_base e + PAGE_OFFSET_4KB x) (ent_base e)"
proof -
  have "ent_base e AND PAGE_OFFSET_4KB x = 0"
    by (intro bit_eqI) (auto simp: offset_take bit_and_iff bit_take_bit_iff bit_ent_base)
  then have "ent_base e + PAGE_OFFSET_4KB x = ent_base e OR PAGE_OFFSET_4KB x" by (rule disjunctive_add_eq_or)
  then show ?thesis
    unfolding same_page_def
    by (intro bit_eqI) (auto simp: offset_take bit_drop_bit_eq bit_or_iff bit_take_bit_iff)
qed

lemma pa_offset_page: "page_pa q \<Longrightarrow> same_page (q + PAGE_OFFSET_4KB x) q"
  using base_offset_page [of q x] by (simp add: page_pa_def)

text \<open>Addresses of one page lie in one frame.\<close>

lemma translate_same_page:
  assumes "same_page x y" and "translate va m root x = Some f" and "translate va m root y = Some g"
  shows "same_page f g"
proof -
  obtain t where "tbl va m root (table_path x) = Some t" using assms(2) by (auto simp: translate_def split: option.splits)
  then have "f = ent_base (m (t + 8 * PTE64_INDEX x)) + PAGE_OFFSET_4KB x"
    "g = ent_base (m (t + 8 * PTE64_INDEX x)) + PAGE_OFFSET_4KB y"
    using assms same_page_indices [OF assms(1)] by (auto simp: translate_def Let_def split: if_splits)
  then show ?thesis using base_offset_page by (simp add: same_page_def)
qed

lemma page_pa_aligned: "page_pa q \<Longrightarrow> same_page q r \<Longrightarrow> page_pa r \<Longrightarrow> q = r"
  unfolding page_pa_def same_page_def ent_base_def by metis

text \<open>
  No two pages share a frame, and no frame is a page that the allocator can still hand out.
\<close>

definition frames_ok :: "(u64 \<Rightarrow> u64) \<Rightarrow> (u64 \<Rightarrow> u64) \<Rightarrow> u64 \<Rightarrow> kstate \<Rightarrow> bool" where
  "frames_ok va pa root s =
     ((\<forall>x < 0x1000000000000. \<forall>y < 0x1000000000000. \<forall>f g. translate va (kmem s) root x = Some f
          \<longrightarrow> translate va (kmem s) root y = Some g \<longrightarrow> same_page f g \<longrightarrow> same_page x y)
    \<and> (\<forall>x < 0x1000000000000. \<forall>f. translate va (kmem s) root x = Some f \<longrightarrow> (\<forall>q \<in> set (kpages s). \<not> same_page f (pa q))))"

lemma handle_pagefault_frames:
  assumes i: "vspace_inv vs L" and r: "r \<in> L" "unat a \<in> span r" and ec: "error_code \<noteq> 2"
    and root: "root = va (CR3_TO_PML4E64_PA cr3)" and w: "walk_ok va pa root s" and len: "4 \<le> length (kpages s)"
    and un: "translate va (kmem s) root a = None" and fr: "frames_ok va pa root s"
    and h: "petmem_handle_pagefault va pa cr3 vs a error_code s = (rc, s')"
  shows "frames_ok va pa root s'"
proof -
  have gp: "good_pages va pa (kpages s)" and wf: "wf_tables va (kmem s) root (set (kpages s))"
    using w by (simp_all add: walk_ok_def)
  from handle_pagefault_spec [OF i r ec root wf gp len un h] obtain n where
    n: "n \<in> set (kpages s)" "n \<notin> set (kpages s')" "set (kpages s') \<subseteq> set (kpages s)"
    and ta: "translate va (kmem s') root a = Some (pa n + PAGE_OFFSET_4KB a)"
    and old: "\<And>y. y < 0x1000000000000 \<Longrightarrow> \<not> same_page a y \<Longrightarrow> translate va (kmem s') root y = translate va (kmem s) root y"
    by blast
  have pn: "page_pa (pa n)" using gp n(1) by (simp add: good_pages_def)
  have new: "same_page f (pa n)" if "same_page a x" "translate va (kmem s') root x = Some f" for x f
    using translate_same_page [OF that(1) ta that(2)] pa_offset_page [OF pn, of a] by (simp add: same_page_def)
  have keep: "\<not> same_page f (pa q)"
    if "x < 0x1000000000000" "\<not> same_page a x" "translate va (kmem s') root x = Some f" "q \<in> set (kpages s)" for x f q
    using fr that old [OF that(1,2)] unfolding frames_ok_def by metis
  have "\<not> same_page f (pa q)" if "x < 0x1000000000000" "translate va (kmem s') root x = Some f" "q \<in> set (kpages s')" for x f q
  proof (cases "same_page a x")
    case True
    have q: "q \<in> set (kpages s)" "q \<noteq> n" using that(3) n by auto
    then have "page_pa (pa q)" "pa q \<noteq> pa n" using gp n(1) unfolding good_pages_def by metis+
    then show ?thesis using new [OF True that(2)] page_pa_aligned [OF pn, of "pa q"] by (auto simp: same_page_def)
  qed (use keep that n(3) in blast)
  moreover have "same_page x y"
    if "x < 0x1000000000000" "y < 0x1000000000000" "translate va (kmem s') root x = Some f"
      "translate va (kmem s') root y = Some g" "same_page f g" for x y f g
  proof -
    consider "same_page a x" "same_page a y" | "same_page a x" "\<not> same_page a y" | "\<not> same_page a x" "same_page a y"
      | "\<not> same_page a x" "\<not> same_page a y" by blast
    then show ?thesis
    proof cases
      case 2
      then show ?thesis using keep [OF that(2) _ that(4) n(1)] new [OF _ that(3)] that(5) by (auto simp: same_page_def)
    next
      case 3
      then show ?thesis using keep [OF that(1) _ that(3) n(1)] new [OF _ that(4)] that(5) by (auto simp: same_page_def)
    next
      case 4
      then show ?thesis using fr that old unfolding frames_ok_def by metis
    qed (simp add: same_page_def)
  qed
  ultimately show ?thesis unfolding frames_ok_def by blast
qed

section \<open>The invariant of a process\<close>

definition buffers_ok :: "(nat \<times> nat) set \<Rightarrow> (nat \<times> nat) set \<Rightarrow> bool" where
  "buffers_ok L G = (inj_on fst G \<and> (\<forall>g \<in> G. \<exists>r \<in> L. fst r = fst g \<and> snd g \<le> snd r))"

definition process_inv :: "kernel \<Rightarrow> process \<Rightarrow> (nat \<times> nat) set \<Rightarrow> bool" where
  "process_inv K p L =
     (fd_open p \<and> handler_set p \<and> \<not> killed p \<and> vspace_inv (vmap (device p)) L
    \<and> walk_ok (k_va K) (k_pa K) (table_root K) (kern (device p))
    \<and> frames_ok (k_va K) (k_pa K) (table_root K) (kern (device p)))"

lemma buffer_span: "buffers_ok L G \<Longrightarrow> g \<in> G \<Longrightarrow> \<exists>r \<in> L. fst r = fst g \<and> span g \<subseteq> span r"
  unfolding buffers_ok_def span_def by fastforce

lemma buffers_insert:
  assumes "buffers_ok L G" and "v \<notin> fst ` G" and "n \<le> k"
  shows "buffers_ok (insert (v, k) L) (insert (v, n) G)"
proof -
  have "inj_on fst (insert (v, n) G)" using assms(1,2) by (auto simp: buffers_ok_def inj_on_insert)
  moreover have "\<exists>r \<in> insert (v, k) L. fst r = fst g \<and> snd g \<le> snd r" if "g \<in> insert (v, n) G" for g
    using assms that unfolding buffers_ok_def by (cases "g = (v, n)") auto
  ultimately show ?thesis unfolding buffers_ok_def by blast
qed

lemma init_petmem_inv:
  assumes "init_petmem True node garbage p0 = (0, p)" and "\<not> killed p0"
    and "walk_ok (k_va K) (k_pa K) (table_root K) (kern (device p0))"
    and "frames_ok (k_va K) (k_pa K) (table_root K) (kern (device p0))"
  shows "process_inv K p {}" and "buffers_ok {} {}"
  using assms init_process_inv by (auto simp: init_petmem_def petmem_open_def process_inv_def buffers_ok_def Let_def)

lemma pet_malloc_spec:
  assumes inv: "process_inv K p L" and b: "buffers_ok L G" and sz: "0 < unat sz" "unat sz + 4095 < 2 ^ 64"
    and fr: "node \<notin> mm_node ` set (vs_nodes (vmap (device p)))"
    and m: "pet_malloc K buf node sz p = ret (v, p')"
  obtains L' where "process_inv K p' L'" and "buffers_ok L' (if v = NULL then G else insert (unat v, unat sz) G)"
proof -
  let ?a = "local_arg buf sz 0 node"
  have i: "vspace_inv (vmap (device p)) L" using inv by (simp add: process_inv_def)
  obtain rc out d where la: "lazy_alloc ?a (device p) = (rc, out, d)" by (metis prod_cases3)
  have v: "v = (case out of None \<Rightarrow> 0 | Some x \<Rightarrow> x)" and p': "p' = p\<lparr>device := d\<rparr>"
    using m inv by (simp_all add: pet_malloc_def ioctl_def process_inv_def petmem_ioctl_def LAZY_ALLOC_def ADD_MEMORY_def la)
  have d: "kern d = kern (device p)" "out \<noteq> Some 0"
    using la by (auto simp: lazy_alloc_def Let_def split: if_splits prod.splits)
  from lazy_alloc_outcome [OF i _ _ _ _ _ la] sz fr obtain k where
    k: "unat sz \<le> 4096 * k" and o: "case out of None \<Rightarrow> d = device p
       | Some v \<Rightarrow> (\<forall>q \<in> L. span q \<inter> span (unat v, 4096 * k) = {}) \<and> vspace_inv (vmap d) (insert (unat v, 4096 * k) L)"
    by (auto simp: local_arg_def split: option.splits)
  show ?thesis
  proof (cases out)
    case None
    then have "process_inv K p' L" using o inv by (simp add: p')
    then show ?thesis using that [of L] b None by (simp add: v)
  next
    case (Some x)
    let ?L = "insert (unat x, 4096 * k) L"
    have x: "v = x" "x \<noteq> 0" using Some d(2) by (auto simp: v)
    have "process_inv K p' ?L" using o inv Some d(1) by (simp add: p' process_inv_def)
    moreover have "unat x \<notin> fst ` G"
    proof
      assume "unat x \<in> fst ` G"
      then obtain g where g: "g \<in> G" "fst g = unat x" by force
      then obtain r where r: "r \<in> L" "fst r = unat x" using b unfolding buffers_ok_def by metis
      have "0 < snd r" using i r(1) by (auto simp: vspace_inv_def nodes_inv_def ranges_def nonempty_allocs_def)
      then have "unat x \<in> span r \<inter> span (unat x, 4096 * k)" using r(2) sz(1) k by (simp add: span_def)
      then show False using o r(1) by (auto simp: Some)
    qed
    ultimately show ?thesis using that buffers_insert [OF b _ k] x by simp
  qed
qed

section \<open>Accesses\<close>

lemma segv_code:
  assumes "fd_open p"
    and "petmem_handle_pagefault (k_va K) (k_pa K) (k_cr3 K) (vmap (device p)) x 1 (kern (device p)) = (rc, s)"
  shows "segv_handler K buf SIGSEGV x 1 p =
     (let p = p\<lparr>device := (device p)\<lparr>kern := s\<rparr>\<rparr> in ret (if rc \<noteq> 0 then p\<lparr>handler_set := False, killed := True\<rparr> else p))"
  using assms
  by (simp add: segv_handler_def ioctl_def local_arg_def petmem_ioctl_def ADD_MEMORY_def LAZY_ALLOC_def LAZY_FREE_def
      PAGE_FAULT_def)

text \<open>An access to a live range that is not mapped yet.\<close>

lemma touch_live:
  assumes inv: "process_inv K p L" and r: "r \<in> L" "unat x \<in> span r" and len: "4 \<le> length (kpages (kern (device p)))"
    and un: "frame K p x = None"
  obtains p' where "touch K buf x p = ret p'" and "process_inv K p' L" and "frame K p' x \<noteq> None"
    and "\<forall>y < 0x1000000000000. \<not> same_page x y \<longrightarrow> frame K p' y = frame K p y"
    and "length (kpages (kern (device p))) \<le> length (kpages (kern (device p'))) + 4"
proof -
  let ?s = "kern (device p)" and ?vs = "vmap (device p)"
  obtain rc s where h: "petmem_handle_pagefault (k_va K) (k_pa K) (k_cr3 K) ?vs x 1 ?s = (rc, s)" by fastforce
  have i: "vspace_inv ?vs L" and w: "walk_ok (k_va K) (k_pa K) (table_root K) ?s"
    and f: "frames_ok (k_va K) (k_pa K) (table_root K) ?s" and hs: "fd_open p" "handler_set p"
    using inv by (simp_all add: process_inv_def)
  have wf: "wf_tables (k_va K) (kmem ?s) (table_root K) (set (kpages ?s))" "good_pages (k_va K) (k_pa K) (kpages ?s)"
    using w by (simp_all add: walk_ok_def)
  have ec: "(1 :: u32) \<noteq> 2" by simp
  note pre = i r ec table_root_def
  note un = un [unfolded frame_def]
  note sp = handle_pagefault_spec [OF pre wf len un h]
  note fo = handle_pagefault_frames [OF pre w len un f h]
  let ?p = "p\<lparr>device := (device p)\<lparr>kern := s\<rparr>\<rparr>"
  have "touch K buf x p = ret ?p"
    using sp hs un by (simp add: touch_def frame_def segv_code [OF _ h] Let_def)
  moreover have "process_inv K ?p L" using inv sp fo by (simp add: process_inv_def walk_ok_def)
  moreover have "frame K ?p x \<noteq> None" using sp by (auto simp: frame_def)
  moreover have "\<forall>y < 0x1000000000000. \<not> same_page x y \<longrightarrow> frame K ?p y = frame K p y"
    using sp by (simp add: frame_def)
  moreover have "length (kpages ?s) \<le> length (kpages (kern (device ?p))) + 4"
    using handle_pagefault_pages [OF pre w len un h] by simp
  ultimately show ?thesis using that by blast
qed

text \<open>An access elsewhere kills the process.\<close>

lemma touch_wild:
  assumes inv: "process_inv K p L" and x: "\<forall>r \<in> L. unat x \<notin> span r" and un: "frame K p x = None"
  shows "touch K buf x p = ret (p\<lparr>handler_set := False, killed := True\<rparr>)"
proof -
  have hs: "fd_open p" "handler_set p" and i: "vspace_inv (vmap (device p)) L" using inv by (simp_all add: process_inv_def)
  have "petmem_find_address (vmap (device p)) x = None"
    using find_address_live [OF i, of x] x by (auto split: option.splits)
  then have h: "petmem_handle_pagefault (k_va K) (k_pa K) (k_cr3 K) (vmap (device p)) x 1 (kern (device p)) = (- 1, kern (device p))"
    by (simp add: petmem_handle_pagefault_def)
  show ?thesis using hs un by (simp add: touch_def segv_code [OF _ h])
qed

lemma touch_inv:
  assumes "process_inv K p L" and "4 \<le> length (kpages (kern (device p)))" and "touch K buf x p = ret p'" and "\<not> killed p'"
  shows "process_inv K p' L"
proof (cases "frame K p x = None")
  case True
  have "\<exists>r \<in> L. unat x \<in> span r"
  proof (rule ccontr)
    assume "\<not> (\<exists>r \<in> L. unat x \<in> span r)"
    then have "touch K buf x p = ret (p\<lparr>handler_set := False, killed := True\<rparr>)"
      by (intro touch_wild [OF assms(1) _ True]) blast
    then show False using assms(3,4) by auto
  qed
  then show ?thesis using touch_live [OF assms(1) _ _ assms(2) True, of _ buf] assms(3) by (metis option.inject sum.inject(2))
next
  case False
  then show ?thesis using assms by (simp add: touch_def)
qed

lemma touch_vmap:
  assumes "process_inv K p L" and "touch K buf x p = ret p'"
  shows "vmap (device p') = vmap (device p)"
proof -
  obtain rc s where h: "petmem_handle_pagefault (k_va K) (k_pa K) (k_cr3 K) (vmap (device p)) x 1 (kern (device p)) = (rc, s)"
    by fastforce
  have "fd_open p" "handler_set p" using assms(1) by (simp_all add: process_inv_def)
  then show ?thesis using assms(2) by (auto simp: touch_def segv_code [OF _ h] Let_def split: if_splits)
qed

lemma process_run_inv:
  assumes "process_run K p0 p G" and "\<not> killed p0"
    and "walk_ok (k_va K) (k_pa K) (table_root K) (kern (device p0))"
    and "frames_ok (k_va K) (k_pa K) (table_root K) (kern (device p0))"
  shows "\<exists>L. process_inv K p L \<and> buffers_ok L G"
  using assms(1)
proof induction
  case (init node garbage p)
  then show ?case using init_petmem_inv [OF _ assms(2-4)] by blast
next
  case (malloc p G sz node buf v p')
  then show ?case using pet_malloc_spec by metis
next
  case (touch p G buf x p')
  then show ?case using touch_inv by blast
qed

section \<open>A process on an empty machine\<close>

definition proc0 :: process where
  "proc0 = \<lparr>fd_open = False, handler_set = False, killed = False, device = dev0\<rparr>"

definition kern0 :: kernel where
  "kern0 = \<lparr>k_va = id, k_pa = id, k_cr3 = 0x5000, k_fls = fls_ref, k_kmalloc = (\<lambda>_. True)\<rparr>"

lemma proc0_ok:
  "\<not> killed proc0" "walk_ok (k_va kern0) (k_pa kern0) (table_root kern0) (kern (device proc0))"
  "frames_ok (k_va kern0) (k_pa kern0) (table_root kern0) (kern (device proc0))"
proof -
  have r: "table_root kern0 = 0x5000" by (simp add: table_root_def kern0_def CR3_TO_PML4E64_PA_def)
  show "\<not> killed proc0" by (simp add: proc0_def)
  show "walk_ok (k_va kern0) (k_pa kern0) (table_root kern0) (kern (device proc0))"
    "frames_ok (k_va kern0) (k_pa kern0) (table_root kern0) (kern (device proc0))"
    using fresh_machine_ok unfolding r
    by (simp_all add: walk_ok_def frames_ok_def kern0_def proc0_def dev0_def)
qed

text \<open>The process that has opened the device and reserved 5000 bytes.\<close>

definition proc1 :: process where
  "proc1 = snd (init_petmem True 1 False proc0)"

definition proc2 :: process where
  "proc2 = proc1\<lparr>device := dev0\<lparr>vmap := snd (petmem_alloc_vspace vm0 2 2)\<rparr>\<rparr>"

lemma proc2_calls:
  "init_petmem True 1 False proc0 = (0, proc1)" "2 \<notin> mm_node ` set (vs_nodes (vmap (device proc1)))"
  "pet_malloc kern0 0 2 5000 proc1 = ret (0x1000000000, proc2)"
proof -
  show "init_petmem True 1 False proc0 = (0, proc1)" by (simp add: proc1_def init_petmem_def)
  have "fst (petmem_alloc_vspace vm0 2 2) = 0x1000000000" by code_simp
  then obtain vs where "petmem_alloc_vspace vm0 2 2 = (0x1000000000, vs)" by (metis prod.collapse)
  moreover have "request_pages 5000 = 2" by code_simp
  moreover have d: "device proc1 = dev0" "fd_open proc1"
    by (simp_all add: proc1_def init_petmem_def petmem_open_def proc0_def dev0_def vm0_def)
  ultimately show "pet_malloc kern0 0 2 5000 proc1 = ret (0x1000000000, proc2)"
    by (simp add: pet_malloc_def ioctl_def petmem_ioctl_def lazy_alloc_def local_arg_def LAZY_ALLOC_def ADD_MEMORY_def
        dev0_def Let_def proc2_def split: prod.splits)
  show "2 \<notin> mm_node ` set (vs_nodes (vmap (device proc1)))"
    by (simp add: d dev0_def vm0_def petmem_init_process_def)
qed

lemma proc2_run: "process_run kern0 proc0 proc2 {(68719476736, 5000)}"
  using process_run.malloc [OF process_run.init [OF proc2_calls(1)] _ _ proc2_calls(2,3)] by simp

lemma proc2_empty: "frame kern0 proc2 x = None" "length (kpages (kern (device proc2))) = 8"
  using fresh_machine_ok(3)
  by (simp_all add: frame_def table_root_def kern0_def proc2_def dev0_def CR3_TO_PML4E64_PA_def fresh_machine_def)

text \<open>A run in which two pages of the buffer are accessed.\<close>

lemma two_pages_run:
  obtains p f e where "process_run kern0 proc0 p {(68719476736, 5000)}"
    and "frame kern0 p 0x1000000000 = Some f" and "frame kern0 p 0x1000001387 = Some e"
proof -
  from process_run_inv [OF proc2_run proc0_ok] obtain L where
    L: "process_inv kern0 proc2 L" "buffers_ok L {(68719476736, 5000)}" by blast
  from buffer_span [OF L(2), of "(68719476736, 5000)"] obtain r where r: "r \<in> L" "span (68719476736, 5000) \<subseteq> span r"
    by auto
  then have x: "unat (0x1000000000 :: u64) \<in> span r" "unat (0x1000001387 :: u64) \<in> span r"
    by (auto simp: span_def subset_iff)
  have far: "\<not> same_page 0x1000000000 0x1000001387" "\<not> same_page 0x1000001387 0x1000000000" by code_simp+
  have n: "4 \<le> length (kpages (kern (device proc2)))" by (simp add: proc2_empty)
  obtain p1 where p1: "touch kern0 0 0x1000000000 proc2 = ret p1" "process_inv kern0 p1 L" "frame kern0 p1 0x1000000000 \<noteq> None"
    "\<forall>y < 0x1000000000000. \<not> same_page 0x1000000000 y \<longrightarrow> frame kern0 p1 y = frame kern0 proc2 y"
    "length (kpages (kern (device proc2))) \<le> length (kpages (kern (device p1))) + 4"
    by (rule touch_live [OF L(1) r(1) x(1) n proc2_empty(1)])
  have n1: "4 \<le> length (kpages (kern (device p1)))" using p1(5) by (simp add: proc2_empty)
  have e1: "frame kern0 p1 0x1000001387 = None" using p1(4) far(1) proc2_empty(1) by simp
  obtain p2 where p2: "touch kern0 0 0x1000001387 p1 = ret p2" "process_inv kern0 p2 L" "frame kern0 p2 0x1000001387 \<noteq> None"
    "\<forall>y < 0x1000000000000. \<not> same_page 0x1000001387 y \<longrightarrow> frame kern0 p2 y = frame kern0 p1 y"
    by (rule touch_live [OF p1(2) r(1) x(2) n1 e1])
  have "process_run kern0 proc0 p2 {(68719476736, 5000)}"
    using process_run.touch [OF process_run.touch [OF proc2_run n p1(1)] n1 p2(1)] p1(2) p2(2)
    by (simp add: process_inv_def)
  moreover have "frame kern0 p2 0x1000000000 \<noteq> None" using p2(4) far(2) p1(3) by simp
  ultimately show ?thesis using that p2(3) by blast
qed

end
