(* ===== verification/Tlb.thy ===== *)
theory Tlb
  imports Harness
begin

text \<open>
  The translation cache of the processor, and what the code does to keep it up to date: \<open>invlpg\<close> and
  \<open>flush_tlb\<close> of \<open>src/VMproject/petmem.h\<close>, called by the release of pages, by the handler of page faults and
  by the request \<open>INVALIDATE_PAGE\<close>.  The cache may load the translation of a present page at any time
  and drop an entry at any time.
\<close>

section \<open>The cache\<close>

text \<open>The frame that is cached for a page, both given by their first address.\<close>

type_synonym tlb = "u64 \<Rightarrow> u64 option"

definition invlpg :: "u64 \<Rightarrow> tlb \<Rightarrow> tlb" where
  "invlpg page_addr t = t(PAGE_ADDR page_addr := None)"

text \<open>No entry that this code creates is global, so that writing CR3 drops all of them.\<close>

definition flush_tlb :: "tlb \<Rightarrow> tlb" where
  "flush_tlb t = (\<lambda>_. None)"

definition INVALIDATE_PAGE :: u32 where "INVALIDATE_PAGE = 51"
definition LAZY_DUMP_STATE :: u32 where "LAZY_DUMP_STATE = 32"
definition PRINT_PML :: u32 where "PRINT_PML = 52"

text \<open>
  What a request does to the cache.  The release of a range calls \<open>invlpg\<close> with each address that it
  passes to \<open>free_page\<close> next; the handler of page faults ends with \<open>flush_tlb\<close> when it succeeds.
\<close>

definition request_tlb :: "kernel \<Rightarrow> u32 \<Rightarrow> ioctl_arg \<Rightarrow> process \<Rightarrow> tlb \<Rightarrow> tlb" where
  "request_tlb K cmd a p t =
     (if \<not> fd_open p then t
      else if cmd = LAZY_FREE then
        case petmem_free_range (k_va K) (k_cr3 K) (vmap (device p)) (raw a) (kern (device p)) of
          Some (Inr (_, _, pages)) \<Rightarrow> fold invlpg pages t
        | _ \<Rightarrow> t
      else if cmd = PAGE_FAULT then
        if copy_in a \<and> fst (petmem_handle_pagefault (k_va K) (k_pa K) (k_cr3 K) (vmap (device p)) (word0 a)
                              (ucast (word1 a)) (kern (device p))) = 0
        then flush_tlb t else t
      else if cmd = INVALIDATE_PAGE then invlpg (PAGE_ADDR (raw a)) t
      else t)"

section \<open>The calls of a process\<close>

record machine =
  proc :: process
  tlb :: tlb

definition ioctl_tlb :: "kernel \<Rightarrow> u32 \<Rightarrow> ioctl_arg \<Rightarrow> machine \<Rightarrow> machine run" where
  "ioctl_tlb K cmd a M =
     pbind (ioctl K cmd a (proc M)) (\<lambda>(_, _, p). ret \<lparr>proc = p, tlb = request_tlb K cmd a (proc M) (tlb M)\<rparr>)"

text \<open>A request whose argument is a plain word.\<close>

definition word_arg :: "u64 \<Rightarrow> ioctl_arg" where
  "word_arg w = \<lparr>raw = w, word0 = 0, word1 = 0, copy_in = False, copy_out = False, new_node = 0\<rparr>"

definition pet_free_tlb :: "kernel \<Rightarrow> u64 \<Rightarrow> machine \<Rightarrow> machine run" where
  "pet_free_tlb K addr M = ioctl_tlb K LAZY_FREE (word_arg addr) M"

definition pet_invlpg :: "kernel \<Rightarrow> u64 \<Rightarrow> machine \<Rightarrow> machine run" where
  "pet_invlpg K addr M = ioctl_tlb K INVALIDATE_PAGE (word_arg addr) M"

definition pet_dump :: "kernel \<Rightarrow> machine \<Rightarrow> machine run" where
  "pet_dump K M = ioctl_tlb K LAZY_DUMP_STATE (word_arg NULL) M"

text \<open>\<open>print_pml_call\<close> passes no argument: \<open>garbage\<close> is what the kernel finds in its place.\<close>

definition print_pml_call :: "kernel \<Rightarrow> u64 \<Rightarrow> machine \<Rightarrow> machine run" where
  "print_pml_call K garbage M = ioctl_tlb K PRINT_PML (word_arg garbage) M"

section \<open>Accesses\<close>

text \<open>
  The physical address that an access reaches: a cached translation is used without a look at the
  tables.  An access that reaches nothing goes to the handler.
\<close>

definition reaches :: "kernel \<Rightarrow> machine \<Rightarrow> u64 \<Rightarrow> u64 option" where
  "reaches K M x =
     (case tlb M (PAGE_ADDR x) of
        Some f \<Rightarrow> Some (f + PAGE_OFFSET_4KB x)
      | None \<Rightarrow> frame K (proc M) x)"

definition touch_tlb :: "kernel \<Rightarrow> u64 \<Rightarrow> u64 \<Rightarrow> machine \<Rightarrow> machine run" where
  "touch_tlb K buf x M =
     (if reaches K M x \<noteq> None then ret M
      else pbind (touch K buf x (proc M)) (\<lambda>p. ret \<lparr>proc = p, tlb =
             (if handler_set (proc M) then request_tlb K PAGE_FAULT (local_arg buf x 1 0) (proc M) (tlb M) else tlb M)\<rparr>))"

text \<open>
  The runs of a process that reserves memory and uses it, as in \<open>process_run\<close>, with a cache that is
  empty at first.
\<close>

inductive machine_run :: "kernel \<Rightarrow> process \<Rightarrow> machine \<Rightarrow> (nat \<times> nat) set \<Rightarrow> bool" for K p0 where
  init: "init_petmem True node garbage p0 = (0, p) \<Longrightarrow> machine_run K p0 \<lparr>proc = p, tlb = (\<lambda>_. None)\<rparr> {}"
| malloc: "machine_run K p0 M G \<Longrightarrow> 0 < unat sz \<Longrightarrow> unat sz + 4095 < 2 ^ 64 \<Longrightarrow>
    node \<notin> mm_node ` set (vs_nodes (vmap (device (proc M)))) \<Longrightarrow>
    pet_malloc K buf node sz (proc M) = ret (v, p') \<Longrightarrow>
    machine_run K p0 (M\<lparr>proc := p'\<rparr>) (if v = NULL then G else insert (unat v, unat sz) G)"
| touch: "machine_run K p0 M G \<Longrightarrow> 4 \<le> length (kpages (kern (device (proc M)))) \<Longrightarrow> x < 0x1000000000000 \<Longrightarrow>
    touch_tlb K buf x M = ret M' \<Longrightarrow> \<not> killed (proc M') \<Longrightarrow> machine_run K p0 M' G"
| invalidate: "machine_run K p0 M G \<Longrightarrow> pet_invlpg K x M = ret M' \<Longrightarrow> machine_run K p0 M' G"
| load: "machine_run K p0 M G \<Longrightarrow> x < 0x1000000000000 \<Longrightarrow> frame K (proc M) x = Some f \<Longrightarrow>
    machine_run K p0 (M\<lparr>tlb := (tlb M)(PAGE_ADDR x \<mapsto> PAGE_ADDR f)\<rparr>) G"
| drop: "machine_run K p0 M G \<Longrightarrow> machine_run K p0 (M\<lparr>tlb := (tlb M)(v := None)\<rparr>) G"

end
