(* ===== verification/TlbProps.thy ===== *)
theory TlbProps
  imports Tlb HarnessProps FreeWalkProps
begin

text \<open>
  What a process reaches through the translation cache: while it only reserves and uses memory, the
  cache agrees with the page tables; after it has released memory, the cache may still lead to it.
\<close>

section \<open>The cache agrees with the tables\<close>

definition tlb_ok :: "kernel \<Rightarrow> machine \<Rightarrow> bool" where
  "tlb_ok K M = (\<forall>x < 0x1000000000000. \<forall>f. tlb M (PAGE_ADDR x) = Some f \<longrightarrow> frame K (proc M) x = Some (f + PAGE_OFFSET_4KB x))"


lemma page_addr_same: "PAGE_ADDR x = PAGE_ADDR y \<longleftrightarrow> same_page x y"
proof
  assume "PAGE_ADDR x = PAGE_ADDR y"
  then have "drop_bit 12 (push_bit 12 (drop_bit 12 x)) = drop_bit 12 (push_bit 12 (drop_bit 12 y))" by (simp add: PAGE_ADDR_def)
  moreover have "drop_bit 12 (push_bit 12 (drop_bit 12 z)) = drop_bit 12 z" for z :: u64
    by (rule bit_word_eqI) (auto simp: bit_simps dest: bit_imp_le_length)
  ultimately show "same_page x y" by (simp add: same_page_def)
qed (simp add: same_page_def PAGE_ADDR_def)

lemma page_addr_idem [simp]: "PAGE_ADDR (PAGE_ADDR x) = PAGE_ADDR x"
  unfolding PAGE_ADDR_def by (rule bit_eqI) (auto simp: bit_simps dest: bit_imp_le_length)

lemma page_addr_notin: "(\<And>q. q \<in> A \<Longrightarrow> \<not> same_page q y) \<Longrightarrow> PAGE_ADDR y \<notin> PAGE_ADDR ` A"
  unfolding image_iff page_addr_same same_page_def by metis

text \<open>A translation is the frame's first address plus the offset, and all addresses of the page use that frame.\<close>

lemma frame_page:
  assumes "frame K p x = Some f" and "PAGE_ADDR y = PAGE_ADDR x"
  shows "frame K p y = Some (PAGE_ADDR f + PAGE_OFFSET_4KB y)"
proof -
  have sp: "same_page y x" using assms(2) by (simp add: page_addr_same)
  note ix = same_page_indices [OF sp]
  obtain t where t: "tbl (k_va K) (kmem (kern (device p))) (table_root K) (table_path x) = Some t"
    using assms(1) by (auto simp: frame_def translate_def split: option.splits)
  let ?e = "kmem (kern (device p)) (t + 8 * PTE64_INDEX x)"
  have e: "ent_present ?e" "f = ent_base ?e + PAGE_OFFSET_4KB x"
    using assms(1) t by (auto simp: frame_def translate_def Let_def split: if_splits)
  have "same_page f (ent_base ?e)" using base_offset_page e(2) by simp
  then have "PAGE_ADDR f = PAGE_ADDR (ent_base ?e)" by (simp add: page_addr_same)
  also have "\<dots> = ent_base ?e"
    unfolding PAGE_ADDR_def by (rule bit_eqI) (auto simp: bit_simps bit_ent_base)
  finally show ?thesis using t e(1) ix by (simp add: frame_def translate_def Let_def)
qed

lemma tlb_ok_load:
  assumes "tlb_ok K M" and "frame K (proc M) x = Some f"
  shows "tlb_ok K (M\<lparr>tlb := (tlb M)(PAGE_ADDR x \<mapsto> PAGE_ADDR f)\<rparr>)"
  using assms frame_page [OF assms(2)] by (auto simp: tlb_ok_def)

lemma tlb_ok_drop: "tlb_ok K M \<Longrightarrow> tlb_ok K (M\<lparr>tlb := (tlb M)(v := None)\<rparr>)"
  by (auto simp: tlb_ok_def)

lemma tlb_ok_empty: "tlb_ok K \<lparr>proc = p, tlb = (\<lambda>_. None)\<rparr>"
  by (simp add: tlb_ok_def)

lemma ioctl_invalidate:
  assumes "pet_invlpg K x M = ret M'"
  shows "proc M' = proc M" and "tlb M' = (if fd_open (proc M) then (tlb M)(PAGE_ADDR x := None) else tlb M)"
proof -
  have c: "INVALIDATE_PAGE \<notin> {ADD_MEMORY, LAZY_ALLOC, LAZY_FREE, PAGE_FAULT}"
    by (simp add: INVALIDATE_PAGE_def ADD_MEMORY_def LAZY_ALLOC_def LAZY_FREE_def PAGE_FAULT_def)
  then show "proc M' = proc M" "tlb M' = (if fd_open (proc M) then (tlb M)(PAGE_ADDR x := None) else tlb M)"
    using assms
    by (auto simp: pet_invlpg_def ioctl_tlb_def ioctl_def petmem_ioctl_def request_tlb_def invlpg_def word_arg_def split: if_splits)
qed

lemma fault_flushes:
  assumes inv: "process_inv K (proc M) L" and un: "reaches K M x = None" and t: "touch_tlb K buf x M = ret M'" and al: "\<not> killed (proc M')"
  shows "touch K buf x (proc M) = ret (proc M')" and "tlb M' = (\<lambda>_. None)"
proof -
  let ?p = "proc M"
  obtain p where p: "touch K buf x ?p = ret p" "M' = \<lparr>proc = p, tlb = request_tlb K PAGE_FAULT (local_arg buf x 1 0) ?p (tlb M)\<rparr>"
    using t un inv by (auto simp: touch_tlb_def process_inv_def)
  then show "touch K buf x ?p = ret (proc M')" by simp
  obtain rc s where h: "petmem_handle_pagefault (k_va K) (k_pa K) (k_cr3 K) (vmap (device ?p)) x 1 (kern (device ?p)) = (rc, s)"
    by fastforce
  have hs: "fd_open ?p" "handler_set ?p" "frame K ?p x = None"
    using inv un by (auto simp: process_inv_def reaches_def split: option.splits)
  have "rc = 0"
    using p al hs by (auto simp: touch_def segv_code [OF _ h] Let_def split: if_splits)
  then show "tlb M' = (\<lambda>_. None)"
    using h hs(1) by (simp add: p(2) request_tlb_def local_arg_def flush_tlb_def PAGE_FAULT_def LAZY_FREE_def)
qed

lemma pet_malloc_frame:
  assumes "pet_malloc K buf node sz p = ret (v, p')"
  shows "frame K p' x = frame K p x"
proof -
  have "kern (device p') = kern (device p)"
    using assms
    by (auto simp: pet_malloc_def ioctl_def petmem_ioctl_def lazy_alloc_def LAZY_ALLOC_def ADD_MEMORY_def Let_def split: if_splits prod.splits)
  then show ?thesis by (simp add: frame_def)
qed

lemma machine_run_ok:
  assumes "machine_run K p0 M G" and "\<not> killed p0"
    and "walk_ok (k_va K) (k_pa K) (table_root K) (kern (device p0))"
    and "frames_ok (k_va K) (k_pa K) (table_root K) (kern (device p0))"
  shows "process_run K p0 (proc M) G \<and> tlb_ok K M"
  using assms(1)
proof induction
  case (init node garbage p)
  then show ?case using process_run.init tlb_ok_empty by simp
next
  case (malloc M G sz node buf v p')
  have "process_run K p0 p' (if v = NULL then G else insert (unat v, unat sz) G)"
    using process_run.malloc [OF _ malloc.hyps(2-5)] malloc.IH by blast
  moreover have "tlb_ok K (M\<lparr>proc := p'\<rparr>)" using malloc.IH pet_malloc_frame [OF malloc.hyps(5)] by (simp add: tlb_ok_def)
  ultimately show ?case by simp
next
  case (touch M G x buf M')
  obtain L where L: "process_inv K (proc M) L" using process_run_inv [OF _ assms(2-4)] touch.IH by blast
  show ?case
  proof (cases "reaches K M x = None")
    case True
    note f = fault_flushes [OF L True touch.hyps(4,5)]
    have "M' = \<lparr>proc = proc M', tlb = (\<lambda>_. None)\<rparr>" using f(2) by simp
    then have "tlb_ok K M'" using tlb_ok_empty by metis
    then show ?thesis using process_run.touch [OF _ touch.hyps(2) f(1) touch.hyps(5)] touch.IH by blast
  next
    case False
    then have "M' = M" using touch.hyps(4) by (simp add: touch_tlb_def)
    then show ?thesis using touch.IH by simp
  qed
next
  case (invalidate M G x M')
  have p: "proc M' = proc M" by (rule ioctl_invalidate(1) [OF invalidate.hyps(2)])
  have "tlb M' v = tlb M v \<or> tlb M' v = None" for v using ioctl_invalidate(2) [OF invalidate.hyps(2)] by simp
  then have "tlb_ok K M'" using invalidate.IH p unfolding tlb_ok_def by (metis option.distinct(1))
  then show ?case using invalidate.IH p by simp
next
  case (load M G x f)
  then show ?case using tlb_ok_load by simp
next
  case (drop M G v)
  then show ?case using tlb_ok_drop by simp
qed

section \<open>Addresses of a range\<close>

lemma pte_index_nat: "unat (PTE64_INDEX x) = unat x div 4096 mod 512"
  by (simp add: index_take unsigned_take_bit_eq unsigned_drop_bit_eq take_bit_eq_mod drop_bit_eq_div unat_mod unat_div)

lemma pages_apart:
  assumes p: "unat z div 4096 = unat a div 4096 + j" and j: "unat (PTE64_INDEX a) + j < 512"
  shows "table_path z = table_path a" and "PTE64_INDEX z = PTE64_INDEX a + of_nat j"
proof -
  let ?k = "unat a div 4096"
  have j': "?k mod 512 + j < 512" using j by (simp add: pte_index_nat)
  then have "j < 512" by simp
  then have up: "(?k + j) div 512 = ?k div 512" and lo: "(?k + j) mod 512 = ?k mod 512 + j"
    using j' by (simp_all add: div_add1_eq [of ?k j] mod_add_eq [of ?k 512 j, symmetric])
  have d: "unat x div 2097152 = unat x div 4096 div 512" for x :: u64 by (simp add: div_mult2_eq [symmetric])
  have e: "drop_bit 21 z = drop_bit 21 a"
    by (simp add: word_unat_eq_iff unsigned_drop_bit_eq drop_bit_eq_div unat_div d p up)
  then have "drop_bit (n + 21) z = drop_bit (n + 21) a" for n by (metis drop_bit_drop_bit)
  from this [of 18] this [of 9] e show "table_path z = table_path a" by (simp add: table_path_def index_take)
  have "unat (PTE64_INDEX a + of_nat j) = ?k mod 512 + j"
    using slot_index(2) [of "PTE64_INDEX a" j j] j by (simp add: pte_index_nat)
  then show "PTE64_INDEX z = PTE64_INDEX a + of_nat j" by (simp add: word_unat_eq_iff pte_index_nat p lo)
qed

text \<open>The walk of a release runs over the pages of a range and one more.\<close>

lemma num_pages_nat:
  assumes "4096 dvd unat b" and "unat b < 2 ^ 43"
  shows "unat (num_pages_of b) = unat b div 4096"
proof -
  have n: "unat (b div PAGE_SIZE_4KB) = unat b div 4096" by (simp add: unat_div)
  have "unat b div 4096 < 2 ^ 31" using assms(2) by (simp add: less_mult_imp_div_less)
  then have s: "b div PAGE_SIZE_4KB = of_nat (unat b div 4096)" "unat b div 4096 < 2147483648"
    using n by (simp_all add: word_unat_eq_iff unat_of_nat_u64)
  have "sint (of_nat (unat b div 4096) :: u32) = int (unat b div 4096)"
    using s(2) by (simp add: signed_of_nat signed_take_bit_int_eq_self)
  then have "scast (of_nat (unat b div 4096) :: u32) = (of_nat (unat b div 4096) :: u64)"
    by (metis of_int_of_nat_eq of_int_sint)
  moreover have "ucast (of_nat (unat b div 4096) :: u64) = (of_nat (unat b div 4096) :: u32)"
    by (rule bit_word_eqI) (simp add: bit_simps)
  ultimately have "num_pages_of b = of_nat (unat b div 4096)" by (simp add: num_pages_of_def s(1))
  then show ?thesis using s(2) by (simp add: unat_of_nat_u64)
qed

section \<open>Releasing memory\<close>

lemma fold_invlpg: "fold invlpg qs t v = (if v \<in> PAGE_ADDR ` set qs then None else t v)"
  by (induction qs arbitrary: t) (auto simp: invlpg_def)

lemma pet_invlpg_ret:
  obtains M' where "pet_invlpg K x M = ret M'"
  by (cases "fd_open (proc M)")
    (simp_all add: pet_invlpg_def ioctl_tlb_def ioctl_def petmem_ioctl_def INVALIDATE_PAGE_def ADD_MEMORY_def
      LAZY_ALLOC_def LAZY_FREE_def PAGE_FAULT_def)

lemma pet_free_code:
  assumes "fd_open (proc M)"
    and "petmem_free_range (k_va K) (k_cr3 K) (vmap (device (proc M))) a (kern (device (proc M))) = ret (vs, s, qs)"
  shows "pet_free_tlb K a M = ret \<lparr>proc = (proc M)\<lparr>device := (device (proc M))\<lparr>vmap := vs, kern := s,
           given_back := given_back (device (proc M)) @ qs\<rparr>\<rparr>, tlb = fold invlpg qs (tlb M)\<rparr>"
  using assms
  by (simp add: pet_free_tlb_def ioctl_tlb_def ioctl_def petmem_ioctl_def request_tlb_def word_arg_def LAZY_FREE_def
      ADD_MEMORY_def LAZY_ALLOC_def)

lemma slot_frame:
  assumes "tbl (k_va K) (kmem (kern (device p))) (table_root K) (table_path a) = Some t"
    and "table_path z = table_path a" and "ent_present (kmem (kern (device p)) (t + 8 * PTE64_INDEX z))"
  shows "frame K p z = Some (ent_base (kmem (kern (device p)) (t + 8 * PTE64_INDEX z)) + PAGE_OFFSET_4KB z)"
  using assms by (simp add: frame_def translate_def)

lemma base_page_addr: "PAGE_ADDR (ent_base e + PAGE_OFFSET_4KB z) = ent_base e"
proof -
  have "PAGE_ADDR (ent_base e + PAGE_OFFSET_4KB z) = PAGE_ADDR (ent_base e)" using base_offset_page by (simp add: page_addr_same)
  also have "\<dots> = ent_base e" unfolding PAGE_ADDR_def by (rule bit_eqI) (auto simp: bit_simps bit_ent_base)
  finally show ?thesis .
qed

text \<open>What the map of a process says of a live node.\<close>

lemma live_node:
  assumes i: "vspace_inv vs L" and c: "find (\<lambda>c. mm_start c = a \<and> mm_allocated c) (vs_nodes vs) = Some c"
  shows "mm_start c = a" and "4096 dvd unat a" and "4096 dvd nsize c" and "unat a + nsize c \<le> 206158430208"
    and "unat (num_pages_of (mm_size c)) = nsize c div 4096" and "PML4E64_INDEX a = 0"
proof -
  show a: "mm_start c = a" using c by (auto simp: find_Some_iff)
  have "c \<in> set (vs_nodes vs)" using c by (auto simp: find_Some_iff)
  moreover have "tiles region_lo (vs_nodes vs) region_hi" using i by (simp add: vspace_inv_def nodes_inv_def)
  ultimately have b: "nstart c + nsize c \<le> region_hi" "4096 dvd nsize c" "4096 dvd nstart c" using tiles_bounds by auto
  then show "4096 dvd unat a" "4096 dvd nsize c" "unat a + nsize c \<le> 206158430208" using a by simp_all
  then show "unat (num_pages_of (mm_size c)) = nsize c div 4096" by (intro num_pages_nat) simp_all
  have "unat a div 549755813888 = 0" using b(1) a by simp
  then have "unat (PML4E64_INDEX a) = 0"
    by (simp add: index_take unsigned_take_bit_eq unsigned_drop_bit_eq take_bit_eq_mod drop_bit_eq_div unat_mod unat_div)
  then show "PML4E64_INDEX a = 0" by (simp add: word_unat_eq_iff)
qed

lemma page_in_range:
  assumes "4096 dvd A" and "4096 dvd n" and "A \<le> Y" and "Y < A + (n :: nat)"
  obtains j where "Y div 4096 = A div 4096 + j" and "j < n div 4096"
proof -
  obtain k m where km: "A = 4096 * k" "n = 4096 * m" using assms(1,2) by blast
  define r where "r = Y - A"
  have Y: "Y = 4096 * k + r" "r < 4096 * m" using assms(3,4) km by (simp_all add: r_def)
  have "Y div 4096 = k + r div 4096" by (simp add: Y(1))
  moreover have "r div 4096 < m" using Y(2) by (simp add: less_mult_imp_div_less)
  ultimately show ?thesis using that [of "r div 4096"] km by simp
qed

lemma set_present_slots: "x \<in> set (present_slots m t i k) \<longleftrightarrow> (\<exists>l < k. x = t + 8 * (i + of_nat l) \<and> ent_present (m x))"
  unfolding present_slots_def set_filter set_map set_upt by auto

text \<open>The addresses that the release invalidates are kernel addresses of the frames.\<close>

lemma released_frames:
  assumes t: "tbl (k_va K) (kmem (kern (device p))) (table_root K) (table_path a) = Some t"
    and a: "4096 dvd unat a" "unat a + 4096 * n < 0x1000000000000" and n: "unat (PTE64_INDEX a) + n < 512"
    and q: "q \<in> set (map (\<lambda>x. k_va K (ent_base (kmem (kern (device p)) x)))
                 (present_slots (kmem (kern (device p))) t (PTE64_INDEX a) (n + 1)))"
  obtains z f where "z < 0x1000000000000" and "frame K p z = Some f" and "q = k_va K (PAGE_ADDR f)"
proof -
  obtain x where x: "x \<in> set (present_slots (kmem (kern (device p))) t (PTE64_INDEX a) (n + 1))"
    "q = k_va K (ent_base (kmem (kern (device p)) x))" using q unfolding set_map by (rule imageE)
  then obtain l where l: "l \<le> n" "ent_present (kmem (kern (device p)) (t + 8 * (PTE64_INDEX a + of_nat l)))"
    "q = k_va K (ent_base (kmem (kern (device p)) (t + 8 * (PTE64_INDEX a + of_nat l))))"
    unfolding set_present_slots by (metis Suc_eq_plus1 less_Suc_eq_le)
  let ?z = "a + of_nat (4096 * l)"
  have "unat (of_nat (4096 * l) :: u64) = 4096 * l" using a(2) l(1) by (intro unat_of_nat_u64) simp
  then have z: "unat ?z = unat a + 4096 * l" using a(2) l(1) by (subst add_no_wrap) simp_all
  then have "unat ?z div 4096 = unat a div 4096 + l" using a(1) by (simp add: div_plus_div_distrib_dvd_left)
  note pz = pages_apart [OF this]
  have ln: "unat (PTE64_INDEX a) + l < 512" using n l(1) by simp
  have "?z < 0x1000000000000" using z a(2) l(1) by (simp add: word_less_nat_alt)
  moreover note slot_frame [OF t pz(1) [OF ln]]
  ultimately show ?thesis using that l(2,3) base_page_addr pz(2) [OF ln] by metis
qed

lemma stale_entry:
  assumes i: "vspace_inv (vmap (device p)) L" and wf: "wf_tables (k_va K) (kmem (kern (device p))) (table_root K) F"
    and c: "find (\<lambda>c. mm_start c = a \<and> mm_allocated c) (vs_nodes (vmap (device p))) = Some c"
    and one: "unat (PTE64_INDEX a) + nsize c div 4096 + 1 < 512"
    and y: "unat a \<le> unat y" "unat y < unat a + nsize c" and fy: "frame K p y = Some (g + PAGE_OFFSET_4KB y)"
    and k: "\<And>z f. z < 0x1000000000000 \<Longrightarrow> frame K p z = Some f \<Longrightarrow> \<not> same_page (k_va K (PAGE_ADDR f)) y"
  obtains vs s qs where "petmem_free_range (k_va K) (k_cr3 K) (vmap (device p)) a (kern (device p)) = ret (vs, s, qs)"
    and "translate (k_va K) (kmem s) (table_root K) y = None" and "k_va K g \<in> set qs" and "PAGE_ADDR y \<notin> PAGE_ADDR ` set qs"
proof -
  let ?m = "kmem (kern (device p))" and ?n = "nsize c div 4096" and ?i = "PTE64_INDEX a"
  note nd = live_node [OF i c]
  obtain j where j: "unat y div 4096 = unat a div 4096 + j" "j < ?n" by (rule page_in_range [OF nd(2,3) y])
  have "unat ?i + j < 512" using j(2) one by simp
  note py = pages_apart [OF j(1) this]
  obtain t where t: "tbl (k_va K) ?m (table_root K) (table_path a) = Some t"
    and e: "ent_present (?m (t + 8 * (?i + of_nat j)))" "g = ent_base (?m (t + 8 * (?i + of_nat j)))"
    using fy py by (auto simp: frame_def translate_def Let_def split: option.splits if_splits)
  have one': "unat ?i + unat (num_pages_of (mm_size c)) + 1 < 512" using one nd(5) by simp
  let ?qs = "map (\<lambda>x. k_va K (ent_base (?m x))) (present_slots ?m t ?i (?n + 1))"
  obtain s where s: "petmem_free_range (k_va K) (k_cr3 K) (vmap (device p)) a (kern (device p))
        = ret (petmem_free_vspace (vmap (device p)) a, s, ?qs)"
    and tr: "\<And>z. translate (k_va K) (kmem s) (table_root K) z =
                (if table_path z = table_path a \<and> ?i \<le> PTE64_INDEX z \<and> PTE64_INDEX z \<le> ?i + num_pages_of (mm_size c)
                 then None else translate (k_va K) ?m (table_root K) z)"
    using free_range_in_table [OF c nd(6) table_root_def wf t refl one'] unfolding nd(5) by blast
  have "unat (PTE64_INDEX y) = unat ?i + j" "unat (?i + num_pages_of (mm_size c)) = unat ?i + ?n"
    using slot_index(2) [of ?i j j] one j(2) nd(5) py(2) by (simp_all add: add_no_wrap)
  then have none: "translate (k_va K) (kmem s) (table_root K) y = None"
    using tr [of y] py(1) j(2) by (simp add: word_le_nat_alt)
  have "t + 8 * (?i + of_nat j) \<in> set (present_slots ?m t ?i (?n + 1))"
    unfolding set_present_slots using e(1) j(2) by (intro exI [of _ j]) simp
  then have g: "k_va K g \<in> set ?qs" unfolding set_map e(2) by (rule imageI)
  have far: "\<not> same_page q y" if q: "q \<in> set ?qs" for q
  proof -
    have "4096 * ?n = nsize c" using nd(3) by simp
    then have b: "unat a + 4096 * ?n < 0x1000000000000" using nd(4) by simp
    have lt: "unat ?i + ?n < 512" using one by simp
    obtain z f where "z < 0x1000000000000" "frame K p z = Some f" "q = k_va K (PAGE_ADDR f)"
      by (rule released_frames [OF t nd(2) b lt q])
    then show ?thesis using k by simp
  qed
  show ?thesis by (rule that [OF s none g page_addr_notin [OF far]])
qed

section \<open>A process with a cached page\<close>

text \<open>The process that has touched the first page of its buffer, and whose processor has cached that page.\<close>

lemma cached_machine:
  obtains M g where "machine_run kern0 proc0 M {(68719476736, 5000)}" and "tlb M 0x1000000000 = Some g"
    and "vmap (device (proc M)) = vmap (device proc2)"
    and "\<And>z f. z < 0x1000000000000 \<Longrightarrow> frame kern0 (proc M) z = Some f \<Longrightarrow> \<not> same_page (PAGE_ADDR f) 0x1000000000"
proof -
  let ?x = "0x1000000000 :: u64"
  from process_run_inv [OF proc2_run proc0_ok] obtain L where
    L: "process_inv kern0 proc2 L" "buffers_ok L {(68719476736, 5000)}" by blast
  from buffer_span [OF L(2), of "(68719476736, 5000)"] obtain r where r: "r \<in> L" "span (68719476736, 5000) \<subseteq> span r"
    by auto
  then have x: "unat ?x \<in> span r" by (auto simp: span_def subset_iff)
  let ?s = "kern (device proc2)"
  obtain rc s where h: "petmem_handle_pagefault (k_va kern0) (k_pa kern0) (k_cr3 kern0) (vmap (device proc2)) ?x 1 ?s = (rc, s)" by fastforce
  have i: "vspace_inv (vmap (device proc2)) L" and w: "walk_ok (k_va kern0) (k_pa kern0) (table_root kern0) ?s"
    and hs: "fd_open proc2" "handler_set proc2"
    using L(1) by (simp_all add: process_inv_def)
  have wf: "wf_tables (k_va kern0) (kmem ?s) (table_root kern0) (set (kpages ?s))" "good_pages (k_va kern0) (k_pa kern0) (kpages ?s)"
    using w by (simp_all add: walk_ok_def)
  have n: "4 \<le> length (kpages ?s)" by (simp add: proc2_empty)
  note un = proc2_empty(1) [unfolded frame_def]
  have ec: "(1 :: u32) \<noteq> 2" by simp
  note sp = handle_pagefault_spec [OF i r(1) x ec table_root_def wf n un h]
  then obtain pg where pg: "pg \<in> set (kpages ?s)"
    "translate (k_va kern0) (kmem s) (table_root kern0) ?x = Some (k_pa kern0 pg + PAGE_OFFSET_4KB ?x)" by blast
  let ?p = "proc2\<lparr>device := (device proc2)\<lparr>kern := s\<rparr>\<rparr>"
  let ?M0 = "\<lparr>proc = proc2, tlb = (\<lambda>_. None)\<rparr> :: machine" and ?M1 = "\<lparr>proc = ?p, tlb = (\<lambda>_. None)\<rparr> :: machine"
  have "rc = 0" using sp by blast
  then have t: "touch_tlb kern0 0 ?x ?M0 = ret ?M1"
    using hs proc2_empty(1) h
    by (simp add: touch_tlb_def reaches_def touch_def segv_code [OF _ h] request_tlb_def local_arg_def flush_tlb_def
        PAGE_FAULT_def LAZY_FREE_def)
  have pa: "k_va kern0 = id" "k_pa kern0 = id" by (simp_all add: kern0_def)
  have pp: "page_pa pg" using wf(2) pg(1) by (simp add: good_pages_def pa)
  have "\<not> same_page pg ?x" using pg(1) by (auto simp: same_page_def proc2_def dev0_def fresh_machine_def)
  then have far: "\<not> same_page (PAGE_ADDR f) ?x" if f: "z < 0x1000000000000" "frame kern0 ?p z = Some f" for z f
  proof -
    have "same_page ?x z"
    proof (rule ccontr)
      assume "\<not> same_page ?x z"
      then have "frame kern0 ?p z = frame kern0 proc2 z" using sp f(1) by (simp add: frame_def)
      then show False using f(2) proc2_empty(1) by simp
    qed
    then have "same_page (pg + PAGE_OFFSET_4KB ?x) f"
      using translate_same_page [of ?x z "k_va kern0" "kmem s" "table_root kern0"] pg(2) f(2) by (simp add: frame_def pa)
    moreover have "same_page (PAGE_ADDR f) f" unfolding page_addr_same [symmetric] by (simp add: page_addr_idem)
    ultimately show ?thesis using pa_offset_page [OF pp, of ?x] \<open>\<not> same_page pg ?x\<close> unfolding same_page_def by metis
  qed
  let ?new = "\<lparr>proc = proc1, tlb = (\<lambda>_. None)\<rparr> :: machine"
  have m0: "machine_run kern0 proc0 ?new {}" by (rule machine_run.init [OF proc2_calls(1)])
  have n2: "2 \<notin> mm_node ` set (vs_nodes (vmap (device (proc ?new))))"
    and c2: "pet_malloc kern0 0 2 5000 (proc ?new) = ret (0x1000000000, proc2)" using proc2_calls(2,3) by simp_all
  have "machine_run kern0 proc0 ?M0 {(68719476736, 5000)}"
    using machine_run.malloc [OF m0 _ _ n2 c2] by simp
  from machine_run.touch [OF this _ _ t] have m1: "machine_run kern0 proc0 ?M1 {(68719476736, 5000)}"
    using n L(1) by (simp add: process_inv_def)
  have fx: "frame kern0 (proc ?M1) ?x = Some (k_pa kern0 pg + PAGE_OFFSET_4KB ?x)" using pg(2) by (simp add: frame_def)
  note m2 = machine_run.load [OF m1 _ fx]
  have "PAGE_ADDR ?x = ?x" by code_simp
  then show ?thesis using that [OF m2] far by simp
qed

section \<open>Properties\<close>



text \<open>
  C11: a released page stays accessible.  The release calls \<open>invlpg\<close> with the kernel's address of each frame
  and not with the address of the process, so that a page of the buffer whose translation is cached
  still reaches its frame after \<open>pet_free\<close>, although the tables do not map it any more and the frame has
  been given back to the kernel.  Only \<open>pet_invlpg\<close> on the address ends that.  The hypotheses say that the
  range lies in one page table and that the kernel's addresses of frames are not addresses of the
  buffer.
\<close>

theorem freed_page_still_reached:
  assumes "machine_run K p0 M G" and "\<not> killed p0"
    and "walk_ok (k_va K) (k_pa K) (table_root K) (kern (device p0))"
    and "frames_ok (k_va K) (k_pa K) (table_root K) (kern (device p0))"
    and "find (\<lambda>c. mm_start c = a \<and> mm_allocated c) (vs_nodes (vmap (device (proc M)))) = Some c"
    and "unat (PTE64_INDEX a) + unat (mm_size c) div 4096 + 1 < 512"
    and "unat a \<le> unat y" and "unat y < unat a + unat (mm_size c)" and "tlb M (PAGE_ADDR y) = Some g"
    and "\<And>z f. z < 0x1000000000000 \<Longrightarrow> frame K (proc M) z = Some f \<Longrightarrow> \<not> same_page (k_va K (PAGE_ADDR f)) y"
  shows "\<exists>M' M''. pet_free_tlb K a M = ret M' \<and> frame K (proc M') y = None
           \<and> k_va K g \<in> set (given_back (device (proc M'))) \<and> reaches K M' y = Some (g + PAGE_OFFSET_4KB y)
           \<and> pet_invlpg K y M' = ret M'' \<and> reaches K M'' y = None"
proof -
  let ?p = "proc M"
  have r: "process_run K p0 ?p G" "tlb_ok K M" using machine_run_ok [OF assms(1-4)] by blast+
  obtain L where L: "process_inv K ?p L" using process_run_inv [OF r(1) assms(2-4)] by blast
  then have i: "vspace_inv (vmap (device ?p)) L" and fd: "fd_open ?p"
    and wf: "wf_tables (k_va K) (kmem (kern (device ?p))) (table_root K) (set (kpages (kern (device ?p))))"
    by (simp_all add: process_inv_def walk_ok_def)
  have "y < 0x1000000000000" using live_node(4) [OF i assms(5)] assms(8) by (simp add: word_less_nat_alt)
  then have fy: "frame K ?p y = Some (g + PAGE_OFFSET_4KB y)" using r(2) assms(9) by (simp add: tlb_ok_def)
  obtain vs s qs where f: "petmem_free_range (k_va K) (k_cr3 K) (vmap (device ?p)) a (kern (device ?p)) = ret (vs, s, qs)"
    "translate (k_va K) (kmem s) (table_root K) y = None" "k_va K g \<in> set qs" "PAGE_ADDR y \<notin> PAGE_ADDR ` set qs"
    by (rule stale_entry [OF i wf assms(5-8) fy assms(10)])
  let ?M = "\<lparr>proc = ?p\<lparr>device := (device ?p)\<lparr>vmap := vs, kern := s, given_back := given_back (device ?p) @ qs\<rparr>\<rparr>,
     tlb = fold invlpg qs (tlb M)\<rparr>"
  have free: "pet_free_tlb K a M = ret ?M" by (rule pet_free_code [OF fd f(1)])
  have none: "frame K (proc ?M) y = None" using f(2) by (simp add: frame_def)
  obtain M'' where inv: "pet_invlpg K y ?M = ret M''" by (rule pet_invlpg_ret)
  have "reaches K M'' y = None" using ioctl_invalidate [OF inv] fd none by (simp add: reaches_def)
  moreover have "reaches K ?M y = Some (g + PAGE_OFFSET_4KB y)" using f(4) assms(9) by (simp add: reaches_def fold_invlpg)
  ultimately show ?thesis using free none f(3) inv by (intro exI [of _ ?M] exI [of _ M'']) simp
qed

theorem freed_page_still_reached_witness:
  "\<exists>M M' g. machine_run kern0 proc0 M {(68719476736, 5000)} \<and> pet_free_tlb kern0 0x1000000000 M = ret M'
     \<and> frame kern0 (proc M') 0x1000000fff = None \<and> g \<in> set (given_back (device (proc M')))
     \<and> reaches kern0 M' 0x1000000fff = Some (g + 0xfff)"
proof -
  obtain M g where M: "machine_run kern0 proc0 M {(68719476736, 5000)}" "tlb M 0x1000000000 = Some g"
    "vmap (device (proc M)) = vmap (device proc2)"
    "\<And>z f. z < 0x1000000000000 \<Longrightarrow> frame kern0 (proc M) z = Some f \<Longrightarrow> \<not> same_page (PAGE_ADDR f) 0x1000000000"
    by (rule cached_machine, rule that)
  have v: "vmap (device proc2) = snd (petmem_alloc_vspace vm0 2 2)" by (simp add: proc2_def)
  have c: "find (\<lambda>c. mm_start c = 0x1000000000 \<and> mm_allocated c) (vs_nodes (vmap (device proc2)))
      = Some (hd (vs_nodes (vmap (device proc2))))" unfolding v by code_simp
  have sz: "mm_size (hd (vs_nodes (vmap (device proc2)))) = 8192" unfolding v by code_simp
  have x: "PTE64_INDEX 0x1000000000 = 0" "PAGE_ADDR 0x1000000fff = 0x1000000000" "PAGE_OFFSET_4KB 0x1000000fff = 0xfff" by code_simp+
  have s: "same_page q 0x1000000fff \<longleftrightarrow> same_page q 0x1000000000" for q
  proof -
    have "drop_bit 12 (0x1000000fff :: u64) = drop_bit 12 0x1000000000" by code_simp
    then show ?thesis by (simp add: same_page_def)
  qed
  have va: "k_va kern0 = id" by (simp add: kern0_def)
  have "\<not> same_page (k_va kern0 (PAGE_ADDR f)) 0x1000000fff" if "z < 0x1000000000000" "frame kern0 (proc M) z = Some f" for z f
    using M(4) [OF that] by (simp add: s va)
  from freed_page_still_reached [OF M(1) proc0_ok c [folded M(3)] _ _ _ _ this] M(1-3) sz x va
  show ?thesis by fastforce
qed

end
