(* ===== verification/PetmemModule.thy ===== *)
theory PetmemModule
  imports Prelude
begin

text \<open>
  Loading and unloading the kernel module (\<open>petmem_init\<close> and \<open>petmem_exit\<close> of \<open>src/VMproject/main.c\<close>), the memory
  of a buddy pool itself (\<open>buddy_init\<close>, \<open>buddy_deinit\<close> of \<open>src/VMproject/buddy.c\<close>), and the swap device
  (\<open>src/VMproject/swap.c\<close>), whose functions are stubs.
\<close>

section \<open>Registration\<close>

text \<open>
  What the kernel has registered: classes, regions of device numbers, character devices and device
  nodes, the last three by device number.
\<close>

record registry =
  classes :: "u64 set"
  regions :: "u32 set"
  cdevs :: "u32 set"
  devices :: "u32 set"

text \<open>The static variables \<open>petmem_class\<close> and \<open>major_num\<close>.\<close>

record module_vars =
  petmem_class :: u64
  major_num :: u32

definition MKDEV :: "u32 \<Rightarrow> u32 \<Rightarrow> u32" where
  "MKDEV ma mi = push_bit 20 ma OR mi"

definition MAJOR :: "u32 \<Rightarrow> u32" where
  "MAJOR dev = drop_bit 20 dev"

text \<open>
  \<open>petmem_init\<close>.  The answers of the kernel are arguments: \<open>class_create\<close> returns a class or an error code, which
  the pointer \<open>petmem_class\<close> then holds,
  \<open>alloc_chrdev_region\<close> a device number or a negative code; \<open>cdev_add\<close> and \<open>device_create\<close> may fail, and the code
  does not look at their results.
\<close>

definition petmem_init ::
  "(int + u64) \<Rightarrow> (int + u32) \<Rightarrow> bool \<Rightarrow> bool \<Rightarrow> module_vars \<Rightarrow> registry \<Rightarrow> int \<times> module_vars \<times> registry" where
  "petmem_init class_create alloc_chrdev_region cdev_add_ok device_create_ok g R =
     (case class_create of
        Inl err \<Rightarrow> (err, g\<lparr>petmem_class := of_int err\<rparr>, R)
      | Inr c \<Rightarrow>
          let g = g\<lparr>petmem_class := c\<rparr>;
              R = R\<lparr>classes := insert c (classes R)\<rparr>
          in case alloc_chrdev_region of
               Inl err \<Rightarrow> (err, g, R\<lparr>classes := classes R - {petmem_class g}\<rparr>)
             | Inr dev \<Rightarrow>
                 let R = R\<lparr>regions := insert dev (regions R)\<rparr>;
                     g = g\<lparr>major_num := MAJOR dev\<rparr>;
                     dev = MKDEV (major_num g) 0;
                     R = (if cdev_add_ok then R\<lparr>cdevs := insert dev (cdevs R)\<rparr> else R);
                     R = (if device_create_ok then R\<lparr>devices := insert dev (devices R)\<rparr> else R)
                 in (0, g, R))"

definition petmem_exit :: "module_vars \<Rightarrow> registry \<Rightarrow> registry" where
  "petmem_exit g R =
     (let dev = MKDEV (major_num g) 0;
          R = R\<lparr>regions := regions R - {MKDEV (major_num g) 0}\<rparr>;
          R = R\<lparr>cdevs := cdevs R - {dev}\<rparr>;
          R = R\<lparr>devices := devices R - {dev}\<rparr>
      in R\<lparr>classes := classes R - {petmem_class g}\<rparr>)"

lemma MAJOR_MKDEV: "ma < 4096 \<Longrightarrow> MAJOR (MKDEV ma 0) = ma"
  unfolding MAJOR_def MKDEV_def
proof (simp, rule bit_word_eqI)
  fix k assume ma: "ma < 4096" and k: "k < LENGTH(32)"
  have "unat (take_bit 12 ma) = unat ma" using ma by (simp add: unsigned_take_bit_eq take_bit_nat_eq_self word_less_nat_alt)
  then have "take_bit 12 ma = ma" by (simp add: word_unat_eq_iff)
  then have "bit ma k \<Longrightarrow> k < 12" by (metis bit_take_bit_iff)
  then show "bit (drop_bit 20 (push_bit 20 ma)) k = bit ma k" using k by (auto simp: bit_simps)
qed

section \<open>The memory of a buddy pool\<close>

text \<open>
  The three blocks of a pool that come from \<open>kmalloc\<close>, and the set of blocks that are allocated.  Freeing
  a block that is not allocated is a fault.
\<close>

record pool_cells =
  mp_cell :: u64
  avail_cell :: u64
  tag_cell :: u64

definition kfree :: "u64 \<Rightarrow> u64 set \<Rightarrow> u64 set res" where
  "kfree p H = (if p = NULL then Inr H else if p \<in> H then Inr (H - {p}) else Inl (UseAfterFree p))"

text \<open>The allocations of \<open>buddy_init\<close>: \<open>m\<close>, \<open>a\<close> and \<open>t\<close> are the results of \<open>kmalloc\<close>, which are not compared with \<open>NULL\<close>.\<close>

definition buddy_init_cells :: "u64 \<Rightarrow> u64 \<Rightarrow> u64 \<Rightarrow> u64 set \<Rightarrow> (pool_cells \<times> u64 set) res" where
  "buddy_init_cells m a t H =
     (if m = NULL \<or> a = NULL \<or> t = NULL then Inl (BadDeref NULL)
      else Inr (\<lparr>mp_cell = m, avail_cell = a, tag_cell = t\<rparr>, {m, a, t} \<union> H))"

definition buddy_deinit :: "pool_cells \<Rightarrow> u64 set \<Rightarrow> u64 set res" where
  "buddy_deinit c H =
     (if mp_cell c \<notin> H then Inl (UseAfterFree (mp_cell c))
      else rbind (kfree (avail_cell c) H) (\<lambda>H.
           rbind (kfree (tag_cell c) H) (\<lambda>H.
           kfree (mp_cell c) H)))"

section \<open>The swap device\<close>

text \<open>No function of the swap device does anything: no space is created and no page can be moved.\<close>

definition swap_init :: "u32 \<Rightarrow> u64" where
  "swap_init num_pages = NULL"

definition swap_free :: "u64 \<Rightarrow> 'k \<Rightarrow> 'k" where
  "swap_free swap k = k"

definition swap_out_page :: "u64 \<Rightarrow> u64 \<Rightarrow> 'k \<Rightarrow> int \<times> 'k" where
  "swap_out_page swap page k = (- 1, k)"

definition swap_in_page :: "u64 \<Rightarrow> u32 \<Rightarrow> u64 \<Rightarrow> 'k \<Rightarrow> int \<times> 'k" where
  "swap_in_page swap index dst_page k = (- 1, k)"

section \<open>Properties\<close>

text \<open>
  Loading and unloading the module leaves no trace: an initialisation that reports an error has
  registered nothing, and after one that reports success \<open>petmem_exit\<close> takes back exactly what was
  registered, whether or not \<open>cdev_add\<close> and \<open>device_create\<close> did what was asked.  The hypotheses say that the
  kernel hands out a new class and a new device number with minor number 0.
\<close>

theorem module_load_unload:
  assumes "\<And>c. cls = Inr c \<Longrightarrow> c \<notin> classes R"
    and "\<And>d. reg = Inr d \<Longrightarrow> (\<exists>ma < 4096. d = MKDEV ma 0) \<and> d \<notin> regions R \<union> cdevs R \<union> devices R"
    and "\<And>e. cls = Inl e \<or> reg = Inl e \<Longrightarrow> e < 0"
    and "petmem_init cls reg add_ok dev_ok g R = (rc, g', R')"
  shows "(rc < 0 \<longrightarrow> R' = R) \<and> (rc \<ge> 0 \<longrightarrow> rc = 0 \<and> petmem_exit g' R' = R
           \<and> petmem_class g' \<in> classes R' \<and> MKDEV (major_num g') 0 \<in> regions R')"
proof (cases cls)
  case (Inl e)
  then have "rc = e" "R' = R" "e < 0" using assms(3,4) by (simp_all add: petmem_init_def)
  then show ?thesis by simp
next
  case (Inr c)
  note c = Inr
  have new: "c \<notin> classes R" using assms(1) c by blast
  show ?thesis
  proof (cases reg)
    case (Inl e)
    then have "rc = e" "R' = R\<lparr>classes := insert c (classes R) - {c}\<rparr>" "e < 0"
      using assms(3,4) c by (auto simp: petmem_init_def Let_def)
    then show ?thesis using new by simp
  next
    case (Inr d)
    from assms(2) [OF Inr] obtain ma where ma: "ma < 4096" "d = MKDEV ma 0" "d \<notin> regions R" "d \<notin> cdevs R" "d \<notin> devices R" by blast
    have "MKDEV (MAJOR d) 0 = d" using MAJOR_MKDEV [OF ma(1)] ma(2) by simp
    then show ?thesis using assms(4) c Inr new ma(3-5)
      by (cases add_ok; cases dev_ok) (auto simp: petmem_init_def petmem_exit_def Let_def)
  qed
qed

theorem module_load_unload_witness:
  "let R = \<lparr>classes = {}, regions = {}, cdevs = {}, devices = {}\<rparr>;
       (rc, g, R') = petmem_init (Inr 0x1000) (Inr (MKDEV 240 0)) True True \<lparr>petmem_class = 0, major_num = 0\<rparr> R
   in rc = 0 \<and> petmem_exit g R' = R"
proof -
  let ?R = "\<lparr>classes = {}, regions = {}, cdevs = {}, devices = {}\<rparr> :: registry" and ?g = "\<lparr>petmem_class = 0, major_num = 0\<rparr>"
  obtain rc g R' where i: "petmem_init (Inr 0x1000) (Inr (MKDEV 240 0)) True True ?g ?R = (rc, g, R')"
    by (metis prod.collapse)
  have "rc = 0" using i by (simp add: petmem_init_def Let_def)
  then show ?thesis using module_load_unload [OF _ _ _ i] i by force
qed

text \<open>A failure of \<open>cdev_add\<close> goes unnoticed: the module reports success without a device.\<close>

lemma init_ignores_cdev_add:
  "petmem_init (Inr c) (Inr d) False dev_ok g R = (rc, g', R') \<Longrightarrow> rc = 0 \<and> cdevs R' = cdevs R"
  by (auto simp: petmem_init_def Let_def split: if_splits)

text \<open>A pool gives back the memory it was made of, once.\<close>

lemma buddy_deinit_roundtrip:
  assumes "distinct [m, a, t]" and "{m, a, t} \<inter> H = {}" and "buddy_init_cells m a t H = Inr (c, H')"
  shows "buddy_deinit c H' = Inr H" and "buddy_deinit c H = Inl (UseAfterFree m)"
proof -
  have nz: "m \<noteq> NULL" "a \<noteq> NULL" "t \<noteq> NULL" and c: "c = \<lparr>mp_cell = m, avail_cell = a, tag_cell = t\<rparr>" "H' = {m, a, t} \<union> H"
    using assms(3) by (simp_all add: buddy_init_cells_def split: if_splits)
  have "buddy_deinit c H' = Inr ({m, a, t} \<union> H - {a} - {t} - {m})" using assms(1) nz by (auto simp: c buddy_deinit_def kfree_def)
  moreover have "{m, a, t} \<union> H - {a} - {t} - {m} = H" using assms(2) by blast
  ultimately show "buddy_deinit c H' = Inr H" by simp
  show "buddy_deinit c H = Inl (UseAfterFree m)" using assms(2) by (simp add: c buddy_deinit_def)
qed

end
