(* ===== verification/PgMacros.thy ===== *)
theory PgMacros
  imports PgTables
begin

text \<open>
  The macros of \<open>src/VMproject/pgtables.h\<close> that the module does not use itself: indices into the tables of the
  32-bit paging modes, and addresses, offsets and sizes of large pages.  The macros of each page size
  fit together, and the indices of each mode determine the address.
\<close>

section \<open>Indices of the 32-bit modes\<close>

definition MAX_PDE32_ENTRIES :: nat where "MAX_PDE32_ENTRIES = 1024"
definition MAX_PTE32_ENTRIES :: nat where "MAX_PTE32_ENTRIES = 1024"
definition MAX_PDPE32PAE_ENTRIES :: nat where "MAX_PDPE32PAE_ENTRIES = 4"
definition MAX_PDE32PAE_ENTRIES :: nat where "MAX_PDE32PAE_ENTRIES = 512"
definition MAX_PTE32PAE_ENTRIES :: nat where "MAX_PTE32PAE_ENTRIES = 512"

definition PDE32_INDEX :: "u64 \<Rightarrow> u32" where
  "PDE32_INDEX x = drop_bit 22 (ucast x) AND 0x3ff"

definition PTE32_INDEX :: "u64 \<Rightarrow> u32" where
  "PTE32_INDEX x = drop_bit 12 (ucast x) AND 0x3ff"

definition PDPE32PAE_INDEX :: "u64 \<Rightarrow> u32" where
  "PDPE32PAE_INDEX x = drop_bit 30 (ucast x) AND 0x3"

definition PDE32PAE_INDEX :: "u64 \<Rightarrow> u32" where
  "PDE32PAE_INDEX x = drop_bit 21 (ucast x) AND 0x1ff"

definition PTE32PAE_INDEX :: "u64 \<Rightarrow> u32" where
  "PTE32PAE_INDEX x = drop_bit 12 (ucast x) AND 0x1ff"

definition CR3_TO_PDE32_PA :: "u64 \<Rightarrow> u64" where
  "CR3_TO_PDE32_PA cr3 = ucast (ucast cr3 AND 0xfffff000 :: u32)"

definition CR3_TO_PDPE32PAE_PA :: "u64 \<Rightarrow> u64" where
  "CR3_TO_PDPE32PAE_PA cr3 = ucast (ucast cr3 AND 0xffffffe0 :: u32)"

section \<open>Large pages\<close>

definition PAGE_POWER_4KB :: nat where "PAGE_POWER_4KB = 12"
definition PAGE_POWER_2MB :: nat where "PAGE_POWER_2MB = 21"
definition PAGE_POWER_4MB :: nat where "PAGE_POWER_4MB = 22"
definition PAGE_POWER_1GB :: nat where "PAGE_POWER_1GB = 30"
definition PAGE_SIZE_2MB :: u64 where "PAGE_SIZE_2MB = 4096 * 512"
definition PAGE_SIZE_4MB :: u64 where "PAGE_SIZE_4MB = 4096 * 1024"
definition PAGE_SIZE_1GB :: u64 where "PAGE_SIZE_1GB = 0x40000000"

definition PAGE_TO_BASE_ADDR_4KB :: "u64 \<Rightarrow> u64" where
  "PAGE_TO_BASE_ADDR_4KB x = drop_bit 12 x"

definition BASE_TO_PAGE_ADDR_4KB :: "u64 \<Rightarrow> u64" where
  "BASE_TO_PAGE_ADDR_4KB x = push_bit 12 x"

definition PAGE_ADDR_4KB :: "u64 \<Rightarrow> u64" where
  "PAGE_ADDR_4KB x = push_bit PAGE_POWER_4KB (drop_bit PAGE_POWER_4KB x)"

definition PAGE_TO_BASE_ADDR_2MB :: "u64 \<Rightarrow> u64" where
  "PAGE_TO_BASE_ADDR_2MB x = drop_bit 21 x"

definition BASE_TO_PAGE_ADDR_2MB :: "u64 \<Rightarrow> u64" where
  "BASE_TO_PAGE_ADDR_2MB x = push_bit 21 x"

definition PAGE_OFFSET_2MB :: "u64 \<Rightarrow> u64" where
  "PAGE_OFFSET_2MB x = x AND 0x1fffff"

definition PAGE_ADDR_2MB :: "u64 \<Rightarrow> u64" where
  "PAGE_ADDR_2MB x = push_bit PAGE_POWER_2MB (drop_bit PAGE_POWER_2MB x)"

definition PAGE_TO_BASE_ADDR_4MB :: "u64 \<Rightarrow> u64" where
  "PAGE_TO_BASE_ADDR_4MB x = drop_bit 22 x"

definition BASE_TO_PAGE_ADDR_4MB :: "u64 \<Rightarrow> u64" where
  "BASE_TO_PAGE_ADDR_4MB x = push_bit 22 x"

definition PAGE_OFFSET_4MB :: "u64 \<Rightarrow> u64" where
  "PAGE_OFFSET_4MB x = x AND 0x3fffff"

definition PAGE_ADDR_4MB :: "u64 \<Rightarrow> u64" where
  "PAGE_ADDR_4MB x = push_bit PAGE_POWER_4MB (drop_bit PAGE_POWER_4MB x)"

definition PAGE_TO_BASE_ADDR_1GB :: "u64 \<Rightarrow> u64" where
  "PAGE_TO_BASE_ADDR_1GB x = drop_bit 30 x"

definition BASE_TO_PAGE_ADDR_1GB :: "u64 \<Rightarrow> u64" where
  "BASE_TO_PAGE_ADDR_1GB x = push_bit 30 x"

definition PAGE_OFFSET_1GB :: "u64 \<Rightarrow> u64" where
  "PAGE_OFFSET_1GB x = x AND 0x3fffffff"

definition PAGE_ADDR_1GB :: "u64 \<Rightarrow> u64" where
  "PAGE_ADDR_1GB x = push_bit PAGE_POWER_1GB (drop_bit PAGE_POWER_1GB x)"

section \<open>Properties\<close>

lemma page_split:
  fixes x :: u64
  shows "push_bit k (drop_bit k x) + (x AND mask k) = x"
proof -
  have "push_bit k (drop_bit k x) AND (x AND mask k) = 0" by (rule bit_eqI) (auto simp: bit_simps)
  then have "push_bit k (drop_bit k x) + (x AND mask k) = push_bit k (drop_bit k x) OR (x AND mask k)"
    by (rule disjunctive_add_eq_or)
  also have "\<dots> = x" by (rule bit_eqI) (auto simp: bit_simps dest: bit_imp_le_length)
  finally show ?thesis .
qed

text \<open>
  For every page size the base address of an address converts back to the address of its page, page
  address and offset add up to the address, and the offset is less than the size of the page.
\<close>

theorem large_page_macros:
  "BASE_TO_PAGE_ADDR_4KB (PAGE_TO_BASE_ADDR_4KB x) = PAGE_ADDR_4KB x \<and> PAGE_ADDR_4KB x + PAGE_OFFSET_4KB x = x \<and> PAGE_OFFSET_4KB x < 4096"
  "BASE_TO_PAGE_ADDR_2MB (PAGE_TO_BASE_ADDR_2MB x) = PAGE_ADDR_2MB x \<and> PAGE_ADDR_2MB x + PAGE_OFFSET_2MB x = x \<and> PAGE_OFFSET_2MB x < PAGE_SIZE_2MB"
  "BASE_TO_PAGE_ADDR_4MB (PAGE_TO_BASE_ADDR_4MB x) = PAGE_ADDR_4MB x \<and> PAGE_ADDR_4MB x + PAGE_OFFSET_4MB x = x \<and> PAGE_OFFSET_4MB x < PAGE_SIZE_4MB"
  "BASE_TO_PAGE_ADDR_1GB (PAGE_TO_BASE_ADDR_1GB x) = PAGE_ADDR_1GB x \<and> PAGE_ADDR_1GB x + PAGE_OFFSET_1GB x = x \<and> PAGE_OFFSET_1GB x < PAGE_SIZE_1GB"
proof -
  have m: "(0xfff :: u64) = mask 12" "(0x1fffff :: u64) = mask 21" "(0x3fffff :: u64) = mask 22" "(0x3fffffff :: u64) = mask 30"
    by (simp_all add: mask_eq_exp_minus_1)
  have lt: "unat (x AND mask k) < 2 ^ k" for k by (simp add: take_bit_eq_mask [symmetric] unsigned_take_bit_eq)
  show "BASE_TO_PAGE_ADDR_4KB (PAGE_TO_BASE_ADDR_4KB x) = PAGE_ADDR_4KB x \<and> PAGE_ADDR_4KB x + PAGE_OFFSET_4KB x = x \<and> PAGE_OFFSET_4KB x < 4096"
    using page_split [of 12 x] lt [of 12]
    by (simp add: BASE_TO_PAGE_ADDR_4KB_def PAGE_TO_BASE_ADDR_4KB_def PAGE_ADDR_4KB_def PAGE_POWER_4KB_def PAGE_OFFSET_4KB_def m word_less_nat_alt)
  show "BASE_TO_PAGE_ADDR_2MB (PAGE_TO_BASE_ADDR_2MB x) = PAGE_ADDR_2MB x \<and> PAGE_ADDR_2MB x + PAGE_OFFSET_2MB x = x \<and> PAGE_OFFSET_2MB x < PAGE_SIZE_2MB"
    using page_split [of 21 x] lt [of 21]
    by (simp add: BASE_TO_PAGE_ADDR_2MB_def PAGE_TO_BASE_ADDR_2MB_def PAGE_ADDR_2MB_def PAGE_POWER_2MB_def PAGE_OFFSET_2MB_def PAGE_SIZE_2MB_def m word_less_nat_alt)
  show "BASE_TO_PAGE_ADDR_4MB (PAGE_TO_BASE_ADDR_4MB x) = PAGE_ADDR_4MB x \<and> PAGE_ADDR_4MB x + PAGE_OFFSET_4MB x = x \<and> PAGE_OFFSET_4MB x < PAGE_SIZE_4MB"
    using page_split [of 22 x] lt [of 22]
    by (simp add: BASE_TO_PAGE_ADDR_4MB_def PAGE_TO_BASE_ADDR_4MB_def PAGE_ADDR_4MB_def PAGE_POWER_4MB_def PAGE_OFFSET_4MB_def PAGE_SIZE_4MB_def m word_less_nat_alt)
  show "BASE_TO_PAGE_ADDR_1GB (PAGE_TO_BASE_ADDR_1GB x) = PAGE_ADDR_1GB x \<and> PAGE_ADDR_1GB x + PAGE_OFFSET_1GB x = x \<and> PAGE_OFFSET_1GB x < PAGE_SIZE_1GB"
    using page_split [of 30 x] lt [of 30]
    by (simp add: BASE_TO_PAGE_ADDR_1GB_def PAGE_TO_BASE_ADDR_1GB_def PAGE_ADDR_1GB_def PAGE_POWER_1GB_def PAGE_OFFSET_1GB_def PAGE_SIZE_1GB_def m word_less_nat_alt)
qed

lemma bit_field: "bit (push_bit k (drop_bit k x AND mask j)) n \<longleftrightarrow> k \<le> n \<and> n < k + j \<and> bit (x :: u32) n"
  by (auto simp: bit_simps dest: bit_imp_le_length)

text \<open>
  In both 32-bit modes the indices determine the address together with the offset in the page, and
  they are within their tables.
\<close>

theorem recompose_32:
  "push_bit 22 (PDE32_INDEX x) OR push_bit 12 (PTE32_INDEX x) OR (ucast x AND 0xfff) = ucast x"
  "push_bit 30 (PDPE32PAE_INDEX x) OR push_bit 21 (PDE32PAE_INDEX x) OR push_bit 12 (PTE32PAE_INDEX x) OR (ucast x AND 0xfff) = ucast x"
proof -
  have m: "(0x3ff :: u32) = mask 10" "(0x1ff :: u32) = mask 9" "(0x3 :: u32) = mask 2" "(0xfff :: u32) = mask 12"
    by (simp_all add: mask_eq_exp_minus_1)
  show "push_bit 22 (PDE32_INDEX x) OR push_bit 12 (PTE32_INDEX x) OR (ucast x AND 0xfff) = ucast x"
    "push_bit 30 (PDPE32PAE_INDEX x) OR push_bit 21 (PDE32PAE_INDEX x) OR push_bit 12 (PTE32PAE_INDEX x) OR (ucast x AND 0xfff) = ucast x"
    unfolding PDE32_INDEX_def PTE32_INDEX_def PDPE32PAE_INDEX_def PDE32PAE_INDEX_def PTE32PAE_INDEX_def m
    by (rule bit_word_eqI; unfold bit_or_iff bit_field; auto simp: bit_and_iff bit_mask_iff bit_unsigned_iff)+
qed

theorem index_32_less:
  "unat (PDE32_INDEX x) < MAX_PDE32_ENTRIES \<and> unat (PTE32_INDEX x) < MAX_PTE32_ENTRIES"
  "unat (PDPE32PAE_INDEX x) < MAX_PDPE32PAE_ENTRIES \<and> unat (PDE32PAE_INDEX x) < MAX_PDE32PAE_ENTRIES
     \<and> unat (PTE32PAE_INDEX x) < MAX_PTE32PAE_ENTRIES"
proof -
  have m: "(0x3ff :: u32) = mask 10" "(0x1ff :: u32) = mask 9" "(0x3 :: u32) = mask 2" by (simp_all add: mask_eq_exp_minus_1)
  have lt: "unat (w AND mask k) < 2 ^ k" for w :: u32 and k by (simp add: take_bit_eq_mask [symmetric] unsigned_take_bit_eq)
  show "unat (PDE32_INDEX x) < MAX_PDE32_ENTRIES \<and> unat (PTE32_INDEX x) < MAX_PTE32_ENTRIES"
    using lt [of _ 10] by (simp add: PDE32_INDEX_def PTE32_INDEX_def MAX_PDE32_ENTRIES_def MAX_PTE32_ENTRIES_def m)
  show "unat (PDPE32PAE_INDEX x) < MAX_PDPE32PAE_ENTRIES \<and> unat (PDE32PAE_INDEX x) < MAX_PDE32PAE_ENTRIES
     \<and> unat (PTE32PAE_INDEX x) < MAX_PTE32PAE_ENTRIES"
    using lt [of _ 9] lt [of _ 2]
    by (simp add: PDPE32PAE_INDEX_def PDE32PAE_INDEX_def PTE32PAE_INDEX_def MAX_PDPE32PAE_ENTRIES_def
        MAX_PDE32PAE_ENTRIES_def MAX_PTE32PAE_ENTRIES_def m)
qed

end
