(* ===== verification/MemTool.thy ===== *)
theory MemTool
  imports Prelude
begin

text \<open>
  The tool \<open>src/VMproject/user/petmem.c\<close>, which takes memory away from Linux and donates it to the module.
  It looks for a run of removable memory blocks in a bitmap, takes them offline, checks that Linux
  has complied, starts again without a block that is still online, and finally sends the address and
  size of the blocks with an \<open>ADD_MEMORY\<close> request.  The files under \<open>/sys/devices/system/memory\<close> are
  parameters: a content is \<open>None\<close> when the file cannot be opened or read.
\<close>

section \<open>Numbers in files\<close>

definition is_digit :: "char \<Rightarrow> bool" where
  "is_digit c = (48 \<le> (of_char c :: nat) \<and> (of_char c :: nat) \<le> 57)"

definition is_space :: "char \<Rightarrow> bool" where
  "is_space c = ((of_char c :: nat) = 32 \<or> 9 \<le> (of_char c :: nat) \<and> (of_char c :: nat) \<le> 13)"

definition digits :: "string \<Rightarrow> int" where
  "digits s = foldl (\<lambda>n c. 10 * n + (of_char c - 48)) 0 (takeWhile is_digit s)"

text \<open>\<open>atoi\<close> and \<open>atoll\<close>, for numbers that fit.\<close>

definition atoi :: "string \<Rightarrow> int" where
  "atoi s = (case dropWhile is_space s of
       [] \<Rightarrow> 0
     | c # cs \<Rightarrow> if c = CHR ''-'' then - digits cs else if c = CHR ''+'' then digits cs else digits (c # cs))"

definition hex_digit :: "char \<Rightarrow> int option" where
  "hex_digit c = (let n = of_char c :: int in
     if 48 \<le> n \<and> n \<le> 57 then Some (n - 48)
     else if 97 \<le> n \<and> n \<le> 102 then Some (n - 87)
     else if 65 \<le> n \<and> n \<le> 70 then Some (n - 55)
     else None)"

fun hex_digits :: "int \<Rightarrow> string \<Rightarrow> int" where
  "hex_digits n [] = n"
| "hex_digits n (c # cs) = (case hex_digit c of None \<Rightarrow> n | Some d \<Rightarrow> hex_digits (16 * n + d) cs)"

text \<open>\<open>strtoll\<close> with base 16, for the unsigned numbers that sysfs writes.\<close>

definition strtoll16 :: "string \<Rightarrow> int" where
  "strtoll16 s = (let t = dropWhile is_space s in
     if take 2 t = ''0x'' \<or> take 2 t = ''0X'' then hex_digits 0 (drop 2 t) else hex_digits 0 t)"

section \<open>The directory of blocks\<close>

definition dir_filter :: "string \<Rightarrow> bool" where
  "dir_filter name = (take 6 name = ''memory'')"

definition dir_num :: "string \<Rightarrow> int" where
  "dir_num name = atoi (drop 6 name)"

definition dir_cmp :: "string \<Rightarrow> string \<Rightarrow> int" where
  "dir_cmp d1 d2 = dir_num d1 - dir_num d2"

text \<open>\<open>scandir\<close> with these two functions.\<close>

definition scandir :: "string list \<Rightarrow> string list" where
  "scandir names = sort_key dir_num (filter dir_filter names)"

section \<open>The bitmap\<close>

type_synonym bitmap = "u8 list"

definition bitmap_size :: "int \<Rightarrow> nat" where
  "bitmap_size entries = nat (entries div 8) + (if entries mod 8 \<noteq> 0 then 1 else 0)"

definition test_block :: "bitmap \<Rightarrow> int \<Rightarrow> bool res" where
  "test_block bm i =
     (if 0 \<le> i \<and> nat i div 8 < length bm
      then Inr (bm ! (nat i div 8) AND push_bit (nat i mod 8) 1 \<noteq> 0) else Inl OutOfBounds)"

definition mark_block :: "bitmap \<Rightarrow> int \<Rightarrow> bitmap res" where
  "mark_block bm i =
     (if 0 \<le> i \<and> nat i div 8 < length bm
      then Inr (bm[nat i div 8 := bm ! (nat i div 8) OR push_bit (nat i mod 8) 1]) else Inl OutOfBounds)"

definition unmark_block :: "bitmap \<Rightarrow> int \<Rightarrow> bitmap res" where
  "unmark_block bm i =
     (if 0 \<le> i \<and> nat i div 8 < length bm
      then Inr (bm[nat i div 8 := bm ! (nat i div 8) AND NOT (push_bit (nat i mod 8) 1)]) else Inl OutOfBounds)"

text \<open>
  The loop that reads the file \<open>removable\<close> of each block.  It runs while the number \<open>j\<close> of the block before
  is less than that of the last one; \<open>Inr None\<close> stands for \<open>return -1\<close>.
\<close>

fun build_bitmap :: "(string \<Rightarrow> string option) \<Rightarrow> int \<Rightarrow> string list \<Rightarrow> int \<Rightarrow> bitmap \<Rightarrow> bitmap option res" where
  "build_bitmap removable entries [] j bm = (if j < entries - 1 then Inl OutOfBounds else Inr (Some bm))"
| "build_bitmap removable entries (tmp_dir # namelist) j bm =
     (if j < entries - 1
      then case removable tmp_dir of
          None \<Rightarrow> Inr None
        | Some status_str \<Rightarrow>
            rbind (if atoi status_str = 1 then mark_block bm (dir_num tmp_dir) else Inr bm) (\<lambda>bm.
            build_bitmap removable entries namelist (dir_num tmp_dir) bm)
      else Inr (Some bm))"

text \<open>\<open>alloc_ok\<close> is the outcome of \<open>malloc\<close>.\<close>

definition scan_dirs :: "bool \<Rightarrow> (string \<Rightarrow> string option) \<Rightarrow> string list \<Rightarrow> (int \<times> bitmap) option res" where
  "scan_dirs alloc_ok removable names =
     (let namelist = scandir names in
      if namelist = [] then Inl OutOfBounds
      else if \<not> alloc_ok then Inr None
      else let entries = dir_num (last namelist) + 1
           in rbind (build_bitmap removable entries namelist 0 (replicate (bitmap_size entries) 0)) (\<lambda>r.
              Inr (map_option (Pair entries) r)))"

section \<open>The search for a run\<close>

text \<open>\<open>reg_start\<close> is not reset when the search starts again.\<close>

fun scan_run :: "bitmap \<Rightarrow> int \<Rightarrow> nat list \<Rightarrow> int \<Rightarrow> int \<Rightarrow> (int \<times> int) res" where
  "scan_run bm num_blocks [] run_len reg_start = Inr (run_len, reg_start)"
| "scan_run bm num_blocks (i # is) run_len reg_start =
     rbind (test_block bm (int i)) (\<lambda>b.
     if \<not> b then scan_run bm num_blocks is 0 (int i + 1)
     else if run_len + 1 \<ge> num_blocks then Inr (run_len + 1, reg_start)
     else scan_run bm num_blocks is (run_len + 1) reg_start)"

text \<open>
  The files \<open>state\<close>: writing one changes the state \<open>'k\<close> of Linux (\<open>None\<close> when the file cannot be opened),
  reading one does not.
\<close>

record 'k sysfs =
  write_state :: "int \<Rightarrow> string \<Rightarrow> 'k \<Rightarrow> 'k option"
  read_state :: "int \<Rightarrow> 'k \<Rightarrow> string option"

fun write_blocks :: "'k sysfs \<Rightarrow> string \<Rightarrow> int \<Rightarrow> nat list \<Rightarrow> 'k \<Rightarrow> bool \<times> 'k" where
  "write_blocks fs w reg_start [] k = (True, k)"
| "write_blocks fs w reg_start (i # is) k =
     (case write_state fs (int i + reg_start) w k of
        None \<Rightarrow> (False, k)
      | Some k \<Rightarrow> write_blocks fs w reg_start is k)"

definition newline :: string where
  "newline = [CHR 0x0A]"

datatype outcome = GiveUp | MemReady | KeepSearching bitmap

text \<open>
  The loop that checks the blocks.  At the first one that is still online it clears the bit of that
  block and brings those before it online again.
\<close>

fun check_blocks :: "'k sysfs \<Rightarrow> int \<Rightarrow> bitmap \<Rightarrow> nat list \<Rightarrow> 'k \<Rightarrow> (outcome \<times> 'k) res" where
  "check_blocks fs reg_start bm [] k = Inr (MemReady, k)"
| "check_blocks fs reg_start bm (i # is) k =
     (case read_state fs (int i + reg_start) k of
        None \<Rightarrow> Inr (GiveUp, k)
      | Some status_buf \<Rightarrow>
          if take 7 status_buf = ''offline'' then check_blocks fs reg_start bm is k
          else rbind (unmark_block bm (int i + reg_start)) (\<lambda>bm.
               let (opened, k) = write_blocks fs (''online'' @ newline) reg_start [0..<i] k
               in Inr (if opened then KeepSearching bm else GiveUp, k)))"

definition search_round :: "'k sysfs \<Rightarrow> int \<Rightarrow> int \<Rightarrow> bitmap \<Rightarrow> int \<Rightarrow> 'k \<Rightarrow> (outcome \<times> int \<times> 'k) res" where
  "search_round fs num_blocks entries bm reg_start k =
     rbind (scan_run bm num_blocks [0..<nat entries] 0 reg_start) (\<lambda>(run_len, reg_start).
     if run_len < num_blocks then Inr (GiveUp, reg_start, k)
     else let (opened, k) = write_blocks fs (''offline'' @ newline) reg_start [0..<nat num_blocks] k
          in if \<not> opened then Inr (GiveUp, reg_start, k)
             else rbind (check_blocks fs reg_start bm [0..<nat num_blocks] k) (\<lambda>(r, k). Inr (r, reg_start, k)))"

text \<open>The loop \<open>while (!mem_ready)\<close>; the result is the start of the region, if one was found.\<close>

partial_function (option) search_loop ::
  "'k sysfs \<Rightarrow> int \<Rightarrow> int \<Rightarrow> bitmap \<Rightarrow> int \<Rightarrow> 'k \<Rightarrow> (int option \<times> 'k) run" where
  "search_loop fs num_blocks entries bm reg_start k =
     pbind (Some (search_round fs num_blocks entries bm reg_start k)) (\<lambda>(r, reg_start, k).
     case r of
       GiveUp \<Rightarrow> ret (None, k)
     | MemReady \<Rightarrow> ret (Some reg_start, k)
     | KeepSearching bm \<Rightarrow> search_loop fs num_blocks entries bm reg_start k)"

section \<open>The program\<close>

definition num_blocks_of :: "u64 \<Rightarrow> u32 \<Rightarrow> int" where
  "num_blocks_of mem_size block_size =
     sint (ucast (mem_size div ucast block_size) :: u32) + (if mem_size mod ucast block_size \<noteq> 0 then 1 else 0)"

text \<open>The range that is sent with \<open>ADD_MEMORY\<close>: its address and its number of pages.\<close>

definition donated_range :: "int \<Rightarrow> int \<Rightarrow> u32 \<Rightarrow> u64 \<times> u64" where
  "donated_range reg_start num_blocks block_size =
     (of_int reg_start * ucast block_size, (of_int num_blocks * ucast block_size) div 4096)"

text \<open>\<open>can_open\<close> is the outcome of opening the device at the end.\<close>

definition petmem_tool ::
  "'k sysfs \<Rightarrow> bool \<Rightarrow> bool \<Rightarrow> string list \<Rightarrow> (string \<Rightarrow> string option) \<Rightarrow> string option \<Rightarrow> string list \<Rightarrow> 'k \<Rightarrow>
   ((u64 \<times> u64) option \<times> 'k) run" where
  "petmem_tool fs alloc_ok can_open names removable block_size_file argv k =
     (if length argv \<noteq> 2 then ret (None, k)
      else let mem_size = of_int (atoi (argv ! 1)) * (1024 * 1024) in
      case block_size_file of
        None \<Rightarrow> ret (None, k)
      | Some tmp_buf \<Rightarrow>
          let block_size = of_int (strtoll16 tmp_buf) in
          if block_size = 0 then fail DivByZero
          else let num_blocks = num_blocks_of mem_size block_size in
          pbind (Some (scan_dirs alloc_ok removable names)) (\<lambda>r.
          case r of
            None \<Rightarrow> ret (None, k)
          | Some (entries, bm) \<Rightarrow>
              pbind (search_loop fs num_blocks entries bm 0 k) (\<lambda>(r, k).
              ret (if can_open then map_option (\<lambda>reg_start. donated_range reg_start num_blocks block_size) r else None, k))))"

end
