(* ===== verification/MemToolProps.thy ===== *)
theory MemToolProps
  imports MemTool
begin

text \<open>
  The memory tool: it always ends, and what it donates are blocks that were removable and that Linux
  reports as offline, enough of them for the requested size.  The start of the region survives
  from one search to the next without a reset; \<open>skipped\<close> is the reason why that does no harm.
\<close>

section \<open>Bits\<close>

definition marked :: "bitmap \<Rightarrow> nat \<Rightarrow> bool" where
  "marked bm i = (i div 8 < length bm \<and> bit (bm ! (i div 8)) (i mod 8))"

definition in_map :: "bitmap \<Rightarrow> nat \<Rightarrow> bool" where
  "in_map bm i = (i div 8 < length bm)"

lemma bit_one_at: "bit (2 ^ k :: u8) n \<longleftrightarrow> n = k \<and> k < 8"
  by (auto simp: bit_exp_iff)

lemma and_one_at: "k < 8 \<Longrightarrow> (w :: u8) AND 2 ^ k \<noteq> 0 \<longleftrightarrow> bit w k"
proof -
  assume k: "k < 8"
  have "bit (w AND 2 ^ k) n \<longleftrightarrow> n = k \<and> bit w k" for n using k by (auto simp: bit_and_iff bit_one_at)
  then show ?thesis by (metis bit_0_eq bot_apply bot_bool_def bit_eqI)
qed

lemma test_block_eq: "in_map bm i \<Longrightarrow> test_block bm (int i) = Inr (marked bm i)"
  by (simp add: test_block_def in_map_def marked_def and_one_at)

lemma block_eq: "i div 8 = j div 8 \<Longrightarrow> i mod 8 = j mod 8 \<Longrightarrow> i = (j :: nat)"
  by (metis div_mult_mod_eq)

lemma mark_block_spec:
  assumes "in_map bm j"
  obtains bm' where "mark_block bm (int j) = Inr bm'" and "length bm' = length bm"
    and "\<And>i. marked bm' i \<longleftrightarrow> marked bm i \<or> i = j"
proof -
  let ?bm = "bm[j div 8 := bm ! (j div 8) OR push_bit (j mod 8) 1]"
  have "marked ?bm i \<longleftrightarrow> marked bm i \<or> i = j" for i
    using assms block_eq [of i j] by (cases "i div 8 = j div 8") (auto simp: marked_def in_map_def bit_or_iff bit_one_at)
  then show ?thesis using that [of ?bm] assms by (simp add: mark_block_def in_map_def)
qed

lemma unmark_block_spec:
  assumes "in_map bm j"
  obtains bm' where "unmark_block bm (int j) = Inr bm'" and "length bm' = length bm"
    and "\<And>i. marked bm' i \<longleftrightarrow> marked bm i \<and> i \<noteq> j"
proof -
  let ?bm = "bm[j div 8 := bm ! (j div 8) AND NOT (push_bit (j mod 8) 1)]"
  have "marked ?bm i \<longleftrightarrow> marked bm i \<and> i \<noteq> j" for i
    using assms block_eq [of i j]
    by (cases "i div 8 = j div 8") (auto simp: marked_def in_map_def bit_and_iff bit_not_iff bit_one_at dest: bit_imp_le_length)
  then show ?thesis using that [of ?bm] assms by (simp add: unmark_block_def in_map_def)
qed

section \<open>The search for a run\<close>

text \<open>No run of \<open>n\<close> marked blocks lies below \<open>i\<close>.\<close>

definition no_run :: "(nat \<Rightarrow> bool) \<Rightarrow> nat \<Rightarrow> nat \<Rightarrow> bool" where
  "no_run B n i = (\<forall>s. s + n \<le> i \<longrightarrow> (\<exists>j. s \<le> j \<and> j < s + n \<and> \<not> B j))"

text \<open>The blocks before \<open>r\<close> need not be searched again.\<close>

definition skipped :: "(nat \<Rightarrow> bool) \<Rightarrow> nat \<Rightarrow> nat \<Rightarrow> bool" where
  "skipped B n r = (r = 0 \<or> \<not> B (r - 1) \<and> no_run B n (r - 1))"

lemma no_run_mono: "no_run B n i \<Longrightarrow> j \<le> i \<Longrightarrow> (\<And>k. B' k \<Longrightarrow> B k) \<Longrightarrow> no_run B' n j"
  unfolding no_run_def by (meson order_trans)

lemma skipped_mono: "skipped B n r \<Longrightarrow> (\<And>k. B' k \<Longrightarrow> B k) \<Longrightarrow> skipped B' n r"
  unfolding skipped_def by (meson no_run_mono order_refl)

text \<open>
  The state of the search before block \<open>i\<close>: the last \<open>l\<close> blocks are marked and the one before them is not,
  and \<open>r\<close> is where they start, or a start from an earlier search that lies ahead.
\<close>

definition searching :: "(nat \<Rightarrow> bool) \<Rightarrow> nat \<Rightarrow> nat \<Rightarrow> nat \<Rightarrow> nat \<Rightarrow> bool" where
  "searching B n i l r =
     (l < n \<and> l \<le> i \<and> (\<forall>j. i - l \<le> j \<and> j < i \<longrightarrow> B j) \<and> (l < i \<longrightarrow> \<not> B (i - l - 1)) \<and> no_run B n i
    \<and> (r = i - l \<or> i < r \<and> skipped B n r))"

lemma searching_reset:
  assumes "searching B n i l r" and "\<not> B i"
  shows "searching B n (Suc i) 0 (Suc i)"
proof -
  have "no_run B n (Suc i)"
    unfolding no_run_def
  proof (intro allI impI)
    fix s assume s: "s + n \<le> Suc i"
    show "\<exists>j. s \<le> j \<and> j < s + n \<and> \<not> B j"
    proof (cases "s + n = Suc i")
      case True
      then show ?thesis using assms by (intro exI [of _ i]) (auto simp: searching_def)
    next
      case False
      then show ?thesis using assms(1) s by (auto simp: searching_def no_run_def)
    qed
  qed
  then show ?thesis using assms by (auto simp: searching_def)
qed

text \<open>A marked block completes the run exactly at the start that is recorded.\<close>

lemma searching_found:
  assumes s: "searching B n i l r" and b: "B i" and n: "n \<le> Suc l"
  shows "r + n = Suc i" and "\<forall>j. r \<le> j \<and> j < r + n \<longrightarrow> B j" and "skipped B n r"
proof -
  have l: "n = Suc l" "l \<le> i" using s n by (auto simp: searching_def)
  have run: "B j" if "i - l \<le> j" "j \<le> i" for j
    using s b that by (cases "j = i") (auto simp: searching_def)
  have "r = i - l"
  proof (rule ccontr)
    assume "r \<noteq> i - l"
    then have r: "i < r" "\<not> B (r - 1)" "no_run B n (r - 1)" using s by (auto simp: searching_def skipped_def)
    then have "i \<noteq> r - 1" using b by auto
    then have "(i - l) + n \<le> r - 1" using r(1) l by simp
    then obtain j where "i - l \<le> j" "j < (i - l) + n" "\<not> B j" using r(3) unfolding no_run_def by blast
    then show False using run [of j] l by simp
  qed
  note r = this
  then show "r + n = Suc i" "\<forall>j. r \<le> j \<and> j < r + n \<longrightarrow> B j" using l run by auto
  show "skipped B n r"
  proof (cases "l < i")
    case True
    have "no_run B n i" using s by (simp add: searching_def)
    then have "no_run B n (r - 1)" by (rule no_run_mono) (simp_all add: r)
    then show ?thesis using s True by (simp add: searching_def skipped_def r)
  qed (simp add: skipped_def r)
qed

lemma searching_next:
  assumes s: "searching B n i l r" and b: "B i" and n: "Suc l < n"
  shows "searching B n (Suc i) (Suc l) r"
proof -
  have run: "B j" if "i - l \<le> j" "j \<le> i" for j
    using s b that by (cases "j = i") (auto simp: searching_def)
  have "no_run B n (Suc i)"
    unfolding no_run_def
  proof (intro allI impI)
    fix q assume q: "q + n \<le> Suc i"
    show "\<exists>j. q \<le> j \<and> j < q + n \<and> \<not> B j"
    proof (cases "q + n = Suc i")
      case True
      then have "l < i" "q \<le> i - l - 1" using n by auto
      then show ?thesis using s True by (intro exI [of _ "i - l - 1"]) (auto simp: searching_def)
    next
      case False
      then show ?thesis using s q by (auto simp: searching_def no_run_def)
    qed
  qed
  moreover have "r = Suc i - Suc l \<or> Suc i < r \<and> skipped B n r"
  proof (cases "r = i - l")
    case False
    then have "i < r" "\<not> B (r - 1)" "skipped B n r" using s by (auto simp: searching_def skipped_def)
    then show ?thesis using b by (cases "r = Suc i") auto
  qed simp
  ultimately show ?thesis using s n run by (auto simp: searching_def)
qed

text \<open>The blocks \<open>r\<close> to \<open>r + n - 1\<close> are below \<open>N\<close> and marked.\<close>

definition run_at :: "(nat \<Rightarrow> bool) \<Rightarrow> nat \<Rightarrow> nat \<Rightarrow> nat \<Rightarrow> bool" where
  "run_at B N n r = (\<forall>j < n. r + j < N \<and> B (r + j))"

lemma scan_run_spec:
  assumes "\<forall>i < N. in_map bm i" and "searching (marked bm) n i l r" and "i \<le> N"
  shows "\<exists>l' r'. scan_run bm (int n) [i..<N] (int l) (int r) = Inr (int l', int r')
           \<and> (n \<le> l' \<longrightarrow> run_at (marked bm) N n r' \<and> skipped (marked bm) n r')"
  using assms(2,3)
proof (induction "N - i" arbitrary: i l r)
  case 0
  then show ?case by (auto simp: searching_def)
next
  case (Suc d)
  then have i: "i < N" and d: "d = N - Suc i" by auto
  then have u: "[i..<N] = i # [Suc i..<N]" and t: "test_block bm (int i) = Inr (marked bm i)"
    using assms(1) test_block_eq by (simp_all add: upt_conv_Cons)
  consider "\<not> marked bm i" | "marked bm i" "n \<le> Suc l" | "marked bm i" "Suc l < n" by linarith
  then show ?case
  proof cases
    case 1
    from Suc.hyps(1) [OF d searching_reset [OF Suc.prems(1) 1]] i 1 show ?thesis by (simp add: u t add.commute)
  next
    case 2
    note f = searching_found [OF Suc.prems(1) 2]
    have "run_at (marked bm) N n r" using f(1,2) i by (auto simp: run_at_def)
    then show ?thesis using 2 f(3) by (intro exI [of _ "Suc l"] exI [of _ r]) (simp add: u t)
  next
    case 3
    from Suc.hyps(1) [OF d searching_next [OF Suc.prems(1) 3]] i 3 show ?thesis by (simp add: u t add.commute)
  qed
qed

lemma scan_run_zero:
  assumes "\<forall>i \<in> set is. in_map bm i"
  shows "\<exists>l' r'. scan_run bm 0 is (int l) (int r) = Inr (int l', int r')"
  using assms
proof (induction "is" arbitrary: l r)
  case (Cons i "is")
  then have t: "test_block bm (int i) = Inr (marked bm i)" using test_block_eq by simp
  show ?case
  proof (cases "marked bm i")
    case True
    then show ?thesis by (intro exI [of _ "Suc l"] exI [of _ r]) (simp add: t)
  next
    case False
    show ?thesis using Cons.IH [of 0 "Suc i"] Cons.prems False by (simp add: t add.commute)
  qed
qed auto

lemma scan_from_start:
  assumes "\<forall>i < N. in_map bm i" and "skipped (marked bm) n r"
  shows "\<exists>l' r'. scan_run bm (int n) [0..<N] 0 (int r) = Inr (int l', int r')
           \<and> (n \<le> l' \<longrightarrow> run_at (marked bm) N n r' \<and> (n = 0 \<or> skipped (marked bm) n r'))"
proof (cases "n = 0")
  case True
  then show ?thesis using scan_run_zero [of "[0..<N]" bm 0 r] assms(1) by (auto simp: run_at_def)
next
  case False
  then have "searching (marked bm) n 0 0 r" using assms(2) by (auto simp: searching_def no_run_def)
  from scan_run_spec [OF assms(1) this] show ?thesis by auto
qed

section \<open>Taking blocks offline\<close>

definition offline_at :: "'k sysfs \<Rightarrow> 'k \<Rightarrow> nat \<Rightarrow> bool" where
  "offline_at fs k b = (case read_state fs (int b) k of None \<Rightarrow> False | Some st \<Rightarrow> take 7 st = ''offline'')"

text \<open>What is left of the search after a failed round: a marked block less, and none more.\<close>

definition narrowed :: "nat \<Rightarrow> bitmap \<Rightarrow> bitmap \<Rightarrow> bool" where
  "narrowed N bm bm' = (length bm' = length bm \<and> (\<forall>i. marked bm' i \<longrightarrow> marked bm i)
     \<and> (\<exists>j < N. marked bm j \<and> \<not> marked bm' j))"

definition marked_count :: "nat \<Rightarrow> bitmap \<Rightarrow> nat" where
  "marked_count N bm = card {i. i < N \<and> marked bm i}"

lemma narrowed_count: "narrowed N bm bm' \<Longrightarrow> marked_count N bm' < marked_count N bm"
  unfolding narrowed_def marked_count_def by (intro psubset_card_mono) auto

lemma check_blocks_spec:
  assumes "\<forall>i < N. in_map bm i" and "run_at (marked bm) N n r"
  shows "\<exists>res k'. check_blocks fs (int r) bm [i..<n] k = Inr (res, k')
           \<and> (case res of GiveUp \<Rightarrow> True | MemReady \<Rightarrow> \<forall>j. i \<le> j \<and> j < n \<longrightarrow> offline_at fs k' (r + j)
              | KeepSearching bm' \<Rightarrow> narrowed N bm bm')
           \<and> (res = MemReady \<longrightarrow> k' = k)"
proof (induction "n - i" arbitrary: i)
  case (Suc d)
  then have i: "i < n" and d: "d = n - Suc i" by auto
  then have u: "[i..<n] = i # [Suc i..<n]" by (simp add: upt_conv_Cons)
  have b: "in_map bm (r + i)" "r + i < N" "marked bm (r + i)" using assms i by (auto simp: run_at_def)
  have ri: "int i + int r = int (r + i)" by simp
  consider "read_state fs (int (r + i)) k = None" | "offline_at fs k (r + i)"
    | st where "read_state fs (int (r + i)) k = Some st" "take 7 st \<noteq> ''offline''"
    by (cases "read_state fs (int (r + i)) k") (auto simp: offline_at_def)
  then show ?case
  proof cases
    case 1
    then show ?thesis by (simp add: u ri)
  next
    case 2
    then obtain st where st: "read_state fs (int (r + i)) k = Some st" "take 7 st = ''offline''"
      by (auto simp: offline_at_def split: option.splits)
    obtain res k' where res: "check_blocks fs (int r) bm [Suc i..<n] k = Inr (res, k')"
      "case res of GiveUp \<Rightarrow> True | MemReady \<Rightarrow> \<forall>j. Suc i \<le> j \<and> j < n \<longrightarrow> offline_at fs k' (r + j)
        | KeepSearching bm' \<Rightarrow> narrowed N bm bm'" "res = MemReady \<longrightarrow> k' = k"
      using Suc.hyps(1) [OF d] by blast
    have "offline_at fs k (r + j)" if "res = MemReady" "i \<le> j" "j < n" for j
      using res(2,3) 2 that by (cases "j = i") auto
    then show ?thesis using res st by (auto simp: u ri split: outcome.splits)
  next
    case 3
    from unmark_block_spec [OF b(1)] obtain bm' where
      um: "unmark_block bm (int (r + i)) = Inr bm'" "length bm' = length bm" "\<And>j. marked bm' j \<longleftrightarrow> marked bm j \<and> j \<noteq> r + i"
      by blast
    then have "narrowed N bm bm'" using b by (auto simp: narrowed_def)
    moreover obtain opened k1 where "write_blocks fs (''online'' @ newline) (int r) [0..<i] k = (opened, k1)" by fastforce
    ultimately show ?thesis using 3 um(1) by (cases opened) (simp_all add: u ri)
  qed
qed auto

lemma search_round_spec:
  assumes m: "\<forall>i < N. in_map bm i" and sk: "skipped (marked bm) n r"
  shows "\<exists>res r' k'. search_round fs (int n) (int N) bm (int r) k = Inr (res, int r', k')
           \<and> (case res of GiveUp \<Rightarrow> True | MemReady \<Rightarrow> run_at (marked bm) N n r' \<and> (\<forall>j < n. offline_at fs k' (r' + j))
              | KeepSearching bm' \<Rightarrow> narrowed N bm bm' \<and> skipped (marked bm') n r')"
proof -
  from scan_from_start [OF m sk] obtain l r' where
    s: "scan_run bm (int n) [0..<N] 0 (int r) = Inr (int l, int r')"
    and l: "n \<le> l \<longrightarrow> run_at (marked bm) N n r' \<and> (n = 0 \<or> skipped (marked bm) n r')" by blast
  obtain opened k1 where w: "write_blocks fs (''offline'' @ newline) (int r') [0..<n] k = (opened, k1)" by fastforce
  show ?thesis
  proof (cases "n \<le> l \<and> opened")
    case True
    from check_blocks_spec [OF m, of n r' fs 0 k1] l True obtain res k' where
      c: "check_blocks fs (int r') bm [0..<n] k1 = Inr (res, k')"
      and o: "case res of GiveUp \<Rightarrow> True | MemReady \<Rightarrow> \<forall>j. 0 \<le> j \<and> j < n \<longrightarrow> offline_at fs k' (r' + j)
              | KeepSearching bm' \<Rightarrow> narrowed N bm bm'" by blast
    have "n \<noteq> 0" if "res = KeepSearching bm'" for bm' using c that by (cases n) auto
    then show ?thesis
      using True l o skipped_mono [of "marked bm" n r'] s w c
      by (auto simp: search_round_def narrowed_def split: outcome.splits)
  next
    case False
    then show ?thesis using s w by (intro exI [of _ GiveUp] exI [of _ r']) (auto simp: search_round_def)
  qed
qed

text \<open>The search ends, and a region it finds is a run of removable blocks that are offline.\<close>

lemma search_loop_spec:
  assumes "\<forall>i < N. in_map bm i" and "skipped (marked bm) n r"
  shows "\<exists>res k'. search_loop fs (int n) (int N) bm (int r) k = ret (map_option int res, k')
           \<and> (\<forall>r'. res = Some r' \<longrightarrow> run_at (marked bm) N n r' \<and> (\<forall>j < n. offline_at fs k' (r' + j)))"
  using assms
proof (induction "marked_count N bm" arbitrary: bm r k rule: less_induct)
  case less
  from search_round_spec [OF less.prems, of fs k] obtain res r' k' where
    s: "search_round fs (int n) (int N) bm (int r) k = Inr (res, int r', k')"
    and o: "case res of GiveUp \<Rightarrow> True | MemReady \<Rightarrow> run_at (marked bm) N n r' \<and> (\<forall>j < n. offline_at fs k' (r' + j))
              | KeepSearching bm' \<Rightarrow> narrowed N bm bm' \<and> skipped (marked bm') n r'" by blast
  show ?case
  proof (cases res)
    case GiveUp
    then show ?thesis using s by (intro exI [of _ None] exI [of _ k']) (simp add: search_loop.simps [of fs])
  next
    case MemReady
    then show ?thesis using s o by (intro exI [of _ "Some r'"] exI [of _ k']) (simp add: search_loop.simps [of fs])
  next
    case (KeepSearching bm')
    then have nw: "narrowed N bm bm'" and sk: "skipped (marked bm') n r'" using o by simp_all
    then have "\<forall>i < N. in_map bm' i" using less.prems(1) by (simp add: narrowed_def in_map_def)
    from less.hyps [OF narrowed_count [OF nw] this sk, of k'] obtain q k2 where
      q: "search_loop fs (int n) (int N) bm' (int r') k' = ret (map_option int q, k2)"
      "\<forall>r'. q = Some r' \<longrightarrow> run_at (marked bm') N n r' \<and> (\<forall>j < n. offline_at fs k2 (r' + j))" by blast
    have "search_loop fs (int n) (int N) bm (int r) k = ret (map_option int q, k2)"
      using s KeepSearching q(1) by (simp add: search_loop.simps [of fs _ _ bm])
    moreover have "run_at (marked bm) N n r''" if "run_at (marked bm') N n r''" for r''
      using that nw by (auto simp: run_at_def narrowed_def)
    ultimately show ?thesis using q(2) by blast
  qed
qed

section \<open>The bitmap of removable blocks\<close>

definition removable_block :: "string list \<Rightarrow> (string \<Rightarrow> string option) \<Rightarrow> nat \<Rightarrow> bool" where
  "removable_block names removable b =
     (\<exists>name \<in> set names. dir_filter name \<and> dir_num name = int b
        \<and> (\<exists>st. removable name = Some st \<and> atoi st = 1))"

lemma build_bitmap_spec:
  assumes "\<forall>i < N. in_map bm i" and "\<forall>name \<in> set ns. 0 \<le> dir_num name \<and> dir_num name < int N"
    and "if ns = [] then int N - 1 \<le> j else dir_num (last ns) = int N - 1"
    and "\<forall>name \<in> set ns. name \<in> set names \<and> dir_filter name"
    and "\<forall>i. marked bm i \<longrightarrow> removable_block names removable i"
  shows "\<exists>r. build_bitmap removable (int N) ns j bm = Inr r
           \<and> (\<forall>bm'. r = Some bm' \<longrightarrow> length bm' = length bm \<and> (\<forall>i. marked bm' i \<longrightarrow> removable_block names removable i))"
  using assms
proof (induction ns arbitrary: j bm)
  case (Cons d ns)
  obtain b where b: "dir_num d = int b" "b < N" using Cons.prems(2) by (metis list.set_intros(1) nat_0_le of_nat_less_iff)
  have last: "if ns = [] then int N - 1 \<le> int b else dir_num (last ns) = int N - 1"
    using Cons.prems(3) b by (auto split: if_splits)
  show ?case
  proof (cases "removable d")
    case (Some st)
    obtain bm1 where bm1: "(if atoi st = 1 then mark_block bm (dir_num d) else Inr bm) = Inr bm1" "length bm1 = length bm"
      "\<And>i. marked bm1 i \<Longrightarrow> marked bm i \<or> atoi st = 1 \<and> i = b"
    proof (cases "atoi st = 1")
      case True
      have "in_map bm b" using Cons.prems(1) b(2) by blast
      from mark_block_spec [OF this] show ?thesis using that True b(1) by metis
    qed (use that in simp)
    have "removable_block names removable i" if "marked bm1 i" for i
      using bm1(3) [OF that] Cons.prems(4,5) Some b(1) by (auto simp: removable_block_def)
    then have "\<exists>r. build_bitmap removable (int N) ns (int b) bm1 = Inr r
      \<and> (\<forall>bm'. r = Some bm' \<longrightarrow> length bm' = length bm1 \<and> (\<forall>i. marked bm' i \<longrightarrow> removable_block names removable i))"
      using Cons.prems last bm1(2) by (intro Cons.IH) (auto simp: in_map_def)
    then show ?thesis using Cons.prems(5) Some bm1 b(1) by (cases "j < int N - 1") auto
  qed (use Cons.prems(5) in auto)
qed auto

lemma bitmap_size_covers: "i < N \<Longrightarrow> in_map (replicate (bitmap_size (int N)) 0) i"
  by (auto simp: in_map_def bitmap_size_def)

lemma unmarked_initially: "\<not> marked (replicate m 0) i"
  by (simp add: marked_def)

text \<open>What the tool relies on of sysfs: there are blocks, and they have numbers.\<close>

definition sysfs_names :: "string list \<Rightarrow> bool" where
  "sysfs_names names = ((\<exists>name \<in> set names. dir_filter name) \<and> (\<forall>name \<in> set names. dir_filter name \<longrightarrow> 0 \<le> dir_num name))"

lemma sorted_last: "sorted (map f xs) \<Longrightarrow> x \<in> set xs \<Longrightarrow> f x \<le> f (last xs)"
  by (induction xs) (auto dest: last_in_set)

lemma scan_dirs_spec:
  assumes "sysfs_names names"
  obtains N q where "\<exists>name \<in> set names. dir_filter name \<and> dir_num name = int N - 1"
    and "scan_dirs alloc_ok removable names = Inr q"
    and "\<forall>e bm. q = Some (e, bm) \<longrightarrow>
           e = int N \<and> (\<forall>i < N. in_map bm i) \<and> (\<forall>i. marked bm i \<longrightarrow> removable_block names removable i)"
proof -
  let ?ns = "scandir names"
  have mem: "set ?ns = {name \<in> set names. dir_filter name}" by (auto simp: scandir_def)
  then have ne: "?ns \<noteq> []" using assms by (auto simp: sysfs_names_def)
  have last: "last ?ns \<in> set names" "dir_filter (last ?ns)" "0 \<le> dir_num (last ?ns)"
    using last_in_set [OF ne] mem assms by (auto simp: sysfs_names_def)
  have so: "sorted (map dir_num ?ns)" by (simp add: scandir_def)
  have le: "dir_num name \<le> dir_num (last ?ns)" if "name \<in> set ?ns" for name
    by (rule sorted_last [where f = dir_num, OF so that])
  define N where "N = Suc (nat (dir_num (last ?ns)))"
  have N: "int N = dir_num (last ?ns) + 1" using last(3) by (simp add: N_def)
  have "\<exists>r. build_bitmap removable (int N) ?ns 0 (replicate (bitmap_size (int N)) 0) = Inr r
    \<and> (\<forall>bm'. r = Some bm' \<longrightarrow> length bm' = length (replicate (bitmap_size (int N)) (0 :: u8))
       \<and> (\<forall>i. marked bm' i \<longrightarrow> removable_block names removable i))"
  proof (rule build_bitmap_spec)
    show "\<forall>i < N. in_map (replicate (bitmap_size (int N)) 0) i" using bitmap_size_covers by blast
    show "\<forall>name \<in> set ?ns. 0 \<le> dir_num name \<and> dir_num name < int N"
      using le mem assms by (auto simp: N sysfs_names_def dest: le)
    show "if ?ns = [] then int N - 1 \<le> 0 else dir_num (last ?ns) = int N - 1" using ne by (simp add: N)
  qed (use mem unmarked_initially in auto)
  then obtain r where r: "build_bitmap removable (int N) ?ns 0 (replicate (bitmap_size (int N)) 0) = Inr r"
    "\<And>bm'. r = Some bm' \<Longrightarrow> length bm' = bitmap_size (int N) \<and> (\<forall>i. marked bm' i \<longrightarrow> removable_block names removable i)"
    by auto
  have "in_map bm' i" if "length bm' = bitmap_size (int N)" "i < N" for bm' i
    using bitmap_size_covers [OF that(2)] that(1) by (simp add: in_map_def)
  note in_map = this
  let ?q = "if alloc_ok then map_option (Pair (int N)) r else None"
  have "scan_dirs alloc_ok removable names = Inr ?q" using r(1) ne N by (simp add: scan_dirs_def Let_def)
  moreover have "e = int N \<and> (\<forall>i < N. in_map bm i) \<and> (\<forall>i. marked bm i \<longrightarrow> removable_block names removable i)"
    if "?q = Some (e, bm)" for e bm
    using that r(2) in_map by (auto split: if_splits)
  moreover have "\<exists>name \<in> set names. dir_filter name \<and> dir_num name = int N - 1" using last N by force
  ultimately show ?thesis using that by blast
qed

section \<open>The whole program\<close>

lemma num_blocks_nat:
  assumes "unat mem div unat bs < 2 ^ 31 - 1" and "bs \<noteq> 0"
  obtains n where "num_blocks_of mem bs = int n" and "unat mem \<le> n * unat bs" and "n \<le> unat mem div unat bs + 1"
proof -
  let ?q = "unat mem div unat bs" and ?r = "unat mem mod unat bs"
  have u: "unat (ucast bs :: u64) = unat bs" using unat_u32_less [of bs] by (simp add: unsigned_ucast_eq take_bit_nat_eq_self)
  have q: "unat (mem div ucast bs) = ?q" "unat (mem mod ucast bs) = ?r" by (simp_all add: unat_div unat_mod u)
  have "unat (ucast (mem div ucast bs) :: u32) = ?q" using assms(1) q(1) by (simp add: unsigned_ucast_eq take_bit_nat_eq_self)
  then have "sint (ucast (mem div ucast bs) :: u32) = int ?q"
    using assms(1) by (simp add: sint_uint signed_take_bit_int_eq_self uint_nat)
  moreover have "mem mod ucast bs = 0 \<longleftrightarrow> ?r = 0" using q(2) by (metis unat_eq_0)
  ultimately have n: "num_blocks_of mem bs = int (?q + (if ?r \<noteq> 0 then 1 else 0))" by (simp add: num_blocks_of_def)
  have e: "?q * unat bs + ?r = unat mem" "?r < unat bs" using assms(2) by (simp_all add: unat_gt_0)
  have "unat mem \<le> (?q + (if ?r \<noteq> 0 then 1 else 0)) * unat bs"
  proof (cases "?r = 0")
    case False
    have "unat mem \<le> ?q * unat bs + unat bs" using e by linarith
    then show ?thesis using False by (simp add: add_mult_distrib)
  qed (use e(1) in simp)
  then show ?thesis using that [OF n] by auto
qed

lemma donated_range_nat:
  assumes "(base, pages) = donated_range (int r) (int n) bs" and "(r + n) * unat bs < 2 ^ 64" and "4096 dvd unat bs"
  shows "unat base = r * unat bs" and "unat pages * 4096 = n * unat bs"
proof -
  have u: "(ucast bs :: u64) = of_nat (unat bs)"
    using unat_u32_less [of bs] by (simp add: word_unat_eq_iff unsigned_ucast_eq take_bit_nat_eq_self unat_of_nat_u64)
  have m: "r * unat bs < 2 ^ 64" "n * unat bs < 2 ^ 64" using assms(2) by (simp_all add: algebra_simps)
  have e: "base = of_nat (r * unat bs)" "pages = of_nat (n * unat bs) div 4096"
    using assms(1) unfolding donated_range_def u by (simp_all only: prod.inject of_int_of_nat_eq of_nat_mult)
  have "unat (4096 :: u64) = 4096" by simp
  then have "unat pages = n * unat bs div 4096" by (simp only: e unat_div unat_of_nat_u64 [OF m(2)])
  then show "unat pages * 4096 = n * unat bs" using assms(3) by (simp add: dvd_div_mult_self)
  show "unat base = r * unat bs" by (simp only: e unat_of_nat_u64 [OF m(1)])
qed

text \<open>
  The tool ends, and what it sends to the module is the run of blocks that its search has found.
\<close>

lemma petmem_tool_spec:
  assumes names: "sysfs_names names" and bs: "bs = of_int (strtoll16 buf)" "bs \<noteq> 0"
    and mem: "mem = of_int (atoi arg) * 1048576" and n: "num_blocks_of mem bs = int n"
  obtains res k' N where "petmem_tool fs alloc_ok can_open names removable (Some buf) [prog, arg] k = ret (res, k')"
    and "\<exists>name \<in> set names. dir_filter name \<and> dir_num name = int N - 1"
    and "\<And>rg. res = Some rg \<Longrightarrow> \<exists>r. rg = donated_range (int r) (int n) bs
           \<and> (\<forall>j < n. r + j < N \<and> removable_block names removable (r + j) \<and> offline_at fs k' (r + j))"
proof -
  obtain N q where N: "\<exists>name \<in> set names. dir_filter name \<and> dir_num name = int N - 1"
    and q: "scan_dirs alloc_ok removable names = Inr q"
    and bm: "\<forall>e bm. q = Some (e, bm) \<longrightarrow> e = int N \<and> (\<forall>i < N. in_map bm i) \<and> (\<forall>i. marked bm i \<longrightarrow> removable_block names removable i)"
    by (rule scan_dirs_spec [OF names, of alloc_ok removable])
  note tool = petmem_tool_def bs(1) [symmetric] mem [symmetric] n q Let_def
  show ?thesis
  proof (cases q)
    case None
    have "petmem_tool fs alloc_ok can_open names removable (Some buf) [prog, arg] k = ret (None, k)"
      using bs(2) by (simp add: tool None)
    then show ?thesis using that N by blast
  next
    case (Some eb)
    then obtain bm where q: "q = Some (int N, bm)" and bm: "\<forall>i < N. in_map bm i" "\<forall>i. marked bm i \<longrightarrow> removable_block names removable i"
      using bm by (cases eb) auto
    from search_loop_spec [OF bm(1), of n 0 fs k] obtain r k' where
      r: "search_loop fs (int n) (int N) bm 0 k = ret (map_option int r, k')"
      "\<And>r'. r = Some r' \<Longrightarrow> run_at (marked bm) N n r' \<and> (\<forall>j < n. offline_at fs k' (r' + j))"
      by (auto simp: skipped_def)
    let ?res = "if can_open then map_option (\<lambda>r. donated_range (int r) (int n) bs) r else None"
    have "petmem_tool fs alloc_ok can_open names removable (Some buf) [prog, arg] k = ret (?res, k')"
      using bs(2) r(1) by (simp add: tool q option.map_comp comp_def)
    moreover have "\<exists>r. rg = donated_range (int r) (int n) bs
           \<and> (\<forall>j < n. r + j < N \<and> removable_block names removable (r + j) \<and> offline_at fs k' (r + j))" if "?res = Some rg" for rg
      using that r(2) bm(2) by (auto simp: run_at_def split: if_splits)
    ultimately show ?thesis using that N by blast
  qed
qed

lemma tool_donation:
  assumes names: "sysfs_names names" and bs: "bs = (of_int (strtoll16 buf) :: u32)" "bs \<noteq> 0" "4096 dvd unat bs"
    and mem: "mem = (of_int (atoi arg) * 1048576 :: u64)" "unat mem div unat bs < 2 ^ 31 - 1"
    and phys: "\<forall>name \<in> set names. dir_filter name \<longrightarrow> (nat (dir_num name) + 1) * unat bs < 2 ^ 64"
    and run: "petmem_tool fs alloc_ok can_open names removable (Some buf) [prog, arg] k = ret (Some (base, pages), k')"
  shows "unat mem \<le> unat pages * 4096" and "unat pages * 4096 \<le> unat mem + unat bs"
    and "pages \<noteq> 0 \<Longrightarrow> \<exists>name \<in> set names. dir_filter name \<and> unat base + unat pages * 4096 \<le> (nat (dir_num name) + 1) * unat bs"
    and "\<And>x. unat base \<le> x \<Longrightarrow> x < unat base + unat pages * 4096 \<Longrightarrow>
           removable_block names removable (x div unat bs) \<and> offline_at fs k' (x div unat bs)"
proof -
  obtain n where n: "num_blocks_of mem bs = int n" "unat mem \<le> n * unat bs" "n \<le> unat mem div unat bs + 1"
    by (rule num_blocks_nat [OF mem(2) bs(2)])
  obtain res k2 N where t: "petmem_tool fs alloc_ok can_open names removable (Some buf) [prog, arg] k = ret (res, k2)"
    and N: "\<exists>name \<in> set names. dir_filter name \<and> dir_num name = int N - 1"
    and d: "\<And>rg. res = Some rg \<Longrightarrow> \<exists>r. rg = donated_range (int r) (int n) bs
           \<and> (\<forall>j < n. r + j < N \<and> removable_block names removable (r + j) \<and> offline_at fs k2 (r + j))"
    using petmem_tool_spec [OF names bs(1,2) mem(1) n(1), of fs alloc_ok can_open removable prog k] by metis
  have "res = Some (base, pages)" "k2 = k'" using t run by simp_all
  with d obtain r where r: "(base, pages) = donated_range (int r) (int n) bs"
    "\<And>j. j < n \<Longrightarrow> r + j < N \<and> removable_block names removable (r + j) \<and> offline_at fs k' (r + j)" by blast
  obtain name where nm: "name \<in> set names" "dir_filter name" "dir_num name = int N - 1" using N by blast
  then have "0 \<le> int N - 1" using names by (auto simp: sysfs_names_def)
  then have last: "nat (dir_num name) + 1 = N" using nm(3) by linarith
  then have fits: "N * unat bs < 2 ^ 64" using nm(1,2) phys by metis
  have "n * unat bs \<le> (unat mem div unat bs + 1) * unat bs" using n(3) by (rule mult_le_mono1)
  also have "\<dots> \<le> unat mem + unat bs" by (simp add: add_mult_distrib)
  finally have up: "n * unat bs \<le> unat mem + unat bs" .
  have *: "unat mem \<le> unat pages * 4096 \<and> unat pages * 4096 \<le> unat mem + unat bs
    \<and> (pages \<noteq> 0 \<longrightarrow> unat base + unat pages * 4096 \<le> N * unat bs)
    \<and> (\<forall>x. unat base \<le> x \<and> x < unat base + unat pages * 4096 \<longrightarrow>
           removable_block names removable (x div unat bs) \<and> offline_at fs k' (x div unat bs))"
  proof (cases "n = 0")
    case True
    then have "pages = 0" "unat mem = 0" using n(2) r(1) by (simp_all add: donated_range_def)
    then show ?thesis by auto
  next
    case False
    then have rn: "r + n \<le> N" using r(2) [of "n - 1"] by auto
    have b: "unat base = r * unat bs" "unat pages * 4096 = n * unat bs"
      using donated_range_nat [OF r(1) _ bs(3)] rn fits by (metis mult_le_mono1 order_le_less_trans)+
    have "removable_block names removable (x div unat bs) \<and> offline_at fs k' (x div unat bs)"
      if "unat base \<le> x" "x < unat base + unat pages * 4096" for x
    proof -
      have "r * unat bs \<le> x" "x < (r + n) * unat bs" using that b by (simp_all add: algebra_simps)
      then have "r \<le> x div unat bs" "x div unat bs < r + n" using bs(2)
        by (simp_all add: less_eq_div_iff_mult_less_eq div_less_iff_less_mult unat_gt_0)
      then show ?thesis using r(2) [of "x div unat bs - r"] by simp
    qed
    moreover have "unat base + unat pages * 4096 \<le> N * unat bs"
      using mult_le_mono1 [OF rn, of "unat bs"] by (simp add: b add_mult_distrib)
    ultimately show ?thesis using n(2) b(2) up by simp
  qed
  show "unat mem \<le> unat pages * 4096" "unat pages * 4096 \<le> unat mem + unat bs" using * by blast+
  show "\<exists>name \<in> set names. dir_filter name \<and> unat base + unat pages * 4096 \<le> (nat (dir_num name) + 1) * unat bs" if "pages \<noteq> 0"
    using * that nm(1,2) last by metis
  show "removable_block names removable (x div unat bs) \<and> offline_at fs k' (x div unat bs)"
    if "unat base \<le> x" "x < unat base + unat pages * 4096" for x using * that by blast
qed

section \<open>Properties\<close>

text \<open>
  The memory tool always ends, with a donation or an error, whatever Linux answers when blocks are
  taken offline: every search that fails makes one removable block less.
\<close>

theorem petmem_tool_terminates:
  assumes "sysfs_names names" and "block_size_file = Some buf" and "of_int (strtoll16 buf) \<noteq> (0 :: u32)"
    and "0 \<le> num_blocks_of (of_int (atoi arg) * 1048576) (of_int (strtoll16 buf))"
  shows "\<exists>res k'. petmem_tool fs alloc_ok can_open names removable block_size_file [prog, arg] k = ret (res, k')"
proof -
  obtain n where "num_blocks_of (of_int (atoi arg) * 1048576) (of_int (strtoll16 buf)) = int n"
    using assms(4) nonneg_int_cases by blast
  from petmem_tool_spec [OF assms(1) refl assms(3) refl this] show ?thesis using assms(2) by metis
qed

text \<open>
  What the tool donates to the module is safe to use: it is at least as much memory as was asked for,
  and every byte of it lies in a block that was removable and that Linux reports as offline.
\<close>

theorem petmem_tool_donates_offline_memory:
  assumes names: "sysfs_names names" and bs: "bs = (of_int (strtoll16 buf) :: u32)" "bs \<noteq> 0" "4096 dvd unat bs"
    and mem: "mem = (of_int (atoi arg) * 1048576 :: u64)" "unat mem div unat bs < 2 ^ 31 - 1"
    and phys: "\<forall>name \<in> set names. dir_filter name \<longrightarrow> (nat (dir_num name) + 1) * unat bs < 2 ^ 64"
    and run: "petmem_tool fs alloc_ok can_open names removable (Some buf) [prog, arg] k = ret (Some (base, pages), k')"
  shows "unat mem \<le> unat pages * 4096
       \<and> (\<forall>x. unat base \<le> x \<and> x < unat base + unat pages * 4096 \<longrightarrow>
            removable_block names removable (x div unat bs) \<and> offline_at fs k' (x div unat bs))"
  using tool_donation [OF assms] by blast

text \<open>A machine with three removable blocks of 128 MB, whose state is the list of those that are offline.\<close>

definition list_sysfs :: "int list sysfs" where
  "list_sysfs = \<lparr>write_state = (\<lambda>i w k. Some (if take 7 w = ''offline'' then i # k else removeAll i k)),
     read_state = (\<lambda>i k. Some (if i \<in> set k then ''offline'' else ''online''))\<rparr>"

definition names3 :: "string list" where
  "names3 = [''memory2'', ''probe'', ''memory0'', ''memory1'']"

definition all_removable :: "string \<Rightarrow> string option" where
  "all_removable = (\<lambda>_. Some ''1'')"

lemma names3_ok: "sysfs_names names3"
  by code_simp

theorem petmem_tool_terminates_witness:
  "\<exists>res k'. petmem_tool list_sysfs True True names3 all_removable (Some ''8000000'') [''petmem'', ''200''] [] = ret (res, k')"
proof -
  have "of_int (strtoll16 ''8000000'') \<noteq> (0 :: u32)"
    "0 \<le> num_blocks_of (of_int (atoi ''200'') * 1048576) (of_int (strtoll16 ''8000000''))" by code_simp+
  then show ?thesis by (rule petmem_tool_terminates [OF names3_ok refl])
qed

lemma three_blocks_run:
  "petmem_tool list_sysfs True True names3 all_removable (Some ''8000000'') [''petmem'', ''200''] []
   = ret (Some (0, 0x10000), [1, 0])"
proof -
  have b: "of_int (strtoll16 ''8000000'') = (0x8000000 :: u32)"
    "num_blocks_of (of_int (atoi ''200'') * 1048576) 0x8000000 = 2" by code_simp+
  have s: "scan_dirs True all_removable names3 = Inr (Some (3, [7]))" by code_simp
  have "search_round list_sysfs 2 3 [7] 0 [] = Inr (MemReady, 0, [1, 0])" by code_simp
  then have l: "search_loop list_sysfs 2 3 [7] 0 [] = ret (Some 0, [1, 0])" by (simp add: search_loop.simps [of list_sysfs])
  have d: "donated_range 0 2 0x8000000 = (0, 0x10000)" by code_simp
  show ?thesis by (simp add: petmem_tool_def Let_def b s l d)
qed

theorem petmem_tool_donates_offline_memory_witness:
  "removable_block names3 all_removable 1 \<and> offline_at list_sysfs [1, 0] 1"
proof -
  have h: "(0x8000000 :: u32) = of_int (strtoll16 ''8000000'')" "(209715200 :: u64) = of_int (atoi ''200'') * 1048576"
    "list_all (\<lambda>name. dir_filter name \<longrightarrow> dir_num name \<le> 2) names3" by code_simp+
  have u: "(0x8000000 :: u32) \<noteq> 0" "4096 dvd unat (0x8000000 :: u32)"
    "unat (209715200 :: u64) div unat (0x8000000 :: u32) < 2 ^ 31 - 1" by simp_all
  have p: "\<forall>name \<in> set names3. dir_filter name \<longrightarrow> (nat (dir_num name) + 1) * unat (0x8000000 :: u32) < 2 ^ 64"
    using h(3) by (auto simp: list_all_iff)
  from petmem_tool_donates_offline_memory [OF names3_ok h(1) u(1,2) h(2) u(3) p three_blocks_run]
  have all: "\<forall>x < 268435456. removable_block names3 all_removable (x div 134217728) \<and> offline_at list_sysfs [1, 0] (x div 134217728)"
    by simp
  show ?thesis using all [rule_format, of 134217728] by simp
qed

end
