(* ===== verification/Donation.thy ===== *)
theory Donation
  imports MemToolProps Harness PetmemMainProps
begin

text \<open>
  The memory tool and the module together: the end of \<open>src/VMproject/user/petmem.c\<close>, which opens the device, sends the
  range with \<open>ADD_MEMORY\<close> and closes the device again.
\<close>

definition memory_range :: "u64 \<Rightarrow> u64 \<Rightarrow> ioctl_arg" where
  "memory_range base pages = \<lparr>raw = NULL, word0 = base, word1 = pages, copy_in = True, copy_out = True, new_node = NULL\<rparr>"

text \<open>The result of the request is not tested.\<close>

definition send_memory :: "kernel \<Rightarrow> u64 \<Rightarrow> bool \<Rightarrow> u64 \<times> u64 \<Rightarrow> petmem \<Rightarrow> petmem run" where
  "send_memory K node garbage = (\<lambda>(base, pages) d.
     pbind (petmem_ioctl (k_va K) (k_pa K) (k_cr3 K) (k_fls K) (k_kmalloc K) ADD_MEMORY (memory_range base pages)
              (petmem_open node garbage d)) (\<lambda>(_, _, d).
     Some (petmem_release d)))"

definition donate_memory ::
  "kernel \<Rightarrow> u64 \<Rightarrow> bool \<Rightarrow> 'k sysfs \<Rightarrow> bool \<Rightarrow> bool \<Rightarrow> string list \<Rightarrow> (string \<Rightarrow> string option) \<Rightarrow> string option \<Rightarrow> string list \<Rightarrow>
   'k \<Rightarrow> petmem \<Rightarrow> ('k \<times> petmem) run" where
  "donate_memory K node garbage fs alloc_ok can_open names removable block_size_file argv k d =
     pbind (petmem_tool fs alloc_ok can_open names removable block_size_file argv k) (\<lambda>(r, k).
     case r of None \<Rightarrow> ret (k, d)
     | Some rg \<Rightarrow> pbind (send_memory K node garbage rg d) (\<lambda>d. ret (k, d)))"

text \<open>The direct map: physical memory below \<open>limit\<close> appears at the offset \<open>off\<close> in the address space of the kernel.\<close>

definition direct_map :: "(u64 \<Rightarrow> u64) \<Rightarrow> nat \<Rightarrow> nat \<Rightarrow> bool" where
  "direct_map va off limit \<longleftrightarrow> 0 < off \<and> off + limit < 2 ^ 64 \<and> (\<forall>x. unat x < limit \<longrightarrow> unat (va x) = off + unat x)"

lemma release_opened: "\<exists>vs. petmem_release (petmem_open node garbage d) = Inr (d\<lparr>vmap := vs\<rparr>)"
proof -
  have "ok (petmem_deinit_process (petmem_init_process node garbage))"
    by (simp add: petmem_deinit_process_def petmem_init_process_def del_node_def)
  then show ?thesis by (cases "petmem_deinit_process (petmem_init_process node garbage)") (auto simp: petmem_release_def petmem_open_def)
qed

lemma send_memory_pools:
  assumes fls: "fls_ok (k_fls K)" and km: "k_kmalloc K = (\<lambda>_. True)" and va: "direct_map (k_va K) off limit"
    and r: "unat base + unat pages * 4096 \<le> limit" "pages \<noteq> 0" "unat pages < 2 ^ 31"
  shows "\<exists>ps vs. send_memory K node garbage (base, pages) d = ret (d\<lparr>pool_list := rev ps @ pool_list d, vmap := vs\<rparr>)
           \<and> pools_tile (off + unat base) ps (off + unat base + unat pages * 4096) \<and> (\<forall>p \<in> set ps. buddy_inv p {})"
proof -
  let ?v = "k_va K base"
  have "0 < unat pages" using r(2) by (simp add: unat_gt_0)
  then have v: "unat ?v = off + unat base" using va r(1) by (auto simp: direct_map_def)
  have n: "unat (ucast pages :: u32) = unat pages" using r(3) by (simp add: unsigned_ucast_eq take_bit_nat_eq_self)
  have pre: "?v \<noteq> NULL" "unat (ucast pages :: u32) < 2 ^ 31" "unat ?v + unat (ucast pages :: u32) * 4096 < 2 ^ 64"
    using v n va r(1,3) by (auto simp: direct_map_def)
  from add_memory_pools [OF fls pre, of "pool_list d"] obtain ps where
    ps: "add_memory (k_fls K) (\<lambda>_. True) ?v (ucast pages) (pool_list d) = ret (rev ps @ pool_list d)"
      "pools_tile (unat ?v) ps (unat ?v + unat (ucast pages :: u32) * 4096)" "\<forall>p \<in> set ps. buddy_inv p {}" by blast
  obtain vs where vs: "petmem_release (petmem_open node garbage (d\<lparr>pool_list := rev ps @ pool_list d\<rparr>))
      = Inr (d\<lparr>pool_list := rev ps @ pool_list d, vmap := vs\<rparr>)" using release_opened by blast
  have "(petmem_open node garbage d)\<lparr>pool_list := l\<rparr> = petmem_open node garbage (d\<lparr>pool_list := l\<rparr>)" for l
    by (cases d) (simp add: petmem_open_def)
  then have "send_memory K node garbage (base, pages) d = ret (d\<lparr>pool_list := rev ps @ pool_list d, vmap := vs\<rparr>)"
    using ps(1) vs by (simp add: send_memory_def petmem_ioctl_def memory_range_def km) (simp add: petmem_open_def)
  then show ?thesis using ps(2,3) by (auto simp: v n)
qed

section \<open>Property\<close>

text \<open>
  C12: memory goes from Linux to the allocator of the module without a gap.  The tool always ends, whatever
  Linux answers.  If it donates a range, the range is at least as large as was asked for, every byte
  of it lies in a block that was removable and that Linux reports as offline, and the module gets
  pools that tile exactly this range in the direct map, each a well-formed buddy allocator with
  nothing allocated, in front of the pools it had; otherwise the module is left as it was.  The
  hypotheses say that the names under \<open>/sys\<close> are those of memory blocks, that the size of a block is a
  multiple of the page size, that the blocks lie below \<open>limit\<close>, where memory is mapped directly, and
  that less than 8 TiB are asked for, so that the number of pages is an \<open>int\<close>.
\<close>

theorem donated_memory_becomes_pools:
  assumes names: "sysfs_names names" and bs: "bs = (of_int (strtoll16 buf) :: u32)" "bs \<noteq> 0" "4096 dvd unat bs"
    and mem: "mem = (of_int (atoi arg) * 1048576 :: u64)" "mem \<noteq> 0" "unat mem + unat bs < 2 ^ 43" "unat mem div unat bs < 2 ^ 31 - 1"
    and phys: "\<forall>name \<in> set names. dir_filter name \<longrightarrow> (nat (dir_num name) + 1) * unat bs \<le> limit"
    and K: "fls_ok (k_fls K)" "k_kmalloc K = (\<lambda>_. True)" "direct_map (k_va K) off limit"
  shows "\<exists>res k' d'. petmem_tool fs alloc_ok can_open names removable (Some buf) [prog, arg] k = ret (res, k')
           \<and> donate_memory K node garbage fs alloc_ok can_open names removable (Some buf) [prog, arg] k d = ret (k', d')
           \<and> (case res of None \<Rightarrow> d' = d
              | Some (base, pages) \<Rightarrow> unat mem \<le> unat pages * 4096
                   \<and> (\<exists>ps. pool_list d' = rev ps @ pool_list d \<and> (\<forall>p \<in> set ps. buddy_inv p {})
                        \<and> pools_tile (off + unat base) ps (off + unat base + unat pages * 4096))
                   \<and> (\<forall>x. unat base \<le> x \<and> x < unat base + unat pages * 4096 \<longrightarrow>
                         removable_block names removable (x div unat bs) \<and> offline_at fs k' (x div unat bs)))"
proof -
  obtain n where "num_blocks_of mem bs = int n" by (rule num_blocks_nat [OF mem(4) bs(2)])
  then obtain res k' where t: "petmem_tool fs alloc_ok can_open names removable (Some buf) [prog, arg] k = ret (res, k')"
    using petmem_tool_spec [OF names bs(1,2) mem(1), of n fs alloc_ok can_open removable prog k] by metis
  show ?thesis
  proof (cases res)
    case None
    then show ?thesis using t by (simp add: donate_memory_def)
  next
    case (Some rg)
    obtain base pages where rg: "rg = (base, pages)" by (cases rg)
    have l: "limit < 2 ^ 64" using K(3) by (simp add: direct_map_def)
    have ph: "\<forall>name \<in> set names. dir_filter name \<longrightarrow> (nat (dir_num name) + 1) * unat bs < 2 ^ 64"
      using phys l by (meson order_le_less_trans)
    note tool = tool_donation [OF names bs mem(1,4) ph t [unfolded Some rg]]
    have "0 < unat mem" using mem(2) by (simp add: unat_gt_0)
    then have p0: "pages \<noteq> 0" using tool(1) by auto
    have fit: "unat base + unat pages * 4096 \<le> limit" using tool(3) [OF p0] phys by (meson order_trans)
    have "unat pages * 4096 < 2 ^ 43" using tool(2) mem(3) by (rule order_le_less_trans)
    then have small: "unat pages < 2 ^ 31" by simp
    from send_memory_pools [OF K fit p0 small, of node garbage d] obtain ps vs where
      ps: "send_memory K node garbage (base, pages) d = ret (d\<lparr>pool_list := rev ps @ pool_list d, vmap := vs\<rparr>)"
        "pools_tile (off + unat base) ps (off + unat base + unat pages * 4096)" "\<forall>p \<in> set ps. buddy_inv p {}" by blast
    let ?d = "d\<lparr>pool_list := rev ps @ pool_list d, vmap := vs\<rparr>"
    have "donate_memory K node garbage fs alloc_ok can_open names removable (Some buf) [prog, arg] k d = ret (k', ?d)"
      using t ps(1) by (simp add: donate_memory_def Some rg)
    moreover have "pool_list ?d = rev ps @ pool_list d" by simp
    ultimately show ?thesis using t ps(2,3) tool(1,4)
      by (intro exI [of _ "Some (base, pages)"] exI [of _ k'] exI [of _ ?d]) (auto simp: Some rg)
  qed
qed

text \<open>Two blocks of 128 MiB for a request of 200 MiB.\<close>

definition kern_high :: kernel where
  "kern_high = \<lparr>k_va = (\<lambda>x. x + 0xFFFF880000000000), k_pa = (\<lambda>x. x - 0xFFFF880000000000), k_cr3 = 0x5000,
     k_fls = fls_ref, k_kmalloc = (\<lambda>_. True)\<rparr>"

theorem donated_memory_becomes_pools_witness:
  "\<exists>d' ps. donate_memory kern_high 1 False list_sysfs True True names3 all_removable (Some ''8000000'') [''petmem'', ''200''] [] dev0 = ret ([1, 0], d')
     \<and> pool_list d' = rev ps \<and> list_all (\<lambda>p. buddy_inv p {}) ps \<and> pools_tile 18446612132314218496 ps 18446612132582653952"
proof -
  have h: "(0x8000000 :: u32) = of_int (strtoll16 ''8000000'')" "(209715200 :: u64) = of_int (atoi ''200'') * 1048576"
    "list_all (\<lambda>name. dir_filter name \<longrightarrow> dir_num name \<le> 2) names3" by code_simp+
  have u: "(0x8000000 :: u32) \<noteq> 0" "4096 dvd unat (0x8000000 :: u32)" "(209715200 :: u64) \<noteq> 0"
    "unat (209715200 :: u64) + unat (0x8000000 :: u32) < 2 ^ 43" "unat (209715200 :: u64) div unat (0x8000000 :: u32) < 2 ^ 31 - 1" by simp_all
  have p: "\<forall>name \<in> set names3. dir_filter name \<longrightarrow> (nat (dir_num name) + 1) * unat (0x8000000 :: u32) \<le> 402653184"
    using h(3) by (auto simp: list_all_iff)
  have "unat (x + 0xFFFF880000000000) = 18446612132314218496 + unat x" if "unat x < 402653184" for x :: u64
    using that by (subst add_no_wrap) simp_all
  then have "direct_map (k_va kern_high) 18446612132314218496 402653184" by (simp add: direct_map_def kern_high_def)
  moreover have "fls_ok (k_fls kern_high)" "k_kmalloc kern_high = (\<lambda>_. True)" by (simp_all add: kern_high_def fls_ref_ok)
  ultimately obtain res k' d' where
    t: "petmem_tool list_sysfs True True names3 all_removable (Some ''8000000'') [''petmem'', ''200''] [] = ret (res, k')"
    and d': "donate_memory kern_high 1 False list_sysfs True True names3 all_removable (Some ''8000000'') [''petmem'', ''200''] [] dev0 = ret (k', d')"
    and c: "case res of None \<Rightarrow> d' = dev0
      | Some (base, pages) \<Rightarrow> unat (209715200 :: u64) \<le> unat pages * 4096
           \<and> (\<exists>ps. pool_list d' = rev ps @ pool_list dev0 \<and> (\<forall>p \<in> set ps. buddy_inv p {})
                \<and> pools_tile (18446612132314218496 + unat base) ps (18446612132314218496 + unat base + unat pages * 4096))
           \<and> (\<forall>x. unat base \<le> x \<and> x < unat base + unat pages * 4096 \<longrightarrow>
                removable_block names3 all_removable (x div unat (0x8000000 :: u32)) \<and> offline_at list_sysfs k' (x div unat (0x8000000 :: u32)))"
    using donated_memory_becomes_pools [OF names3_ok h(1) u(1,2) h(2) u(3-5) p, where K = kern_high and off = 18446612132314218496
        and node = 1 and garbage = False and fs = list_sysfs and alloc_ok = True and can_open = True and removable = all_removable
        and prog = "''petmem''" and k = "[]" and d = dev0] by blast
  have "res = Some (0, 0x10000)" "k' = [1, 0]" using t three_blocks_run by simp_all
  then show ?thesis using d' c by (auto simp: dev0_def list_all_iff)
qed

end
