(* ===== verification/FileIo.thy ===== *)
theory FileIo
  imports Prelude
begin

text \<open>
  The file interface of the module, \<open>src/VMproject/file_io.c\<close>, for kernels from version 4.11 on: the creation
  of directories with all their parents, and the wrappers for files.  The kernel's calls are
  parameters on a state \<open>'fs\<close> of the file system.
\<close>

section \<open>Directories\<close>

definition isprint :: "char \<Rightarrow> bool" where
  "isprint c = (32 \<le> (of_char c :: nat) \<and> (of_char c :: nat) \<le> 126)"

definition slash :: char where
  "slash = CHR 0x2F"

record ('fs, 'd) dir_calls =
  kern_path_create :: "string \<Rightarrow> 'fs \<Rightarrow> 'd option"
  vfs_mkdir :: "'d \<Rightarrow> nat \<Rightarrow> 'fs \<Rightarrow> int \<times> 'fs"
  done_path_create :: "'d \<Rightarrow> 'fs \<Rightarrow> 'fs"

text \<open>\<open>file_mkdir\<close> with \<open>recurse == 0\<close>; a path that cannot be created (it may exist) is not an error.\<close>

definition mkdir_one :: "('fs, 'd) dir_calls \<Rightarrow> nat \<Rightarrow> string \<Rightarrow> 'fs \<Rightarrow> int \<times> 'fs" where
  "mkdir_one K perms pathname fs =
     (case kern_path_create K pathname fs of
        None \<Rightarrow> (0, fs)
      | Some dentry \<Rightarrow> let (r, fs) = vfs_mkdir K dentry perms fs in (r, done_path_create K dentry fs))"

text \<open>
  The inner loop of \<open>mkdir_recursive\<close>: the characters up to the next slash or the end of the string, and
  the rest; \<open>None\<close> when one of them cannot be printed.
\<close>

fun scan_component :: "string \<Rightarrow> (string \<times> string) option" where
  "scan_component [] = Some ([], [])"
| "scan_component (c # cs) =
     (if c = slash then Some ([], c # cs)
      else if \<not> isprint c then None
      else map_option (\<lambda>(part, rest). (c # part, rest)) (scan_component cs))"

lemma scan_component_rest: "scan_component cs = Some (part, rest) \<Longrightarrow> length rest \<le> length cs"
  by (induction cs arbitrary: part) (auto split: if_splits)

text \<open>
  The outer loop: \<open>pre\<close> is the part of \<open>tmp_str\<close> before \<open>dirname_ptr\<close>.  A component is created when it is longer
  than one character.
\<close>

function mkdir_loop :: "(string \<Rightarrow> 'fs \<Rightarrow> int \<times> 'fs) \<Rightarrow> string \<Rightarrow> string \<Rightarrow> 'fs \<Rightarrow> int \<times> 'fs" where
  "mkdir_loop mk pre rest fs =
     (case scan_component rest of
        None \<Rightarrow> (- 1, fs)
      | Some (part, rest') \<Rightarrow>
          let (r, fs) = (if length part > 1 then mk (pre @ part) fs else (0, fs))
          in if r \<noteq> 0 then (- 1, fs)
             else case rest' of
                 [] \<Rightarrow> (0, fs)
               | c # rest'' \<Rightarrow> mkdir_loop mk (pre @ part @ [c]) rest'' fs)"
  by pat_completeness auto
termination
  by (relation "measure (\<lambda>(_, _, rest, _). length rest)") (auto dest: scan_component_rest)

declare mkdir_loop.simps [simp del]

definition mkdir_recursive :: "('fs, 'd) dir_calls \<Rightarrow> bool \<Rightarrow> string \<Rightarrow> nat \<Rightarrow> 'fs \<Rightarrow> int \<times> 'fs" where
  "mkdir_recursive K kmalloc_ok path perms fs =
     (if \<not> kmalloc_ok then (- 1, fs) else mkdir_loop (mkdir_one K perms) [] path fs)"

definition file_mkdir :: "('fs, 'd) dir_calls \<Rightarrow> bool \<Rightarrow> string \<Rightarrow> nat \<Rightarrow> bool \<Rightarrow> 'fs \<Rightarrow> int \<times> 'fs" where
  "file_mkdir K kmalloc_ok pathname perms recurse fs =
     (if recurse then mkdir_recursive K kmalloc_ok pathname perms fs else mkdir_one K perms pathname fs)"

section \<open>Files\<close>

text \<open>
  The kernel's calls on files: opening gives a file or an error, \<open>vfs_getattr\<close> the size or an error, and
  reading and writing a signed count.  They run with the address limit of the task, the second
  component of the state.
\<close>

record ('fs, 'f) file_calls =
  filp_open :: "string \<Rightarrow> u32 \<Rightarrow> 'fs \<Rightarrow> ('f + int) \<times> 'fs"
  filp_close :: "'f \<Rightarrow> 'fs \<Rightarrow> 'fs"
  vfs_getattr :: "'f \<Rightarrow> 'fs \<Rightarrow> int + u64"
  vfs_read :: "'f \<Rightarrow> u64 \<Rightarrow> u64 \<Rightarrow> 'fs \<times> u64 \<Rightarrow> int \<times> string \<times> 'fs"
  vfs_write :: "'f \<Rightarrow> string \<Rightarrow> u64 \<Rightarrow> u64 \<Rightarrow> 'fs \<times> u64 \<Rightarrow> int \<times> 'fs"

definition O_LARGEFILE :: u32 where
  "O_LARGEFILE = 0x8000"

definition file_open :: "('fs, 'f) file_calls \<Rightarrow> string \<Rightarrow> u32 \<Rightarrow> 'fs \<Rightarrow> 'f option \<times> 'fs" where
  "file_open K path mode fs =
     (case filp_open K path (mode OR O_LARGEFILE) fs of (Inl f, fs) \<Rightarrow> (Some f, fs) | (Inr _, fs) \<Rightarrow> (None, fs))"

definition file_close :: "('fs, 'f) file_calls \<Rightarrow> 'f \<Rightarrow> 'fs \<Rightarrow> int \<times> 'fs" where
  "file_close K f fs = (0, filp_close K f fs)"

definition file_size :: "('fs, 'f) file_calls \<Rightarrow> 'f \<Rightarrow> 'fs \<Rightarrow> u64" where
  "file_size K f fs = (case vfs_getattr K f fs of Inl _ \<Rightarrow> - 1 | Inr sz \<Rightarrow> sz)"

text \<open>\<open>set_fs(get_ds())\<close>: the limit that admits addresses of the kernel, here all addresses.\<close>

definition KERNEL_DS :: u64 where
  "KERNEL_DS = - 1"

definition file_read :: "('fs, 'f) file_calls \<Rightarrow> 'f \<Rightarrow> u64 \<Rightarrow> u64 \<Rightarrow> 'fs \<times> u64 \<Rightarrow> u64 \<times> string \<times> 'fs \<times> u64" where
  "file_read K f len offset s =
     (let (fs, old_fs) = s;
          (r, buffer, fs) = vfs_read K f len offset (fs, KERNEL_DS)
      in (of_int r, buffer, fs, old_fs))"

definition file_write :: "('fs, 'f) file_calls \<Rightarrow> 'f \<Rightarrow> string \<Rightarrow> u64 \<Rightarrow> u64 \<Rightarrow> 'fs \<times> u64 \<Rightarrow> u64 \<times> 'fs \<times> u64" where
  "file_write K f buffer len offset s =
     (let (fs, old_fs) = s;
          (r, fs) = vfs_write K f buffer len offset (fs, KERNEL_DS)
      in (of_int r, fs, old_fs))"

section \<open>What is created\<close>

text \<open>
  The specification: the parts of a path are separated by slashes; the prefixes that end with a part of
  more than one character are created, from the left.
\<close>

fun dir_prefixes :: "string \<Rightarrow> string \<Rightarrow> string \<Rightarrow> string list" where
  "dir_prefixes pre part [] = (if length part > 1 then [pre @ part] else [])"
| "dir_prefixes pre part (c # cs) =
     (if c = slash
      then (if length part > 1 then [pre @ part] else []) @ dir_prefixes (pre @ part @ [c]) [] cs
      else dir_prefixes pre (part @ [c]) cs)"

text \<open>The calls, in order, up to the first that fails.\<close>

fun mkdir_each :: "(string \<Rightarrow> 'fs \<Rightarrow> int \<times> 'fs) \<Rightarrow> string list \<Rightarrow> 'fs \<Rightarrow> int \<times> 'fs" where
  "mkdir_each mk [] fs = (0, fs)"
| "mkdir_each mk (p # ps) fs = (let (r, fs) = mk p fs in if r \<noteq> 0 then (- 1, fs) else mkdir_each mk ps fs)"

lemma scan_printable:
  assumes "\<forall>c \<in> set cs. isprint c"
  obtains part rest where "scan_component cs = Some (part, rest)" and "cs = part @ rest" and "slash \<notin> set part"
    and "rest = [] \<or> (\<exists>rest'. rest = slash # rest')"
  using assms
proof (induction cs arbitrary: thesis)
  case (Cons c cs)
  show ?case
  proof (cases "c = slash")
    case True
    then show ?thesis using Cons.prems(1) [of "[]" "c # cs"] by simp
  next
    case False
    obtain part rest where "scan_component cs = Some (part, rest)" "cs = part @ rest" "slash \<notin> set part"
      "rest = [] \<or> (\<exists>rest'. rest = slash # rest')" using Cons.IH Cons.prems(2) by auto
    then show ?thesis using False Cons.prems(1) [of "c # part" rest] Cons.prems(2) by simp
  qed
qed simp

lemma dir_prefixes_comp:
  "slash \<notin> set part \<Longrightarrow> dir_prefixes pre acc (part @ rest) = dir_prefixes pre (acc @ part) rest"
  by (induction part arbitrary: acc) auto

lemma mkdir_loop_spec:
  "\<forall>c \<in> set rest. isprint c \<Longrightarrow> mkdir_loop mk pre rest fs = mkdir_each mk (dir_prefixes pre [] rest) fs"
proof (induction "length rest" arbitrary: rest pre fs rule: less_induct)
  case less
  obtain part rest' where s: "scan_component rest = Some (part, rest')" "rest = part @ rest'" "slash \<notin> set part"
    "rest' = [] \<or> (\<exists>r. rest' = slash # r)" using scan_printable [OF less.prems] .
  have "dir_prefixes pre [] rest = dir_prefixes pre part rest'" using dir_prefixes_comp [OF s(3), of pre "[]" rest'] s(2) by simp
  note u = mkdir_loop.simps [of mk pre rest fs] s(1) this
  show ?case
  proof (cases rest')
    case Nil
    then show ?thesis by (cases "length part > 1") (auto simp: u Let_def split: prod.splits)
  next
    case (Cons c r)
    then have c: "c = slash" "length r < length rest" "\<forall>c \<in> set r. isprint c" using s(2,4) less.prems by auto
    note IH = less.hyps [OF c(2,3), of "pre @ part @ [c]"]
    show ?thesis by (cases "length part > 1") (auto simp: u Cons c(1) IH [unfolded c(1)] Let_def split: prod.splits)
  qed
qed

text \<open>
  \<open>file_mkdir\<close> with \<open>recurse\<close> set, on a path of printable characters, makes one call for each prefix that ends
  with a part of more than one character, from the left, and stops with an error at the first call
  that fails.
\<close>

theorem mkdir_recursive_prefixes:
  assumes "\<forall>c \<in> set path. isprint c"
  shows "file_mkdir K True path perms True fs = mkdir_each (mkdir_one K perms) (dir_prefixes [] [] path) fs"
  using mkdir_loop_spec [OF assms] by (simp add: file_mkdir_def mkdir_recursive_def)

text \<open>A file system that is the list of its directories.\<close>

definition list_dirs :: "(string list, string) dir_calls" where
  "list_dirs = \<lparr>kern_path_create = (\<lambda>p fs. if p \<in> set fs then None else Some p), vfs_mkdir = (\<lambda>p _ fs. (0, fs @ [p])),
     done_path_create = (\<lambda>_ fs. fs)\<rparr>"

theorem mkdir_recursive_prefixes_witness:
  "file_mkdir list_dirs True ''/ab/c/de'' 7 True [] = (0, [''/ab'', ''/ab/c/de''])"
proof -
  have "\<forall>c \<in> set ''/ab/c/de''. isprint c"
    "mkdir_each (mkdir_one list_dirs 7) (dir_prefixes [] [] ''/ab/c/de'') [] = (0, [''/ab'', ''/ab/c/de''])" by code_simp+
  then show ?thesis using mkdir_recursive_prefixes [of "''/ab/c/de''" list_dirs 7 "[]"] by simp
qed

end
