(* ===== verification/Locking.thy ===== *)
theory Locking
  imports Prelude
begin

text \<open>
  The synchronisation primitives of \<open>src/SyncProject/locking.c\<close>: the atomic instructions, the spin
  lock and the barrier.  An \<open>int\<close> is a 32-bit word.  A concurrent program is a transition system in
  which every access to shared memory is one step and the steps of the threads interleave; a
  locked instruction is one step.
\<close>

section \<open>Atomic instructions\<close>

text \<open>Each returns the new content of the memory cell, preceded by the result if there is one.\<close>

definition atomic_sub :: "u32 \<Rightarrow> u32 \<Rightarrow> u32" where
  "atomic_sub v dec_val = v - dec_val"

definition atomic_add :: "u32 \<Rightarrow> u32 \<Rightarrow> u32" where
  "atomic_add v inc_val = v + inc_val"

definition atomic_add_ret_prev :: "u32 \<Rightarrow> u32 \<Rightarrow> u32 \<times> u32" where
  "atomic_add_ret_prev v inc_val = (v, v + inc_val)"

definition compare_and_swap :: "u32 \<Rightarrow> u32 \<Rightarrow> u32 \<Rightarrow> u32 \<times> u32" where
  "compare_and_swap v expected new = (v, if v = expected then new else v)"

definition compare_and_swap_ptr :: "u64 \<Rightarrow> u64 \<Rightarrow> u64 \<Rightarrow> u64 \<times> u64" where
  "compare_and_swap_ptr v expected new = (v, if v = expected then new else v)"

section \<open>Spin lock\<close>

record spinlock =
  sl_free :: u32

definition spinlock_init :: "spinlock \<Rightarrow> spinlock" where
  "spinlock_init l = l\<lparr>sl_free := 1\<rparr>"

text \<open>One evaluation of the loop condition of \<open>spinlock_lock\<close>; the loop ends when the result is true.\<close>

definition spinlock_try :: "spinlock \<Rightarrow> bool \<times> spinlock" where
  "spinlock_try l = (let (original, v) = compare_and_swap (sl_free l) 1 0 in (original \<noteq> 0, l\<lparr>sl_free := v\<rparr>))"

partial_function (option) spinlock_lock :: "spinlock \<Rightarrow> spinlock option" where
  "spinlock_lock l = (case spinlock_try l of (done, l') \<Rightarrow> if done then Some l' else spinlock_lock l')"

definition spinlock_unlock :: "spinlock \<Rightarrow> spinlock" where
  "spinlock_unlock l = l\<lparr>sl_free := 1\<rparr>"

text \<open>Threads that take and release the lock.\<close>

datatype spin_pc = Remainder | Spinning | Critical

record spin_sys =
  sp_lock :: spinlock
  sp_pc :: "nat \<Rightarrow> spin_pc"

inductive spin_step :: "spin_sys \<Rightarrow> spin_sys \<Rightarrow> bool" where
  call: "sp_pc s i = Remainder \<Longrightarrow> spin_step s (s\<lparr>sp_pc := (sp_pc s)(i := Spinning)\<rparr>)"
| spin: "sp_pc s i = Spinning \<Longrightarrow> spinlock_try (sp_lock s) = (got, l) \<Longrightarrow>
    spin_step s (s\<lparr>sp_lock := l, sp_pc := (sp_pc s)(i := (if got then Critical else Spinning))\<rparr>)"
| release: "sp_pc s i = Critical \<Longrightarrow>
    spin_step s (s\<lparr>sp_lock := spinlock_unlock (sp_lock s), sp_pc := (sp_pc s)(i := Remainder)\<rparr>)"

definition spin_start :: "spinlock \<Rightarrow> spin_sys" where
  "spin_start l = \<lparr>sp_lock = spinlock_init l, sp_pc = (\<lambda>_. Remainder)\<rparr>"

section \<open>Barrier\<close>

record barrier =
  iterations :: u32
  cur_count :: u32
  init_count :: u32

definition barrier_init :: "u32 \<Rightarrow> barrier" where
  "barrier_init count = \<lparr>iterations = 0, cur_count = 0, init_count = count\<rparr>"

text \<open>
  The places of a thread in \<open>barrier_wait\<close>: before the call, after it has read \<open>iterations\<close>, spinning,
  and, in the thread that arrives last, before the two assignments.  The counter \<open>br_done\<close> of each
  thread, the calls it has returned from, is not part of the code.
\<close>

datatype barrier_pc = Outside | Arriving u32 | Waiting u32 | Resetting | Advancing

record barrier_sys =
  br_bar :: barrier
  br_pc :: "nat \<Rightarrow> barrier_pc"
  br_done :: "nat \<Rightarrow> nat"

text \<open>One step of the thread \<open>i\<close>; the loop of a spinning thread is a step that changes nothing.\<close>

definition barrier_step :: "nat \<Rightarrow> barrier_sys \<Rightarrow> barrier_sys" where
  "barrier_step i s =
     (let b = br_bar s in
      case br_pc s i of
        Outside \<Rightarrow> s\<lparr>br_pc := (br_pc s)(i := Arriving (iterations b))\<rparr>
      | Arriving my_iter \<Rightarrow>
          let (prev, v) = atomic_add_ret_prev (cur_count b) 1
          in s\<lparr>br_bar := b\<lparr>cur_count := v\<rparr>,
               br_pc := (br_pc s)(i := (if prev = init_count b - 1 then Resetting else Waiting my_iter))\<rparr>
      | Resetting \<Rightarrow> s\<lparr>br_bar := b\<lparr>cur_count := 0\<rparr>, br_pc := (br_pc s)(i := Advancing)\<rparr>
      | Advancing \<Rightarrow> s\<lparr>br_bar := b\<lparr>iterations := iterations b + 1\<rparr>, br_pc := (br_pc s)(i := Outside),
                       br_done := (br_done s)(i := br_done s i + 1)\<rparr>
      | Waiting my_iter \<Rightarrow>
          if iterations b \<noteq> my_iter + 1 then s
          else s\<lparr>br_pc := (br_pc s)(i := Outside), br_done := (br_done s)(i := br_done s i + 1)\<rparr>)"

text \<open>The runs of \<open>n\<close> threads.\<close>

inductive barrier_reach :: "nat \<Rightarrow> barrier_sys \<Rightarrow> bool" for n where
  init: "barrier_reach n \<lparr>br_bar = barrier_init (of_nat n), br_pc = (\<lambda>_. Outside), br_done = (\<lambda>_. 0)\<rparr>"
| step: "barrier_reach n s \<Longrightarrow> i < n \<Longrightarrow> barrier_reach n (barrier_step i s)"

end
