(* ===== verification/SyncDriver.thy ===== *)
theory SyncDriver
  imports Locking
begin

text \<open>
  Three of the exercises of \<open>src/SyncProject/driver.c\<close>, which use the primitives of \<open>locking.c\<close> from many
  threads: the functions that the threads run, with every access to shared memory as one step, the
  state in which \<open>main\<close> starts them, and the condition on which it prints \<open>SUCCESS\<close>.
\<close>

definition ITERATIONS :: nat where
  "ITERATIONS = 1000"

section \<open>Exercise 1: atomic subtraction\<close>

record ex1_sys =
  ex1_value :: u32
  ex1_iter :: "nat \<Rightarrow> nat"

text \<open>One step of the loop of \<open>ex1_sub_fn\<close> in thread \<open>x\<close>.\<close>

definition ex1_sub_fn :: "nat \<Rightarrow> ex1_sys \<Rightarrow> ex1_sys" where
  "ex1_sub_fn x s =
     (if ex1_iter s x < ITERATIONS
      then s\<lparr>ex1_value := atomic_sub (ex1_value s) 1, ex1_iter := (ex1_iter s)(x := ex1_iter s x + 1)\<rparr>
      else s)"

definition ex1_start :: "nat \<Rightarrow> ex1_sys" where
  "ex1_start num_threads = \<lparr>ex1_value = of_nat num_threads * of_nat ITERATIONS, ex1_iter = (\<lambda>_. 0)\<rparr>"

definition ex1_success :: "ex1_sys \<Rightarrow> bool" where
  "ex1_success s = (ex1_value s = 0)"

inductive ex1_run :: "nat \<Rightarrow> ex1_sys \<Rightarrow> bool" for num_threads where
  start: "ex1_run num_threads (ex1_start num_threads)"
| step: "ex1_run num_threads s \<Longrightarrow> x < num_threads \<Longrightarrow> ex1_run num_threads (ex1_sub_fn x s)"

section \<open>Barrier test\<close>

text \<open>
  Where a thread is in the loop of \<open>ex2_fn\<close>: at the comparison, in the first call of \<open>barrier_wait\<close>, at the
  addition, or in the second call.  The barrier and the progress of the calls are a \<open>barrier_sys\<close>.
\<close>

datatype ex2_pc = AtCheck | InFirst | AtAdd | InSecond

record ex2_sys =
  ex2_barrier :: barrier_sys
  ex2_value :: u32
  ex2_pc :: "nat \<Rightarrow> ex2_pc"
  ex2_iter :: "nat \<Rightarrow> nat"
  ex2_error :: "nat \<Rightarrow> bool"

text \<open>A step of \<open>barrier_wait\<close>; when the call returns, the thread goes on to \<open>nxt\<close>.\<close>

definition ex2_wait :: "nat \<Rightarrow> ex2_pc \<Rightarrow> nat \<Rightarrow> ex2_sys \<Rightarrow> ex2_sys" where
  "ex2_wait x nxt i s =
     (let b = barrier_step x (ex2_barrier s) in
      if br_done b x = br_done (ex2_barrier s) x then s\<lparr>ex2_barrier := b\<rparr>
      else s\<lparr>ex2_barrier := b, ex2_pc := (ex2_pc s)(x := nxt), ex2_iter := (ex2_iter s)(x := i)\<rparr>)"

definition ex2_fn :: "nat \<Rightarrow> nat \<Rightarrow> ex2_sys \<Rightarrow> ex2_sys" where
  "ex2_fn num_threads x s =
     (case ex2_pc s x of
        AtCheck \<Rightarrow>
          if ex2_iter s x < ITERATIONS
          then s\<lparr>ex2_error := (ex2_error s)(x := ex2_error s x \<or> ex2_value s \<noteq> of_nat num_threads * of_nat (ex2_iter s x)),
                 ex2_pc := (ex2_pc s)(x := InFirst)\<rparr>
          else s
      | InFirst \<Rightarrow> ex2_wait x AtAdd (ex2_iter s x) s
      | AtAdd \<Rightarrow> s\<lparr>ex2_value := atomic_add (ex2_value s) 1, ex2_pc := (ex2_pc s)(x := InSecond)\<rparr>
      | InSecond \<Rightarrow> ex2_wait x AtCheck (ex2_iter s x + 1) s)"

definition ex2_start :: "nat \<Rightarrow> ex2_sys" where
  "ex2_start num_threads =
     \<lparr>ex2_barrier = \<lparr>br_bar = barrier_init (of_nat num_threads), br_pc = (\<lambda>_. Outside), br_done = (\<lambda>_. 0)\<rparr>,
      ex2_value = 0, ex2_pc = (\<lambda>_. AtCheck), ex2_iter = (\<lambda>_. 0), ex2_error = (\<lambda>_. False)\<rparr>"

inductive ex2_run :: "nat \<Rightarrow> ex2_sys \<Rightarrow> bool" for num_threads where
  start: "ex2_run num_threads (ex2_start num_threads)"
| step: "ex2_run num_threads s \<Longrightarrow> x < num_threads \<Longrightarrow> ex2_run num_threads (ex2_fn num_threads x s)"

section \<open>Spin locks\<close>

text \<open>
  Where a thread is in the loop of \<open>ex3_fn\<close>.  The addition \<open>global_value += 1\<close> is not atomic: it loads the
  value and stores the sum in two steps.
\<close>

datatype ex3_pc = AtLock | AtLoad | AtStore u32 | AtUnlock

record ex3_sys =
  ex3_lock :: spinlock
  ex3_value :: u32
  ex3_pc :: "nat \<Rightarrow> ex3_pc"
  ex3_iter :: "nat \<Rightarrow> nat"

definition ex3_fn :: "nat \<Rightarrow> ex3_sys \<Rightarrow> ex3_sys" where
  "ex3_fn x s =
     (case ex3_pc s x of
        AtLock \<Rightarrow>
          if ex3_iter s x < ITERATIONS
          then let (got, l) = spinlock_try (ex3_lock s)
               in s\<lparr>ex3_lock := l, ex3_pc := (ex3_pc s)(x := (if got then AtLoad else AtLock))\<rparr>
          else s
      | AtLoad \<Rightarrow> s\<lparr>ex3_pc := (ex3_pc s)(x := AtStore (ex3_value s))\<rparr>
      | AtStore v \<Rightarrow> s\<lparr>ex3_value := v + 1, ex3_pc := (ex3_pc s)(x := AtUnlock)\<rparr>
      | AtUnlock \<Rightarrow> s\<lparr>ex3_lock := spinlock_unlock (ex3_lock s), ex3_pc := (ex3_pc s)(x := AtLock),
                      ex3_iter := (ex3_iter s)(x := ex3_iter s x + 1)\<rparr>)"

definition ex3_start :: "spinlock \<Rightarrow> ex3_sys" where
  "ex3_start l = \<lparr>ex3_lock = spinlock_init l, ex3_value = 0, ex3_pc = (\<lambda>_. AtLock), ex3_iter = (\<lambda>_. 0)\<rparr>"

definition ex3_success :: "nat \<Rightarrow> ex3_sys \<Rightarrow> bool" where
  "ex3_success num_threads s = (ex3_value s = of_nat ITERATIONS * of_nat num_threads)"

inductive ex3_run :: "nat \<Rightarrow> spinlock \<Rightarrow> ex3_sys \<Rightarrow> bool" for num_threads l where
  start: "ex3_run num_threads l (ex3_start l)"
| step: "ex3_run num_threads l s \<Longrightarrow> x < num_threads \<Longrightarrow> ex3_run num_threads l (ex3_fn x s)"

end
