(* ===== verification/LockProps.thy ===== *)
theory LockProps
  imports Locking
begin

text \<open>
  Mutual exclusion and progress of the spin lock under every interleaving, and the correctness of
  the barrier: no thread leaves a round before all threads have entered it.
\<close>

section \<open>The contract of a lock\<close>

locale trylock =
  fixes is_free :: "'l \<Rightarrow> bool" and init :: "'l \<Rightarrow> 'l" and attempt :: "'l \<Rightarrow> bool \<times> 'l" and unlock :: "'l \<Rightarrow> 'l"
    and sane :: "'l \<Rightarrow> bool"
  assumes init_free: "sane (init l) \<and> is_free (init l)"
    and attempt_free: "sane l \<Longrightarrow> is_free l \<Longrightarrow> attempt l = (got, l') \<Longrightarrow> got \<and> sane l' \<and> \<not> is_free l'"
    and attempt_held: "sane l \<Longrightarrow> \<not> is_free l \<Longrightarrow> attempt l = (got, l') \<Longrightarrow> \<not> got \<and> l' = l"
    and unlock_free: "sane l \<Longrightarrow> sane (unlock l) \<and> is_free (unlock l)"
begin

text \<open>An attempt succeeds exactly when the lock was free, and leaves it held.\<close>

lemma attempt_iff:
  assumes "sane l" and "attempt l = (got, l')"
  shows "got \<longleftrightarrow> is_free l" and "sane l'" and "\<not> is_free l'"
  using attempt_free [OF assms(1) _ assms(2)] attempt_held [OF assms(1) _ assms(2)] assms(1) by blast+

end

interpretation sl: trylock "\<lambda>l. sl_free l = 1" spinlock_init spinlock_try spinlock_unlock "\<lambda>l. sl_free l \<in> {0, 1}"
  by unfold_locales (auto simp: spinlock_init_def spinlock_try_def spinlock_unlock_def compare_and_swap_def)

section \<open>Spin lock\<close>

definition spin_inv :: "spin_sys \<Rightarrow> bool" where
  "spin_inv s \<longleftrightarrow> sl_free (sp_lock s) \<in> {0, 1}
     \<and> (sl_free (sp_lock s) = 1 \<longleftrightarrow> (\<forall>i. sp_pc s i \<noteq> Critical))
     \<and> (\<forall>i j. sp_pc s i = Critical \<and> sp_pc s j = Critical \<longrightarrow> i = j)"

lemma spin_inv_cong:
  assumes "sp_lock s' = sp_lock s" and "\<And>j. sp_pc s' j = Critical \<longleftrightarrow> sp_pc s j = Critical"
  shows "spin_inv s' = spin_inv s"
  unfolding spin_inv_def assms ..

lemma spin_step_inv: "spin_step s s' \<Longrightarrow> spin_inv s \<Longrightarrow> spin_inv s'"
proof (induction rule: spin_step.induct)
  case (call s i)
  have "((sp_pc s)(i := Spinning)) j = Critical \<longleftrightarrow> sp_pc s j = Critical" for j using call.hyps by simp
  then show ?case using call.prems spin_inv_cong [of "s\<lparr>sp_pc := (sp_pc s)(i := Spinning)\<rparr>" s] by simp
next
  case (spin s i got l)
  have sane: "sl_free (sp_lock s) \<in> {0, 1}" using spin.prems unfolding spin_inv_def by blast
  note a = sl.attempt_iff [OF sane spin.hyps(2)]
  show ?case
  proof (cases got)
    case True
    then show ?thesis using a spin.prems spin.hyps(1) by (auto simp: spin_inv_def)
  next
    case False
    then have "sl_free (sp_lock s) \<noteq> 1" using a(1) by simp
    then have "l = sp_lock s" using sl.attempt_held [OF sane _ spin.hyps(2)] by blast
    then show ?thesis
      using False spin.prems spin.hyps(1) spin_inv_cong [of "s\<lparr>sp_lock := l, sp_pc := (sp_pc s)(i := Spinning)\<rparr>" s] by simp
  qed
next
  case (release s i)
  then show ?case by (auto simp: spin_inv_def spinlock_unlock_def)
qed

lemma spin_reach_inv:
  assumes "spin_step\<^sup>*\<^sup>* (spin_start l) s"
  shows "spin_inv s"
  using assms
proof (induction rule: rtranclp_induct)
  case base
  then show ?case by (simp add: spin_inv_def spin_start_def spinlock_init_def)
next
  case (step y z)
  then show ?case using spin_step_inv by blast
qed

text \<open>
  C24: under every interleaving of any number of threads, at most one thread is between
  \<open>spinlock_lock\<close> and \<open>spinlock_unlock\<close>; and when none is, the next attempt of any spinning thread
  succeeds, so that the lock is never lost.
\<close>

theorem spinlock_mutual_exclusion:
  assumes "spin_step\<^sup>*\<^sup>* (spin_start l) s"
  shows "(sp_pc s i = Critical \<and> sp_pc s j = Critical \<longrightarrow> i = j)
       \<and> ((\<forall>i. sp_pc s i \<noteq> Critical) \<longrightarrow> (\<exists>l'. spinlock_lock (sp_lock s) = Some l' \<and> fst (spinlock_try (sp_lock s))))"
proof -
  have inv: "spin_inv s" by (rule spin_reach_inv [OF assms])
  have "\<exists>l'. spinlock_lock (sp_lock s) = Some l' \<and> fst (spinlock_try (sp_lock s))" if "\<forall>i. sp_pc s i \<noteq> Critical"
  proof -
    have "fst (spinlock_try (sp_lock s))"
      using that inv by (simp add: spin_inv_def spinlock_try_def compare_and_swap_def)
    then show ?thesis by (subst spinlock_lock.simps) (auto split: prod.splits)
  qed
  then show ?thesis using inv unfolding spin_inv_def by blast
qed

theorem spinlock_mutual_exclusion_witness:
  "\<exists>s. spin_step\<^sup>*\<^sup>* (spin_start \<lparr>sl_free = 7\<rparr>) s \<and> sp_pc s 0 = Critical \<and> sp_pc s 1 \<noteq> Critical"
proof -
  let ?s0 = "spin_start \<lparr>sl_free = 7\<rparr>"
  let ?s1 = "?s0\<lparr>sp_pc := (sp_pc ?s0)(0 := Spinning)\<rparr>"
  let ?s2 = "?s1\<lparr>sp_lock := \<lparr>sl_free = 0\<rparr>, sp_pc := (sp_pc ?s1)(0 := (if True then Critical else Spinning))\<rparr>"
  have "spin_step ?s0 ?s1" by (rule spin_step.call) (simp add: spin_start_def)
  moreover have "spin_step ?s1 ?s2"
    by (rule spin_step.spin) (simp_all add: spin_start_def spinlock_init_def spinlock_try_def compare_and_swap_def)
  ultimately have r: "spin_step\<^sup>*\<^sup>* ?s0 ?s2" by (meson converse_rtranclp_into_rtranclp rtranclp.rtrancl_refl)
  have "sp_pc ?s2 0 = Critical" by simp
  moreover have "sp_pc ?s2 1 \<noteq> Critical" using spinlock_mutual_exclusion [OF r, of 0 1] calculation by auto
  ultimately show ?thesis using r by blast
qed

section \<open>Barrier\<close>

text \<open>
  The invariant in round \<open>r\<close>.  Either fewer than \<open>n\<close> threads have arrived and the counter is their number,
  or the last one has arrived and is about to reset it while all others wait.
\<close>

definition arrived :: "nat \<Rightarrow> nat \<Rightarrow> barrier_sys \<Rightarrow> nat set" where
  "arrived n r s = {i. i < n \<and> br_pc s i = Waiting (of_nat r) \<and> br_done s i = r}"

definition left_behind :: "nat \<Rightarrow> barrier_sys \<Rightarrow> nat \<Rightarrow> bool" where
  "left_behind r s i \<longleftrightarrow> (\<exists>r'. r = Suc r' \<and> br_pc s i = Waiting (of_nat r') \<and> br_done s i = r')"

definition gathering :: "nat \<Rightarrow> nat \<Rightarrow> barrier_sys \<Rightarrow> bool" where
  "gathering n r s \<longleftrightarrow> card (arrived n r s) < n \<and> cur_count (br_bar s) = of_nat (card (arrived n r s))
     \<and> (\<forall>i < n. br_done s i = r \<and> br_pc s i \<in> {Outside, Arriving (of_nat r), Waiting (of_nat r)} \<or> left_behind r s i)"

definition last_in :: "nat \<Rightarrow> nat \<Rightarrow> nat \<Rightarrow> barrier_sys \<Rightarrow> bool" where
  "last_in n r l s \<longleftrightarrow> l < n \<and> br_done s l = r
     \<and> (br_pc s l = Resetting \<or> br_pc s l = Advancing \<and> cur_count (br_bar s) = 0)
     \<and> (\<forall>i < n. i \<noteq> l \<longrightarrow> i \<in> arrived n r s)"

definition barrier_inv :: "nat \<Rightarrow> nat \<Rightarrow> barrier_sys \<Rightarrow> bool" where
  "barrier_inv n r s \<longleftrightarrow> iterations (br_bar s) = of_nat r \<and> init_count (br_bar s) = of_nat n
     \<and> (gathering n r s \<or> (\<exists>l. last_in n r l s))"

lemma word_succ_neq: "(x :: u32) \<noteq> x + 1"
  by simp

lemma arrived_finite: "finite (arrived n r s)" "arrived n r s \<subseteq> {..<n}"
proof -
  show s: "arrived n r s \<subseteq> {..<n}" by (auto simp: arrived_def)
  show "finite (arrived n r s)" by (rule finite_subset [OF s]) simp
qed

text \<open>A thread that waits in the current round stays; one that was left behind leaves.\<close>

lemma step_waits:
  assumes "iterations (br_bar s) = of_nat r" and "i \<in> arrived n r s"
  shows "barrier_step i s = s"
  using assms word_succ_neq [of "of_nat r"] by (simp add: arrived_def barrier_step_def)

lemma step_catches_up:
  assumes "iterations (br_bar s) = of_nat r" and "left_behind r s i"
  shows "barrier_step i s = s\<lparr>br_pc := (br_pc s)(i := Outside), br_done := (br_done s)(i := r)\<rparr>"
  using assms by (auto simp: left_behind_def barrier_step_def add.commute)

lemma gathering_step:
  assumes g: "gathering n r s" and it: "iterations (br_bar s) = of_nat r" and ic: "init_count (br_bar s) = of_nat n"
    and i: "i < n" and n: "n < 2 ^ 32"
  shows "barrier_inv n r (barrier_step i s)"
proof -
  from g i consider
    (out) "br_done s i = r" "br_pc s i = Outside" | (arr) "br_done s i = r" "br_pc s i = Arriving (of_nat r)"
    | (wait) "br_done s i = r" "br_pc s i = Waiting (of_nat r)" | (behind) "left_behind r s i"
    unfolding gathering_def by blast
  then show ?thesis
  proof cases
    case out
    then have s': "barrier_step i s = s\<lparr>br_pc := (br_pc s)(i := Arriving (of_nat r))\<rparr>" by (simp add: barrier_step_def it)
    then have "arrived n r (barrier_step i s) = arrived n r s" using out by (auto simp: arrived_def)
    then show ?thesis using g it ic s' out by (auto simp: barrier_inv_def gathering_def left_behind_def)
  next
    case wait
    then have "barrier_step i s = s" using step_waits [OF it] i by (simp add: arrived_def)
    then show ?thesis using g it ic by (simp add: barrier_inv_def)
  next
    case behind
    note s' = step_catches_up [OF it behind]
    have "i \<notin> arrived n r s" using behind by (auto simp: arrived_def left_behind_def)
    then have "arrived n r (barrier_step i s) = arrived n r s" by (auto simp: arrived_def s')
    then show ?thesis using g it ic s' by (auto simp: barrier_inv_def gathering_def left_behind_def)
  next
    case arr
    let ?A = "arrived n r s"
    have iA: "i \<notin> ?A" using arr by (simp add: arrived_def)
    have lt: "card ?A < n" and cc: "cur_count (br_bar s) = of_nat (card ?A)" using g by (simp_all add: gathering_def)
    have eq: "(of_nat (card ?A) :: u32) = of_nat n - 1 \<longleftrightarrow> card ?A = n - 1"
    proof -
      have "(of_nat n - 1 :: u32) = of_nat (n - 1)" using lt by (simp add: of_nat_diff)
      moreover have "unat (of_nat (card ?A) :: u32) = card ?A" "unat (of_nat (n - 1) :: u32) = n - 1"
        using lt n by (intro unat_of_nat_u32; simp)+
      ultimately show ?thesis by metis
    qed
    show ?thesis
    proof (cases "card ?A = n - 1")
      case True
      then have s': "barrier_step i s = s\<lparr>br_bar := (br_bar s)\<lparr>cur_count := of_nat (card ?A) + 1\<rparr>, br_pc := (br_pc s)(i := Resetting)\<rparr>"
        using arr eq cc ic by (simp add: barrier_step_def atomic_add_ret_prev_def)
      have "?A \<subseteq> {..<n} - {i}" using iA arrived_finite(2) [of n r s] by blast
      moreover have "card ({..<n} - {i}) = n - 1" using i by simp
      ultimately have A: "?A = {..<n} - {i}" using True by (metis card_subset_eq finite_Diff finite_lessThan)
      have "\<forall>j < n. j \<noteq> i \<longrightarrow> j \<in> arrived n r (barrier_step i s)"
      proof (intro allI impI)
        fix j assume "j < n" "j \<noteq> i"
        then have "j \<in> ?A" using A by simp
        then show "j \<in> arrived n r (barrier_step i s)" using \<open>j \<noteq> i\<close> by (simp add: arrived_def s')
      qed
      then have "last_in n r i (barrier_step i s)" using i arr by (simp add: last_in_def s')
      then show ?thesis using it ic by (auto simp: barrier_inv_def s')
    next
      case False
      then have s': "barrier_step i s = s\<lparr>br_bar := (br_bar s)\<lparr>cur_count := of_nat (card ?A) + 1\<rparr>,
          br_pc := (br_pc s)(i := Waiting (of_nat r))\<rparr>"
        using arr eq cc ic by (simp add: barrier_step_def atomic_add_ret_prev_def)
      have "arrived n r (barrier_step i s) = insert i ?A" using arr i by (auto simp: arrived_def s')
      then have c: "card (arrived n r (barrier_step i s)) = Suc (card ?A)" using iA arrived_finite(1) by simp
      then show ?thesis using g it ic s' arr False lt by (auto simp: barrier_inv_def gathering_def left_behind_def add.commute)
    qed
  qed
qed

lemma last_in_step:
  assumes g: "last_in n r l s" and it: "iterations (br_bar s) = of_nat r" and ic: "init_count (br_bar s) = of_nat n"
    and i: "i < n"
  shows "\<exists>r'. barrier_inv n r' (barrier_step i s)"
proof (cases "i = l")
  case False
  then have "barrier_step i s = s" using g i step_waits [OF it] by (auto simp: last_in_def)
  then show ?thesis using assms by (auto simp: barrier_inv_def)
next
  case True
  have ot: "\<forall>j < n. j \<noteq> l \<longrightarrow> br_pc s j = Waiting (of_nat r) \<and> br_done s j = r" using g by (simp add: last_in_def arrived_def)
  from g consider "br_pc s l = Resetting" | "br_pc s l = Advancing" "cur_count (br_bar s) = 0"
    by (auto simp: last_in_def)
  then show ?thesis
  proof cases
    case 1
    then have "last_in n r l (barrier_step i s)" using g True by (auto simp: last_in_def barrier_step_def arrived_def)
    then show ?thesis using 1 True it ic by (auto simp: barrier_inv_def barrier_step_def)
  next
    case 2
    then have s': "barrier_step i s = s\<lparr>br_bar := (br_bar s)\<lparr>iterations := of_nat (Suc r)\<rparr>,
        br_pc := (br_pc s)(l := Outside), br_done := (br_done s)(l := Suc r)\<rparr>"
      using True it g by (simp add: barrier_step_def last_in_def add.commute)
    have e: "arrived n (Suc r) (barrier_step i s) = {}" using ot by (auto simp: arrived_def s')
    have "gathering n (Suc r) (barrier_step i s)"
      unfolding gathering_def e using ot 2 i by (simp add: s' left_behind_def)
    moreover have "iterations (br_bar (barrier_step i s)) = of_nat (Suc r)" "init_count (br_bar (barrier_step i s)) = of_nat n"
      using ic by (simp_all add: s')
    ultimately show ?thesis unfolding barrier_inv_def by blast
  qed
qed

lemma barrier_reach_inv:
  assumes "barrier_reach n s" and "0 < n" and "n < 2 ^ 32"
  shows "\<exists>r. barrier_inv n r s"
  using assms(1)
proof (induction rule: barrier_reach.induct)
  case init
  let ?s = "\<lparr>br_bar = barrier_init (of_nat n), br_pc = (\<lambda>_. Outside), br_done = (\<lambda>_. 0)\<rparr>"
  have "arrived n 0 ?s = {}" by (auto simp: arrived_def)
  then have "barrier_inv n 0 ?s" using assms(2) by (simp add: barrier_inv_def gathering_def barrier_init_def)
  then show ?case by blast
next
  case (step s i)
  then obtain r where "barrier_inv n r s" by blast
  then show ?case
    using gathering_step [OF _ _ _ step.hyps(2) assms(3)] last_in_step [OF _ _ _ step.hyps(2)]
    unfolding barrier_inv_def by metis
qed

lemma barrier_gap:
  assumes "barrier_reach n s" and "n < 2 ^ 32" and "i < n" and "j < n"
  shows "br_done s i \<le> br_done s j + 1
       \<and> (br_done s j < br_done s i \<longrightarrow>
            (\<exists>my_iter. br_pc s j = Waiting my_iter) \<and> br_done (barrier_step j s) j = br_done s i)"
proof -
  obtain r where r: "barrier_inv n r s" using barrier_reach_inv [OF assms(1) _ assms(2)] assms(3) by auto
  have d: "br_done s k = r \<or> left_behind r s k" if "k < n" for k
    using r that unfolding barrier_inv_def gathering_def last_in_def arrived_def by auto
  have "br_done (barrier_step j s) j = r \<and> (\<exists>my_iter. br_pc s j = Waiting my_iter)" if "left_behind r s j"
  proof -
    have "iterations (br_bar s) = of_nat r" using r by (simp add: barrier_inv_def)
    then show ?thesis using step_catches_up [OF _ that] that by (auto simp: left_behind_def)
  qed
  then show ?thesis using d [OF assms(3)] d [OF assms(4)] by (auto simp: left_behind_def)
qed

text \<open>
  C25: with \<open>n\<close> threads at a barrier for \<open>n\<close>, under every interleaving and after any number of rounds (the
  32-bit round counter may wrap): a thread that is ahead of another one has returned from exactly
  one call more, and the other one has already arrived in that round and returns at its next step.
  So no thread leaves a round before all have arrived.
\<close>

theorem barrier_holds_round:
  assumes "barrier_reach n s" and "n < 2 ^ 32" and "i < n" and "j < n"
  shows "br_done s i \<le> br_done s j + 1
       \<and> (br_done s j < br_done s i \<longrightarrow>
            (\<exists>my_iter. br_pc s j = Waiting my_iter) \<and> br_done (barrier_step j s) j = br_done s i)"
  by (rule barrier_gap [OF assms])

theorem barrier_holds_round_witness:
  "barrier_reach 1 (barrier_step 0 \<lparr>br_bar = barrier_init (of_nat 1), br_pc = (\<lambda>_. Outside), br_done = (\<lambda>_. 0)\<rparr>)
     \<and> br_done (barrier_step 0 \<lparr>br_bar = barrier_init (of_nat 1), br_pc = (\<lambda>_. Outside), br_done = (\<lambda>_. 0)\<rparr>) 0 \<le> 1"
proof -
  have r: "barrier_reach 1 (barrier_step 0 \<lparr>br_bar = barrier_init (of_nat 1), br_pc = (\<lambda>_. Outside), br_done = (\<lambda>_. 0)\<rparr>)"
    by (intro barrier_reach.step barrier_reach.init) simp
  show ?thesis using r barrier_holds_round [OF r, of 0 0] by (simp add: barrier_step_def)
qed

text \<open>
  The barrier never blocks for good: in every reachable state some thread has a step that makes
  progress.
\<close>

theorem barrier_progress:
  assumes "barrier_reach n s" and "0 < n" and "n < 2 ^ 32"
  shows "\<exists>i < n. br_pc (barrier_step i s) i \<noteq> br_pc s i"
proof -
  obtain r where r: "barrier_inv n r s" using barrier_reach_inv [OF assms] by blast
  then have it: "iterations (br_bar s) = of_nat r" by (simp add: barrier_inv_def)
  from r consider "gathering n r s" | l where "last_in n r l s" unfolding barrier_inv_def by blast
  then show ?thesis
  proof cases
    case 1
    have "card (arrived n r s) < card {..<n}" using 1 unfolding gathering_def card_lessThan by blast
    then have "arrived n r s \<noteq> {..<n}" by force
    then obtain i where i: "i < n" "i \<notin> arrived n r s" using arrived_finite(2) [of n r s] by blast
    then have "br_done s i = r \<and> br_pc s i \<in> {Outside, Arriving (of_nat r)} \<or> left_behind r s i"
      using 1 by (auto simp: gathering_def arrived_def)
    then have "br_pc (barrier_step i s) i \<noteq> br_pc s i"
    proof
      assume "left_behind r s i"
      then show ?thesis using step_catches_up [OF it] by (auto simp: left_behind_def)
    next
      assume "br_done s i = r \<and> br_pc s i \<in> {Outside, Arriving (of_nat r)}"
      then show ?thesis by (auto simp: barrier_step_def atomic_add_ret_prev_def Let_def split: if_splits)
    qed
    then show ?thesis using i(1) by blast
  next
    case 2
    then have "br_pc (barrier_step l s) l \<noteq> br_pc s l" by (auto simp: last_in_def barrier_step_def Let_def)
    then show ?thesis using 2 by (auto simp: last_in_def)
  qed
qed

theorem barrier_progress_witness:
  "\<exists>i < 4. br_pc (barrier_step i \<lparr>br_bar = barrier_init (of_nat 4), br_pc = (\<lambda>_. Outside), br_done = (\<lambda>_. 0)\<rparr>) i \<noteq> Outside"
proof -
  have n: "(0 :: nat) < 4" "(4 :: nat) < 2 ^ 32" by simp_all
  show ?thesis using barrier_progress [OF barrier_reach.init n] unfolding barrier_sys.select_convs .
qed

end
