(* ===== verification/SyncDriverProps.thy ===== *)
theory SyncDriverProps
  imports SyncDriver LockProps
begin

text \<open>
  The exercises succeed under every interleaving: no atomic operation is lost, the barrier keeps the
  threads in step, and the spin lock protects an addition that is not atomic.
\<close>

section \<open>Sums over threads\<close>

lemma sum_upd:
  fixes f :: "nat \<Rightarrow> nat"
  assumes "x < n" and "\<And>j. j \<noteq> x \<Longrightarrow> g j = f j" and "g x = f x + d"
  shows "sum g {..<n} = sum f {..<n} + d"
proof -
  have "sum g {..<n} = g x + sum g ({..<n} - {x})" "sum f {..<n} = f x + sum f ({..<n} - {x})"
    using assms(1) by (simp_all add: sum.remove)
  moreover have "sum g ({..<n} - {x}) = sum f ({..<n} - {x})" using assms(2) by (intro sum.cong) auto
  ultimately show ?thesis using assms(3) by simp
qed

section \<open>Exercise 1\<close>

lemma ex1_inv:
  assumes "ex1_run n s"
  shows "ex1_value s + of_nat (\<Sum>i<n. ex1_iter s i) = of_nat n * of_nat ITERATIONS"
    and "\<forall>i. ex1_iter s i \<le> ITERATIONS"
  using assms
proof induction
  case (step s x)
  let ?s = "ex1_sub_fn x s"
  {
    case 1
    have "(\<Sum>i<n. ex1_iter ?s i) = (\<Sum>i<n. ex1_iter s i) + (if ex1_iter s x < ITERATIONS then 1 else 0)"
      by (rule sum_upd [OF step.hyps(2)]) (simp_all add: ex1_sub_fn_def)
    then show ?case using step.IH(1) by (simp add: ex1_sub_fn_def atomic_sub_def algebra_simps)
  next
    case 2
    then show ?case using step.IH(2) by (auto simp: ex1_sub_fn_def Suc_le_eq)
  }
qed (simp_all add: ex1_start_def)

section \<open>The spin lock test\<close>

definition ex3_added :: "ex3_sys \<Rightarrow> nat \<Rightarrow> nat" where
  "ex3_added s x = ex3_iter s x + (if ex3_pc s x = AtUnlock then 1 else 0)"

definition ex3_inv :: "nat \<Rightarrow> ex3_sys \<Rightarrow> bool" where
  "ex3_inv n s =
     (sl_free (ex3_lock s) \<in> {0, 1}
    \<and> (sl_free (ex3_lock s) = 1 \<longleftrightarrow> (\<forall>x. ex3_pc s x = AtLock))
    \<and> (\<forall>x y. ex3_pc s x \<noteq> AtLock \<and> ex3_pc s y \<noteq> AtLock \<longrightarrow> x = y)
    \<and> (\<forall>x v. ex3_pc s x = AtStore v \<longrightarrow> v = ex3_value s)
    \<and> (\<forall>x. ex3_iter s x \<le> ITERATIONS \<and> (ex3_pc s x \<noteq> AtLock \<longrightarrow> ex3_iter s x < ITERATIONS))
    \<and> ex3_value s = of_nat (\<Sum>x<n. ex3_added s x))"

lemma ex3_alone: "ex3_inv n s \<Longrightarrow> ex3_pc s x \<noteq> AtLock \<Longrightarrow> y \<noteq> x \<Longrightarrow> ex3_pc s y = AtLock"
  unfolding ex3_inv_def by blast

lemma ex3_step_inv:
  assumes inv: "ex3_inv n s" and x: "x < n"
  shows "ex3_inv n (ex3_fn x s)"
proof (cases "ex3_pc s x")
  case AtLock
  obtain got l where t: "spinlock_try (ex3_lock s) = (got, l)" by fastforce
  have sane: "sl_free (ex3_lock s) \<in> {0, 1}" using inv unfolding ex3_inv_def by blast
  note a = sl.attempt_iff [OF sane t]
  show ?thesis
  proof (cases "ex3_iter s x < ITERATIONS")
    case True
    show ?thesis
    proof (cases got)
      case True
      have "ex3_added (ex3_fn x s) = ex3_added s" using AtLock True by (auto simp: ex3_added_def ex3_fn_def t)
      moreover have "\<forall>y. ex3_pc s y = AtLock" "sl_free l = 0" using inv a True unfolding ex3_inv_def by blast+
      ultimately show ?thesis using inv \<open>ex3_iter s x < ITERATIONS\<close> True by (auto simp: ex3_inv_def ex3_fn_def t)
    next
      case False
      then have "sl_free (ex3_lock s) \<noteq> 1" using a(1) by blast
      then have "l = ex3_lock s" using sl.attempt_held [OF sane _ t] by blast
      then have "ex3_fn x s = s" using AtLock True False by (simp add: ex3_fn_def t fun_upd_idem)
      then show ?thesis using inv by simp
    qed
  qed (use inv AtLock in \<open>simp add: ex3_fn_def\<close>)
next
  case AtLoad
  note al = ex3_alone [OF inv, of x]
  have "ex3_added (ex3_fn x s) = ex3_added s" using AtLoad by (auto simp: ex3_added_def ex3_fn_def)
  then show ?thesis using inv al AtLoad by (auto simp: ex3_inv_def ex3_fn_def)
next
  case (AtStore v)
  note al = ex3_alone [OF inv, of x]
  have "sum (ex3_added (ex3_fn x s)) {..<n} = sum (ex3_added s) {..<n} + 1"
    by (rule sum_upd [OF x]) (simp_all add: ex3_added_def ex3_fn_def AtStore)
  then show ?thesis using inv al AtStore by (auto simp: ex3_inv_def ex3_fn_def)
next
  case AtUnlock
  note al = ex3_alone [OF inv, of x]
  have "ex3_iter s x < ITERATIONS" using inv AtUnlock unfolding ex3_inv_def by force
  moreover
  have "ex3_added (ex3_fn x s) = ex3_added s" using AtUnlock by (auto simp: ex3_added_def ex3_fn_def)
  ultimately show ?thesis using inv al AtUnlock by (auto simp: ex3_inv_def ex3_fn_def spinlock_unlock_def Suc_le_eq)
qed

lemma ex3_run_inv: "ex3_run n l s \<Longrightarrow> ex3_inv n s"
proof (induction rule: ex3_run.induct)
  case start
  then show ?case by (simp add: ex3_inv_def ex3_start_def ex3_added_def spinlock_init_def)
qed (simp add: ex3_step_inv)

section \<open>The barrier test\<close>

text \<open>
  What holds of each thread: how often it has passed the barrier follows from its place in the loop,
  it is in no call of \<open>barrier_wait\<close> outside of the two, and \<open>ex2_added\<close> is the number of its additions.
\<close>

definition ex2_added :: "ex2_sys \<Rightarrow> nat \<Rightarrow> nat" where
  "ex2_added s x = ex2_iter s x + (if ex2_pc s x = InSecond then 1 else 0)"

definition ex2_place :: "ex2_sys \<Rightarrow> nat \<Rightarrow> bool" where
  "ex2_place s x =
     (br_done (ex2_barrier s) x = 2 * ex2_iter s x + (if ex2_pc s x \<in> {AtAdd, InSecond} then 1 else 0)
    \<and> (ex2_pc s x \<in> {AtCheck, AtAdd} \<longrightarrow> br_pc (ex2_barrier s) x = Outside))"

definition ex2_inv :: "nat \<Rightarrow> ex2_sys \<Rightarrow> bool" where
  "ex2_inv n s = (barrier_reach n (ex2_barrier s) \<and> (\<forall>x. ex2_place s x) \<and> (\<forall>x. \<not> ex2_error s x)
     \<and> ex2_value s = of_nat (\<Sum>x<n. ex2_added s x))"

text \<open>At the comparison all threads have made the same number of additions.\<close>

lemma ex2_check_agrees:
  assumes inv: "ex2_inv n s" and n: "n < 2 ^ 32" and x: "x < n" and y: "y < n" and pc: "ex2_pc s x = AtCheck"
  shows "ex2_added s y = ex2_iter s x"
proof -
  let ?b = "ex2_barrier s"
  have r: "barrier_reach n ?b" and px: "ex2_place s x" and py: "ex2_place s y" using inv by (auto simp: ex2_inv_def)
  have dx: "br_done ?b x = 2 * ex2_iter s x" "br_pc ?b x = Outside" using px pc by (auto simp: ex2_place_def)
  have "br_done ?b y \<le> br_done ?b x" using barrier_gap [OF r n y x] by (auto simp: dx(2) not_less [symmetric])
  moreover have "br_done ?b x \<le> br_done ?b y + 1" "br_done ?b y < br_done ?b x \<Longrightarrow> br_pc ?b y \<noteq> Outside"
    using barrier_gap [OF r n x y] by auto
  ultimately consider "br_done ?b y = 2 * ex2_iter s x" | "br_done ?b y + 1 = 2 * ex2_iter s x" "br_pc ?b y \<noteq> Outside"
    using dx(1) by linarith
  then show ?thesis
  proof cases
    case 1
    then have "ex2_iter s y = ex2_iter s x" "ex2_pc s y \<noteq> InSecond"
      using py by (auto simp: ex2_place_def split: if_splits) presburger+
    then show ?thesis by (simp add: ex2_added_def)
  next
    case 2
    then have "ex2_iter s y + 1 = ex2_iter s x" "ex2_pc s y = InSecond"
      using py by (cases "ex2_pc s y"; auto simp: ex2_place_def; presburger)+
    then show ?thesis by (simp add: ex2_added_def)
  qed
qed

text \<open>A step in \<open>barrier_wait\<close> either stays in the call or returns from it.\<close>

lemma barrier_step_done:
  "br_done (barrier_step x b) x \<noteq> br_done b x \<Longrightarrow>
     br_done (barrier_step x b) x = br_done b x + 1 \<and> br_pc (barrier_step x b) x = Outside"
  "y \<noteq> x \<Longrightarrow> br_pc (barrier_step x b) y = br_pc b y \<and> br_done (barrier_step x b) y = br_done b y"
  by (auto simp: barrier_step_def Let_def split: barrier_pc.splits prod.splits)

lemma ex2_wait_inv:
  assumes inv: "ex2_inv n s" and x: "x < n"
    and pc: "ex2_pc s x = InFirst \<and> nxt = AtAdd \<and> i = ex2_iter s x \<or> ex2_pc s x = InSecond \<and> nxt = AtCheck \<and> i = ex2_iter s x + 1"
  shows "ex2_inv n (ex2_wait x nxt i s)"
proof -
  let ?b = "ex2_barrier s" and ?s = "ex2_wait x nxt i s"
  have b: "ex2_barrier ?s = barrier_step x ?b" by (simp add: ex2_wait_def Let_def)
  have "barrier_reach n (ex2_barrier ?s)" using inv x b by (simp add: ex2_inv_def barrier_reach.step)
  moreover have "ex2_added ?s = ex2_added s" using pc by (auto simp: ex2_wait_def ex2_added_def Let_def)
  moreover have "ex2_place ?s y" for y
  proof -
    have p: "ex2_place s y" using inv by (simp add: ex2_inv_def)
    show ?thesis
    proof (cases "y = x")
      case True
      show ?thesis
      proof (cases "br_done (barrier_step x ?b) x = br_done ?b x")
        case False
        from barrier_step_done(1) [OF this] False show ?thesis
          using p pc True by (auto simp: ex2_place_def b) (simp_all add: ex2_wait_def Let_def)
      qed (use p pc True in \<open>auto simp: ex2_place_def ex2_wait_def Let_def\<close>)
    next
      case False
      from barrier_step_done(2) [OF this] False show ?thesis using p by (simp add: ex2_place_def ex2_wait_def Let_def)
    qed
  qed
  moreover have "ex2_value ?s = ex2_value s" "ex2_error ?s = ex2_error s" by (simp_all add: ex2_wait_def Let_def)
  ultimately show ?thesis using inv by (simp add: ex2_inv_def)
qed

lemma ex2_step_inv:
  assumes inv: "ex2_inv n s" and x: "x < n" and n: "n < 2 ^ 32"
  shows "ex2_inv n (ex2_fn n x s)"
proof (cases "ex2_pc s x")
  case AtCheck
  let ?s = "ex2_fn n x s"
  have "ex2_value s = of_nat n * of_nat (ex2_iter s x)"
  proof -
    have "(\<Sum>y<n. ex2_added s y) = (\<Sum>y<n. ex2_iter s x)"
      by (rule sum.cong) (use ex2_check_agrees [OF inv n x _ AtCheck] in auto)
    then show ?thesis using inv by (simp add: ex2_inv_def)
  qed
  then have "\<not> ex2_error ?s y" for y using inv AtCheck by (auto simp: ex2_inv_def ex2_fn_def)
  moreover have "ex2_added ?s = ex2_added s" using AtCheck by (auto simp: ex2_fn_def ex2_added_def)
  moreover have "ex2_place ?s y" for y using inv AtCheck by (auto simp: ex2_inv_def ex2_place_def ex2_fn_def)
  moreover have "ex2_value ?s = ex2_value s" "ex2_barrier ?s = ex2_barrier s" using AtCheck by (auto simp: ex2_fn_def)
  ultimately show ?thesis using inv by (simp add: ex2_inv_def)
next
  case InFirst
  then show ?thesis using ex2_wait_inv [OF inv x] by (simp add: ex2_fn_def)
next
  case AtAdd
  let ?s = "ex2_fn n x s"
  have "sum (ex2_added ?s) {..<n} = sum (ex2_added s) {..<n} + 1"
    by (rule sum_upd [OF x]) (simp_all add: ex2_added_def ex2_fn_def AtAdd)
  moreover have "ex2_place ?s y" for y using inv AtAdd by (auto simp: ex2_inv_def ex2_place_def ex2_fn_def)
  ultimately show ?thesis using inv AtAdd by (simp add: ex2_inv_def ex2_fn_def atomic_add_def)
next
  case InSecond
  then show ?thesis using ex2_wait_inv [OF inv x] by (simp add: ex2_fn_def)
qed

lemma ex2_run_inv: "ex2_run n s \<Longrightarrow> n < 2 ^ 32 \<Longrightarrow> ex2_inv n s"
proof (induction rule: ex2_run.induct)
  case start
  then show ?case by (simp add: ex2_inv_def ex2_start_def ex2_place_def ex2_added_def barrier_reach.init)
qed (simp add: ex2_step_inv)

section \<open>Properties\<close>

text \<open>
  The barrier test passes: with any number of threads (that a barrier can count) and under every
  interleaving, no thread ever finds a number of additions other than the number of threads times
  its number of rounds.
\<close>

theorem barrier_test_never_fails:
  assumes "ex2_run num_threads s" and "num_threads < 2 ^ 32"
  shows "\<not> ex2_error s x"
  using ex2_run_inv [OF assms] by (simp add: ex2_inv_def)

theorem barrier_test_never_fails_witness:
  "\<exists>s. ex2_run 2 s \<and> \<not> ex2_error s 0"
proof -
  have "ex2_run 2 (ex2_fn 2 0 (ex2_start 2))" by (intro ex2_run.intros) simp
  then show ?thesis using barrier_test_never_fails [of 2 _ 0] by fastforce
qed

lemma ex1_exact:
  assumes "ex1_run n s" and "\<forall>x < n. ex1_iter s x = ITERATIONS"
  shows "ex1_success s"
proof -
  have "(\<Sum>x<n. ex1_iter s x) = (\<Sum>x<n. ITERATIONS)" using assms(2) by (intro sum.cong) auto
  then have "ex1_value s + of_nat n * of_nat ITERATIONS = of_nat n * of_nat ITERATIONS"
    using ex1_inv(1) [OF assms(1)] by (simp del: of_nat_sum)
  then show ?thesis by (simp add: ex1_success_def)
qed

lemma ex3_exact:
  assumes "ex3_run n l t" and "\<forall>x < n. ex3_iter t x = ITERATIONS"
  shows "ex3_success n t"
proof -
  have inv: "ex3_inv n t" by (rule ex3_run_inv [OF assms(1)])
  have "ex3_added t x = ITERATIONS" if "x < n" for x
  proof -
    have "ex3_pc t x \<noteq> AtLock \<longrightarrow> ex3_iter t x < ITERATIONS" using inv unfolding ex3_inv_def by blast
    then show ?thesis using assms(2) that by (auto simp: ex3_added_def split: if_splits)
  qed
  then have "(\<Sum>x<n. ex3_added t x) = (\<Sum>x<n. ITERATIONS)" by (intro sum.cong) auto
  then have "ex3_value t = of_nat (n * ITERATIONS)" using inv unfolding ex3_inv_def by (simp del: of_nat_sum)
  then show ?thesis by (simp add: ex3_success_def)
qed

text \<open>
  No update is lost: when all threads have finished their loops, the atomic subtractions have brought
  the counter to zero, and the additions under the spin lock, none of which is atomic, have all been
  counted.
\<close>

theorem counters_exact:
  assumes "ex1_run n s" and "\<forall>x < n. ex1_iter s x = ITERATIONS"
    and "ex3_run n l t" and "\<forall>x < n. ex3_iter t x = ITERATIONS"
  shows "ex1_success s \<and> ex3_success n t"
  using ex1_exact [OF assms(1,2)] ex3_exact [OF assms(3,4)] by blast

text \<open>Both exercises can be run to their end, here by one thread.\<close>

lemma ex1_completes: "k \<le> ITERATIONS \<Longrightarrow> \<exists>s. ex1_run 1 s \<and> ex1_iter s 0 = k"
proof (induction k)
  case 0
  show ?case using ex1_run.start [of 1] by (force simp: ex1_start_def)
next
  case (Suc k)
  then obtain s where s: "ex1_run 1 s" "ex1_iter s 0 = k" by auto
  show ?case using ex1_run.step [OF s(1), of 0] s(2) Suc.prems by (intro exI [of _ "ex1_sub_fn 0 s"]) (simp add: ex1_sub_fn_def)
qed

lemma ex3_completes: "k \<le> ITERATIONS \<Longrightarrow> \<exists>s. ex3_run 1 l s \<and> ex3_iter s 0 = k \<and> ex3_pc s 0 = AtLock \<and> sl_free (ex3_lock s) = 1"
proof (induction k)
  case 0
  show ?case using ex3_run.start [of 1 l] by (force simp: ex3_start_def spinlock_init_def)
next
  case (Suc k)
  then obtain s where s: "ex3_run 1 l s" "ex3_iter s 0 = k" "ex3_pc s 0 = AtLock" "sl_free (ex3_lock s) = 1" by auto
  have r: "ex3_run 1 l (ex3_fn 0 t)" if "ex3_run 1 l t" for t using that by (rule ex3_run.step) simp
  show ?case using r [OF r [OF r [OF r [OF s(1)]]]] s(2-4) Suc.prems
    by (intro exI [of _ "ex3_fn 0 (ex3_fn 0 (ex3_fn 0 (ex3_fn 0 s)))"])
      (simp add: ex3_fn_def spinlock_try_def spinlock_unlock_def compare_and_swap_def)
qed

theorem counters_exact_witness:
  "\<exists>s t. ex1_run 1 s \<and> ex3_run 1 \<lparr>sl_free = 7\<rparr> t \<and> ex1_success s \<and> ex3_success 1 t"
proof -
  obtain s where s: "ex1_run 1 s" "ex1_iter s 0 = ITERATIONS" using ex1_completes by blast
  obtain t where t: "ex3_run 1 \<lparr>sl_free = 7\<rparr> t" "ex3_iter t 0 = ITERATIONS" using ex3_completes by blast
  show ?thesis using counters_exact [OF s(1) _ t(1)] s t by auto
qed

end
