(* ===== verification/RwLock.thy ===== *)
theory RwLock
  imports LockProps
begin

text \<open>
  The reader-writer lock of \<open>src/SyncProject/locking.c\<close> as a transition system over its threads.  The
  lock structure holds pointers to two spin locks; the spin locks live in a store of their own, and
  a dereference of anything else is a fault.  Every read and every write of a shared field is a
  step.
\<close>

section \<open>Data and operations\<close>

record read_write_lock =
  num_readers :: u32
  writer :: u32
  w_mutex :: u64
  mutex :: u64

type_synonym lock_store = "u64 \<Rightarrow> spinlock option"

definition rw_lock_init :: "u64 \<Rightarrow> u64 \<Rightarrow> lock_store \<Rightarrow> read_write_lock \<times> lock_store" where
  "rw_lock_init sl0 sl1 st =
     (\<lparr>num_readers = 0, writer = 0, w_mutex = sl1, mutex = sl0\<rparr>,
      st(sl0 \<mapsto> spinlock_init \<lparr>sl_free = 0\<rparr>, sl1 \<mapsto> spinlock_init \<lparr>sl_free = 0\<rparr>))"

text \<open>
  Places of a thread: spinning on the mutex; in the loop on \<open>writer\<close>; before the read and the write
  of \<open>num_readers++\<close>; before the release of the mutex; holding the lock for reading; and for a writer
  the two reads of its loop condition, the assignment, the release, and holding the lock.
\<close>

datatype rw_pc =
    Idle
  | RSpin | RWait | RLoad | RStore u32 | RUnlock | Reading
  | WSpin | WWait | WCount | WSet | WUnlock | Writing

record rw_sys =
  rw :: read_write_lock
  locks :: lock_store
  rw_pc :: "nat \<Rightarrow> rw_pc"

definition goto :: "nat \<Rightarrow> rw_pc \<Rightarrow> rw_sys \<Rightarrow> rw_sys" where
  "goto i pc s = s\<lparr>rw_pc := (rw_pc s)(i := pc)\<rparr>"

text \<open>The calls \<open>spinlock_lock(lock->mutex)\<close> and \<open>spinlock_unlock(lock->mutex)\<close>.\<close>

definition mutex_try :: "nat \<Rightarrow> rw_pc \<Rightarrow> rw_sys \<Rightarrow> rw_sys res" where
  "mutex_try i pc s =
     (case locks s (mutex (rw s)) of
        None \<Rightarrow> Inl (BadDeref (mutex (rw s)))
      | Some l \<Rightarrow> let (got, l') = spinlock_try l;
                      s' = s\<lparr>locks := (locks s)(mutex (rw s) \<mapsto> l')\<rparr>
                  in Inr (if got then goto i pc s' else s'))"

definition mutex_release :: "nat \<Rightarrow> rw_pc \<Rightarrow> rw_sys \<Rightarrow> rw_sys res" where
  "mutex_release i pc s =
     (case locks s (mutex (rw s)) of
        None \<Rightarrow> Inl (BadDeref (mutex (rw s)))
      | Some l \<Rightarrow> Inr (goto i pc (s\<lparr>locks := (locks s)(mutex (rw s) \<mapsto> spinlock_unlock l)\<rparr>)))"

text \<open>\<open>rw_read_unlock\<close> subtracts from the 32 low bits of the pointer \<open>mutex\<close>.\<close>

definition sub_low :: "u64 \<Rightarrow> u32 \<Rightarrow> u64" where
  "sub_low p d = (p AND NOT 0xffffffff) OR ucast (atomic_sub (ucast p) d)"

definition rw_read_unlock :: "read_write_lock \<Rightarrow> read_write_lock" where
  "rw_read_unlock l = l\<lparr>mutex := sub_low (mutex l) 1\<rparr>"

definition rw_write_unlock :: "read_write_lock \<Rightarrow> read_write_lock" where
  "rw_write_unlock l = l\<lparr>writer := atomic_sub (writer l) 1\<rparr>"

definition rw_read_lock_step :: "nat \<Rightarrow> rw_sys \<Rightarrow> rw_sys res" where
  "rw_read_lock_step i s =
     (case rw_pc s i of
        RSpin \<Rightarrow> mutex_try i RWait s
      | RWait \<Rightarrow> Inr (if writer (rw s) \<noteq> 0 then s else goto i RLoad s)
      | RLoad \<Rightarrow> Inr (goto i (RStore (num_readers (rw s))) s)
      | RStore v \<Rightarrow> Inr (goto i RUnlock (s\<lparr>rw := (rw s)\<lparr>num_readers := v + 1\<rparr>\<rparr>))
      | RUnlock \<Rightarrow> mutex_release i Reading s
      | _ \<Rightarrow> Inr s)"

definition rw_write_lock_step :: "nat \<Rightarrow> rw_sys \<Rightarrow> rw_sys res" where
  "rw_write_lock_step i s =
     (case rw_pc s i of
        WSpin \<Rightarrow> mutex_try i WWait s
      | WWait \<Rightarrow> Inr (if writer (rw s) \<noteq> 0 then s else goto i WCount s)
      | WCount \<Rightarrow> Inr (goto i (if 0 < sint (num_readers (rw s)) then WWait else WSet) s)
      | WSet \<Rightarrow> Inr (goto i WUnlock (s\<lparr>rw := (rw s)\<lparr>writer := 1\<rparr>\<rparr>))
      | WUnlock \<Rightarrow> mutex_release i Writing s
      | _ \<Rightarrow> Inr s)"

text \<open>A step of thread \<open>i\<close>; an idle thread calls \<open>rw_write_lock\<close> or \<open>rw_read_lock\<close>.\<close>

definition rw_step :: "bool \<Rightarrow> nat \<Rightarrow> rw_sys \<Rightarrow> rw_sys res" where
  "rw_step write i s =
     (case rw_pc s i of
        Idle \<Rightarrow> Inr (goto i (if write then WSpin else RSpin) s)
      | Reading \<Rightarrow> Inr (goto i Idle (s\<lparr>rw := rw_read_unlock (rw s)\<rparr>))
      | Writing \<Rightarrow> Inr (goto i Idle (s\<lparr>rw := rw_write_unlock (rw s)\<rparr>))
      | RSpin \<Rightarrow> rw_read_lock_step i s
      | RWait \<Rightarrow> rw_read_lock_step i s
      | RLoad \<Rightarrow> rw_read_lock_step i s
      | RStore v \<Rightarrow> rw_read_lock_step i s
      | RUnlock \<Rightarrow> rw_read_lock_step i s
      | _ \<Rightarrow> rw_write_lock_step i s)"

end
