(* ===== verification/RwLockProps.thy ===== *)
theory RwLockProps
  imports RwLock
begin

text \<open>
  Safety of the reader-writer lock as long as no reader releases it, and what a reader's release
  does instead of giving the lock back.
\<close>

section \<open>Runs\<close>

text \<open>The runs of \<open>n\<close> threads in which no reader has called \<open>rw_read_unlock\<close> yet.\<close>

definition rw_start :: "u64 \<Rightarrow> u64 \<Rightarrow> rw_sys" where
  "rw_start sl0 sl1 = (let (l, st) = rw_lock_init sl0 sl1 Map.empty in \<lparr>rw = l, locks = st, rw_pc = (\<lambda>_. Idle)\<rparr>)"

inductive rw_reach :: "nat \<Rightarrow> u64 \<Rightarrow> u64 \<Rightarrow> rw_sys \<Rightarrow> bool" for n sl0 sl1 where
  init: "rw_reach n sl0 sl1 (rw_start sl0 sl1)"
| step: "rw_reach n sl0 sl1 s \<Longrightarrow> i < n \<Longrightarrow> rw_pc s i \<noteq> Reading \<Longrightarrow> rw_step w i s = Inr s' \<Longrightarrow> rw_reach n sl0 sl1 s'"

section \<open>The invariant\<close>

fun holding :: "rw_pc \<Rightarrow> bool" where
  "holding Idle = False" | "holding RSpin = False" | "holding WSpin = False"
| "holding Reading = False" | "holding Writing = False" | "holding _ = True"

definition counted :: "rw_pc \<Rightarrow> bool" where
  "counted pc = (pc = RUnlock \<or> pc = Reading)"

definition writing :: "rw_pc \<Rightarrow> bool" where
  "writing pc = (pc = WUnlock \<or> pc = Writing)"

fun sees_no_writer :: "rw_pc \<Rightarrow> bool" where
  "sees_no_writer RLoad = True" | "sees_no_writer (RStore v) = True" | "sees_no_writer WCount = True"
| "sees_no_writer WSet = True" | "sees_no_writer _ = False"

definition mutex_inv :: "nat \<Rightarrow> u64 \<Rightarrow> rw_sys \<Rightarrow> bool" where
  "mutex_inv n p s \<longleftrightarrow> mutex (rw s) = p
     \<and> (\<exists>l. locks s p = Some l \<and> sl_free l \<in> {0, 1} \<and> (sl_free l = 1 \<longleftrightarrow> (\<forall>i < n. \<not> holding (rw_pc s i))))
     \<and> (\<forall>i < n. \<forall>j < n. holding (rw_pc s i) \<longrightarrow> holding (rw_pc s j) \<longrightarrow> i = j)"

definition writer_inv :: "nat \<Rightarrow> rw_sys \<Rightarrow> bool" where
  "writer_inv n s \<longleftrightarrow> writer (rw s) \<in> {0, 1}
     \<and> (writer (rw s) = 1 \<longleftrightarrow> (\<exists>i < n. writing (rw_pc s i)))
     \<and> (\<forall>i < n. \<forall>j < n. writing (rw_pc s i) \<longrightarrow> writing (rw_pc s j) \<longrightarrow> i = j)
     \<and> (\<forall>i < n. sees_no_writer (rw_pc s i) \<longrightarrow> writer (rw s) = 0)"

definition readers :: "nat \<Rightarrow> rw_sys \<Rightarrow> nat set" where
  "readers n s = {i. i < n \<and> counted (rw_pc s i)}"

definition reader_inv :: "nat \<Rightarrow> rw_sys \<Rightarrow> bool" where
  "reader_inv n s \<longleftrightarrow> num_readers (rw s) = of_nat (card (readers n s))
     \<and> (\<forall>i < n. \<forall>v. rw_pc s i = RStore v \<longrightarrow> v = num_readers (rw s))
     \<and> (\<forall>i < n. rw_pc s i = WSet \<or> writing (rw_pc s i) \<longrightarrow> readers n s = {})"

definition rw_inv :: "nat \<Rightarrow> u64 \<Rightarrow> rw_sys \<Rightarrow> bool" where
  "rw_inv n p s \<longleftrightarrow> mutex_inv n p s \<and> writer_inv n s \<and> reader_inv n s"

lemmas pc_defs = counted_def writing_def goto_def

lemma rw_inv_start: "rw_inv n sl0 (rw_start sl0 sl1)"
  by (auto simp: rw_inv_def mutex_inv_def writer_inv_def reader_inv_def readers_def rw_start_def rw_lock_init_def
      spinlock_init_def pc_defs)

section \<open>The mutex\<close>

lemma mutex_try_inv:
  assumes m: "mutex_inv n p s" and i: "i < n" "\<not> holding (rw_pc s i)" "holding pc" and s': "mutex_try i pc s = Inr s'"
  shows "mutex_inv n p s'" and "rw s' = rw s"
    and "rw_pc s' = rw_pc s \<or> rw_pc s' = (rw_pc s)(i := pc) \<and> (\<forall>j < n. \<not> holding (rw_pc s j))"
proof -
  obtain l where l: "mutex (rw s) = p" "locks s p = Some l" "sl_free l \<in> {0, 1}"
    "sl_free l = 1 \<longleftrightarrow> (\<forall>i < n. \<not> holding (rw_pc s i))"
    and u: "\<forall>i < n. \<forall>j < n. holding (rw_pc s i) \<longrightarrow> holding (rw_pc s j) \<longrightarrow> i = j"
    using m unfolding mutex_inv_def by blast
  obtain got l' where t: "spinlock_try l = (got, l')" by (cases "spinlock_try l")
  note a = sl.attempt_iff [OF l(3) t]
  have r: "s' = (if got then goto i pc (s\<lparr>locks := (locks s)(p \<mapsto> l')\<rparr>) else s\<lparr>locks := (locks s)(p \<mapsto> l')\<rparr>)"
    using s' l(1,2) t by (auto simp: mutex_try_def Let_def split: if_splits)
  show "rw s' = rw s" by (simp add: r goto_def)
  show "rw_pc s' = rw_pc s \<or> rw_pc s' = (rw_pc s)(i := pc) \<and> (\<forall>j < n. \<not> holding (rw_pc s j))"
    using a(1) l(4) by (simp add: r goto_def)
  show "mutex_inv n p s'"
  proof (cases got)
    case True
    then have "\<forall>j < n. \<not> holding (rw_pc s j)" using a(1) l(4) by blast
    then show ?thesis using True a l(1) i unfolding mutex_inv_def by (auto simp: r goto_def)
  next
    case False
    then show ?thesis using a l u unfolding mutex_inv_def by (auto simp: r)
  qed
qed

lemma mutex_release_inv:
  assumes m: "mutex_inv n p s" and i: "i < n" "holding (rw_pc s i)" "\<not> holding pc" and s': "mutex_release i pc s = Inr s'"
  shows "mutex_inv n p s'" and "rw s' = rw s" and "rw_pc s' = (rw_pc s)(i := pc)"
proof -
  obtain l where l: "mutex (rw s) = p" "locks s p = Some l"
    and u: "\<forall>i < n. \<forall>j < n. holding (rw_pc s i) \<longrightarrow> holding (rw_pc s j) \<longrightarrow> i = j"
    using m unfolding mutex_inv_def by blast
  have r: "s' = goto i pc (s\<lparr>locks := (locks s)(p \<mapsto> spinlock_unlock l)\<rparr>)"
    using s' l by (simp add: mutex_release_def)
  show "rw s' = rw s" "rw_pc s' = (rw_pc s)(i := pc)" by (simp_all add: r goto_def)
  show "mutex_inv n p s'" using u l i unfolding mutex_inv_def by (auto simp: r goto_def spinlock_unlock_def)
qed

text \<open>A step that keeps the mutex and the place of the thread relative to it.\<close>

lemma mutex_inv_keep:
  assumes "mutex_inv n p s" and "mutex (rw s') = mutex (rw s)" and "locks s' = locks s"
    and "\<And>j. holding (rw_pc s' j) = holding (rw_pc s j)"
  shows "mutex_inv n p s'"
  using assms(1) unfolding mutex_inv_def assms(2-4) .

lemma mutex_mapped: "mutex_inv n p s \<Longrightarrow> \<exists>l. locks s (mutex (rw s)) = Some l"
  unfolding mutex_inv_def by blast

lemma mutex_alone:
  "mutex_inv n p s \<Longrightarrow> i < n \<Longrightarrow> j < n \<Longrightarrow> holding (rw_pc s i) \<Longrightarrow> holding (rw_pc s j) \<Longrightarrow> i = j"
  unfolding mutex_inv_def by blast

section \<open>Readers and writers\<close>

lemma writer_inv_keep:
  assumes "writer_inv n s" and "writer (rw s') = writer (rw s)" and "\<And>j. writing (rw_pc s' j) = writing (rw_pc s j)"
    and "\<And>j. j < n \<Longrightarrow> sees_no_writer (rw_pc s' j) \<Longrightarrow> sees_no_writer (rw_pc s j) \<or> writer (rw s) = 0"
  shows "writer_inv n s'"
  using assms unfolding writer_inv_def assms(2,3) by blast

lemma readers_keep: "(\<And>j. counted (rw_pc s' j) = counted (rw_pc s j)) \<Longrightarrow> readers n s' = readers n s"
  unfolding readers_def by simp

lemma reader_inv_keep:
  assumes r: "reader_inv n s" and nr: "num_readers (rw s') = num_readers (rw s)"
    and c: "\<And>j. counted (rw_pc s' j) = counted (rw_pc s j)"
    and v: "\<And>j v. j < n \<Longrightarrow> rw_pc s' j = RStore v \<Longrightarrow> rw_pc s j = RStore v \<or> v = num_readers (rw s)"
    and w: "\<And>j. j < n \<Longrightarrow> rw_pc s' j = WSet \<or> writing (rw_pc s' j) \<Longrightarrow>
        rw_pc s j = WSet \<or> writing (rw_pc s j) \<or> readers n s = {}"
  shows "reader_inv n s'"
  using r v w unfolding reader_inv_def nr readers_keep [of s' s, OF c] by blast

text \<open>The writer's test: a positive count of readers is read as positive.\<close>

lemma no_readers:
  assumes "reader_inv n s" and "n < 2 ^ 31" and "\<not> 0 < sint (num_readers (rw s))"
  shows "readers n s = {}"
proof -
  have sub: "readers n s \<subseteq> {..<n}" by (auto simp: readers_def)
  then have "card (readers n s) \<le> n" using card_mono [of "{..<n}"] by simp
  then have "card (readers n s) < 2147483648" using assms(2) by simp
  then have "sint (of_nat (card (readers n s)) :: u32) = int (card (readers n s))"
    by (simp add: signed_of_nat signed_take_bit_int_eq_self)
  then have "card (readers n s) = 0" using assms(1,3) by (simp add: reader_inv_def)
  then show ?thesis using finite_subset [OF sub] by simp
qed

lemma mutex_try_step:
  assumes inv: "rw_inv n p s" and i: "i < n" "rw_pc s i = from" "from \<in> {RSpin, WSpin}" "to \<in> {RWait, WWait}"
    and s': "mutex_try i to s = Inr s'"
  shows "rw_inv n p s'"
proof -
  have m: "mutex_inv n p s" and w: "writer_inv n s" and r: "reader_inv n s" using inv by (simp_all add: rw_inv_def)
  have h: "\<not> holding (rw_pc s i)" "holding to" using i by auto
  note t = mutex_try_inv [OF m i(1) h s']
  have pc: "rw_pc s' j = rw_pc s j \<or> j = i \<and> rw_pc s' j = to" for j using t(3) by (auto split: if_splits)
  have cl: "counted (rw_pc s' j) = counted (rw_pc s j)" "writing (rw_pc s' j) = writing (rw_pc s j)"
    "sees_no_writer (rw_pc s' j) \<longrightarrow> sees_no_writer (rw_pc s j)" "rw_pc s' j = WSet \<longrightarrow> rw_pc s j = WSet"
    "\<forall>v. rw_pc s' j = RStore v \<longrightarrow> rw_pc s j = RStore v" for j
    using pc [of j] i by (auto simp: counted_def writing_def)
  have "writer_inv n s'" by (rule writer_inv_keep [OF w]) (use t(2) cl in auto)
  moreover have "reader_inv n s'" by (rule reader_inv_keep [OF r]) (use t(2) cl in auto)
  ultimately show ?thesis using t(1) by (simp add: rw_inv_def)
qed

lemma mutex_release_step:
  assumes inv: "rw_inv n p s" and i: "i < n"
    and c: "rw_pc s i = RUnlock \<and> to = Reading \<or> rw_pc s i = WUnlock \<and> to = Writing"
    and s': "mutex_release i to s = Inr s'"
  shows "rw_inv n p s'"
proof -
  have m: "mutex_inv n p s" and w: "writer_inv n s" and r: "reader_inv n s" using inv by (simp_all add: rw_inv_def)
  have h: "holding (rw_pc s i)" "\<not> holding to" using c by auto
  note t = mutex_release_inv [OF m i h s']
  have cl: "counted (rw_pc s' j) = counted (rw_pc s j)" "writing (rw_pc s' j) = writing (rw_pc s j)"
    "sees_no_writer (rw_pc s' j) \<longrightarrow> sees_no_writer (rw_pc s j)" "rw_pc s' j = WSet \<longrightarrow> rw_pc s j = WSet"
    "\<forall>v. rw_pc s' j = RStore v \<longrightarrow> rw_pc s j = RStore v" for j
    using t(3) c by (auto simp: counted_def writing_def)
  have "writer_inv n s'" by (rule writer_inv_keep [OF w]) (use t(2) cl in auto)
  moreover have "reader_inv n s'" by (rule reader_inv_keep [OF r]) (use t(2) cl in auto)
  ultimately show ?thesis using t(1) by (simp add: rw_inv_def)
qed

text \<open>A move of one thread that changes no field.\<close>

lemma goto_step:
  assumes inv: "rw_inv n p s" and i: "i < n" and h: "holding pc = holding (rw_pc s i)"
    and c: "\<not> counted pc" "\<not> counted (rw_pc s i)" "\<not> writing pc" "\<not> writing (rw_pc s i)"
    and n: "sees_no_writer pc \<Longrightarrow> sees_no_writer (rw_pc s i) \<or> writer (rw s) = 0"
    and v: "\<And>v. pc = RStore v \<Longrightarrow> v = num_readers (rw s)" and w: "pc = WSet \<Longrightarrow> readers n s = {}"
  shows "rw_inv n p (goto i pc s)"
proof -
  have "mutex_inv n p (goto i pc s)" by (rule mutex_inv_keep) (use inv h in \<open>auto simp: rw_inv_def goto_def\<close>)
  moreover have "writer_inv n (goto i pc s)"
    by (rule writer_inv_keep [of _ s]) (use inv c n in \<open>auto simp: rw_inv_def goto_def split: if_splits\<close>)
  moreover have "reader_inv n (goto i pc s)"
    by (rule reader_inv_keep [of _ s]) (use inv c v w in \<open>auto simp: rw_inv_def goto_def split: if_splits\<close>)
  ultimately show ?thesis by (simp add: rw_inv_def)
qed

text \<open>The three steps that change a field.\<close>

lemma store_step:
  assumes inv: "rw_inv n p s" and i: "i < n" "rw_pc s i = RStore v"
  shows "rw_inv n p (goto i RUnlock (s\<lparr>rw := (rw s)\<lparr>num_readers := v + 1\<rparr>\<rparr>))" (is "rw_inv n p ?s")
proof -
  have m: "mutex_inv n p s" and w: "writer_inv n s" and r: "reader_inv n s" using inv by (simp_all add: rw_inv_def)
  have hi: "holding (rw_pc s i)" using i by simp
  have w0: "writer (rw s) = 0" using w i unfolding writer_inv_def by (metis sees_no_writer.simps(2))
  have nw: "\<not> writing (rw_pc s j)" if "j < n" for j
    using w w0 that unfolding writer_inv_def by (metis zero_neq_one)
  have al: "\<not> holding (rw_pc s j)" if "j < n" "j \<noteq> i" for j using mutex_alone [OF m that(1) i(1)] hi that(2) by blast
  have "mutex_inv n p ?s" by (rule mutex_inv_keep [OF m]) (use hi in \<open>auto simp: goto_def\<close>)
  moreover have "writer_inv n ?s"
    by (rule writer_inv_keep [OF w]) (use i in \<open>auto simp: goto_def writing_def split: if_splits\<close>)
  moreover have "reader_inv n ?s"
  proof -
    have "readers n ?s = insert i (readers n s)" using i by (auto simp: readers_def goto_def counted_def)
    moreover have "i \<notin> readers n s" using i by (simp add: readers_def counted_def)
    moreover have "finite (readers n s)" by (simp add: readers_def)
    ultimately have "card (readers n ?s) = Suc (card (readers n s))" by simp
    moreover have "v = of_nat (card (readers n s))" using r i unfolding reader_inv_def by metis
    ultimately have "num_readers (rw ?s) = of_nat (card (readers n ?s))" by (simp add: goto_def add.commute)
    moreover have "\<not> (rw_pc ?s j = WSet \<or> writing (rw_pc ?s j))" "rw_pc ?s j \<noteq> RStore u" if "j < n" for j u
      using nw [OF that] al [OF that] by (auto simp: goto_def writing_def)
    ultimately show ?thesis unfolding reader_inv_def by blast
  qed
  ultimately show ?thesis by (simp add: rw_inv_def)
qed

lemma set_step:
  assumes inv: "rw_inv n p s" and i: "i < n" "rw_pc s i = WSet"
  shows "rw_inv n p (goto i WUnlock (s\<lparr>rw := (rw s)\<lparr>writer := 1\<rparr>\<rparr>))" (is "rw_inv n p ?s")
proof -
  have m: "mutex_inv n p s" and w: "writer_inv n s" and r: "reader_inv n s" using inv by (simp_all add: rw_inv_def)
  have hi: "holding (rw_pc s i)" using i by simp
  have w0: "writer (rw s) = 0" using w i unfolding writer_inv_def by (metis sees_no_writer.simps(4))
  have nw: "\<not> writing (rw_pc s j)" if "j < n" for j
    using w w0 that unfolding writer_inv_def by (metis zero_neq_one)
  have al: "\<not> holding (rw_pc s j)" if "j < n" "j \<noteq> i" for j using mutex_alone [OF m that(1) i(1)] hi that(2) by blast
  have e: "readers n s = {}" using r i unfolding reader_inv_def by blast
  have "mutex_inv n p ?s" by (rule mutex_inv_keep [OF m]) (use hi in \<open>auto simp: goto_def\<close>)
  moreover have "writer_inv n ?s"
  proof -
    have wr: "writing (rw_pc ?s j) \<longleftrightarrow> j = i" if "j < n" for j using nw [OF that] by (auto simp: goto_def writing_def)
    have "\<not> sees_no_writer (rw_pc ?s j)" if "j < n" for j
      using al [OF that] by (cases "j = i"; cases "rw_pc s j") (auto simp: goto_def)
    moreover have "writer (rw ?s) = 1" by (simp add: goto_def)
    ultimately show ?thesis unfolding writer_inv_def using wr i(1) by auto
  qed
  moreover have "reader_inv n ?s"
    by (rule reader_inv_keep [OF r]) (use i e in \<open>auto simp: goto_def counted_def split: if_splits\<close>)
  ultimately show ?thesis by (simp add: rw_inv_def)
qed

lemma write_unlock_step:
  assumes inv: "rw_inv n p s" and i: "i < n" "rw_pc s i = Writing"
  shows "rw_inv n p (goto i Idle (s\<lparr>rw := rw_write_unlock (rw s)\<rparr>))" (is "rw_inv n p ?s")
proof -
  have m: "mutex_inv n p s" and w: "writer_inv n s" and r: "reader_inv n s" using inv by (simp_all add: rw_inv_def)
  have wi: "writing (rw_pc s i)" using i by (simp add: writing_def)
  then have w1: "writer (rw s) = 1" using w i unfolding writer_inv_def by blast
  have nw: "\<not> writing (rw_pc s j)" if "j < n" "j \<noteq> i" for j using w wi i(1) that unfolding writer_inv_def by blast
  have "mutex_inv n p ?s"
    by (rule mutex_inv_keep [OF m]) (use i in \<open>auto simp: goto_def rw_write_unlock_def\<close>)
  moreover have "writer_inv n ?s"
  proof -
    have "writer (rw ?s) = 0" using w1 by (simp add: goto_def rw_write_unlock_def atomic_sub_def)
    moreover have "\<not> writing (rw_pc ?s j)" if "j < n" for j using nw [OF that] by (auto simp: goto_def writing_def)
    ultimately show ?thesis unfolding writer_inv_def by auto
  qed
  moreover have "reader_inv n ?s"
    by (rule reader_inv_keep [OF r])
      (use i in \<open>auto simp: goto_def counted_def writing_def rw_write_unlock_def split: if_splits\<close>)
  ultimately show ?thesis by (simp add: rw_inv_def)
qed

section \<open>Every step\<close>

lemma rw_step_inv:
  assumes inv: "rw_inv n p s" and n: "n < 2 ^ 31" and i: "i < n" "rw_pc s i \<noteq> Reading"
  shows "\<exists>s'. rw_step w i s = Inr s' \<and> rw_inv n p s'"
proof -
  have m: "mutex_inv n p s" and r: "reader_inv n s" using inv by (simp_all add: rw_inv_def)
  obtain l where l: "locks s (mutex (rw s)) = Some l" using mutex_mapped [OF m] by blast
  have tr: "\<exists>s'. mutex_try j pc s = Inr s'" and rel: "\<exists>s'. mutex_release j pc s = Inr s'" for j pc
    by (simp_all add: mutex_try_def mutex_release_def l Let_def split: prod.split)
  note defs = rw_step_def rw_read_lock_step_def rw_write_lock_step_def
  show ?thesis
  proof (cases "rw_pc s i")
    case Idle
    then show ?thesis using goto_step [OF inv i(1), of WSpin] goto_step [OF inv i(1), of RSpin] by (simp add: defs counted_def writing_def)
  next
    case RSpin
    then show ?thesis using tr [of i RWait] mutex_try_step [OF inv i(1) RSpin, of RWait] by (auto simp: defs)
  next
    case RWait
    then show ?thesis using goto_step [OF inv i(1), of RLoad] inv by (simp add: defs counted_def writing_def)
  next
    case RLoad
    then show ?thesis using goto_step [OF inv i(1), of "RStore (num_readers (rw s))"] by (simp add: defs counted_def writing_def)
  next
    case (RStore v)
    then show ?thesis using store_step [OF inv i(1) RStore] by (simp add: defs)
  next
    case RUnlock
    then show ?thesis using rel [of i Reading] mutex_release_step [OF inv i(1), of Reading] by (auto simp: defs)
  next
    case Reading
    then show ?thesis using i(2) by simp
  next
    case WSpin
    then show ?thesis using tr [of i WWait] mutex_try_step [OF inv i(1) WSpin, of WWait] by (auto simp: defs)
  next
    case WWait
    then show ?thesis using goto_step [OF inv i(1), of WCount] inv by (simp add: defs counted_def writing_def)
  next
    case WCount
    have g: "rw_inv n p (goto i (if 0 < sint (num_readers (rw s)) then WWait else WSet) s)"
    proof (rule goto_step [OF inv i(1)])
      show "readers n s = {}" if "(if 0 < sint (num_readers (rw s)) then WWait else WSet) = WSet"
        using no_readers [OF r n] that by (auto split: if_splits)
    qed (use WCount in \<open>auto simp: counted_def writing_def split: if_splits\<close>)
    then show ?thesis using WCount by (simp add: defs)
  next
    case WSet
    then show ?thesis using set_step [OF inv i(1) WSet] by (simp add: defs)
  next
    case WUnlock
    then show ?thesis using rel [of i Writing] mutex_release_step [OF inv i(1), of Writing] by (auto simp: defs)
  next
    case Writing
    then show ?thesis using write_unlock_step [OF inv i(1) Writing] by (simp add: defs)
  qed
qed

lemma rw_reach_inv:
  assumes "rw_reach n sl0 sl1 s" and "n < 2 ^ 31"
  shows "rw_inv n sl0 s"
  using assms(1)
proof (induction rule: rw_reach.induct)
  case init
  show ?case by (rule rw_inv_start)
next
  case (step s i w s')
  then show ?case using rw_step_inv [OF step.IH assms(2) step.hyps(2,3), of w] by auto
qed

text \<open>The release subtracts from the low half of the pointer.\<close>

lemma low_sub_low: "(ucast (sub_low p d) :: u32) = ucast p - d"
proof (rule bit_word_eqI)
  fix k assume k: "k < LENGTH(32)"
  have m: "(0xffffffff :: u64) = mask 32" by (simp add: mask_eq_exp_minus_1)
  show "bit (ucast (sub_low p d) :: u32) k = bit (ucast p - d :: u32) k"
    unfolding sub_low_def atomic_sub_def m using k by (simp add: bit_simps)
qed

section \<open>Properties\<close>

text \<open>
  C32: as long as no reader has released the lock, under every interleaving of readers and writers no
  step faults, at most one thread holds the lock for writing, and none holds it for reading at the
  same time.
\<close>

theorem rwlock_exclusion:
  assumes "rw_reach n sl0 sl1 s" and "n < 2 ^ 31" and "i < n" and "j < n"
  shows "\<not> (rw_pc s i = Writing \<and> rw_pc s j = Reading)
       \<and> (rw_pc s i = Writing \<and> rw_pc s j = Writing \<longrightarrow> i = j)
       \<and> (rw_pc s i \<noteq> Reading \<longrightarrow> ok (rw_step w i s))"
proof -
  have inv: "rw_inv n sl0 s" by (rule rw_reach_inv [OF assms(1,2)])
  have "j \<in> readers n s" if "rw_pc s j = Reading" using that assms(4) by (simp add: readers_def counted_def)
  then have "\<not> (rw_pc s i = Writing \<and> rw_pc s j = Reading)"
    using inv assms(3) unfolding rw_inv_def reader_inv_def writing_def by blast
  moreover have "i = j" if "rw_pc s i = Writing" "rw_pc s j = Writing"
    using inv assms(3,4) that unfolding rw_inv_def writer_inv_def writing_def by blast
  moreover have "ok (rw_step w i s)" if "rw_pc s i \<noteq> Reading"
    using rw_step_inv [OF inv assms(2,3) that] by (metis ok_simps(1))
  ultimately show ?thesis by blast
qed

theorem rwlock_exclusion_witness: "rw_reach 2 0x100 0x200 (rw_start 0x100 0x200) \<and> ok (rw_step True 0 (rw_start 0x100 0x200))"
proof -
  have r: "rw_reach 2 0x100 0x200 (rw_start 0x100 0x200)" by (rule rw_reach.init)
  have "rw_pc (rw_start 0x100 0x200) 0 \<noteq> Reading" by (simp add: rw_start_def rw_lock_init_def)
  then show ?thesis using r rwlock_exclusion [OF r, of 0 1 True] by simp
qed

text \<open>
  A reader's release never gives the lock back: it leaves \<open>num_readers\<close> as it is and changes the
  pointer \<open>mutex\<close> instead, so that (unless there happens to be a spin lock at the new address) every
  thread that then tries to take the lock dereferences a bad pointer.
\<close>

theorem read_unlock_breaks_lock:
  assumes "rw_pc s i = Reading"
  shows "\<exists>s'. rw_step w i s = Inr s' \<and> num_readers (rw s') = num_readers (rw s) \<and> mutex (rw s') \<noteq> mutex (rw s)
           \<and> (locks s' (mutex (rw s')) = None \<longrightarrow> rw_pc s' j = RSpin \<or> rw_pc s' j = WSpin \<longrightarrow>
                rw_step w j s' = Inl (BadDeref (mutex (rw s'))))"
proof -
  let ?s = "goto i Idle (s\<lparr>rw := rw_read_unlock (rw s)\<rparr>)"
  have "sub_low (mutex (rw s)) 1 \<noteq> mutex (rw s)"
  proof
    assume "sub_low (mutex (rw s)) 1 = mutex (rw s)"
    then have "(ucast (mutex (rw s)) :: u32) - 1 = ucast (mutex (rw s))" using low_sub_low [of "mutex (rw s)" 1] by simp
    then show False by simp
  qed
  then have "mutex (rw ?s) \<noteq> mutex (rw s)" by (simp add: goto_def rw_read_unlock_def)
  moreover have "rw_step w i s = Inr ?s" using assms by (simp add: rw_step_def)
  moreover have "num_readers (rw ?s) = num_readers (rw s)" by (simp add: goto_def rw_read_unlock_def)
  moreover have "rw_step w j ?s = Inl (BadDeref (mutex (rw ?s)))"
    if "locks ?s (mutex (rw ?s)) = None" "rw_pc ?s j = RSpin \<or> rw_pc ?s j = WSpin"
    using that by (auto simp: rw_step_def rw_read_lock_step_def rw_write_lock_step_def mutex_try_def)
  ultimately show ?thesis by (intro exI [of _ ?s] conjI impI)
qed

theorem read_unlock_breaks_lock_witness:
  "\<exists>s'. rw_step True 0 ((rw_start 0x100 0x200)\<lparr>rw_pc := (\<lambda>_. WSpin)(0 := Reading)\<rparr>) = Inr s' \<and> mutex (rw s') \<noteq> 0x100"
  using read_unlock_breaks_lock [of "(rw_start 0x100 0x200)\<lparr>rw_pc := (\<lambda>_. WSpin)(0 := Reading)\<rparr>" 0 True 1]
  by (auto simp: rw_start_def rw_lock_init_def)

end
