(* ===== verification/LfQueue.thy ===== *)
theory LfQueue
  imports Locking
begin

text \<open>
  The lock-free queue of \<open>src/SyncProject/locking.c\<close>.  Nodes live in a store indexed by address; an
  access to an address that holds no node is a fault.  The operations are modelled as one thread
  executes them, with their retry loops; a loop that does not end is \<open>None\<close>.
\<close>

section \<open>Data\<close>

record node =
  nd_value :: u32
  nd_next :: u64

type_synonym node_store = "u64 \<Rightarrow> node option"

record lf_queue =
  head :: u64
  tail :: u64

definition load_node :: "node_store \<Rightarrow> u64 \<Rightarrow> node res" where
  "load_node st p = (case st p of None \<Rightarrow> Inl (BadDeref p) | Some n \<Rightarrow> Inr n)"

section \<open>Operations\<close>

text \<open>The two nodes come from \<open>malloc\<close>, which leaves their values as they are.\<close>

definition lf_queue_init :: "u64 \<Rightarrow> u64 \<Rightarrow> u32 \<Rightarrow> u32 \<Rightarrow> node_store \<Rightarrow> lf_queue \<times> node_store" where
  "lf_queue_init a b v w st =
     (\<lparr>head = a, tail = b\<rparr>, st(a \<mapsto> \<lparr>nd_value = v, nd_next = NULL\<rparr>, b \<mapsto> \<lparr>nd_value = w, nd_next = NULL\<rparr>))"

text \<open>\<open>compare_and_swap_ptr\<close> on the link of the node at \<open>p\<close>, and on the tail of the queue.\<close>

definition cas_next :: "node_store \<Rightarrow> u64 \<Rightarrow> u64 \<Rightarrow> u64 \<Rightarrow> node_store res" where
  "cas_next st p expected new =
     rbind (load_node st p) (\<lambda>n. Inr (st(p \<mapsto> n\<lparr>nd_next := snd (compare_and_swap_ptr (nd_next n) expected new)\<rparr>)))"

definition cas_tail :: "lf_queue \<Rightarrow> u64 \<Rightarrow> u64 \<Rightarrow> lf_queue" where
  "cas_tail q expected new = q\<lparr>tail := snd (compare_and_swap_ptr (tail q) expected new)\<rparr>"

text \<open>The loop of \<open>lf_enqueue\<close>; the result is the node \<open>p\<close> that the new node \<open>x\<close> was appended to.\<close>

partial_function (option) enqueue_loop :: "u64 \<Rightarrow> lf_queue \<times> node_store \<Rightarrow> (u64 \<times> lf_queue \<times> node_store) run" where
  "enqueue_loop x c =
     (let (q, st) = c; p = tail q
      in pbind (Some (cas_next st p NULL x)) (\<lambda>st.
         pbind (Some (load_node st p)) (\<lambda>n.
         if nd_next n = x then ret (p, q, st) else enqueue_loop x (cas_tail q p (nd_next n), st))))"

definition lf_enqueue :: "u64 \<Rightarrow> u32 \<Rightarrow> lf_queue \<times> node_store \<Rightarrow> (lf_queue \<times> node_store) run" where
  "lf_enqueue x val c =
     (let (q, st) = c
      in pbind (enqueue_loop x (q, st(x \<mapsto> \<lparr>nd_value = val, nd_next = NULL\<rparr>)))
           (\<lambda>(p, q, st). ret (cas_tail q p x, st)))"

text \<open>\<open>lf_dequeue\<close>: \<open>None\<close> for the result 0, and the value that is stored through \<open>val\<close> for the result 1.\<close>

partial_function (option) lf_dequeue :: "lf_queue \<times> node_store \<Rightarrow> (u32 option \<times> lf_queue \<times> node_store) run" where
  "lf_dequeue c =
     (let (q, st) = c; p = head q
      in pbind (Some (load_node st p)) (\<lambda>n.
         if nd_next n = NULL then ret (None, q, st)
         else let (oldhead, h) = compare_and_swap_ptr (head q) p (nd_next n); q = q\<lparr>head := h\<rparr>
              in pbind (Some (load_node st oldhead)) (\<lambda>m.
                 pbind (Some (load_node st (nd_next n))) (\<lambda>f.
                 if nd_next m = nd_next n then ret (Some (nd_value f), q, st) else lf_dequeue (q, st)))))"

end
