(* ===== verification/LfQueueProps.thy ===== *)
theory LfQueueProps
  imports LfQueue
begin

text \<open>
  The lock-free queue, run by one thread, refines a first-in-first-out queue of values, provided
  that its head and tail start at the same dummy node.  The initialisation in the sources gives
  them different nodes, and then nothing that is enqueued can be dequeued.
\<close>

section \<open>The contract of a queue\<close>

locale fifo =
  fixes rep :: "'q \<Rightarrow> 'v list \<Rightarrow> bool" and fresh :: "'q \<Rightarrow> 'a \<Rightarrow> bool"
    and enq :: "'a \<Rightarrow> 'v \<Rightarrow> 'q \<Rightarrow> 'q run" and deq :: "'q \<Rightarrow> ('v option \<times> 'q) run"
  assumes enq_rep: "rep c vs \<Longrightarrow> fresh c x \<Longrightarrow> \<exists>c'. enq x v c = ret c' \<and> rep c' (vs @ [v]) \<and> (\<forall>y. y \<noteq> x \<longrightarrow> fresh c y \<longrightarrow> fresh c' y)"
    and deq_empty: "rep c [] \<Longrightarrow> deq c = ret (None, c)"
    and deq_rep: "rep c (v # vs) \<Longrightarrow> \<exists>c'. deq c = ret (Some v, c') \<and> rep c' vs"

text \<open>Enqueueing a list of values at given addresses, and dequeueing until the queue is empty.\<close>

fun enq_all :: "('a \<Rightarrow> 'v \<Rightarrow> 'q \<Rightarrow> 'q run) \<Rightarrow> ('a \<times> 'v) list \<Rightarrow> 'q \<Rightarrow> 'q run" where
  "enq_all e [] c = ret c"
| "enq_all e ((x, v) # xs) c = pbind (e x v c) (enq_all e xs)"

fun deq_times :: "('q \<Rightarrow> ('v option \<times> 'q) run) \<Rightarrow> nat \<Rightarrow> 'q \<Rightarrow> ('v option list \<times> 'q) run" where
  "deq_times d 0 c = ret ([], c)"
| "deq_times d (Suc k) c = pbind (d c) (\<lambda>(v, c). pbind (deq_times d k c) (\<lambda>(vs, c). ret (v # vs, c)))"

context fifo
begin

lemma enq_all_rep:
  assumes "rep c vs" and "\<forall>x \<in> fst ` set xs. fresh c x" and "distinct (map fst xs)"
  shows "\<exists>c'. enq_all enq xs c = ret c' \<and> rep c' (vs @ map snd xs)"
  using assms
proof (induction xs arbitrary: c vs)
  case Nil
  then show ?case by simp
next
  case (Cons a xs)
  obtain x v where a: "a = (x, v)" by (cases a)
  from enq_rep [OF Cons.prems(1), of x v] Cons.prems(2) a obtain c' where
    c': "enq x v c = ret c'" "rep c' (vs @ [v])" "\<forall>y. y \<noteq> x \<longrightarrow> fresh c y \<longrightarrow> fresh c' y" by auto
  have "\<forall>y \<in> fst ` set xs. fresh c' y" using c'(3) Cons.prems(2,3) a by force
  from Cons.IH [OF c'(2) this] Cons.prems(3) show ?case by (simp add: a c'(1))
qed

lemma deq_times_rep:
  assumes "rep c (vs @ ws)"
  shows "\<exists>c'. deq_times deq (length vs) c = ret (map Some vs, c') \<and> rep c' ws"
  using assms
proof (induction vs arbitrary: c)
  case Nil
  then show ?case by simp
next
  case (Cons v vs)
  from deq_rep [of c v "vs @ ws"] Cons.prems obtain c1 where c1: "deq c = ret (Some v, c1)" "rep c1 (vs @ ws)" by auto
  from Cons.IH [OF c1(2)] show ?case by (auto simp: c1(1))
qed

lemma fifo_order:
  assumes "rep c []" and "\<forall>x \<in> fst ` set xs. fresh c x" and "distinct (map fst xs)"
  shows "\<exists>c' c''. enq_all enq xs c = ret c' \<and> deq_times deq (length xs) c' = ret (map (Some o snd) xs, c'') \<and> rep c'' []"
  using enq_all_rep [OF assms] deq_times_rep [of _ "map snd xs" "[]"] by fastforce

end

section \<open>Chains of nodes\<close>

fun links :: "node_store \<Rightarrow> u64 list \<Rightarrow> bool" where
  "links st [] = False"
| "links st [a] = (\<exists>n. st a = Some n \<and> nd_next n = NULL)"
| "links st (a # b # r) = ((\<exists>n. st a = Some n \<and> nd_next n = b) \<and> links st (b # r))"

definition chain :: "node_store \<Rightarrow> u64 list \<Rightarrow> bool" where
  "chain st ns \<longleftrightarrow> links st ns \<and> distinct ns \<and> NULL \<notin> set ns"

definition values_of :: "node_store \<Rightarrow> u64 list \<Rightarrow> u32 list" where
  "values_of st ns = map (\<lambda>a. nd_value (the (st a))) ns"

text \<open>The queue holds the values of all nodes but the first, which the head refers to.\<close>

definition queue_rep :: "lf_queue \<times> node_store \<Rightarrow> u32 list \<Rightarrow> bool" where
  "queue_rep c vs \<longleftrightarrow> (\<exists>ns. chain (snd c) ns \<and> head (fst c) = hd ns \<and> tail (fst c) = last ns \<and> vs = values_of (snd c) (tl ns))"

definition unused :: "lf_queue \<times> node_store \<Rightarrow> u64 \<Rightarrow> bool" where
  "unused c x \<longleftrightarrow> x \<noteq> NULL \<and> snd c x = None"

lemma links_nonempty: "links st ns \<Longrightarrow> ns \<noteq> []"
  by auto

lemma links_mapped: "links st ns \<Longrightarrow> a \<in> set ns \<Longrightarrow> st a \<noteq> None"
  by (induction st ns rule: links.induct) auto

lemma links_last: "links st ns \<Longrightarrow> \<exists>n. st (last ns) = Some n \<and> nd_next n = NULL"
  by (induction st ns rule: links.induct) auto

lemma links_frame: "links st ns \<Longrightarrow> \<forall>a \<in> set ns. st' a = st a \<Longrightarrow> links st' ns"
  by (induction st ns rule: links.induct) auto

lemma links_snoc:
  assumes "links st ns" and "distinct ns" and "x \<notin> set ns" and "st y = Some n" and "y = last ns"
  shows "links (st(y \<mapsto> n\<lparr>nd_next := x\<rparr>, x \<mapsto> \<lparr>nd_value = v, nd_next = NULL\<rparr>)) (ns @ [x])"
  using assms
proof (induction st ns rule: links.induct)
  case (3 st a b r)
  let ?st = "st(y \<mapsto> n\<lparr>nd_next := x\<rparr>, x \<mapsto> \<lparr>nd_value = v, nd_next = NULL\<rparr>)"
  have y: "y = last (b # r)" using "3.prems"(5) by simp
  then have "a \<noteq> y" using "3.prems"(2) by (metis distinct.simps(2) last_in_set list.distinct(1))
  then have "?st a = st a" using "3.prems"(3) by auto
  moreover have "links ?st ((b # r) @ [x])" by (rule "3.IH") (use "3.prems" y in auto)
  moreover have "\<exists>n. st a = Some n \<and> nd_next n = b" using "3.prems"(1) by simp
  ultimately show ?case unfolding append_Cons links.simps(3) by metis
qed auto

section \<open>Operations on chains\<close>

lemma enqueue_chain:
  assumes c: "chain st ns" and t: "tail q = last ns" and x: "x \<notin> set ns" "x \<noteq> NULL"
  obtains n where "st (last ns) = Some n"
    and "lf_enqueue x v (q, st) = ret (q\<lparr>tail := x\<rparr>, st(last ns \<mapsto> n\<lparr>nd_next := x\<rparr>, x \<mapsto> \<lparr>nd_value = v, nd_next = NULL\<rparr>))"
    and "chain (st(last ns \<mapsto> n\<lparr>nd_next := x\<rparr>, x \<mapsto> \<lparr>nd_value = v, nd_next = NULL\<rparr>)) (ns @ [x])"
proof -
  have l: "links st ns" "distinct ns" "NULL \<notin> set ns" using c by (simp_all add: chain_def)
  obtain n where n: "st (last ns) = Some n" "nd_next n = NULL" using links_last [OF l(1)] by blast
  have ne: "last ns \<noteq> x" using x links_nonempty [OF l(1)] by auto
  have "enqueue_loop x (q, st(x \<mapsto> \<lparr>nd_value = v, nd_next = NULL\<rparr>))
      = ret (last ns, q, st(x \<mapsto> \<lparr>nd_value = v, nd_next = NULL\<rparr>, last ns \<mapsto> n\<lparr>nd_next := x\<rparr>))"
    using n ne by (simp add: enqueue_loop.simps [of x] cas_next_def load_node_def compare_and_swap_ptr_def t Let_def)
  then have "lf_enqueue x v (q, st) = ret (q\<lparr>tail := x\<rparr>, st(last ns \<mapsto> n\<lparr>nd_next := x\<rparr>, x \<mapsto> \<lparr>nd_value = v, nd_next = NULL\<rparr>))"
    using ne by (simp add: lf_enqueue_def cas_tail_def compare_and_swap_ptr_def t fun_upd_twist)
  moreover have "chain (st(last ns \<mapsto> n\<lparr>nd_next := x\<rparr>, x \<mapsto> \<lparr>nd_value = v, nd_next = NULL\<rparr>)) (ns @ [x])"
    using links_snoc [OF l(1,2) x(1) n(1) refl] l x by (simp add: chain_def)
  ultimately show ?thesis using that n(1) by blast
qed

lemma values_snoc:
  assumes "chain st ns" and "x \<notin> set ns" and "st (last ns) = Some n"
  shows "values_of (st(last ns \<mapsto> n\<lparr>nd_next := x\<rparr>, x \<mapsto> \<lparr>nd_value = v, nd_next = NULL\<rparr>)) (tl (ns @ [x]))
       = values_of st (tl ns) @ [v]"
proof (cases ns)
  case Nil
  then show ?thesis using assms(1) by (simp add: chain_def)
next
  case (Cons a r)
  then have "r \<noteq> [] \<Longrightarrow> last ns \<in> set r" by simp
  then show ?thesis using assms(2,3) Cons by (auto simp: values_of_def)
qed

lemma dequeue_empty: "chain st ns \<Longrightarrow> ns = [a] \<Longrightarrow> head q = a \<Longrightarrow> lf_dequeue (q, st) = ret (None, q, st)"
  by (auto simp: lf_dequeue.simps chain_def load_node_def)

lemma dequeue_chain:
  assumes c: "chain st (a # b # r)" and h: "head q = a"
  shows "lf_dequeue (q, st) = ret (Some (nd_value (the (st b))), q\<lparr>head := b\<rparr>, st)"
proof -
  obtain n where n: "st a = Some n" "nd_next n = b" using c by (auto simp: chain_def)
  have b: "b \<noteq> NULL" "st b \<noteq> None" using c links_mapped [of st "b # r" b] by (auto simp: chain_def)
  then obtain m where "st b = Some m" by blast
  then show ?thesis using n b h by (simp add: lf_dequeue.simps [of "(q, st)"] load_node_def compare_and_swap_ptr_def Let_def)
qed

section \<open>The refinement\<close>

lemma enqueue_rep:
  assumes r: "queue_rep c vs" and u: "unused c x"
  shows "\<exists>c'. lf_enqueue x v c = ret c' \<and> queue_rep c' (vs @ [v]) \<and> (\<forall>y. y \<noteq> x \<longrightarrow> unused c y \<longrightarrow> unused c' y)"
proof -
  obtain q st where c: "c = (q, st)" by (cases c)
  obtain ns where ns: "chain st ns" "head q = hd ns" "tail q = last ns" "vs = values_of st (tl ns)"
    using r by (auto simp: queue_rep_def c)
  have ne: "ns \<noteq> []" using ns(1) by (auto simp: chain_def)
  have x: "x \<notin> set ns" "x \<noteq> NULL" using u ns(1) links_mapped [of st ns x] by (auto simp: unused_def c chain_def)
  from enqueue_chain [OF ns(1,3) x, of v] obtain n where
    n: "st (last ns) = Some n"
    and e: "lf_enqueue x v (q, st) = ret (q\<lparr>tail := x\<rparr>, st(last ns \<mapsto> n\<lparr>nd_next := x\<rparr>, x \<mapsto> \<lparr>nd_value = v, nd_next = NULL\<rparr>))"
    and ch: "chain (st(last ns \<mapsto> n\<lparr>nd_next := x\<rparr>, x \<mapsto> \<lparr>nd_value = v, nd_next = NULL\<rparr>)) (ns @ [x])" by blast
  let ?c = "(q\<lparr>tail := x\<rparr>, st(last ns \<mapsto> n\<lparr>nd_next := x\<rparr>, x \<mapsto> \<lparr>nd_value = v, nd_next = NULL\<rparr>))"
  have "queue_rep ?c (vs @ [v])" unfolding queue_rep_def
    using ch ns(2,4) ne values_snoc [OF ns(1) x(1) n, of v] by (intro exI [of _ "ns @ [x]"]) simp
  moreover have "unused ?c y" if "y \<noteq> x" "unused c y" for y using that n by (auto simp: unused_def c)
  ultimately show ?thesis using e by (auto simp: c)
qed

lemma chain_tl: "chain st (a # b # r) \<Longrightarrow> chain st (b # r)"
  by (auto simp: chain_def)

lemma dequeue_rep:
  assumes r: "queue_rep c (v # vs)"
  shows "\<exists>c'. lf_dequeue c = ret (Some v, c') \<and> queue_rep c' vs"
proof -
  obtain q st where c: "c = (q, st)" by (cases c)
  obtain ns where ns: "chain st ns" "head q = hd ns" "tail q = last ns" "v # vs = values_of st (tl ns)"
    using r by (auto simp: queue_rep_def c)
  then obtain a b r where abr: "ns = a # b # r" by (cases ns rule: remdups_adj.cases) (auto simp: values_of_def)
  have d: "lf_dequeue c = ret (Some v, q\<lparr>head := b\<rparr>, st)"
    using dequeue_chain [of st a b r q] ns abr by (simp add: c values_of_def)
  have "queue_rep (q\<lparr>head := b\<rparr>, st) vs" unfolding queue_rep_def
    using chain_tl ns abr by (intro exI [of _ "b # r"]) (auto simp: values_of_def)
  then show ?thesis using d by blast
qed

interpretation lfq: fifo queue_rep unused lf_enqueue lf_dequeue
proof
  show "lf_dequeue c = ret (None, c)" if r: "queue_rep c []" for c
  proof -
    obtain q st where c: "c = (q, st)" by (cases c)
    then obtain ns where ns: "chain st ns" "head q = hd ns" "values_of st (tl ns) = []"
      using r by (auto simp: queue_rep_def)
    then have "ns = [hd ns]" by (cases ns) (auto simp: chain_def values_of_def)
    then show ?thesis using dequeue_empty [OF ns(1)] ns(2) c by blast
  qed
qed (use enqueue_rep dequeue_rep in blast)+

section \<open>Properties\<close>

text \<open>
  When head and tail refer to the same dummy node, the queue is first in first out: any values
  enqueued (in nodes from \<open>malloc\<close>) are dequeued in the same order, every loop ends, and the queue is
  empty again.
\<close>

theorem lf_queue_fifo:
  assumes "st d = Some \<lparr>nd_value = w, nd_next = NULL\<rparr>" and "d \<noteq> NULL"
    and "distinct (map fst xs)" and "\<forall>x \<in> fst ` set xs. x \<noteq> NULL \<and> st x = None"
  shows "\<exists>c c'. enq_all lf_enqueue xs (\<lparr>head = d, tail = d\<rparr>, st) = ret c
           \<and> deq_times lf_dequeue (length xs) c = ret (map (Some o snd) xs, c') \<and> lf_dequeue c' = ret (None, c')"
proof -
  have "queue_rep (\<lparr>head = d, tail = d\<rparr>, st) []"
    unfolding queue_rep_def using assms(1,2) by (intro exI [of _ "[d]"]) (simp add: chain_def values_of_def)
  from lfq.fifo_order [OF this, of xs] assms(3,4) show ?thesis
    using lfq.deq_empty by (fastforce simp: unused_def)
qed

theorem lf_queue_fifo_witness:
  "\<exists>c c'. enq_all lf_enqueue [(0x20, 5), (0x30, 6)] (\<lparr>head = 0x10, tail = 0x10\<rparr>, [0x10 \<mapsto> \<lparr>nd_value = 0, nd_next = NULL\<rparr>]) = ret c
     \<and> deq_times lf_dequeue 2 c = ret ([Some 5, Some 6], c')"
proof -
  let ?xs = "[(0x20, 5), (0x30, 6)] :: (u64 \<times> u32) list" and ?st = "[0x10 \<mapsto> \<lparr>nd_value = 0, nd_next = NULL\<rparr>] :: node_store"
  have h: "?st 0x10 = Some \<lparr>nd_value = 0, nd_next = NULL\<rparr>" "(0x10 :: u64) \<noteq> NULL" "distinct (map fst ?xs)"
    "\<forall>x \<in> fst ` set ?xs. x \<noteq> NULL \<and> ?st x = None" by simp_all
  have "length ?xs = 2" "map (Some o snd) ?xs = [Some 5, Some 6]" by simp_all
  then show ?thesis using lf_queue_fifo [OF h] by metis
qed

text \<open>
  The queue that \<open>lf_queue_init\<close> sets up loses everything: its head and tail are different nodes, and
  after any number of enqueues \<open>lf_dequeue\<close> still reports an empty queue.
\<close>

theorem lf_queue_init_loses_values:
  assumes "a \<noteq> b" and "b \<noteq> NULL" and "distinct (map fst xs)" and "\<forall>x \<in> fst ` set xs. x \<noteq> NULL \<and> x \<noteq> a \<and> x \<noteq> b"
  shows "\<exists>c. enq_all lf_enqueue xs (lf_queue_init a b v w st) = ret c \<and> lf_dequeue c = ret (None, c)"
proof -
  have "\<exists>c. enq_all lf_enqueue xs (q, st) = ret c \<and> lf_dequeue c = ret (None, c)"
    if "chain st ns" "tail q = last ns" "a \<notin> set ns" "\<exists>n. st a = Some n \<and> nd_next n = NULL" "head q = a"
      "distinct (map fst xs)" "\<forall>x \<in> fst ` set xs. x \<noteq> NULL \<and> x \<noteq> a \<and> x \<notin> set ns" for q st ns xs
    using that
  proof (induction xs arbitrary: q st ns)
    case Nil
    then show ?case by (auto simp: lf_dequeue.simps load_node_def)
  next
    case (Cons y xs)
    obtain x u where y: "y = (x, u)" by (cases y)
    have x: "x \<notin> set ns" "x \<noteq> NULL" "x \<noteq> a" using Cons.prems(7) y by auto
    from enqueue_chain [OF Cons.prems(1,2) x(1,2), of u] obtain n where
      e: "lf_enqueue x u (q, st) = ret (q\<lparr>tail := x\<rparr>, st(last ns \<mapsto> n\<lparr>nd_next := x\<rparr>, x \<mapsto> \<lparr>nd_value = u, nd_next = NULL\<rparr>))"
      and ch: "chain (st(last ns \<mapsto> n\<lparr>nd_next := x\<rparr>, x \<mapsto> \<lparr>nd_value = u, nd_next = NULL\<rparr>)) (ns @ [x])" by blast
    have "ns \<noteq> []" using Cons.prems(1) by (auto simp: chain_def)
    then have "a \<noteq> last ns" using Cons.prems(3) by auto
    then have "\<exists>c. enq_all lf_enqueue xs (q\<lparr>tail := x\<rparr>, st(last ns \<mapsto> n\<lparr>nd_next := x\<rparr>, x \<mapsto> \<lparr>nd_value = u, nd_next = NULL\<rparr>)) = ret c
        \<and> lf_dequeue c = ret (None, c)"
      using Cons.prems x y by (intro Cons.IH [OF ch]) auto
    then show ?case by (simp add: y e)
  qed
  moreover have "chain (st(a \<mapsto> \<lparr>nd_value = v, nd_next = NULL\<rparr>, b \<mapsto> \<lparr>nd_value = w, nd_next = NULL\<rparr>)) [b]"
    using assms(2) by (simp add: chain_def)
  ultimately show ?thesis using assms unfolding lf_queue_init_def by force
qed

theorem lf_queue_init_loses_values_witness:
  "\<exists>c. enq_all lf_enqueue [(0x30, 7)] (lf_queue_init 0x10 0x20 0 0 Map.empty) = ret c \<and> lf_dequeue c = ret (None, c)"
  by (rule lf_queue_init_loses_values) simp_all

end
