(* ===== verification/LfConc.thy ===== *)
theory LfConc
  imports LfQueue
begin

text \<open>
  The operations of the lock-free queue of \<open>src/SyncProject/locking.c\<close> as steps that any number of threads
  interleave: every load, store and compare-and-swap on shared memory is one step.  Nodes are never
  freed, as in the code, where \<open>lf_queue_deinit\<close> is empty.
\<close>

section \<open>Program counters\<close>

text \<open>
  The points of \<open>lf_enqueue\<close>, with its node \<open>q\<close> and the node \<open>p\<close> it tries to append to, and of \<open>lf_dequeue\<close>.  A
  constructor stands before the access that it names:
  \<^item> \<open>ELoad\<close>: \<open>p = queue->tail\<close>; \<open>ECas\<close>: the compare-and-swap of \<open>p->next\<close>; \<open>ETest\<close>: the load for \<open>succ\<close>; \<open>EHelp\<close> and
    \<open>EHelpCas\<close>: the load of \<open>p->next\<close> and the compare-and-swap of the tail; \<open>ESwing\<close>: the last line;
  \<^item> \<open>DLoad\<close>: \<open>p = queue->head\<close>; \<open>DTest\<close>: the test of \<open>p->next\<close>; \<open>DNext\<close> and \<open>DCas\<close>: the load of \<open>p->next\<close> and the
    compare-and-swap of the head; \<open>DOld\<close> and \<open>DSucc\<close>: the loads of \<open>oldhead->next\<close> and \<open>p->next\<close> that are
    compared; \<open>DVal\<close> and \<open>DRead\<close>: the loads of \<open>p->next\<close> and of its value.
\<close>

datatype lf_pc =
    Idle
  | ELoad u64
  | ECas u64 u64
  | ETest u64 u64
  | EHelp u64 u64
  | EHelpCas u64 u64 u64
  | ESwing u64 u64
  | DLoad
  | DTest u64
  | DNext u64
  | DCas u64 u64
  | DOld u64 u64
  | DSucc u64 u64
  | DVal u64 bool
  | DRead u64 bool

text \<open>
  The shared state and the program counters, and what is observed: the values in the order in which
  their nodes were linked, the threads in the order in which they moved the head, and the values
  that each thread has got from \<open>lf_dequeue\<close>.
\<close>

record lf_sys =
  lq :: lf_queue
  lst :: node_store
  lpc :: "nat \<Rightarrow> lf_pc"
  enq_log :: "u32 list"
  deq_log :: "nat list"
  returned :: "nat \<Rightarrow> u32 list"

section \<open>Steps\<close>

definition lgoto :: "nat \<Rightarrow> lf_pc \<Rightarrow> lf_sys \<Rightarrow> lf_sys" where
  "lgoto i pc s = s\<lparr>lpc := (lpc s)(i := pc)\<rparr>"

definition enq_step :: "nat \<Rightarrow> lf_pc \<Rightarrow> lf_sys \<Rightarrow> lf_sys res" where
  "enq_step i pc s =
     (case pc of
        ELoad q \<Rightarrow> Inr (lgoto i (ECas q (tail (lq s))) s)
      | ECas q p \<Rightarrow>
          rbind (load_node (lst s) p) (\<lambda>n.
          rbind (cas_next (lst s) p NULL q) (\<lambda>st.
          rbind (load_node (lst s) q) (\<lambda>m.
          Inr (lgoto i (ETest q p)
            (s\<lparr>lst := st, enq_log := enq_log s @ (if nd_next n = NULL then [nd_value m] else [])\<rparr>)))))
      | ETest q p \<Rightarrow>
          rbind (load_node (lst s) p) (\<lambda>n. Inr (lgoto i (if q = nd_next n then ESwing q p else EHelp q p) s))
      | EHelp q p \<Rightarrow> rbind (load_node (lst s) p) (\<lambda>n. Inr (lgoto i (EHelpCas q p (nd_next n)) s))
      | EHelpCas q p x \<Rightarrow> Inr (lgoto i (ELoad q) (s\<lparr>lq := cas_tail (lq s) p x\<rparr>))
      | ESwing q p \<Rightarrow> Inr (lgoto i Idle (s\<lparr>lq := cas_tail (lq s) p q\<rparr>))
      | _ \<Rightarrow> Inr s)"

definition deq_step :: "nat \<Rightarrow> lf_pc \<Rightarrow> lf_sys \<Rightarrow> lf_sys res" where
  "deq_step i pc s =
     (case pc of
        DLoad \<Rightarrow> Inr (lgoto i (DTest (head (lq s))) s)
      | DTest p \<Rightarrow> rbind (load_node (lst s) p) (\<lambda>n. Inr (lgoto i (if nd_next n = NULL then Idle else DNext p) s))
      | DNext p \<Rightarrow> rbind (load_node (lst s) p) (\<lambda>n. Inr (lgoto i (DCas p (nd_next n)) s))
      | DCas p x \<Rightarrow>
          let (oldhead, h) = compare_and_swap_ptr (head (lq s)) p x
          in Inr (lgoto i (DOld p oldhead)
               (s\<lparr>lq := (lq s)\<lparr>head := h\<rparr>, deq_log := deq_log s @ (if oldhead = p then [i] else [])\<rparr>))
      | DOld p oldhead \<Rightarrow> rbind (load_node (lst s) oldhead) (\<lambda>n. Inr (lgoto i (DSucc p (nd_next n)) s))
      | DSucc p x \<Rightarrow> rbind (load_node (lst s) p) (\<lambda>n. Inr (lgoto i (DVal p (x = nd_next n)) s))
      | DVal p succ \<Rightarrow> rbind (load_node (lst s) p) (\<lambda>n. Inr (lgoto i (DRead (nd_next n) succ) s))
      | DRead x succ \<Rightarrow>
          rbind (load_node (lst s) x) (\<lambda>n.
          Inr (if succ then lgoto i Idle (s\<lparr>returned := (returned s)(i := returned s i @ [nd_value n])\<rparr>)
               else lgoto i DLoad s))
      | _ \<Rightarrow> Inr s)"

definition lf_exec :: "nat \<Rightarrow> lf_sys \<Rightarrow> lf_sys res" where
  "lf_exec i s = (case lpc s i of
       ELoad _ \<Rightarrow> enq_step i (lpc s i) s | ECas _ _ \<Rightarrow> enq_step i (lpc s i) s | ETest _ _ \<Rightarrow> enq_step i (lpc s i) s
     | EHelp _ _ \<Rightarrow> enq_step i (lpc s i) s | EHelpCas _ _ _ \<Rightarrow> enq_step i (lpc s i) s | ESwing _ _ \<Rightarrow> enq_step i (lpc s i) s
     | _ \<Rightarrow> deq_step i (lpc s i) s)"

text \<open>
  A thread that is idle calls \<open>lf_enqueue\<close>, which allocates a node that is not in use and fills it in, or
  \<open>lf_dequeue\<close>; any other thread takes its next step.
\<close>

inductive lf_step :: "lf_sys \<Rightarrow> lf_sys \<Rightarrow> bool" where
  enqueue: "lpc s i = Idle \<Longrightarrow> lst s q = None \<Longrightarrow> q \<noteq> NULL \<Longrightarrow>
    lf_step s (lgoto i (ELoad q) (s\<lparr>lst := (lst s)(q \<mapsto> \<lparr>nd_value = val, nd_next = NULL\<rparr>)\<rparr>))"
| dequeue: "lpc s i = Idle \<Longrightarrow> lf_step s (lgoto i DLoad s)"
| exec: "lf_exec i s = Inr s' \<Longrightarrow> lf_step s s'"

text \<open>The start: head and tail refer to one node \<open>d\<close>, and all threads are idle.\<close>

definition lf_start :: "u64 \<Rightarrow> u32 \<Rightarrow> lf_sys" where
  "lf_start d v = \<lparr>lq = \<lparr>head = d, tail = d\<rparr>, lst = [d \<mapsto> \<lparr>nd_value = v, nd_next = NULL\<rparr>], lpc = (\<lambda>_. Idle),
     enq_log = [], deq_log = [], returned = (\<lambda>_. [])\<rparr>"

end
