(* ===== verification/LfConcProps.thy ===== *)
theory LfConcProps
  imports LfConc
begin

text \<open>
  The lock-free queue with many producers and many consumers.  The linked nodes form a chain that only
  grows at its end; \<open>lf_inv\<close> relates each program counter to it.  The queue is linearisable: the \<open>k\<close>-th
  thread that moves the head gets the \<open>k\<close>-th value that was linked, and the answer that the queue is
  empty is given only when it is.
\<close>

section \<open>The chain\<close>

definition linked :: "node_store \<Rightarrow> u64 list \<Rightarrow> bool" where
  "linked st ns = (ns \<noteq> [] \<and> distinct ns \<and> NULL \<notin> set ns
     \<and> (\<forall>k < length ns. \<exists>n. st (ns ! k) = Some n \<and> nd_next n = (if Suc k < length ns then ns ! Suc k else NULL)))"

definition nxt :: "node_store \<Rightarrow> u64 \<Rightarrow> u64" where
  "nxt st p = nd_next (the (st p))"

definition val_at :: "node_store \<Rightarrow> u64 \<Rightarrow> u32" where
  "val_at st p = nd_value (the (st p))"

lemma linked_load: "linked st ns \<Longrightarrow> p \<in> set ns \<Longrightarrow> \<exists>n. load_node st p = Inr n \<and> st p = Some n \<and> nd_next n = nxt st p \<and> nd_value n = val_at st p"
  unfolding linked_def in_set_conv_nth load_node_def nxt_def val_at_def by force

lemma linked_next:
  assumes "linked st ns" and "k < length ns"
  shows "nxt st (ns ! k) = (if Suc k < length ns then ns ! Suc k else NULL)"
  using assms unfolding linked_def nxt_def by force

lemma linked_next_in:
  assumes "linked st ns" and "p \<in> set ns" and "nxt st p \<noteq> NULL"
  shows "nxt st p \<in> set ns"
proof -
  obtain k where k: "k < length ns" "p = ns ! k" using assms(2) by (auto simp: in_set_conv_nth)
  then have "Suc k < length ns" "nxt st p = ns ! Suc k" using linked_next [OF assms(1), of k] assms(3) by (auto split: if_splits)
  then show ?thesis by simp
qed

lemma linked_next_inj:
  assumes l: "linked st ns" and p: "p \<in> set ns" "q \<in> set ns" and e: "nxt st p = nxt st q" "nxt st p \<noteq> NULL"
  shows "p = q"
proof -
  obtain j k where jk: "j < length ns" "p = ns ! j" "k < length ns" "q = ns ! k" using p by (auto simp: in_set_conv_nth)
  have s: "Suc j < length ns" "Suc k < length ns" "ns ! Suc j = ns ! Suc k"
    using linked_next [OF l jk(1)] linked_next [OF l jk(3)] e jk(2,4) by (auto split: if_splits)
  have "distinct ns" using l by (simp add: linked_def)
  then have "Suc j = Suc k" using s by (simp add: nth_eq_iff_index_eq)
  then show ?thesis using jk by simp
qed

lemma linked_last:
  assumes "linked st ns"
  shows "last ns \<in> set ns" and "p \<in> set ns \<Longrightarrow> nxt st p = NULL \<longleftrightarrow> p = last ns"
proof -
  have ns: "ns \<noteq> []" "distinct ns" "NULL \<notin> set ns" using assms by (auto simp: linked_def)
  then show "last ns \<in> set ns" by simp
  assume "p \<in> set ns"
  then obtain k where k: "k < length ns" "p = ns ! k" by (auto simp: in_set_conv_nth)
  have "p = last ns \<longleftrightarrow> k = length ns - 1" using ns k by (simp add: last_conv_nth nth_eq_iff_index_eq)
  moreover have "ns ! Suc k \<noteq> NULL" if "Suc k < length ns" using ns(3) nth_mem [OF that] by metis
  ultimately show "nxt st p = NULL \<longleftrightarrow> p = last ns" using linked_next [OF assms k(1)] k by auto
qed

text \<open>Growth: the chain may get longer at its end; what is linked stays linked, and no value changes.\<close>

definition grown :: "node_store \<Rightarrow> u64 list \<Rightarrow> node_store \<Rightarrow> u64 list \<Rightarrow> bool" where
  "grown st ns st' ns' = ((\<exists>xs. ns' = ns @ xs) \<and> (\<forall>p \<in> set ns. nxt st p \<noteq> NULL \<longrightarrow> nxt st' p = nxt st p)
     \<and> (\<forall>p \<in> set ns. val_at st' p = val_at st p))"

lemma grown_refl [simp]: "grown st ns st ns"
  by (simp add: grown_def)

text \<open>A new node that is in no list.\<close>

lemma linked_alloc:
  assumes "linked st ns" and "st q = None"
  shows "linked (st(q \<mapsto> n)) ns" and "grown st ns (st(q \<mapsto> n)) ns"
proof -
  have q: "q \<notin> set ns"
  proof
    assume "q \<in> set ns"
    then obtain n where "st q = Some n" using linked_load [OF assms(1)] by blast
    then show False using assms(2) by simp
  qed
  then have ne: "ns ! k \<noteq> q" if "k < length ns" for k using that nth_mem by blast
  show "linked (st(q \<mapsto> n)) ns" using assms(1) ne by (auto simp: linked_def)
  show "grown st ns (st(q \<mapsto> n)) ns" using q by (auto simp: grown_def nxt_def val_at_def)
qed

text \<open>The compare-and-swap that links a node behind the last one.\<close>

lemma linked_append:
  assumes l: "linked st ns" and p: "p = last ns" "st p = Some n" and q: "q \<notin> set ns" "q \<noteq> NULL" "st q = Some m" "nd_next m = NULL"
  defines "st' \<equiv> st(p \<mapsto> n\<lparr>nd_next := q\<rparr>)"
  shows "linked st' (ns @ [q])" and "grown st ns st' (ns @ [q])" and "val_at st' q = nd_value m" and "nxt st' p = q"
proof -
  have ns: "ns \<noteq> []" "distinct ns" "NULL \<notin> set ns" using l by (auto simp: linked_def)
  have pin: "p \<in> set ns" using p ns by simp
  have pk: "ns ! k = p \<longleftrightarrow> Suc k = length ns" if "k < length ns" for k
    using ns that p(1) by (auto simp: last_conv_nth nth_eq_iff_index_eq)
  have "\<exists>x. st' ((ns @ [q]) ! k) = Some x \<and> nd_next x = (if Suc k < length (ns @ [q]) then (ns @ [q]) ! Suc k else NULL)"
    if k: "k < length (ns @ [q])" for k
  proof (cases "k = length ns")
    case True
    then show ?thesis using q pin by (auto simp: st'_def)
  next
    case False
    then have k': "k < length ns" using k by simp
    obtain x where x: "st (ns ! k) = Some x" "nd_next x = (if Suc k < length ns then ns ! Suc k else NULL)"
      using l k' by (auto simp: linked_def)
    show ?thesis
    proof (cases "Suc k = length ns")
      case True
      then show ?thesis using pk [OF k'] p(2) by (simp add: st'_def nth_append)
    next
      case False
      then have "ns ! k \<noteq> p" "Suc k < length ns" using pk [OF k'] k' by auto
      then show ?thesis using x k' by (simp add: st'_def nth_append)
    qed
  qed
  then show "linked st' (ns @ [q])" using ns q by (auto simp: linked_def)
  have "nxt st p = NULL" using linked_last(2) [OF l pin] p(1) by simp
  then show "grown st ns st' (ns @ [q])" using p(2) by (auto simp: grown_def st'_def nxt_def val_at_def)
  show "val_at st' q = nd_value m" "nxt st' p = q" using q pin by (auto simp: st'_def val_at_def nxt_def)
qed

section \<open>The invariant\<close>

text \<open>The node that a call of \<open>lf_enqueue\<close> has allocated.\<close>

fun own_node :: "lf_pc \<Rightarrow> u64 option" where
  "own_node (ELoad q) = Some q"
| "own_node (ECas q _) = Some q"
| "own_node (ETest q _) = Some q"
| "own_node (EHelp q _) = Some q"
| "own_node (EHelpCas q _ _) = Some q"
| "own_node (ESwing q _) = Some q"
| "own_node _ = None"

text \<open>The node whose value a call of \<open>lf_dequeue\<close> is about to return: it has moved the head to it.\<close>

fun pending :: "node_store \<Rightarrow> lf_pc \<Rightarrow> u64 list" where
  "pending st (DOld p old) = (if old = p then [nxt st p] else [])"
| "pending st (DSucc p x) = (if x = nxt st p then [x] else [])"
| "pending st (DVal p succ) = (if succ then [nxt st p] else [])"
| "pending st (DRead x succ) = (if succ then [x] else [])"
| "pending st _ = []"

text \<open>What a program counter says of the chain \<open>ns\<close>, of which the head has passed \<open>h\<close> nodes.\<close>

fun pc_ok :: "node_store \<Rightarrow> u64 list \<Rightarrow> nat \<Rightarrow> lf_pc \<Rightarrow> bool" where
  "pc_ok st ns h Idle = True"
| "pc_ok st ns h (ELoad q) = (q \<notin> set ns)"
| "pc_ok st ns h (ECas q p) = (q \<notin> set ns \<and> p \<in> set ns)"
| "pc_ok st ns h (ETest q p) = (p \<in> set ns \<and> nxt st p \<noteq> NULL \<and> (q = nxt st p \<or> q \<notin> set ns))"
| "pc_ok st ns h (EHelp q p) = (q \<notin> set ns \<and> p \<in> set ns \<and> nxt st p \<noteq> NULL)"
| "pc_ok st ns h (EHelpCas q p x) = (q \<notin> set ns \<and> p \<in> set ns \<and> nxt st p \<noteq> NULL \<and> x = nxt st p \<and> x \<in> set ns)"
| "pc_ok st ns h (ESwing q p) = (p \<in> set ns \<and> nxt st p \<noteq> NULL \<and> q = nxt st p \<and> q \<in> set ns)"
| "pc_ok st ns h DLoad = True"
| "pc_ok st ns h (DTest p) = (p \<in> set (take (Suc h) ns))"
| "pc_ok st ns h (DNext p) = (p \<in> set ns \<and> nxt st p \<noteq> NULL)"
| "pc_ok st ns h (DCas p x) = (p \<in> set ns \<and> nxt st p \<noteq> NULL \<and> x = nxt st p)"
| "pc_ok st ns h (DOld p old) = (p \<in> set ns \<and> nxt st p \<noteq> NULL \<and> old \<in> set ns)"
| "pc_ok st ns h (DSucc p x) = (p \<in> set ns \<and> nxt st p \<noteq> NULL)"
| "pc_ok st ns h (DVal p succ) = (p \<in> set ns \<and> nxt st p \<noteq> NULL)"
| "pc_ok st ns h (DRead x succ) = (x \<in> set ns)"

text \<open>The values that thread \<open>i\<close> has a right to.\<close>

definition granted :: "u32 list \<Rightarrow> nat list \<Rightarrow> nat \<Rightarrow> u32 list" where
  "granted el dl i = map (\<lambda>k. el ! k) (filter (\<lambda>k. dl ! k = i) [0..<length dl])"

definition shared_ok :: "lf_sys \<Rightarrow> u64 list \<Rightarrow> bool" where
  "shared_ok s ns =
     (linked (lst s) ns \<and> length (deq_log s) < length ns \<and> head (lq s) = ns ! length (deq_log s) \<and> tail (lq s) \<in> set ns
    \<and> enq_log s = map (val_at (lst s)) (tl ns))"

definition thread_ok :: "lf_sys \<Rightarrow> u64 list \<Rightarrow> nat \<Rightarrow> bool" where
  "thread_ok s ns i =
     (pc_ok (lst s) ns (length (deq_log s)) (lpc s i)
    \<and> (\<forall>q. own_node (lpc s i) = Some q \<longrightarrow> q \<noteq> NULL \<and> (\<exists>n. lst s q = Some n \<and> (q \<notin> set ns \<longrightarrow> nd_next n = NULL)))
    \<and> returned s i @ map (val_at (lst s)) (pending (lst s) (lpc s i)) = granted (enq_log s) (deq_log s) i)"

definition lf_inv :: "lf_sys \<Rightarrow> u64 list \<Rightarrow> bool" where
  "lf_inv s ns = (shared_ok s ns \<and> (\<forall>i. thread_ok s ns i)
     \<and> (\<forall>i j q. own_node (lpc s i) = Some q \<and> own_node (lpc s j) = Some q \<longrightarrow> i = j))"

section \<open>What a step leaves alone\<close>

lemma pc_ok_grown:
  assumes g: "grown st ns st' ns'" and ok: "pc_ok st ns h pc" and h: "h \<le> h'"
    and own: "\<And>q. own_node pc = Some q \<Longrightarrow> q \<in> set ns' \<Longrightarrow> q \<in> set ns"
  shows "pc_ok st' ns' h' pc"
proof -
  obtain xs where xs: "ns' = ns @ xs" using g by (auto simp: grown_def)
  have sub: "set ns \<subseteq> set ns'" and n: "\<And>p. p \<in> set ns \<Longrightarrow> nxt st p \<noteq> NULL \<Longrightarrow> nxt st' p = nxt st p"
    using g by (auto simp: grown_def)
  have t: "set (take (Suc h) ns) \<subseteq> set (take (Suc h') ns')"
  proof -
    have "take (Suc h) ns = take (Suc h) (take (Suc h') (take (length ns) ns'))" using h by (simp add: xs min_def)
    then show ?thesis by (metis set_take_subset take_take min.commute order_trans set_take_subset_set_take le_refl)
  qed
  show ?thesis using ok own sub n t by (cases pc) auto
qed

lemma pending_grown:
  assumes "grown st ns st' ns'" and "linked st ns" and "pc_ok st ns h pc"
  shows "map (val_at st') (pending st' pc) = map (val_at st) (pending st pc)"
  using assms linked_next_in [OF assms(2)] unfolding grown_def by (cases pc) auto

lemma granted_more_enq: "length dl \<le> length el \<Longrightarrow> granted (el @ xs) dl i = granted el dl i"
  unfolding granted_def by (auto simp: nth_append)

lemma granted_snoc: "granted el (dl @ [j]) i = granted el dl i @ (if i = j then [el ! length dl] else [])"
proof -
  have "filter (\<lambda>k. (dl @ [j]) ! k = i) [0..<length dl] = filter (\<lambda>k. dl ! k = i) [0..<length dl]"
    by (rule filter_cong) (auto simp: nth_append)
  then show ?thesis by (simp add: granted_def)
qed

lemma logs_le: "shared_ok s ns \<Longrightarrow> length (deq_log s) \<le> length (enq_log s)"
  by (auto simp: shared_ok_def)

text \<open>
  A step of thread \<open>i\<close> that keeps the shared state in order and its own part of the invariant keeps the
  parts of the other threads: it links no node but its own, and moves the head for no other thread.
\<close>

lemma lf_inv_step:
  assumes inv: "lf_inv s ns" and same: "\<And>j. j \<noteq> i \<Longrightarrow> lpc s' j = lpc s j \<and> returned s' j = returned s j"
    and sh: "shared_ok s' ns'" and g: "grown (lst s) ns (lst s') ns'"
    and dl: "deq_log s' = deq_log s \<or> deq_log s' = deq_log s @ [i]" and el: "\<exists>xs. enq_log s' = enq_log s @ xs"
    and new: "\<And>q. q \<in> set ns' \<Longrightarrow> q \<notin> set ns \<Longrightarrow> own_node (lpc s i) = Some q"
    and st: "\<And>q n. lst s q = Some n \<Longrightarrow> q \<notin> set ns \<Longrightarrow> lst s' q = Some n"
    and me: "thread_ok s' ns' i"
    and own: "own_node (lpc s' i) = own_node (lpc s i) \<or> own_node (lpc s' i) = None
      \<or> (\<exists>q. own_node (lpc s' i) = Some q \<and> lst s q = None)"
  shows "lf_inv s' ns'"
proof -
  have old: "\<And>j. thread_ok s ns j" "shared_ok s ns"
    and uniq: "\<And>j k q. own_node (lpc s j) = Some q \<Longrightarrow> own_node (lpc s k) = Some q \<Longrightarrow> j = k"
    using inv unfolding lf_inv_def by blast+
  have l: "linked (lst s) ns" "linked (lst s') ns'" using old(2) sh by (simp_all add: shared_ok_def)
  have "thread_ok s' ns' j" if j: "j \<noteq> i" for j
  proof -
    have pc: "lpc s' j = lpc s j" "returned s' j = returned s j" using same [OF j] by simp_all
    have ok: "pc_ok (lst s) ns (length (deq_log s)) (lpc s j)" using old(1) [of j] by (simp add: thread_ok_def)
    have "pc_ok (lst s') ns' (length (deq_log s')) (lpc s j)"
      by (rule pc_ok_grown [OF g ok]) (use dl new uniq j in auto)
    moreover have "q \<noteq> NULL \<and> (\<exists>n. lst s' q = Some n \<and> (q \<notin> set ns' \<longrightarrow> nd_next n = NULL))" if q: "own_node (lpc s j) = Some q" for q
    proof -
      obtain n where n: "q \<noteq> NULL" "lst s q = Some n" "q \<notin> set ns \<longrightarrow> nd_next n = NULL"
        using old(1) [of j] q by (auto simp: thread_ok_def)
      show ?thesis
      proof (cases "q \<in> set ns'")
        case True
        then show ?thesis using linked_load [OF l(2)] n(1) by blast
      next
        case False
        then have "q \<notin> set ns" using g by (auto simp: grown_def)
        then show ?thesis using n st by auto
      qed
    qed
    moreover have "granted (enq_log s') (deq_log s') j = granted (enq_log s) (deq_log s) j"
      using dl el j granted_more_enq [OF logs_le [OF old(2)]] by (auto simp: granted_snoc)
    ultimately show ?thesis
      using old(1) [of j] pending_grown [OF g l(1) ok] by (simp add: thread_ok_def pc)
  qed
  then have "thread_ok s' ns' j" for j using me by (cases "j = i") auto
  moreover have "j = k" if q: "own_node (lpc s' j) = Some q" "own_node (lpc s' k) = Some q" for j k q
  proof -
    have mine: "m = i" if "own_node (lpc s m) = Some q" "own_node (lpc s' i) = Some q" for m
    proof -
      have "lst s q \<noteq> None" using old(1) [of m] that(1) by (auto simp: thread_ok_def)
      then have "own_node (lpc s i) = Some q" using own that(2) by auto
      then show ?thesis using uniq that(1) by blast
    qed
    consider "j = k" | "j = i" "k \<noteq> i" | "j \<noteq> i" "k = i" | "j \<noteq> i" "k \<noteq> i" by blast
    then show ?thesis
    proof cases
      case 2
      then show ?thesis using mine [of k] q same [of k] by simp
    next
      case 3
      then show ?thesis using mine [of j] q same [of j] by simp
    next
      case 4
      then show ?thesis using q same uniq by metis
    qed simp
  qed
  ultimately show ?thesis using sh by (auto simp: lf_inv_def)
qed

section \<open>The steps keep the invariant\<close>

lemma lgoto_sel [simp]:
  "lq (lgoto i pc s) = lq s" "lst (lgoto i pc s) = lst s" "lpc (lgoto i pc s) = (lpc s)(i := pc)"
  "enq_log (lgoto i pc s) = enq_log s" "deq_log (lgoto i pc s) = deq_log s" "returned (lgoto i pc s) = returned s"
  by (simp_all add: lgoto_def)

lemma inv_parts:
  assumes "lf_inv s ns"
  shows "linked (lst s) ns" and "pc_ok (lst s) ns (length (deq_log s)) (lpc s i)" and "shared_ok s ns" and "thread_ok s ns i"
  using assms by (auto simp: lf_inv_def shared_ok_def thread_ok_def)

text \<open>A step that changes nothing but the program counter.\<close>

lemma lgoto_inv:
  assumes inv: "lf_inv s ns" and pc: "pc_ok (lst s) ns (length (deq_log s)) pc"
    and own: "own_node pc = own_node (lpc s i) \<or> own_node pc = None"
    and pend: "pending (lst s) pc = pending (lst s) (lpc s i)"
  shows "lf_inv (lgoto i pc s) ns"
proof (rule lf_inv_step [OF inv, of i])
  show "shared_ok (lgoto i pc s) ns" using inv_parts(3) [OF inv] by (simp add: shared_ok_def)
  show "thread_ok (lgoto i pc s) ns i"
    using inv_parts(4) [OF inv, of i] pc own by (auto simp: thread_ok_def pend)
qed (use own in auto)

lemma cas_tail_inv: "lf_inv s ns \<Longrightarrow> x \<in> set ns \<Longrightarrow> lf_inv (s\<lparr>lq := cas_tail (lq s) p x\<rparr>) ns"
  by (auto simp: lf_inv_def shared_ok_def thread_ok_def cas_tail_def compare_and_swap_ptr_def)

lemma alloc_inv:
  assumes inv: "lf_inv s ns" and i: "lpc s i = Idle" and q: "lst s q = None" "q \<noteq> NULL"
  shows "lf_inv (lgoto i (ELoad q) (s\<lparr>lst := (lst s)(q \<mapsto> \<lparr>nd_value = v, nd_next = NULL\<rparr>)\<rparr>)) ns"
proof (rule lf_inv_step [OF inv, of i])
  let ?s = "lgoto i (ELoad q) (s\<lparr>lst := (lst s)(q \<mapsto> \<lparr>nd_value = v, nd_next = NULL\<rparr>)\<rparr>)"
  note l = inv_parts(1) [OF inv] and al = linked_alloc [OF inv_parts(1) [OF inv] q(1), of "\<lparr>nd_value = v, nd_next = NULL\<rparr>"]
  have "q \<notin> set ns" using linked_load [OF l] q(1) by fastforce
  then show "thread_ok ?s ns i" using inv_parts(4) [OF inv, of i] i q(2) by (simp add: thread_ok_def)
  have "set (tl ns) \<subseteq> set ns" by (cases ns) auto
  then have "map (val_at (lst ?s)) (tl ns) = map (val_at (lst s)) (tl ns)" using al(2) by (auto simp: grown_def)
  then show "shared_ok ?s ns" using inv_parts(3) [OF inv] al(1) by (simp add: shared_ok_def)
  show "grown (lst s) ns (lst ?s) ns" using al(2) by simp
qed (use q in auto)

text \<open>The compare-and-swap of \<open>lf_enqueue\<close> on the link.\<close>

lemma ecas_effect:
  assumes inv: "lf_inv s ns" and pc: "lpc s i = ECas q p"
  obtains (link) m t where "p = last ns" and "lst s p = Some m" and "q \<notin> set ns" and "q \<noteq> NULL" and "lst s q = Some t" and "nd_next t = NULL"
      and "enq_step i (ECas q p) s =
        Inr (lgoto i (ETest q p) (s\<lparr>lst := (lst s)(p \<mapsto> m\<lparr>nd_next := q\<rparr>), enq_log := enq_log s @ [nd_value t]\<rparr>))"
    | (fail) "nxt (lst s) p \<noteq> NULL" and "q \<noteq> nxt (lst s) p" and "enq_step i (ECas q p) s = Inr (lgoto i (ETest q p) s)"
proof -
  note l = inv_parts(1) [OF inv]
  have q: "q \<notin> set ns" "p \<in> set ns" using inv_parts(2) [OF inv, of i] pc by simp_all
  obtain t where t: "q \<noteq> NULL" "lst s q = Some t" "nd_next t = NULL"
    using inv_parts(4) [OF inv, of i] pc q(1) by (auto simp: thread_ok_def)
  obtain m where m: "load_node (lst s) p = Inr m" "lst s p = Some m" "nd_next m = nxt (lst s) p" using linked_load [OF l q(2)] by blast
  have lq: "load_node (lst s) q = Inr t" using t by (simp add: load_node_def)
  show ?thesis
  proof (cases "nxt (lst s) p = NULL")
    case True
    have "p = last ns" using True linked_last(2) [OF l q(2)] by simp
    moreover have "enq_step i (ECas q p) s =
        Inr (lgoto i (ETest q p) (s\<lparr>lst := (lst s)(p \<mapsto> m\<lparr>nd_next := q\<rparr>), enq_log := enq_log s @ [nd_value t]\<rparr>))"
      using True m lq by (simp add: enq_step_def cas_next_def compare_and_swap_ptr_def)
    ultimately show ?thesis using link m(2) q(1) t by blast
  next
    case False
    have "(lst s)(p \<mapsto> m\<lparr>nd_next := nd_next m\<rparr>) = lst s" using m(2) by (simp add: fun_upd_idem)
    then have "enq_step i (ECas q p) s = Inr (lgoto i (ETest q p) s)"
      using False m lq by (simp add: enq_step_def cas_next_def compare_and_swap_ptr_def)
    moreover have "q \<noteq> nxt (lst s) p" using linked_next_in [OF l q(2) False] q(1) by blast
    ultimately show ?thesis using fail False by blast
  qed
qed

lemma ecas_inv:
  assumes inv: "lf_inv s ns" and pc: "lpc s i = ECas q p"
  shows "\<exists>s' ns'. enq_step i (ECas q p) s = Inr s' \<and> lf_inv s' ns' \<and> (enq_log s' = enq_log s \<longrightarrow> ns' = ns)"
proof (rule ecas_effect [OF inv pc])
  fix m t
  assume last: "p = last ns" "lst s p = Some m" and q: "q \<notin> set ns" "q \<noteq> NULL" "lst s q = Some t" "nd_next t = NULL"
  note l = inv_parts(1) [OF inv] and ap = linked_append [OF inv_parts(1) [OF inv] last q]
  let ?st = "(lst s)(p \<mapsto> m\<lparr>nd_next := q\<rparr>)"
  let ?s = "lgoto i (ETest q p) (s\<lparr>lst := ?st, enq_log := enq_log s @ [nd_value t]\<rparr>)"
  assume e: "enq_step i (ECas q p) s = Inr ?s"
  have p: "p \<in> set ns" using inv_parts(2) [OF inv, of i] pc by simp
  have "lf_inv ?s (ns @ [q])"
  proof (rule lf_inv_step [OF inv, of i])
    have ns: "ns \<noteq> []" using l by (simp add: linked_def)
    have "set (tl ns) \<subseteq> set ns" by (cases ns) auto
    then have "map (val_at ?st) (tl ns) = map (val_at (lst s)) (tl ns)" using ap(2) by (auto simp: grown_def)
    then show "shared_ok ?s (ns @ [q])" using inv_parts(3) [OF inv] ap(1,3) ns by (auto simp: shared_ok_def nth_append)
    have "lst ?s q = Some t" using p q by auto
    then show "thread_ok ?s (ns @ [q]) i"
      using inv_parts(4) [OF inv, of i] pc q(2) p ap(4) granted_more_enq [OF logs_le [OF inv_parts(3) [OF inv]]]
      by (auto simp: thread_ok_def)
    show "grown (lst s) ns (lst ?s) (ns @ [q])" using ap(2) by simp
  qed (use pc p in auto)
  then show ?thesis using e by (intro exI [of _ ?s] exI [of _ "ns @ [q]"]) simp
next
  assume f: "nxt (lst s) p \<noteq> NULL" "q \<noteq> nxt (lst s) p" "enq_step i (ECas q p) s = Inr (lgoto i (ETest q p) s)"
  have "lf_inv (lgoto i (ETest q p) s) ns"
    by (rule lgoto_inv [OF inv]) (use inv_parts(2) [OF inv, of i] f(1) pc in simp_all)
  then show ?thesis using f(3) by blast
qed

text \<open>The compare-and-swap of \<open>lf_dequeue\<close> on the head.\<close>

lemma dcas_inv:
  assumes inv: "lf_inv s ns" and pc: "lpc s i = DCas p x"
  shows "\<exists>s'. deq_step i (DCas p x) s = Inr s' \<and> lf_inv s' ns"
proof -
  note l = inv_parts(1) [OF inv] and sh = inv_parts(3) [OF inv]
  have p: "p \<in> set ns" "nxt (lst s) p \<noteq> NULL" "x = nxt (lst s) p" using inv_parts(2) [OF inv, of i] pc by simp_all
  let ?h = "length (deq_log s)"
  have h: "head (lq s) = ns ! ?h" "?h < length ns" using sh by (simp_all add: shared_ok_def)
  show ?thesis
  proof (cases "head (lq s) = p")
    case True
    let ?s = "lgoto i (DOld p p) (s\<lparr>lq := (lq s)\<lparr>head := x\<rparr>, deq_log := deq_log s @ [i]\<rparr>)"
    have x: "Suc ?h < length ns" "x = ns ! Suc ?h" using linked_next [OF l h(2)] p h(1) True by (auto split: if_splits)
    have "deq_step i (DCas p x) s = Inr ?s" using True by (simp add: deq_step_def compare_and_swap_ptr_def)
    moreover have "lf_inv ?s ns"
    proof (rule lf_inv_step [OF inv, of i])
      show "shared_ok ?s ns" using sh x by (simp add: shared_ok_def)
      have "val_at (lst s) x = enq_log s ! ?h" using sh x by (simp add: shared_ok_def nth_tl)
      then show "thread_ok ?s ns i"
        using inv_parts(4) [OF inv, of i] pc p by (simp add: thread_ok_def granted_snoc)
    qed (use pc in auto)
    ultimately show ?thesis by blast
  next
    case False
    have "(lq s)\<lparr>head := head (lq s)\<rparr> = lq s" by simp
    then have "deq_step i (DCas p x) s = Inr (lgoto i (DOld p (head (lq s))) s)"
      using False by (simp add: deq_step_def compare_and_swap_ptr_def)
    moreover have "lf_inv (lgoto i (DOld p (head (lq s))) s) ns" by (rule lgoto_inv [OF inv]) (use p h pc False in simp_all)
    ultimately show ?thesis by blast
  qed
qed

lemma dread_inv:
  assumes inv: "lf_inv s ns" and pc: "lpc s i = DRead x succ"
  shows "\<exists>s'. deq_step i (DRead x succ) s = Inr s' \<and> lf_inv s' ns"
proof -
  have "x \<in> set ns" using inv_parts(2) [OF inv, of i] pc by simp
  then obtain n where n: "load_node (lst s) x = Inr n" "nd_value n = val_at (lst s) x" using linked_load [OF inv_parts(1) [OF inv]] by blast
  show ?thesis
  proof (cases succ)
    case True
    let ?s = "lgoto i Idle (s\<lparr>returned := (returned s)(i := returned s i @ [nd_value n])\<rparr>)"
    have "lf_inv ?s ns"
    proof (rule lf_inv_step [OF inv, of i])
      show "shared_ok ?s ns" using inv_parts(3) [OF inv] by (simp add: shared_ok_def)
      show "thread_ok ?s ns i" using inv_parts(4) [OF inv, of i] pc n(2) True by (simp add: thread_ok_def)
    qed auto
    then show ?thesis using True n(1) by (simp add: deq_step_def)
  next
    case False
    have "lf_inv (lgoto i DLoad s) ns" by (rule lgoto_inv [OF inv]) (use pc False in simp_all)
    then show ?thesis using False n(1) by (simp add: deq_step_def)
  qed
qed

lemma enq_step_inv:
  assumes inv: "lf_inv s ns" and pc: "own_node (lpc s i) \<noteq> None"
  shows "\<exists>s' ns'. enq_step i (lpc s i) s = Inr s' \<and> lf_inv s' ns' \<and> (enq_log s' = enq_log s \<longrightarrow> ns' = ns)"
proof -
  note l = inv_parts(1) [OF inv] and ok = inv_parts(2) [OF inv, of i]
  have t: "tail (lq s) \<in> set ns" using inv_parts(3) [OF inv] by (simp add: shared_ok_def)
  show ?thesis
  proof (cases "lpc s i")
    case (ELoad q)
    then show ?thesis using ok t lgoto_inv [OF inv, of "ECas q (tail (lq s))" i] by (auto simp: enq_step_def)
  next
    case (ECas q p)
    then show ?thesis using ecas_inv [OF inv ECas] by simp
  next
    case (ETest q p)
    then have p: "p \<in> set ns" "nxt (lst s) p \<noteq> NULL" "q = nxt (lst s) p \<or> q \<notin> set ns" using ok by simp_all
    then obtain n where n: "load_node (lst s) p = Inr n" "nd_next n = nxt (lst s) p" using linked_load [OF l] by blast
    have "lf_inv (lgoto i (if q = nd_next n then ESwing q p else EHelp q p) s) ns"
      by (rule lgoto_inv [OF inv]) (use ETest p n linked_next_in [OF l] in auto)
    then show ?thesis using ETest n(1) by (auto simp: enq_step_def)
  next
    case (EHelp q p)
    then have p: "q \<notin> set ns" "p \<in> set ns" "nxt (lst s) p \<noteq> NULL" using ok by simp_all
    then obtain n where n: "load_node (lst s) p = Inr n" "nd_next n = nxt (lst s) p" using linked_load [OF l] by blast
    have "lf_inv (lgoto i (EHelpCas q p (nd_next n)) s) ns"
      by (rule lgoto_inv [OF inv]) (use EHelp p n linked_next_in [OF l] in auto)
    then show ?thesis using EHelp n(1) by (auto simp: enq_step_def)
  next
    case (EHelpCas q p x)
    then have x: "q \<notin> set ns" "x \<in> set ns" using ok by auto
    have "lf_inv (lgoto i (ELoad q) (s\<lparr>lq := cas_tail (lq s) p x\<rparr>)) ns"
      by (rule lgoto_inv [OF cas_tail_inv [OF inv x(2)]]) (use EHelpCas x in auto)
    then show ?thesis using EHelpCas by (auto simp: enq_step_def)
  next
    case (ESwing q p)
    then have q: "q \<in> set ns" using ok by auto
    have "lf_inv (lgoto i Idle (s\<lparr>lq := cas_tail (lq s) p q\<rparr>)) ns"
      by (rule lgoto_inv [OF cas_tail_inv [OF inv q]]) (use ESwing in simp_all)
    then show ?thesis using ESwing by (auto simp: enq_step_def)
  qed (use pc in auto)
qed

lemma deq_step_inv:
  assumes inv: "lf_inv s ns" and pc: "own_node (lpc s i) = None"
  shows "\<exists>s'. deq_step i (lpc s i) s = Inr s' \<and> lf_inv s' ns"
proof -
  note l = inv_parts(1) [OF inv] and ok = inv_parts(2) [OF inv, of i]
  have h: "head (lq s) \<in> set (take (Suc (length (deq_log s))) ns)"
    using inv_parts(3) [OF inv] by (auto simp: shared_ok_def take_Suc_conv_app_nth)
  have ld: "\<exists>n. load_node (lst s) p = Inr n \<and> nd_next n = nxt (lst s) p" if "p \<in> set ns" for p
    using linked_load [OF l that] by blast
  show ?thesis
  proof (cases "lpc s i")
    case Idle
    then show ?thesis using inv by (simp add: deq_step_def)
  next
    case DLoad
    then show ?thesis using h lgoto_inv [OF inv, of "DTest (head (lq s))" i] by (auto simp: deq_step_def)
  next
    case (DTest p)
    then have p: "p \<in> set ns" using ok by (auto dest: in_set_takeD)
    then obtain n where n: "load_node (lst s) p = Inr n" "nd_next n = nxt (lst s) p" using ld by blast
    have "lf_inv (lgoto i (if nd_next n = NULL then Idle else DNext p) s) ns"
      by (rule lgoto_inv [OF inv]) (use DTest p n in auto)
    then show ?thesis using DTest n(1) by (auto simp: deq_step_def)
  next
    case (DNext p)
    then have p: "p \<in> set ns" "nxt (lst s) p \<noteq> NULL" using ok by simp_all
    then obtain n where n: "load_node (lst s) p = Inr n" "nd_next n = nxt (lst s) p" using ld by blast
    have "lf_inv (lgoto i (DCas p (nd_next n)) s) ns" by (rule lgoto_inv [OF inv]) (use DNext p n in auto)
    then show ?thesis using DNext n(1) by (auto simp: deq_step_def)
  next
    case (DCas p x)
    then show ?thesis using dcas_inv [OF inv DCas] by simp
  next
    case (DOld p old)
    then have p: "p \<in> set ns" "nxt (lst s) p \<noteq> NULL" "old \<in> set ns" using ok by simp_all
    then obtain n where n: "load_node (lst s) old = Inr n" "nd_next n = nxt (lst s) old" using ld by blast
    have "old = p" if e: "nxt (lst s) old = nxt (lst s) p"
      by (rule linked_next_inj [OF l p(3,1) e]) (use e p(2) in simp)
    then have "old = p \<longleftrightarrow> nxt (lst s) old = nxt (lst s) p" by blast
    then have pd: "pending (lst s) (DSucc p (nd_next n)) = pending (lst s) (lpc s i)" using DOld n(2) by simp
    have "lf_inv (lgoto i (DSucc p (nd_next n)) s) ns" by (rule lgoto_inv [OF inv _ _ pd]) (use p in simp_all)
    then show ?thesis using DOld n(1) by (auto simp: deq_step_def)
  next
    case (DSucc p x)
    then have p: "p \<in> set ns" "nxt (lst s) p \<noteq> NULL" using ok by simp_all
    then obtain n where n: "load_node (lst s) p = Inr n" "nd_next n = nxt (lst s) p" using ld by blast
    have "lf_inv (lgoto i (DVal p (x = nd_next n)) s) ns" by (rule lgoto_inv [OF inv]) (use DSucc p n in auto)
    then show ?thesis using DSucc n(1) by (auto simp: deq_step_def)
  next
    case (DVal p succ)
    then have p: "p \<in> set ns" "nxt (lst s) p \<noteq> NULL" using ok by simp_all
    then obtain n where n: "load_node (lst s) p = Inr n" "nd_next n = nxt (lst s) p" using ld by blast
    have "lf_inv (lgoto i (DRead (nd_next n) succ) s) ns"
      by (rule lgoto_inv [OF inv]) (use DVal p n linked_next_in [OF l] in auto)
    then show ?thesis using DVal n(1) by (auto simp: deq_step_def)
  next
    case (DRead x succ)
    then show ?thesis using dread_inv [OF inv DRead] by simp
  qed (use pc in auto)
qed

lemma lf_exec_cases: "lf_exec i s = (if own_node (lpc s i) \<noteq> None then enq_step i (lpc s i) s else deq_step i (lpc s i) s)"
  by (simp add: lf_exec_def split: lf_pc.split)

lemma lf_exec_inv:
  assumes "lf_inv s ns"
  shows "\<exists>s' ns'. lf_exec i s = Inr s' \<and> lf_inv s' ns' \<and> (enq_log s' = enq_log s \<longrightarrow> ns' = ns)"
  using enq_step_inv [OF assms, of i] deq_step_inv [OF assms, of i] unfolding lf_exec_cases by metis

lemma lf_reach_inv:
  assumes "lf_step\<^sup>*\<^sup>* (lf_start d v) s" and "d \<noteq> NULL"
  shows "\<exists>ns. lf_inv s ns"
  using assms(1)
proof induction
  case base
  have "lf_inv (lf_start d v) [d]"
    using assms(2) by (simp add: lf_inv_def shared_ok_def thread_ok_def linked_def lf_start_def granted_def)
  then show ?case by blast
next
  case (step s s')
  then obtain ns where inv: "lf_inv s ns" by blast
  from step.hyps(2) show ?case
  proof cases
    case (enqueue i q val)
    then show ?thesis using alloc_inv [OF inv] by blast
  next
    case (dequeue i)
    then show ?thesis using lgoto_inv [OF inv, of DLoad i] by auto
  next
    case (exec i)
    then show ?thesis using lf_exec_inv [OF inv, of i] by auto
  qed
qed

section \<open>Properties\<close>







text \<open>
  The queue is reported empty only when it is: whenever a thread finds no node behind the one it has
  read from the head, all values that were linked have been granted.
\<close>

theorem lf_queue_empty_only_if_empty:
  assumes "lf_step\<^sup>*\<^sup>* (lf_start d v) s" and "d \<noteq> NULL" and "lpc s i = DTest p" and "lf_exec i s = Inr s'" and "lpc s' i = Idle"
  shows "length (deq_log s) = length (enq_log s)"
proof -
  obtain ns where inv: "lf_inv s ns" using lf_reach_inv [OF assms(1,2)] by blast
  note l = inv_parts(1) [OF inv] and sh = inv_parts(3) [OF inv]
  have p: "p \<in> set (take (Suc (length (deq_log s))) ns)" using inv_parts(2) [OF inv, of i] assms(3) by simp
  then have pn: "p \<in> set ns" by (rule in_set_takeD)
  then obtain n where n: "load_node (lst s) p = Inr n" "nd_next n = nxt (lst s) p" using linked_load [OF l] by blast
  then have "nxt (lst s) p = NULL" using assms(3-5) by (auto simp: lf_exec_def deq_step_def split: if_splits)
  then have last: "p = last ns" using linked_last(2) [OF l pn] by simp
  obtain k where k: "k < Suc (length (deq_log s))" "k < length ns" "p = ns ! k" using p by (auto simp: in_set_conv_nth)
  have "ns \<noteq> []" "distinct ns" using l by (simp_all add: linked_def)
  then have "k = length ns - 1" using last k by (simp add: last_conv_nth nth_eq_iff_index_eq)
  then show ?thesis using sh k by (auto simp: shared_ok_def)
qed

theorem lf_queue_empty_only_if_empty_witness:
  "\<exists>s. lf_step\<^sup>*\<^sup>* (lf_start 0x10 7) s \<and> lpc s 0 = DTest 0x10 \<and> length (deq_log s) = length (enq_log s)"
proof -
  let ?s = "lgoto 0 (DTest 0x10) (lf_start 0x10 7)" and ?t = "lgoto 0 DLoad (lf_start 0x10 7)"
  have "lf_step (lf_start 0x10 7) ?t" by (rule lf_step.dequeue) (simp add: lf_start_def)
  moreover have "lf_step ?t ?s" by (rule lf_step.exec [of 0]) (simp add: lf_exec_def deq_step_def, simp add: lgoto_def lf_start_def)
  ultimately have r: "lf_step\<^sup>*\<^sup>* (lf_start 0x10 7) ?s" by (meson converse_rtranclp_into_rtranclp r_into_rtranclp)
  have e: "lf_exec 0 ?s = Inr (lgoto 0 Idle ?s)" by (simp add: lf_exec_def deq_step_def load_node_def lf_start_def)
  show ?thesis using lf_queue_empty_only_if_empty [OF r _ _ e] r by auto
qed

end
