(* ===== verification/LfProgress.thy ===== *)
theory LfProgress
  imports LfConcProps "HOL-Library.Sublist"
begin

text \<open>
  Progress of the lock-free queue.  A potential bounds the steps that threads can take without one of
  them linking a node or moving the head: a compare-and-swap fails only when another thread has
  moved the tail or the head in the meantime, and the tail can be moved only as often as it lags
  behind the last node.
\<close>

section \<open>The potential\<close>










section \<open>Every step without an effect on the queue uses up potential\<close>




section \<open>Lock freedom\<close>









end
