(* ===== verification/ThreadTests.thy ===== *)
theory ThreadTests
  imports PetThread
begin

text \<open>
  The programs of \<open>src/Threads/driver.c\<close> and \<open>src/Threads/tests\<close> as clients of the thread library.  What a thread
  function does is a list of its calls and prints; the loops of the sources are written out with
  their bounds.  The threads are numbered from 0 in the order in which \<open>main\<close> creates them, which is
  the order of the variables \<open>test_thread1\<close>, \<open>test_thread2\<close>, \<open>\<dots>\<close> and of the array \<open>test_thread\<close>.
\<close>

section \<open>Running thread functions\<close>

text \<open>
  A line with the number of the thread and of the iteration; a line with \<open>retval\<close>; the library calls;
  the assignment that \<open>pet_thread_join\<close> makes when the thread runs again; and the end, by a call of
  \<open>pet_thread_exit\<close> or by a return, which \<open>__capture_return\<close> turns into that call.
\<close>

datatype item = Print nat nat | PrintRet nat | YieldTo nat | Join nat | JoinAssign | Return u64

datatype event = Line nat nat | Value nat u64

text \<open>\<open>code\<close> and \<open>retval\<close> are what a thread has still to do and its local variable, by the address of the thread.\<close>

record tests =
  sch :: sched
  test_thread :: "nat \<Rightarrow> u64"
  code :: "u64 \<Rightarrow> item list"
  retval :: "u64 \<Rightarrow> u64"
  out :: "event list"

definition thread_exec :: "tests \<Rightarrow> tests res" where
  "thread_exec t =
     (let p = running (sch t) in
      case code t p of
        [] \<Rightarrow> Inr t
      | x # xs \<Rightarrow>
          let u = t\<lparr>code := (code t)(p := xs)\<rparr> in
          (case x of
             Print k i \<Rightarrow> Inr (u\<lparr>out := out t @ [Line k i]\<rparr>)
           | PrintRet k \<Rightarrow> Inr (u\<lparr>out := out t @ [Value k (retval t p)]\<rparr>)
           | YieldTo k \<Rightarrow> rbind (pet_thread_yield_to (test_thread t k) (sch t)) (\<lambda>s. Inr (u\<lparr>sch := s\<rparr>))
           | Join k \<Rightarrow> rbind (pet_thread_join (test_thread t k) True (sch t)) (\<lambda>(rc, s).
               Inr ((if rc = 0 then t\<lparr>code := (code t)(p := JoinAssign # xs)\<rparr> else u)\<lparr>sch := s\<rparr>))
           | JoinAssign \<Rightarrow> rbind (join_resume (sch t)) (\<lambda>v. Inr (u\<lparr>retval := (retval t)(p := v)\<rparr>))
           | Return v \<Rightarrow> rbind (pet_thread_exit v (sch t)) (\<lambda>s. Inr (u\<lparr>sch := s\<rparr>))))"

text \<open>From the call of \<open>pet_thread_run\<close> until the master runs again.\<close>

partial_function (option) run_threads :: "tests \<Rightarrow> tests run" where
  "run_threads t =
     (if running (sch t) = master (sch t) then ret t
      else pbind (Some (thread_exec t)) run_threads)"

text \<open>
  \<open>main\<close>: the library is initialised, the threads are created and then run.  A thread to create is given
  by the addresses that \<open>malloc\<close> and \<open>calloc\<close> return, the address of its function, and the function.
\<close>

type_synonym new_thread = "u64 \<times> u64 \<times> u64 \<times> item list"

fun create_threads :: "new_thread list \<Rightarrow> nat \<Rightarrow> tests \<Rightarrow> tests res" where
  "create_threads [] k t = Inr t"
| "create_threads ((p, sb, func, prog) # cs) k t =
     rbind (pet_thread_create p sb func (sch t)) (\<lambda>(i, s).
     create_threads cs (Suc k) (t\<lparr>sch := s, test_thread := (test_thread t)(k := i), code := (code t)(p := prog)\<rparr>))"

definition main_program :: "new_thread list \<Rightarrow> tests \<Rightarrow> tests run" where
  "main_program cs t =
     pbind (Some (create_threads cs 0 (t\<lparr>sch := pet_thread_init (sch t)\<rparr>))) (\<lambda>t.
     pbind (Some (pet_thread_run (sch t))) (\<lambda>s. run_threads (t\<lparr>sch := s\<rparr>)))"

section \<open>The programs\<close>

text \<open>The lines that the iterations from \<open>a\<close> to \<open>b - 1\<close> print.\<close>

definition hellos :: "nat \<Rightarrow> nat \<Rightarrow> nat \<Rightarrow> item list" where
  "hellos k a b = map (Print k) [a..<b]"

text \<open>\<open>driver.c\<close>\<close>

definition driver_func1 :: "item list" where
  "driver_func1 = [Print 1 1, Return 0]"

text \<open>The \<open>main\<close> functions take the addresses for each thread and that of its function.\<close>

definition driver_main :: "u64 \<times> u64 \<times> u64 \<Rightarrow> tests \<Rightarrow> tests run" where
  "driver_main = (\<lambda>(p, b, f). main_program [(p, b, f, driver_func1)])"

text \<open>\<open>tests/test.c\<close>\<close>

definition yield_func1 :: "item list" where
  "yield_func1 = concat (map (\<lambda>i. [Print 1 i, YieldTo 1]) [0..<20]) @ [Return 0]"

definition yield_func2 :: "item list" where
  "yield_func2 = concat (map (\<lambda>i. [Print 2 i, YieldTo 0]) [0..<10]) @ [Return 0]"

definition yield_main :: "u64 \<times> u64 \<times> u64 \<Rightarrow> u64 \<times> u64 \<times> u64 \<Rightarrow> tests \<Rightarrow> tests run" where
  "yield_main = (\<lambda>(p1, b1, f1) (p2, b2, f2). main_program [(p1, b1, f1, yield_func1), (p2, b2, f2, yield_func2)])"

text \<open>\<open>tests/test_join.c\<close>\<close>

definition join_func1 :: "item list" where
  "join_func1 = hellos 1 0 6 @ [Join 1] @ hellos 1 6 10 @ [Return 0]"

definition join_func2 :: "item list" where
  "join_func2 = hellos 2 0 10 @ [Return 0]"

definition join_main :: "u64 \<times> u64 \<times> u64 \<Rightarrow> u64 \<times> u64 \<times> u64 \<Rightarrow> tests \<Rightarrow> tests run" where
  "join_main = (\<lambda>(p1, b1, f1) (p2, b2, f2). main_program [(p1, b1, f1, join_func1), (p2, b2, f2, join_func2)])"

text \<open>\<open>tests/test_nested_join.c\<close>\<close>

definition nested_func1 :: "item list" where
  "nested_func1 = hellos 1 0 6 @ [Join 1] @ PrintRet 1 # hellos 1 6 10 @ [Return 0]"

definition nested_func2 :: "item list" where
  "nested_func2 = hellos 2 0 6 @ [Join 2] @ PrintRet 2 # hellos 2 6 10 @ [Return 2]"

definition nested_func3 :: "item list" where
  "nested_func3 = hellos 3 0 10 @ [Return 3]"

definition nested_main :: "u64 \<times> u64 \<times> u64 \<Rightarrow> u64 \<times> u64 \<times> u64 \<Rightarrow> u64 \<times> u64 \<times> u64 \<Rightarrow> tests \<Rightarrow> tests run" where
  "nested_main = (\<lambda>(p1, b1, f1) (p2, b2, f2) (p3, b3, f3).
     main_program [(p1, b1, f1, nested_func1), (p2, b2, f2, nested_func2), (p3, b3, f3, nested_func3)])"

text \<open>\<open>tests/test_many.c\<close>: the functions of both parts, for thread number \<open>k\<close>.\<close>

definition NUM_THREADS :: nat where "NUM_THREADS = 20"
definition NUM_CYCLES :: nat where "NUM_CYCLES = 4"

definition test_yield :: "nat \<Rightarrow> item list" where
  "test_yield k =
     concat (replicate NUM_CYCLES
       ([Print (k + 1) 0] @ (if k < NUM_THREADS - 1 then [YieldTo (k + 1)] else [])
        @ [Print (k + 1) 0] @ (if 0 < k then [YieldTo (k - 1)] else []))) @ [Return 0]"

definition test_nested_join :: "nat \<Rightarrow> item list" where
  "test_nested_join k =
     [Print (k + 1) 0] @ (if k < NUM_THREADS - 1 then [Join (k + 1)] else []) @ [Print (k + 1) 0, Return 0]"

end
