(* ===== verification/ThreadTestsProps.thy ===== *)
theory ThreadTestsProps
  imports ThreadTests PetThreadProps
begin

text \<open>
  What the programs of the thread library do, proved from the effects of the library calls.  Threads
  that each join the next one form a chain: they start in order, all block but the last, and end in
  reverse order, each with the value its successor returned.
\<close>

section \<open>Printing\<close>

fun printed :: "u64 \<Rightarrow> item \<Rightarrow> event list" where
  "printed v (Print k i) = [Line k i]"
| "printed v (PrintRet k) = [Value k v]"
| "printed v _ = []"

fun is_print :: "item \<Rightarrow> bool" where
  "is_print (Print k i) = True"
| "is_print (PrintRet k) = True"
| "is_print _ = False"

lemma run_threads_done: "running (sch t) = master (sch t) \<Longrightarrow> run_threads t = ret t"
  by (simp add: run_threads.simps)

lemma run_step: "running (sch t) \<noteq> master (sch t) \<Longrightarrow> thread_exec t = Inr t' \<Longrightarrow> run_threads t = run_threads t'"
  by (simp add: run_threads.simps [of t])

lemma run_prints:
  assumes "running (sch t) \<noteq> master (sch t)" and "list_all is_print xs" and "code t (running (sch t)) = xs @ ys"
  shows "run_threads t = run_threads (t\<lparr>code := (code t)(running (sch t) := ys),
           out := out t @ concat (map (printed (retval t (running (sch t)))) xs)\<rparr>)"
  using assms
proof (induction xs arbitrary: t)
  case Nil
  then have "(code t)(running (sch t) := ys) = code t" by auto
  then show ?case by simp
next
  case (Cons x xs)
  let ?p = "running (sch t)"
  let ?t = "t\<lparr>code := (code t)(?p := xs @ ys), out := out t @ printed (retval t ?p) x\<rparr>"
  have "thread_exec t = Inr ?t"
    using Cons.prems by (cases x) (simp_all add: thread_exec_def Let_def)
  then have "run_threads t = run_threads ?t" using Cons.prems(1) by (simp add: run_threads.simps [of t])
  also have "\<dots> = run_threads (?t\<lparr>code := (code ?t)(?p := ys),
      out := out ?t @ concat (map (printed (retval ?t ?p)) xs)\<rparr>)"
    using Cons.IH [of ?t] Cons.prems by (simp add: fun_upd_def cong: if_cong)
  finally show ?case by (simp add: fun_upd_def cong: if_cong)
qed

lemma run_return:
  assumes "running (sch t) \<noteq> master (sch t)" and "code t (running (sch t)) = Return v # xs"
    and "pet_thread_exit v (sch t) = Inr s'"
  shows "run_threads t = run_threads (t\<lparr>code := (code t)(running (sch t) := xs), sch := s'\<rparr>)"
  using assms by (simp add: run_threads.simps [of t] thread_exec_def)

section \<open>Going down a chain\<close>

definition waits_for :: "u64 list \<Rightarrow> nat \<Rightarrow> nat \<Rightarrow> u64 list" where
  "waits_for ps k j = (if 0 < j \<and> j \<le> k then [ps ! (j - 1)] else [])"

text \<open>The first \<open>k\<close> threads are blocked, each behind its successor; thread \<open>k\<close> runs and the others are ready.\<close>

definition down :: "u64 list \<Rightarrow> nat \<Rightarrow> (nat \<Rightarrow> u64) \<Rightarrow> sched \<Rightarrow> bool" where
  "down ps k ids s \<longleftrightarrow>
     sched_inv s \<and> master s \<notin> set ps \<and> running s = ps ! k \<and> ready_list s = drop (Suc k) ps
     \<and> blocked_list s = take k ps \<and> stopped s = NULL
     \<and> (\<forall>j < length ps. \<exists>th. threads s (ps ! j) = Some th \<and> t_id th = ids j \<and> t_waiting th = Some (waits_for ps k j))"

lemma waits_for_other: "j \<noteq> Suc k \<Longrightarrow> waits_for ps (Suc k) j = waits_for ps k j"
  by (auto simp: waits_for_def)

lemma down_join:
  assumes d: "down ps k ids s" and k: "Suc k < length ps" and ps: "distinct ps"
  obtains s' where "pet_thread_join (ids (Suc k)) True s = Inr (0, s')" and "down ps (Suc k) ids s'" and "master s' = master s"
proof -
  let ?p = "ps ! Suc k" and ?r = "ps ! k"
  have inv: "sched_inv s" and m: "master s \<notin> set ps" and r: "running s = ?r" and rl: "ready_list s = drop (Suc k) ps"
    and bl: "blocked_list s = take k ps" and st: "stopped s = NULL" using d by (simp_all add: down_def)
  have b: "base s" using inv by (simp add: leaving_def)
  have all: "\<exists>th. threads s (ps ! j) = Some th \<and> t_id th = ids j \<and> t_waiting th = Some (waits_for ps k j)" if "j < length ps" for j
    using d that by (simp add: down_def)
  obtain th where th: "threads s ?p = Some th" "t_id th = ids (Suc k)" "t_waiting th = Some (waits_for ps k (Suc k))"
    using all [OF k] by blast
  obtain rt where rt: "threads s ?r = Some rt" using all [of k] k by auto
  have dr: "drop (Suc k) ps = ?p # drop (Suc (Suc k)) ps" using k by (simp add: Cons_nth_drop_Suc)
  have pr: "?p \<noteq> ?r" using ps k by (simp add: nth_eq_iff_index_eq)
  have mp: "?p \<noteq> master s" "?r \<noteq> master s" using m k by (metis Suc_lessD nth_mem)+
  have so: "stopped_ok s" by (simp add: stopped_ok_def st)
  have "visible s ?p" by (simp add: visible_def rl dr)
  then have g: "get_thread s (ids (Suc k)) = Inr ?p" using get_thread_visible [OF b so _ th(1)] th(2) by simp
  let ?q = "queued_behind ?p s"
  have l: "leaving PET_THREAD_BLOCKED ?q" by (rule queued_leaving [OF inv _ th(1) mp(1)]) (simp add: r mp(2))
  have qp: "threads ?q ?p = Some (th\<lparr>t_waiting := Some [?r]\<rparr>)" "threads ?q (running ?q) = Some (rt\<lparr>t_state := PET_THREAD_BLOCKED\<rparr>)"
    using th rt pr by (simp_all add: queued_behind_def set_state_def r waits_for_def)
  have qo: "threads ?q x = threads s x" if "x \<noteq> ?p" "x \<noteq> ?r" for x using that by (simp add: queued_behind_def set_state_def r)
  have "stopped_ok ?q" by (simp add: stopped_ok_def st)
  moreover have "next_thread ?q = ?p" by (simp add: next_thread_def rl dr)
  ultimately have sch: "pet_thread_schedule ?q = Inr (switched ?p ?q)"
    using schedule_switches(2) [OF l] by (simp add: rl dr)
  note sel = switched_sel [OF qp]
  have j: "pet_thread_join (ids (Suc k)) True s = Inr (0, switched ?p ?q)"
    using join_code [OF inv g th(1) mp(1)] sch by simp
  have "sched_inv (switched ?p ?q)" by (rule schedule_inv [OF l _ sch]) simp
  moreover have "\<exists>u. threads (switched ?p ?q) (ps ! j) = Some u \<and> t_id u = ids j \<and> t_waiting u = Some (waits_for ps (Suc k) j)"
    if j: "j < length ps" for j
  proof -
    consider "j = Suc k" | "j = k" | "j \<noteq> Suc k" "j \<noteq> k" by blast
    then show ?thesis
    proof cases
      case 1
      then show ?thesis using pr th(2) by (simp add: sel r waits_for_def)
    next
      case 2
      then show ?thesis using pr all [OF j] rt by (simp add: sel r waits_for_other)
    next
      case 3
      then have "ps ! j \<noteq> ?p" "ps ! j \<noteq> ?r" using ps j k by (simp_all add: nth_eq_iff_index_eq)
      then show ?thesis using all [OF j] 3(1) pr by (simp add: sel r qo waits_for_other)
    qed
  qed
  ultimately have "down ps (Suc k) ids (switched ?p ?q)"
    using pr m k by (simp add: down_def sel r rl dr bl st take_Suc_conv_app_nth)
  moreover have "master (switched ?p ?q) = master s" using pr by (simp add: sel r)
  ultimately show ?thesis using that j by blast
qed

section \<open>Coming up again\<close>

definition up :: "u64 list \<Rightarrow> nat \<Rightarrow> sched \<Rightarrow> bool" where
  "up ps k s \<longleftrightarrow>
     sched_inv s \<and> master s \<notin> set ps \<and> running s = ps ! k \<and> ready_list s = [] \<and> blocked_list s = take k ps
     \<and> (\<forall>j \<le> k. waiters s (ps ! j) = waits_for ps k j)"

lemma down_up:
  assumes "down ps k ids s" and "Suc k = length ps"
  shows "up ps k s"
proof -
  have "waiters s (ps ! j) = waits_for ps k j" if "j \<le> k" for j
  proof -
    have "j < length ps" using that assms(2) by simp
    then obtain th where "threads s (ps ! j) = Some th" "t_waiting th = Some (waits_for ps k j)"
      using assms(1) unfolding down_def by blast
    then show ?thesis by (simp add: waiters_def)
  qed
  then show ?thesis using assms by (simp add: down_def up_def)
qed

lemma quarantined_waiters:
  assumes "threads s (running s) = Some r" and "running s \<notin> set (waiters s (running s))" and "x \<noteq> running s"
  shows "waiters (quarantined v s) x = waiters s x"
  using assms(3) unfolding waiters_def [of "quarantined v s"] quarantined_threads [OF assms(1,2)]
  by (auto simp: waiters_def split: option.splits)

lemma switched_waiters:
  assumes "threads s p = Some t" and "threads s (running s) = Some ot" and "p \<noteq> running s" and "x \<noteq> running s"
  shows "waiters (switched p s) x = waiters s x"
  using assms(1,4) by (simp add: waiters_def switched_sel [OF assms(1-3)])

lemma up_exit:
  assumes u: "up ps k s" and k: "k < length ps" and ps: "distinct ps"
  obtains s' where "pet_thread_exit v s = Inr s'" and "master s' = master s" and "sched_inv s'" and "ready_list s' = []"
    and "k = 0 \<Longrightarrow> running s' = master s \<and> blocked_list s' = []"
    and "0 < k \<Longrightarrow> up ps (k - 1) s' \<and> join_resume s' = Inr v"
proof -
  let ?r = "ps ! k" and ?q = "quarantined v s"
  have inv: "sched_inv s" and m: "master s \<notin> set ps" and r: "running s = ?r" and rl: "ready_list s = []"
    and bl: "blocked_list s = take k ps" and w: "\<And>j. j \<le> k \<Longrightarrow> waiters s (ps ! j) = waits_for ps k j"
    using u by (simp_all add: up_def)
  have rm: "running s \<noteq> master s" using m k by (metis nth_mem r)
  have b: "base s" using inv by (simp add: leaving_def)
  then obtain rt where rt: "threads s (running s) = Some rt" by (auto simp: base_def)
  have wr: "waiters s (running s) = waits_for ps k k" "waiters s ?r = waits_for ps k k" using w by (simp_all add: r)
  note iw = inv_waiters(3) [OF inv, of "running s"]
  note l = quarantined_leaving [OF inv rm, of v] and ef = exit_effect [OF inv rm, of v] and et = exit_threads [OF inv rm, where v = v]
  let ?n = "next_thread ?q" and ?s = "switched (next_thread ?q) ?q"
  have n: "?n = (if k = 0 then master s else ps ! (k - 1))" by (simp add: next_thread_def rl wr waits_for_def)
  have "can_switch ?n ?q"
    by (rule leaving_can_switch [OF l]) (auto simp: n rl wr waits_for_def rm [unfolded r] r)
  then obtain t where t: "threads ?q ?n = Some t" by (auto simp: can_switch_def)
  have ot: "threads ?q (running ?q) = Some (rt\<lparr>t_waiting := Some [], t_state := PET_THREAD_STOPPED\<rparr>)"
    by (simp add: quarantined_threads [OF rt iw])
  have "ps ! (k - 1) \<noteq> ?r" if "0 < k" using that k nth_eq_iff_index_eq [OF ps, of "k - 1" k] by simp
  then have ne: "?n \<noteq> running ?q" using rm n r by (cases "k = 0") auto
  note sel = switched_sel [OF t ot ne]
  have bls: "blocked_list ?s = take (k - 1) ps"
  proof (cases k)
    case (Suc i)
    then have "take k ps = take i ps @ [ps ! i]" "ps ! i \<notin> set (take i ps)"
      using k ps by (simp_all add: take_Suc_conv_app_nth, metis Suc_lessD distinct_take not_distinct_conv_prefix take_Suc_conv_app_nth)
    then show ?thesis using Suc by (auto simp: sel wr waits_for_def bl filter_id_conv)
  qed (simp add: sel wr waits_for_def bl)
  define z where "z = ?s"
  have z: "master z = master s" "running z = (if k = 0 then master s else ps ! (k - 1))" "ready_list z = []"
    "blocked_list z = take (k - 1) ps" "sched_inv z" "pet_thread_exit v s = Inr z"
    using sel(2,3) [folded z_def] ef [folded z_def] bls [folded z_def] et(6) [folded z_def] n
    by (simp_all add: rl wr waits_for_def)
  have "up ps (k - 1) z \<and> join_resume z = Inr v" if "0 < k"
  proof -
    have "waiters z (ps ! j) = waits_for ps (k - 1) j" if "j \<le> k - 1" for j
    proof -
      have "ps ! j \<noteq> running s" using that \<open>0 < k\<close> k ps by (simp add: r nth_eq_iff_index_eq)
      then have "waiters z (ps ! j) = waiters s (ps ! j)"
        using switched_waiters [OF t ot ne] quarantined_waiters [OF rt iw] by (simp add: z_def)
      then show ?thesis using w [of j] that \<open>0 < k\<close> by (simp add: waits_for_def)
    qed
    moreover have "\<exists>u. threads z (ps ! (k - 1)) = Some u \<and> t_ret u = v"
      using et(4) [of "ps ! (k - 1)"] that by (simp add: wr waits_for_def z_def)
    ultimately show ?thesis using that m z by (auto simp: up_def join_resume_def)
  qed
  then show ?thesis using that [OF z(6,1,5,3)] z by simp
qed

section \<open>Chains\<close>

text \<open>Thread \<open>k\<close> of a chain of \<open>n\<close> prints, joins the next thread unless it is the last one, prints and returns.\<close>

definition chain_prog :: "nat \<Rightarrow> (nat \<Rightarrow> item list) \<Rightarrow> (nat \<Rightarrow> item list) \<Rightarrow> (nat \<Rightarrow> u64) \<Rightarrow> nat \<Rightarrow> item list" where
  "chain_prog n pre post v k = pre k @ (if Suc k < n then [Join (Suc k)] else []) @ post k @ [Return (v k)]"

definition prints_ok :: "nat \<Rightarrow> (nat \<Rightarrow> item list) \<Rightarrow> bool" where
  "prints_ok n f = (\<forall>k < n. list_all is_print (f k))"

definition shown :: "u64 \<Rightarrow> item list \<Rightarrow> event list" where
  "shown v xs = concat (map (printed v) xs)"

text \<open>The value in \<open>retval\<close> when thread \<open>k\<close> prints the second time; \<open>g\<close> is what it holds at first.\<close>

definition received :: "nat \<Rightarrow> (nat \<Rightarrow> u64) \<Rightarrow> (nat \<Rightarrow> u64) \<Rightarrow> nat \<Rightarrow> u64" where
  "received n v g k = (if Suc k < n then v (Suc k) else g k)"

text \<open>The running thread prints and returns.\<close>

lemma chain_finish:
  assumes u: "up ps k (sch t)" and k: "k < length ps" and d: "distinct ps" and pr: "list_all is_print (post k)"
    and c: "code t (ps ! k) = (if Suc k < length ps then [JoinAssign] else []) @ post k @ [Return (v k)]"
    and jr: "Suc k < length ps \<Longrightarrow> join_resume (sch t) = Inr (v (Suc k))"
    and ex: "pet_thread_exit (v k) (sch t) = Inr s'"
  defines "r \<equiv> received (length ps) v (\<lambda>j. retval t (ps ! j)) k"
  shows "run_threads t = run_threads (t\<lparr>sch := s', code := (code t)(ps ! k := []), retval := (retval t)(ps ! k := r),
           out := out t @ shown r (post k)\<rparr>)"
proof -
  let ?p = "ps ! k"
  have run: "running (sch t) = ?p" using u by (simp add: up_def)
  have m: "?p \<noteq> master (sch t)" using u k unfolding up_def by (metis nth_mem)
  let ?t = "t\<lparr>code := (code t)(?p := post k @ [Return (v k)]), retval := (retval t)(?p := r)\<rparr>"
  have "run_threads t = run_threads ?t"
  proof (cases "Suc k < length ps")
    case True
    then have "thread_exec t = Inr ?t" using c jr by (simp add: thread_exec_def run r_def received_def Let_def)
    then show ?thesis using m by (simp add: run_threads.simps [of t] run)
  next
    case False
    then have "(code t)(?p := post k @ [Return (v k)]) = code t" "(retval t)(?p := r) = retval t"
      using c by (auto simp: r_def received_def)
    then show ?thesis by simp
  qed
  also have "\<dots> = run_threads (?t\<lparr>code := (code t)(?p := [Return (v k)]), out := out t @ shown r (post k)\<rparr>)"
    using run_prints [of ?t "post k" "[Return (v k)]"] m pr run by (simp add: shown_def)
  also have "\<dots> = run_threads (t\<lparr>sch := s', code := (code t)(?p := []), retval := (retval t)(?p := r), out := out t @ shown r (post k)\<rparr>)"
    using run_return [of "?t\<lparr>code := (code t)(?p := [Return (v k)]), out := out t @ shown r (post k)\<rparr>" "v k" "[]" s'] m ex run
    by (cases t) simp
  finally show ?thesis .
qed

lemma chain_up:
  assumes "up ps k (sch t)" and "k < length ps" and "distinct ps" and "prints_ok (length ps) post"
    and "code t (ps ! k) = (if Suc k < length ps then [JoinAssign] else []) @ post k @ [Return (v k)]"
    and "\<And>j. j < k \<Longrightarrow> code t (ps ! j) = JoinAssign # post j @ [Return (v j)]"
    and "Suc k < length ps \<Longrightarrow> join_resume (sch t) = Inr (v (Suc k))"
  shows "\<exists>t'. run_threads t = ret t' \<and> sched_inv (sch t') \<and> running (sch t') = master (sch t) \<and> master (sch t') = master (sch t)
           \<and> ready_list (sch t') = [] \<and> blocked_list (sch t') = []
           \<and> out t' = out t @ concat (map (\<lambda>j. shown (received (length ps) v (\<lambda>j. retval t (ps ! j)) j) (post j)) (rev [0..<Suc k]))"
  using assms
proof (induction k arbitrary: t)
  case (0 t)
  obtain s' where s': "pet_thread_exit (v 0) (sch t) = Inr s'" "master s' = master (sch t)" "sched_inv s'" "ready_list s' = []"
    "running s' = master (sch t) \<and> blocked_list s' = []" by (rule up_exit [OF 0(1-3)]) blast
  have "list_all is_print (post 0)" using 0(2,4) by (simp add: prints_ok_def)
  note f = chain_finish [of ps 0 t post v, OF 0(1-3) this 0(5,7) s'(1)]
  then have "run_threads t = ret (t\<lparr>sch := s', code := (code t)(ps ! 0 := []),
      retval := (retval t)(ps ! 0 := received (length ps) v (\<lambda>j. retval t (ps ! j)) 0),
      out := out t @ shown (received (length ps) v (\<lambda>j. retval t (ps ! j)) 0) (post 0)\<rparr>)"
    using s' by (simp add: run_threads_done)
  then show ?case using s' by simp
next
  case (Suc k t)
  obtain s' where s': "pet_thread_exit (v (Suc k)) (sch t) = Inr s'" "master s' = master (sch t)"
    "up ps k s' \<and> join_resume s' = Inr (v (Suc k))" by (rule up_exit [OF Suc.prems(1-3)]) auto
  have pr: "list_all is_print (post (Suc k))" using Suc.prems(2,4) by (simp add: prints_ok_def)
  note f = chain_finish [of ps "Suc k" t post v, OF Suc.prems(1-3) pr Suc.prems(5,7) s'(1)]
  define t' where "t' = t\<lparr>sch := s', code := (code t)(ps ! Suc k := []),
    retval := (retval t)(ps ! Suc k := received (length ps) v (\<lambda>j. retval t (ps ! j)) (Suc k)),
    out := out t @ shown (received (length ps) v (\<lambda>j. retval t (ps ! j)) (Suc k)) (post (Suc k))\<rparr>"
  have ne: "ps ! j \<noteq> ps ! Suc k" if "j < Suc k" for j using that Suc.prems(2,3) by (simp add: nth_eq_iff_index_eq)
  have lt: "k < length ps" "Suc k < length ps" using Suc.prems(2) by simp_all
  have c1: "code t' (ps ! k) = (if Suc k < length ps then [JoinAssign] else []) @ post k @ [Return (v k)]"
    using Suc.prems(6) [of k] ne [of k] lt by (simp add: t'_def)
  have c2: "code t' (ps ! j) = JoinAssign # post j @ [Return (v j)]" if "j < k" for j
    using Suc.prems(6) [of j] ne [of j] that by (simp add: t'_def)
  have u: "up ps k (sch t')" "join_resume (sch t') = Inr (v (Suc k))" using s'(3) by (simp_all add: t'_def)
  have rc: "received (length ps) v g j = received (length ps) v h j" if "j \<le> k" for g h j
    using that lt by (simp add: received_def)
  let ?out = "\<lambda>t j. shown (received (length ps) v (\<lambda>j. retval t (ps ! j)) j) (post j)"
  have mp: "map (?out t') (rev [0..<Suc k]) = map (?out t) (rev [0..<Suc k])"
    using rc by (intro map_cong refl) (metis atLeastLessThan_iff less_Suc_eq_le set_rev set_upt)
  obtain t2 where t2: "run_threads t' = ret t2" "sched_inv (sch t2)" "running (sch t2) = master (sch t')"
    "master (sch t2) = master (sch t')" "ready_list (sch t2) = []" "blocked_list (sch t2) = []"
    "out t2 = out t' @ concat (map (?out t') (rev [0..<Suc k]))"
    using Suc.IH [OF u(1) lt(1) Suc.prems(3,4) c1 c2 u(2)] by blast
  have t': "master (sch t') = master (sch t)" "out t' = out t @ ?out t (Suc k)" using s'(2) by (simp_all add: t'_def)
  have "rev [0..<Suc (Suc k)] = Suc k # rev [0..<Suc k]" by simp
  then have "out t2 = out t @ concat (map (?out t) (rev [0..<Suc (Suc k)]))"
    unfolding t2(7) mp t'(2) by (simp only: list.map concat.simps append_assoc)
  then show ?case using t2(1-6) t'(1) f [folded t'_def] by (intro exI [of _ t2]) simp
qed

text \<open>All threads but the last one print, join and block.\<close>

definition chain_code :: "u64 list \<Rightarrow> (nat \<Rightarrow> item list) \<Rightarrow> (nat \<Rightarrow> item list) \<Rightarrow> (nat \<Rightarrow> u64) \<Rightarrow> nat \<Rightarrow> (u64 \<Rightarrow> item list) \<Rightarrow> bool" where
  "chain_code ps pre post v k c \<longleftrightarrow>
     (\<forall>j < length ps. c (ps ! j) = (if j < k then JoinAssign # post j @ [Return (v j)] else chain_prog (length ps) pre post v j))"

lemma chain_down:
  assumes "down ps k (test_thread t) (sch t)" and "k < length ps" and "distinct ps" and "prints_ok (length ps) pre"
    and "chain_code ps pre post v k (code t)"
  shows "\<exists>t'. run_threads t = run_threads t' \<and> up ps (length ps - 1) (sch t') \<and> master (sch t') = master (sch t)
           \<and> retval t' = retval t \<and> out t' = out t @ concat (map (\<lambda>j. shown (retval t (ps ! j)) (pre j)) [k..<length ps])
           \<and> code t' (ps ! (length ps - 1)) = post (length ps - 1) @ [Return (v (length ps - 1))]
           \<and> (\<forall>j < length ps - 1. code t' (ps ! j) = JoinAssign # post j @ [Return (v j)])"
  using assms
proof (induction "length ps - Suc k" arbitrary: k t)
  case d: 0
  then have k: "k = length ps - 1" "Suc k = length ps" by simp_all
  let ?p = "ps ! k"
  have run: "running (sch t) = ?p" and m: "?p \<noteq> master (sch t)"
    using d.prems(1,2) unfolding down_def by (simp, metis nth_mem)
  let ?t = "t\<lparr>code := (code t)(?p := post k @ [Return (v k)]), out := out t @ shown (retval t ?p) (pre k)\<rparr>"
  have c: "code t ?p = pre k @ post k @ [Return (v k)]" using d.prems(2,5) k(2) by (simp add: chain_code_def chain_prog_def)
  have "list_all is_print (pre k)" using d.prems(2,4) by (simp add: prints_ok_def)
  then have "run_threads t = run_threads ?t" using run_prints [of t "pre k"] run m c by (simp add: shown_def)
  moreover have "up ps k (sch ?t)" using down_up [OF d.prems(1) k(2)] by simp
  moreover have "code t (ps ! j) = JoinAssign # post j @ [Return (v j)]" "ps ! j \<noteq> ?p" if "j < k" for j
    using that d.prems(2,3,5) by (simp_all add: chain_code_def nth_eq_iff_index_eq)
  moreover have "[k..<length ps] = [k]" using k(2) by (metis upt_rec lessI upt_conv_Nil order_refl)
  ultimately show ?case using k(1) by (intro exI [of _ ?t]) simp
next
  case (Suc i)
  let ?p = "ps ! k"
  have k: "Suc k < length ps" using Suc.hyps(2) by simp
  have run: "running (sch t) = ?p" and m: "?p \<noteq> master (sch t)"
    using Suc.prems(1,2) unfolding down_def by (simp, metis nth_mem)
  obtain s' where s': "pet_thread_join (test_thread t (Suc k)) True (sch t) = Inr (0, s')"
    "down ps (Suc k) (test_thread t) s'" "master s' = master (sch t)" by (rule down_join [OF Suc.prems(1) k Suc.prems(3)])
  let ?u = "t\<lparr>code := (code t)(?p := Join (Suc k) # post k @ [Return (v k)]), out := out t @ shown (retval t ?p) (pre k)\<rparr>"
  let ?t = "t\<lparr>code := (code t)(?p := JoinAssign # post k @ [Return (v k)]), sch := s', out := out t @ shown (retval t ?p) (pre k)\<rparr>"
  have c: "code t ?p = pre k @ Join (Suc k) # post k @ [Return (v k)]" using Suc.prems(2,5) k by (simp add: chain_code_def chain_prog_def)
  have "list_all is_print (pre k)" using Suc.prems(2,4) by (simp add: prints_ok_def)
  then have "run_threads t = run_threads ?u" using run_prints [of t "pre k"] run m c by (simp add: shown_def)
  moreover have "thread_exec ?u = Inr ?t" using run s'(1) by (cases t) (simp add: thread_exec_def Let_def)
  then have "run_threads ?u = run_threads ?t" using run m by (intro run_step) simp_all
  ultimately have r: "run_threads t = run_threads ?t" by simp
  have "chain_code ps pre post v (Suc k) (code ?t)"
    using Suc.prems(2,3,5) unfolding chain_code_def by (auto simp: less_Suc_eq nth_eq_iff_index_eq)
  moreover have "i = length ps - Suc (Suc k)" using Suc.hyps(2) by simp
  moreover have "[k..<length ps] = k # [Suc k..<length ps]" using Suc.prems(2) by (rule upt_conv_Cons)
  ultimately show ?case using Suc.hyps(1) [of "Suc k" ?t] s'(2,3) k Suc.prems(3,4) unfolding r by simp
qed

section \<open>Creating the threads\<close>

text \<open>
  The threads \<open>ps\<close> have been created, when \<open>stopped\<close> was \<open>st\<close> and \<open>c\<close> identifiers had been given out.
\<close>

definition created_ok :: "u64 \<Rightarrow> nat \<Rightarrow> u64 list \<Rightarrow> tests \<Rightarrow> bool" where
  "created_ok st c ps t \<longleftrightarrow>
     (let s = sch t in sched_inv s \<and> running s = master s \<and> ready_list s = ps \<and> blocked_list s = [] \<and> stopped s = st
        \<and> unat (thread_id_count s) = Suc c + length ps
        \<and> (\<forall>j < length ps. \<exists>th. threads s (ps ! j) = Some th \<and> t_id th = test_thread t j \<and> t_waiting th = Some []))"

lemma create_fields:
  assumes "pet_thread_create p sb f s = Inr (i, s')"
  shows "\<exists>th. threads s' p = Some th \<and> t_id th = i \<and> t_waiting th = Some []" and "thread_id_count s' = thread_id_count s + 1"
  using assms by (auto simp: pet_thread_create_def ready_add_tail_def Let_def split: if_splits)

lemma create_step:
  assumes cr: "created_ok st c ps t" and p: "p \<noteq> NULL" "threads (sch t) p = None" and sb: "sb \<noteq> NULL" and n: "c + length ps < 0x7FFFFFFE"
  obtains i s' where "pet_thread_create p sb f (sch t) = Inr (i, s')"
    and "created_ok st c (ps @ [p]) (t\<lparr>sch := s', test_thread := (test_thread t)(length ps := i), code := c'\<rparr>)"
    and "master s' = master (sch t)" and "\<And>q. q \<noteq> p \<Longrightarrow> threads s' q = threads (sch t) q"
proof -
  let ?s = "sch t"
  have cnt: "unat (thread_id_count ?s) = Suc c + length ps" and inv: "sched_inv ?s" using cr by (simp_all add: created_ok_def Let_def)
  have lt: "thread_id_count ?s < 0x7FFFFFFF" using cnt n by (simp add: word_less_nat_alt)
  from create_effect [OF inv p sb lt, of f] obtain s' where
    s': "pet_thread_create p sb f ?s = Inr (scast (thread_id_count ?s), s')" "sched_inv s'"
      "ready_list s' = ready_list ?s @ [p]" "blocked_list s' = blocked_list ?s" "running s' = running ?s"
      "stopped s' = stopped ?s" "master s' = master ?s" "\<And>q. q \<noteq> p \<Longrightarrow> threads s' q = threads ?s q" by blast
  note cf = create_fields [OF s'(1)]
  let ?t = "t\<lparr>sch := s', test_thread := (test_thread t)(length ps := scast (thread_id_count ?s)), code := c'\<rparr>"
  have "\<exists>th. threads s' ((ps @ [p]) ! j) = Some th \<and> t_id th = test_thread ?t j \<and> t_waiting th = Some []"
    if "j < length (ps @ [p])" for j
  proof (cases "j = length ps")
    case True
    then show ?thesis using cf(1) by simp
  next
    case False
    then have j: "j < length ps" using that by simp
    then obtain th where th: "threads ?s (ps ! j) = Some th" "t_id th = test_thread t j" "t_waiting th = Some []"
      using cr unfolding created_ok_def Let_def by blast
    then have "ps ! j \<noteq> p" using p(2) by auto
    then show ?thesis using th j False s'(8) by (simp add: nth_append)
  qed
  then have "created_ok st c (ps @ [p]) ?t"
    using cr s' cf(2) new_id(2) [OF lt] cnt by (simp add: created_ok_def Let_def)
  then show ?thesis using that [OF s'(1) _ s'(7,8)] by blast
qed

lemma create_threads_ok:
  assumes "created_ok st c ps t" and "k = length ps" and "c + length ps + length cs < 0x7FFFFFFF"
    and "distinct (map fst cs)" and "\<forall>c \<in> set cs. fst c \<noteq> NULL \<and> fst (snd c) \<noteq> NULL \<and> threads (sch t) (fst c) = None"
  shows "\<exists>t'. create_threads cs k t = Inr t' \<and> created_ok st c (ps @ map fst cs) t' \<and> master (sch t') = master (sch t)
           \<and> retval t' = retval t \<and> out t' = out t
           \<and> code t' = (\<lambda>q. case map_of (map (\<lambda>(p, sb, f, x). (p, x)) cs) q of None \<Rightarrow> code t q | Some x \<Rightarrow> x)"
  using assms
proof (induction cs arbitrary: ps k t)
  case (Cons a cs)
  obtain p sb f x where a: "a = (p, sb, f, x)" by (cases a)
  have p: "p \<noteq> NULL" "threads (sch t) p = None" "sb \<noteq> NULL" using Cons.prems(5) by (simp_all add: a)
  have n: "c + length ps < 0x7FFFFFFE" using Cons.prems(3) by simp
  let ?c = "(code t)(p := x)"
  obtain i s' where s': "pet_thread_create p sb f (sch t) = Inr (i, s')"
    "created_ok st c (ps @ [p]) (t\<lparr>sch := s', test_thread := (test_thread t)(length ps := i), code := ?c\<rparr>)"
    "master s' = master (sch t)" "\<And>q. q \<noteq> p \<Longrightarrow> threads s' q = threads (sch t) q"
    by (rule create_step [OF Cons.prems(1) p n, where f = f and c' = ?c], rule that)
  let ?t = "t\<lparr>sch := s', test_thread := (test_thread t)(k := i), code := ?c\<rparr>"
  have nd: "p \<notin> fst ` set cs" "distinct (map fst cs)" using Cons.prems(4) by (simp_all add: a)
  have new: "\<forall>c \<in> set cs. fst c \<noteq> NULL \<and> fst (snd c) \<noteq> NULL \<and> threads (sch ?t) (fst c) = None"
  proof
    fix c assume c: "c \<in> set cs"
    then have "fst c \<noteq> p" using nd(1) by force
    then show "fst c \<noteq> NULL \<and> fst (snd c) \<noteq> NULL \<and> threads (sch ?t) (fst c) = None" using Cons.prems(5) c s'(4) by simp
  qed
  have pre: "created_ok st c (ps @ [p]) ?t" "Suc k = length (ps @ [p])" "c + length (ps @ [p]) + length cs < 0x7FFFFFFF"
    using s'(2) Cons.prems(2,3) by simp_all
  obtain t' where
    t': "create_threads cs (Suc k) ?t = Inr t'" "created_ok st c (ps @ [p] @ map fst cs) t'" "master (sch t') = master s'"
      "retval t' = retval t" "out t' = out t"
      "code t' = (\<lambda>q. case map_of (map (\<lambda>(p, sb, f, x). (p, x)) cs) q of None \<Rightarrow> code ?t q | Some x \<Rightarrow> x)"
    using Cons.IH [OF pre nd(2) new] by (elim exE conjE) simp
  have "map_of (map (\<lambda>(p, sb, f, x). (p, x)) cs) p = None" using nd(1) by (force simp: map_of_eq_None_iff)
  then have "code t' = (\<lambda>q. case map_of (map (\<lambda>(p, sb, f, x). (p, x)) (a # cs)) q of None \<Rightarrow> code t q | Some x \<Rightarrow> x)"
    unfolding t'(6) a by (auto simp: fun_eq_iff split: option.splits)
  then show ?case using t' s'(1,3) by (simp add: a)
qed simp

text \<open>The call of \<open>pet_thread_run\<close> starts the first thread.\<close>

lemma run_starts_chain:
  assumes cr: "created_ok NULL c ps t" and ne: "ps \<noteq> []" and d: "distinct ps"
  obtains s' where "pet_thread_run (sch t) = Inr s'" and "down ps 0 (test_thread t) s'" and "master s' = master (sch t)"
proof -
  let ?s = "sch t" and ?p = "ps ! 0"
  have inv: "sched_inv ?s" and r: "running ?s = master ?s" and rl: "ready_list ?s = ps" and bl: "blocked_list ?s = []"
    and st: "stopped ?s = NULL" using cr by (simp_all add: created_ok_def Let_def)
  have all: "\<exists>th. threads ?s (ps ! j) = Some th \<and> t_id th = test_thread t j \<and> t_waiting th = Some []" if "j < length ps" for j
    using cr that by (simp add: created_ok_def Let_def)
  have m: "master ?s \<notin> set ps" using inv rl unfolding leaving_def queues_ok_def by auto
  obtain th where th: "threads ?s ?p = Some th" using all [of 0] ne by auto
  obtain mt where mt: "threads ?s (running ?s) = Some mt" "t_state mt = PET_THREAD_RUNNING"
    using inv by (auto simp: leaving_def has_state_def)
  have pm: "?p \<noteq> running ?s" using m ne r by (metis length_greater_0_conv nth_mem)
  have nt: "next_thread ?s = ?p" using rl ne by (cases ps) (simp_all add: next_thread_def)
  have sch: "pet_thread_schedule ?s = Inr (switched ?p ?s)"
    using schedule_switches(2) [OF inv] nt ne rl by (simp add: stopped_ok_def st)
  note sel = switched_sel [OF th mt(1) pm]
  have "sched_inv (switched ?p ?s)" by (rule schedule_inv [OF inv _ sch]) simp
  moreover have "\<exists>u. threads (switched ?p ?s) (ps ! j) = Some u \<and> t_id u = test_thread t j \<and> t_waiting u = Some (waits_for ps 0 j)"
    if j: "j < length ps" for j
  proof -
    have "ps ! j \<noteq> running ?s" using m j r by (metis nth_mem)
    then show ?thesis using all [OF j] th by (cases "ps ! j = ?p") (auto simp: sel waits_for_def)
  qed
  moreover have "remove1 ?p ps = drop (Suc 0) ps" using ne by (cases ps) simp_all
  ultimately have "down ps 0 (test_thread t) (switched ?p ?s)"
    using m mt(2) r by (simp add: down_def sel rl bl st)
  then show ?thesis using that [of "switched ?p ?s"] sch by (simp add: pet_thread_run_def sel)
qed

section \<open>Starting\<close>

lemma prog_of:
  assumes "distinct ps" and "j < length ps"
  shows "map_of (map (\<lambda>(p, sb, f, x). (p, x)) (map (\<lambda>k. (ps ! k, B k, F k, X k)) [0..<length ps])) (ps ! j) = Some (X j)"
proof -
  have mem: "(ps ! j, X j) \<in> set (map (\<lambda>(p, sb, f, x). (p, x)) (map (\<lambda>k. (ps ! k, B k, F k, X k)) [0..<length ps]))"
    using assms(2) by force
  have f: "map fst (map (\<lambda>(p, sb, f, x). (p, x)) (map (\<lambda>k. (ps ! k, B k, F k, X k)) [0..<length ps])) = ps"
    by (simp add: comp_def map_nth)
  show ?thesis by (rule map_of_is_SomeI [OF _ mem]) (simp only: f assms(1))
qed

lemma boot_created:
  assumes "m \<noteq> NULL" and "sch t = boot m"
  shows "created_ok NULL 0 [] (t\<lparr>sch := pet_thread_init (sch t)\<rparr>)"
  using init_inv [OF assms(1)] assms(2) by (simp add: created_ok_def Let_def pet_thread_init_def boot_def)

lemma main_starts:
  assumes t: "sch t = boot m" and d: "distinct (m # map fst cs)" and nz: "NULL \<notin> set (m # map fst cs)" and ne: "cs \<noteq> []"
    and n: "length cs < 0x7FFFFFFE" and sb: "\<forall>c \<in> set cs. fst (snd c) \<noteq> NULL"
  obtains t' where "main_program cs t = run_threads t'" and "down (map fst cs) 0 (test_thread t') (sch t')" and "master (sch t') = m"
    and "retval t' = retval t" and "out t' = out t"
    and "code t' = (\<lambda>q. case map_of (map (\<lambda>(p, sb, f, x). (p, x)) cs) q of None \<Rightarrow> code t q | Some x \<Rightarrow> x)"
proof -
  let ?t0 = "t\<lparr>sch := pet_thread_init (sch t)\<rparr>"
  have new: "\<forall>c \<in> set cs. fst c \<noteq> NULL \<and> fst (snd c) \<noteq> NULL \<and> threads (sch ?t0) (fst c) = None"
  proof
    fix c assume c: "c \<in> set cs"
    then have "fst c \<in> fst ` set cs" by (rule imageI)
    then have "fst c \<noteq> NULL" "fst c \<noteq> m" using nz d by (metis list.set_intros(2) set_map, metis distinct.simps(2) set_map)
    then show "fst c \<noteq> NULL \<and> fst (snd c) \<noteq> NULL \<and> threads (sch ?t0) (fst c) = None"
      using t sb c by (simp add: pet_thread_init_def boot_def)
  qed
  have z: "0 = length ([] :: u64 list)" by simp
  have pre: "0 + length [] + length cs < 0x7FFFFFFF" "distinct (map fst cs)" "m \<noteq> NULL" using n d nz by simp_all
  obtain t1 where t1: "create_threads cs 0 ?t0 = Inr t1" "created_ok NULL 0 (map fst cs) t1" "master (sch t1) = master (sch ?t0)"
    "retval t1 = retval t" "out t1 = out t"
    "code t1 = (\<lambda>q. case map_of (map (\<lambda>(p, sb, f, x). (p, x)) cs) q of None \<Rightarrow> code ?t0 q | Some x \<Rightarrow> x)"
    using create_threads_ok [OF boot_created [OF pre(3) t] z pre(1,2) new] by (elim exE conjE) simp
  have m1: "master (sch t1) = m" using t1(3) t by (simp add: pet_thread_init_def boot_def)
  have "map fst cs \<noteq> []" using ne by simp
  then obtain s2 where s2: "pet_thread_run (sch t1) = Inr s2" "down (map fst cs) 0 (test_thread t1) s2" "master s2 = m"
    using run_starts_chain [OF t1(2) _ pre(2)] m1 by metis
  have "main_program cs t = run_threads (t1\<lparr>sch := s2\<rparr>)" using t1(1) s2(1) by (simp add: main_program_def)
  moreover have "code ?t0 = code t" by simp
  ultimately show ?thesis using that [of "t1\<lparr>sch := s2\<rparr>"] s2(2,3) t1(4,5) t1(6) [unfolded \<open>code ?t0 = code t\<close>] by simp
qed

section \<open>Properties\<close>

lemma join_chain:
  assumes "sch t = boot m" and "distinct (m # ps)" and "NULL \<notin> set (m # ps)" and "ps \<noteq> []" and "length ps < 0x7FFFFFFE"
    and "\<And>k. k < length ps \<Longrightarrow> B k \<noteq> NULL" and "\<And>k. k < length ps \<Longrightarrow> list_all is_print (pre k) \<and> list_all is_print (post k)"
  shows "\<exists>t'. main_program (map (\<lambda>k. (ps ! k, B k, F k, chain_prog (length ps) pre post v k)) [0..<length ps]) t = ret t'
           \<and> running (sch t') = m \<and> ready_list (sch t') = [] \<and> blocked_list (sch t') = []
           \<and> (\<forall>p. threads (sch t') p \<noteq> None \<longleftrightarrow> p = m)
           \<and> out t' = out t @ concat (map (\<lambda>k. shown (retval t (ps ! k)) (pre k)) [0..<length ps])
               @ concat (map (\<lambda>k. shown (received (length ps) v (\<lambda>k. retval t (ps ! k)) k) (post k)) (rev [0..<length ps]))"
proof -
  let ?n = "length ps" and ?cs = "map (\<lambda>k. (ps ! k, B k, F k, chain_prog (length ps) pre post v k)) [0..<length ps]"
  have d: "distinct ps" using assms(2) by simp
  have fs: "map fst ?cs = ps" by (simp add: comp_def map_nth)
  have cs: "?cs \<noteq> []" "length ?cs < 0x7FFFFFFE" "\<forall>c \<in> set ?cs. fst (snd c) \<noteq> NULL" using assms(4-6) by auto
  obtain t2 where t2: "main_program ?cs t = run_threads t2" "down ps 0 (test_thread t2) (sch t2)" "master (sch t2) = m"
    "retval t2 = retval t" "out t2 = out t"
    "code t2 = (\<lambda>q. case map_of (map (\<lambda>(p, sb, f, x). (p, x)) ?cs) q of None \<Rightarrow> code t q | Some x \<Rightarrow> x)"
    by (rule main_starts [OF assms(1) _ _ cs, unfolded fs, OF assms(2,3)])
  have "code t2 (ps ! j) = chain_prog ?n pre post v j" if "j < ?n" for j
    unfolding t2(6) prog_of [OF d that] by simp
  then have "chain_code ps pre post v 0 (code t2)" unfolding chain_code_def by simp
  moreover have pr: "prints_ok ?n pre" "prints_ok ?n post" using assms(7) by (simp_all add: prints_ok_def)
  ultimately obtain t3 where t3: "run_threads t2 = run_threads t3" "up ps (?n - 1) (sch t3)" "master (sch t3) = m"
    "retval t3 = retval t" "out t3 = out t @ concat (map (\<lambda>k. shown (retval t (ps ! k)) (pre k)) [0..<?n])"
    "code t3 (ps ! (?n - 1)) = post (?n - 1) @ [Return (v (?n - 1))]"
    "\<And>j. j < ?n - 1 \<Longrightarrow> code t3 (ps ! j) = JoinAssign # post j @ [Return (v j)]"
    using chain_down [of ps 0 t2 pre post v] t2(2-5) d assms(4) by auto
  have n: "?n - 1 < ?n" "Suc (?n - 1) = ?n" using assms(4) by simp_all
  have c: "code t3 (ps ! (?n - 1)) = (if Suc (?n - 1) < ?n then [JoinAssign] else []) @ post (?n - 1) @ [Return (v (?n - 1))]"
    using t3(6) n(2) by simp
  have no: "Suc (?n - 1) < ?n \<Longrightarrow> join_resume (sch t3) = Inr (v (Suc (?n - 1)))" using n(2) by simp
  obtain t4 where t4: "run_threads t3 = ret t4" "sched_inv (sch t4)" "running (sch t4) = m" "master (sch t4) = m"
    "ready_list (sch t4) = []" "blocked_list (sch t4) = []"
    "out t4 = out t3 @ concat (map (\<lambda>k. shown (received ?n v (\<lambda>k. retval t3 (ps ! k)) k) (post k)) (rev [0..<?n]))"
    using chain_up [OF t3(2) n(1) d pr(2) c t3(7) no] unfolding n(2) t3(3) by blast
  have "threads (sch t4) p \<noteq> None \<longleftrightarrow> p = m" for p
    using t4(2-6) unfolding leaving_def queues_ok_def base_def by auto
  then show ?thesis using t2(1) t3(1,4,5) t4 by (intro exI [of _ t4]) simp
qed

text \<open>The functions of the test programs are chains.\<close>

definition nested_pre :: "nat \<Rightarrow> item list" where
  "nested_pre k = (if k < 2 then hellos (k + 1) 0 6 else hellos 3 0 10)"

definition nested_post :: "nat \<Rightarrow> item list" where
  "nested_post k = (if k < 2 then PrintRet (k + 1) # hellos (k + 1) 6 10 else [])"

definition nested_val :: "nat \<Rightarrow> u64" where
  "nested_val k = (if k = 0 then 0 else if k = 1 then 2 else 3)"

lemma nested_chain:
  "chain_prog 3 nested_pre nested_post nested_val 0 = nested_func1"
  "chain_prog 3 nested_pre nested_post nested_val 1 = nested_func2"
  "chain_prog 3 nested_pre nested_post nested_val 2 = nested_func3"
  by (simp_all add: chain_prog_def nested_pre_def nested_post_def nested_val_def nested_func1_def nested_func2_def
      nested_func3_def numeral_2_eq_2)

lemma join_test_chain:
  "chain_prog 2 (\<lambda>k. if k = 0 then hellos 1 0 6 else hellos 2 0 10) (\<lambda>k. if k = 0 then hellos 1 6 10 else []) (\<lambda>_. 0) 0 = join_func1"
  "chain_prog 2 (\<lambda>k. if k = 0 then hellos 1 0 6 else hellos 2 0 10) (\<lambda>k. if k = 0 then hellos 1 6 10 else []) (\<lambda>_. 0) 1 = join_func2"
  by (simp_all add: chain_prog_def join_func1_def join_func2_def)

lemma driver_chain: "chain_prog 1 (\<lambda>_. [Print 1 1]) (\<lambda>_. []) (\<lambda>_. 0) 0 = driver_func1"
  by (simp add: chain_prog_def driver_func1_def)

lemma test_many_chain: "chain_prog NUM_THREADS (\<lambda>k. [Print (k + 1) 0]) (\<lambda>k. [Print (k + 1) 0]) (\<lambda>_. 0) k = test_nested_join k"
  by (auto simp: chain_prog_def test_nested_join_def NUM_THREADS_def)

lemma hellos_print: "list_all is_print (hellos k a b)"
  by (simp add: hellos_def list_all_iff)

lemma hellos_shown: "shown v (hellos k a b) = map (Line k) [a..<b]"
  by (simp add: shown_def hellos_def comp_def)

text \<open>The output of \<open>driver.c\<close> and of \<open>test_join.c\<close>.\<close>

lemma driver_main_output:
  assumes "sch t = boot m" and "distinct [m, p]" and "NULL \<notin> {m, p}" and "b \<noteq> NULL"
  shows "\<exists>t'. driver_main (p, b, f) t = ret t' \<and> running (sch t') = m \<and> out t' = out t @ [Line 1 1]"
  using join_chain [of t m "[p]" "\<lambda>_. b" "\<lambda>_. [Print 1 1]" "\<lambda>_. []" "\<lambda>_. f" "\<lambda>_. 0"] assms
  by (auto simp: driver_main_def driver_chain [unfolded One_nat_def] shown_def)

lemma join_main_output:
  assumes "sch t = boot m" and "distinct [m, p1, p2]" and "NULL \<notin> {m, p1, p2}" and "b1 \<noteq> NULL" and "b2 \<noteq> NULL"
  shows "\<exists>t'. join_main (p1, b1, f1) (p2, b2, f2) t = ret t' \<and> running (sch t') = m
           \<and> out t' = out t @ map (Line 1) [0..<6] @ map (Line 2) [0..<10] @ map (Line 1) [6..<10]"
proof -
  let ?ps = "[p1, p2]" and ?B = "\<lambda>k. if k = 0 then b1 else b2" and ?F = "\<lambda>k. if k = 0 then f1 else f2"
    and ?pre = "\<lambda>k. if k = 0 then hellos 1 0 6 else hellos 2 0 10" and ?post = "\<lambda>k. if k = 0 then hellos 1 6 10 else []"
  let ?v = "\<lambda>_. 0 :: u64"
  have pre: "distinct (m # ?ps)" "NULL \<notin> set (m # ?ps)" "?ps \<noteq> []" "length ?ps < 0x7FFFFFFE" using assms(2,3) by auto
  have b: "?B k \<noteq> NULL" for k using assms(4,5) by simp
  have pr: "list_all is_print (?pre k) \<and> list_all is_print (?post k)" for k by (simp add: hellos_print)
  obtain t' where t': "main_program (map (\<lambda>k. (?ps ! k, ?B k, ?F k, chain_prog (length ?ps) ?pre ?post ?v k)) [0..<length ?ps]) t = ret t'"
    "running (sch t') = m" "out t' = out t @ concat (map (\<lambda>k. shown (retval t (?ps ! k)) (?pre k)) [0..<length ?ps])
      @ concat (map (\<lambda>k. shown (received (length ?ps) ?v (\<lambda>k. retval t (?ps ! k)) k) (?post k)) (rev [0..<length ?ps]))"
    using join_chain [where B = ?B and pre = ?pre and post = ?post and F = ?F and v = ?v, OF assms(1) pre b pr] by blast
  have l: "length ?ps = 2" "[0..<2] = [0, 1 :: nat]" by (simp_all add: upt_rec)
  have "shown w [] = []" for w by (simp add: shown_def)
  then have "out t' = out t @ map (Line 1) [0..<6] @ map (Line 2) [0..<10] @ map (Line 1) [6..<10]"
    using t'(3) unfolding l by (simp add: hellos_shown del: upt_Suc)
  moreover have "join_main (p1, b1, f1) (p2, b2, f2) t = ret t'"
    using t'(1) unfolding l list.map join_test_chain by (simp add: join_main_def)
  ultimately show ?thesis using t'(2) by blast
qed

text \<open>
  C26: a chain of joins completes: when \<open>main\<close> creates \<open>n\<close> threads, each of which prints, joins its successor
  (but for the last one), prints again and returns, then no call faults, the program ends with the
  master running and every thread freed, and the output is known: first what each thread prints
  before its join, in the order of creation, then what it prints afterwards, in reverse order,
  where each thread has received the value that its successor returned.  \<open>malloc\<close> is to return
  different addresses, and there are fewer than \<open>2 ^ 31 - 2\<close> threads.  The programs of \<open>driver.c\<close>,
  \<open>test_join.c\<close> and \<open>test_nested_join.c\<close>, and the second part of \<open>test_many.c\<close> when run alone, are such chains.
\<close>

theorem join_chain_completes:
  assumes "sch t = boot m" and "distinct (m # ps)" and "NULL \<notin> set (m # ps)" and "ps \<noteq> []" and "length ps < 0x7FFFFFFE"
    and "\<And>k. k < length ps \<Longrightarrow> B k \<noteq> NULL" and "\<And>k. k < length ps \<Longrightarrow> list_all is_print (pre k) \<and> list_all is_print (post k)"
  shows "\<exists>t'. main_program (map (\<lambda>k. (ps ! k, B k, F k, chain_prog (length ps) pre post v k)) [0..<length ps]) t = ret t'
           \<and> running (sch t') = m \<and> ready_list (sch t') = [] \<and> blocked_list (sch t') = []
           \<and> (\<forall>p. threads (sch t') p \<noteq> None \<longleftrightarrow> p = m)
           \<and> out t' = out t @ concat (map (\<lambda>k. shown (retval t (ps ! k)) (pre k)) [0..<length ps])
               @ concat (map (\<lambda>k. shown (received (length ps) v (\<lambda>k. retval t (ps ! k)) k) (post k)) (rev [0..<length ps]))"
  by (rule join_chain [OF assms])

definition start0 :: tests where
  "start0 = \<lparr>sch = boot 0x601000, test_thread = (\<lambda>_. 0), code = (\<lambda>_. []), retval = (\<lambda>_. 0), out = []\<rparr>"

theorem join_chain_completes_witness:
  "\<exists>t'. nested_main (0x1000, 0x10000, 1) (0x2000, 0x40000, 2) (0x3000, 0x70000, 3) start0 = ret t'
      \<and> out t' = map (Line 1) [0..<6] @ map (Line 2) [0..<6] @ map (Line 3) [0..<10]
          @ Value 2 3 # map (Line 2) [6..<10] @ Value 1 2 # map (Line 1) [6..<10]"
proof -
  let ?ps = "[0x1000, 0x2000, 0x3000] :: u64 list" and ?B = "\<lambda>k. [0x10000, 0x40000, 0x70000] ! k :: u64"
    and ?F = "\<lambda>k. [1, 2, 3] ! k :: u64"
  have "list_all is_print (nested_pre k) \<and> list_all is_print (nested_post k)" for k
    by (simp add: nested_pre_def nested_post_def hellos_print)
  moreover have "?B k \<noteq> NULL" if "k < length ?ps" for k using that by (auto simp: less_Suc_eq numeral_3_eq_3)
  moreover have "distinct (0x601000 # ?ps)" "NULL \<notin> set (0x601000 # ?ps)" "sch start0 = boot 0x601000" "?ps \<noteq> []" "length ?ps < 0x7FFFFFFE"
    by (simp_all add: start0_def)
  ultimately obtain t' where t': "main_program (map (\<lambda>k. (?ps ! k, ?B k, ?F k, chain_prog (length ?ps) nested_pre nested_post nested_val k)) [0..<length ?ps]) start0 = ret t'"
    "out t' = out start0 @ concat (map (\<lambda>k. shown (retval start0 (?ps ! k)) (nested_pre k)) [0..<length ?ps])
       @ concat (map (\<lambda>k. shown (received (length ?ps) nested_val (\<lambda>k. retval start0 (?ps ! k)) k) (nested_post k)) (rev [0..<length ?ps]))"
    using join_chain_completes [of start0 "0x601000" ?ps ?B nested_pre nested_post ?F nested_val] by blast
  have l: "length ?ps = 3" "[0..<3] = [0, 1, 2 :: nat]" by code_simp+
  have "out t' = map (Line 1) [0..<6] @ map (Line 2) [0..<6] @ map (Line 3) [0..<10]
          @ Value 2 3 # map (Line 2) [6..<10] @ Value 1 2 # map (Line 1) [6..<10]"
    unfolding t'(2) l by code_simp
  moreover have "nested_main (0x1000, 0x10000, 1) (0x2000, 0x40000, 2) (0x3000, 0x70000, 3) start0 = ret t'"
    using t'(1) unfolding l by (simp add: nested_main_def nested_chain nested_chain(2) [unfolded One_nat_def])
  ultimately show ?thesis by blast
qed

end
