(* ===== verification/ThreadYield.thy ===== *)
theory ThreadYield
  imports ThreadTestsProps
begin

text \<open>
  Programs of the thread library whose threads yield to each other: \<open>test.c\<close> and the first part of \<open>test_many.c\<close>.
\<close>

section \<open>A crowd of threads\<close>

text \<open>Thread \<open>k\<close> of \<open>ps\<close> runs and the others are ready, in some order; none has exited.\<close>

definition crowd :: "u64 list \<Rightarrow> (nat \<Rightarrow> u64) \<Rightarrow> nat \<Rightarrow> sched \<Rightarrow> bool" where
  "crowd ps ids k s \<longleftrightarrow>
     sched_inv s \<and> master s \<notin> set ps \<and> running s = ps ! k \<and> set (ready_list s) = set ps - {ps ! k}
     \<and> blocked_list s = [] \<and> stopped s = NULL
     \<and> (\<forall>j < length ps. \<exists>t. threads s (ps ! j) = Some t \<and> t_id t = ids j)"

lemma down_crowd:
  assumes "down ps 0 ids s" and "distinct ps" and "ps \<noteq> []"
  shows "crowd ps ids 0 s"
proof -
  have "set (drop (Suc 0) ps) = set ps - {ps ! 0}" using assms(2,3) by (cases ps) auto
  moreover have "\<forall>j < length ps. \<exists>t. threads s (ps ! j) = Some t \<and> t_id t = ids j"
    using assms(1) unfolding down_def by blast
  ultimately show ?thesis using assms(1) by (simp add: down_def crowd_def)
qed

lemma crowd_ids:
  assumes c: "crowd ps ids k s" and ps: "distinct ps" and i: "i < length ps"
  shows "threads s (ps ! i) = Some t \<Longrightarrow> t_id t = ids i" and "ids i \<noteq> PET_MASTER_THREAD_ID" and "ps ! i \<noteq> NULL"
    and "j < length ps \<Longrightarrow> j \<noteq> i \<Longrightarrow> ids j \<noteq> ids i"
proof -
  have b: "base s" and ms: "master s \<notin> set ps" using c by (simp_all add: crowd_def leaving_def)
  have all: "\<exists>t. threads s (ps ! i) = Some t \<and> t_id t = ids i" if "i < length ps" for i using c that by (simp add: crowd_def)
  show "threads s (ps ! i) = Some t \<Longrightarrow> t_id t = ids i" using all [OF i] by auto
  have "ps ! i \<noteq> master s" using ms i by (metis nth_mem)
  then show "ids i \<noteq> PET_MASTER_THREAD_ID" using b all [OF i] unfolding base_def ids_unique_def by metis
  show "ps ! i \<noteq> NULL" using b all [OF i] by (auto simp: base_def)
  assume j: "j < length ps" "j \<noteq> i"
  then have "ps ! j \<noteq> ps ! i" using ps i by (simp add: nth_eq_iff_index_eq)
  then show "ids j \<noteq> ids i" using b all [OF i] all [OF j(1)] unfolding base_def ids_unique_def by metis
qed

lemma crowd_yield:
  assumes c: "crowd ps ids k s" and ps: "distinct ps" and k: "k < length ps" and j: "j < length ps" "j \<noteq> k"
  obtains s' where "pet_thread_yield_to (ids j) s = Inr s'" and "crowd ps ids j s'" and "master s' = master s"
proof -
  let ?a = "ps ! k" and ?b = "ps ! j"
  have inv: "sched_inv s" and ms: "master s \<notin> set ps" and r: "running s = ?a" and rl: "set (ready_list s) = set ps - {?a}"
    and bl: "blocked_list s = []" and st: "stopped s = NULL" using c by (simp_all add: crowd_def)
  have all: "\<exists>t. threads s (ps ! i) = Some t \<and> t_id t = ids i" if "i < length ps" for i using c that by (simp add: crowd_def)
  obtain ta where ta: "threads s ?a = Some ta" using all [OF k] by blast
  obtain tb where tb: "threads s ?b = Some tb" "t_id tb = ids j" using all [OF j(1)] by blast
  have ne: "?b \<noteq> ?a" using ps k j by (simp add: nth_eq_iff_index_eq)
  have m: "?a \<noteq> master s" "?b \<noteq> master s" using ms k j(1) by (metis nth_mem)+
  have br: "?b \<in> set (ready_list s)" using rl j(1) ne by simp
  have b: "base s" and rdy: "t_state tb = PET_THREAD_READY" and rn: "t_state ta = PET_THREAD_RUNNING"
    using inv br r ta tb(1) by (auto simp: leaving_def queues_ok_def has_state_def)
  have so: "stopped_ok s" by (simp add: stopped_ok_def st)
  have "visible s ?b" by (simp add: visible_def br)
  then have g: "get_thread s (ids j) = Inr ?b" using get_thread_visible [OF b so _ tb(1)] tb(2) by simp
  have nz: "?b \<noteq> NULL" using b tb(1) by (auto simp: base_def)
  have cs: "can_switch ?b s" by (rule leaving_can_switch [OF inv]) (simp_all add: br)
  have "thread_invoker ?b s = Inr (switched ?b s)" by (rule invoker_effect(2) [OF cs]) (simp add: so)
  then have y: "pet_thread_yield_to (ids j) s = Inr (switched ?b s)"
    using g tb(1) rdy nz by (simp add: pet_thread_yield_to_def yield_to_thread_def)
  note sel = switched_sel [OF tb(1), of ta, unfolded r, OF ta ne]
  have "distinct (ready_list s)" using b by (simp add: base_def)
  moreover have rls: "ready_list (switched ?b s) = remove1 ?b (ready_list s) @ [?a]" using rn m(1) by (simp add: sel)
  ultimately have "set (ready_list (switched ?b s)) = insert ?a (set ps - {?a} - {?b})" by (simp add: rl)
  also have "\<dots> = set ps - {?b}" using ne nth_mem [OF k] by blast
  finally have "set (ready_list (switched ?b s)) = set ps - {?b}" .
  moreover have "sched_inv (switched ?b s)" by (rule switched_inv [OF inv]) (simp_all add: br)
  moreover have "\<exists>t. threads (switched ?b s) (ps ! i) = Some t \<and> t_id t = ids i" if "i < length ps" for i
    using all [OF that] ta tb(1) rn by (auto simp: sel)
  ultimately have "crowd ps ids j (switched ?b s)" using ms bl st rn by (simp add: crowd_def sel)
  then show ?thesis using that [OF y] by (simp add: sel)
qed

section \<open>Turns\<close>

text \<open>The threads of a crowd with what each has still to do.\<close>

definition at_turn :: "u64 list \<Rightarrow> nat \<Rightarrow> (nat \<Rightarrow> item list) \<Rightarrow> tests \<Rightarrow> bool" where
  "at_turn ps k f t \<longleftrightarrow>
     distinct ps \<and> k < length ps \<and> crowd ps (test_thread t) k (sch t) \<and> (\<forall>j < length ps. code t (ps ! j) = f j)"

lemma at_turn_cong: "at_turn ps k f t \<Longrightarrow> (\<And>j. j < length ps \<Longrightarrow> f j = g j) \<Longrightarrow> at_turn ps k g t"
  by (simp add: at_turn_def)

lemma at_turn_running:
  assumes "at_turn ps k f t"
  shows "running (sch t) = ps ! k" and "running (sch t) \<noteq> master (sch t)" and "code t (running (sch t)) = f k"
proof -
  show r: "running (sch t) = ps ! k" using assms by (simp add: at_turn_def crowd_def)
  have "ps ! k \<in> set ps" "master (sch t) \<notin> set ps" using assms by (simp_all add: at_turn_def crowd_def)
  then show "running (sch t) \<noteq> master (sch t)" using r by auto
  show "code t (running (sch t)) = f k" unfolding r using assms by (simp add: at_turn_def)
qed

lemma turn_print:
  assumes a: "at_turn ps k f t" and f: "f k = Print l i # xs"
  obtains t' where "run_threads t = run_threads t'" and "at_turn ps k (f(k := xs)) t'" and "out t' = out t @ [Line l i]"
    and "master (sch t') = master (sch t)"
proof -
  note r = at_turn_running [OF a]
  let ?t = "t\<lparr>code := (code t)(ps ! k := xs), out := out t @ [Line l i]\<rparr>"
  have "run_threads t = run_threads ?t" using run_prints [OF r(2), of "[Print l i]" xs] r f by simp
  moreover have "at_turn ps k (f(k := xs)) ?t" using a by (auto simp: at_turn_def nth_eq_iff_index_eq)
  ultimately show ?thesis using that by simp
qed

lemma turn_yield:
  assumes a: "at_turn ps k f t" and f: "f k = YieldTo j # xs" and j: "j < length ps" "j \<noteq> k"
  obtains t' where "run_threads t = run_threads t'" and "at_turn ps j (f(k := xs)) t'" and "out t' = out t"
    and "master (sch t') = master (sch t)"
proof -
  note r = at_turn_running [OF a]
  have c: "crowd ps (test_thread t) k (sch t)" "distinct ps" "k < length ps" using a by (simp_all add: at_turn_def)
  obtain s' where s': "pet_thread_yield_to (test_thread t j) (sch t) = Inr s'" "crowd ps (test_thread t) j s'" "master s' = master (sch t)"
    by (rule crowd_yield [OF c j])
  let ?t = "t\<lparr>code := (code t)(ps ! k := xs), sch := s'\<rparr>"
  have "thread_exec t = Inr ?t" using r f s'(1) by (cases t) (simp add: thread_exec_def Let_def)
  then have "run_threads t = run_threads ?t" by (rule run_step [OF r(2)])
  moreover have "at_turn ps j (f(k := xs)) ?t" using a s'(2) j by (auto simp: at_turn_def nth_eq_iff_index_eq)
  ultimately show ?thesis using that s'(3) by simp
qed

lemma turn_print_yield:
  assumes a: "at_turn ps k f t" and f: "f k = Print l i # YieldTo j # xs" and j: "j < length ps" "j \<noteq> k"
  obtains t' where "run_threads t = run_threads t'" and "at_turn ps j (f(k := xs)) t'" and "out t' = out t @ [Line l i]"
    and "master (sch t') = master (sch t)"
proof -
  obtain u where u: "run_threads t = run_threads u" "at_turn ps k (f(k := YieldTo j # xs)) u" "out u = out t @ [Line l i]"
    "master (sch u) = master (sch t)" by (rule turn_print [OF a f])
  have "(f(k := YieldTo j # xs)) k = YieldTo j # xs" by simp
  from turn_yield [OF u(2) this j] obtain w where w: "run_threads u = run_threads w"
    "at_turn ps j ((f(k := YieldTo j # xs))(k := xs)) w" "out w = out u" "master (sch w) = master (sch u)" .
  then show ?thesis using that [of w] u by simp
qed

section \<open>Sweeps\<close>

text \<open>
  A cycle of \<open>test_yield\<close>, for any number of threads: a line and a yield to the next thread, a line and a
  yield to the one before.
\<close>

definition sweep_to :: "nat \<Rightarrow> nat \<Rightarrow> item list" where
  "sweep_to n k = Print (k + 1) 0 # (if k < n - 1 then [YieldTo (k + 1)] else [])"

definition sweep_fro :: "nat \<Rightarrow> item list" where
  "sweep_fro k = Print (k + 1) 0 # (if 0 < k then [YieldTo (k - 1)] else [])"

definition sweep_lines :: "nat list \<Rightarrow> event list" where
  "sweep_lines ks = map (\<lambda>k. Line (k + 1) 0) ks"

lemma sweep_down:
  assumes "at_turn ps k (\<lambda>j. if j < k then R j else sweep_to (length ps) j @ R j) t"
  shows "\<exists>t'. run_threads t = run_threads t' \<and> at_turn ps (length ps - 1) R t'
           \<and> out t' = out t @ sweep_lines [k..<length ps] \<and> master (sch t') = master (sch t)"
  using assms
proof (induction "length ps - Suc k" arbitrary: k t)
  case d: 0
  let ?f = "\<lambda>j. if j < k then R j else sweep_to (length ps) j @ R j"
  have k: "Suc k = length ps" using d by (simp add: at_turn_def)
  then have "?f k = Print (k + 1) 0 # R k" by (simp add: sweep_to_def flip: k)
  from turn_print [OF d(2) this] obtain t' where t': "run_threads t = run_threads t'" "at_turn ps k (?f(k := R k)) t'"
    "out t' = out t @ [Line (k + 1) 0]" "master (sch t') = master (sch t)" .
  moreover have "at_turn ps k R t'" by (rule at_turn_cong [OF t'(2)]) (simp flip: k)
  moreover have "[k..<length ps] = [k]" "length ps - 1 = k" by (simp_all flip: k)
  ultimately show ?case by (intro exI [of _ t']) (simp add: sweep_lines_def)
next
  case (Suc d)
  let ?f = "\<lambda>j. if j < k then R j else sweep_to (length ps) j @ R j"
  have k: "Suc k < length ps" using Suc.hyps(2) by simp
  then have "?f k = Print (k + 1) 0 # YieldTo (Suc k) # R k" by (simp add: sweep_to_def)
  from turn_print_yield [OF Suc.prems this k] obtain u where u: "run_threads t = run_threads u" "at_turn ps (Suc k) (?f(k := R k)) u"
    "out u = out t @ [Line (k + 1) 0]" "master (sch u) = master (sch t)" by auto
  have "d = length ps - Suc (Suc k)" using Suc.hyps(2) by simp
  moreover have "at_turn ps (Suc k) (\<lambda>j. if j < Suc k then R j else sweep_to (length ps) j @ R j) u"
    by (rule at_turn_cong [OF u(2)]) (simp add: less_Suc_eq)
  ultimately obtain w where "run_threads u = run_threads w" "at_turn ps (length ps - 1) R w"
    "out w = out u @ sweep_lines [Suc k..<length ps]" "master (sch w) = master (sch u)" using Suc.hyps(1) by blast
  moreover have "[k..<length ps] = k # [Suc k..<length ps]" using k by (simp add: upt_conv_Cons)
  ultimately show ?case using u by (intro exI [of _ w]) (simp add: sweep_lines_def)
qed

lemma sweep_up:
  assumes "at_turn ps k (\<lambda>j. if j \<le> k then sweep_fro j @ R j else R j) t"
  shows "\<exists>t'. run_threads t = run_threads t' \<and> at_turn ps 0 R t'
           \<and> out t' = out t @ sweep_lines (rev [0..<Suc k]) \<and> master (sch t') = master (sch t)"
  using assms
proof (induction k arbitrary: t)
  case (0 t)
  let ?f = "\<lambda>j. if j \<le> 0 then sweep_fro j @ R j else R j"
  have "?f 0 = Print 1 0 # R 0" by (simp add: sweep_fro_def)
  from turn_print [OF 0 this] obtain t' where t': "run_threads t = run_threads t'" "at_turn ps 0 (?f(0 := R 0)) t'"
    "out t' = out t @ [Line 1 0]" "master (sch t') = master (sch t)" .
  moreover have "at_turn ps 0 R t'" by (rule at_turn_cong [OF t'(2)]) simp
  ultimately show ?case by (intro exI [of _ t']) (simp add: sweep_lines_def)
next
  case (Suc k t)
  let ?f = "\<lambda>j. if j \<le> Suc k then sweep_fro j @ R j else R j"
  have f: "?f (Suc k) = Print (k + 2) 0 # YieldTo k # R (Suc k)" by (simp add: sweep_fro_def)
  have k: "k < length ps" using Suc.prems by (simp add: at_turn_def)
  from turn_print_yield [OF Suc.prems f k] obtain u where u: "run_threads t = run_threads u"
    "at_turn ps k (?f(Suc k := R (Suc k))) u" "out u = out t @ [Line (k + 2) 0]" "master (sch u) = master (sch t)" by auto
  have "at_turn ps k (\<lambda>j. if j \<le> k then sweep_fro j @ R j else R j) u"
    by (rule at_turn_cong [OF u(2)]) (auto simp: le_Suc_eq)
  from Suc.IH [OF this] obtain w where "run_threads u = run_threads w" "at_turn ps 0 R w"
    "out w = out u @ sweep_lines (rev [0..<Suc k])" "master (sch w) = master (sch u)" by blast
  then show ?case using u by (intro exI [of _ w]) (simp add: sweep_lines_def)
qed

definition sweeps :: "nat \<Rightarrow> nat \<Rightarrow> nat \<Rightarrow> item list" where
  "sweeps n c k = concat (replicate c (sweep_to n k @ sweep_fro k)) @ [Return 0]"

lemma sweep_cycles:
  assumes "at_turn ps 0 (sweeps (length ps) c) t"
  shows "\<exists>t'. run_threads t = run_threads t' \<and> at_turn ps 0 (\<lambda>_. [Return 0]) t'
           \<and> out t' = out t @ concat (replicate c (sweep_lines ([0..<length ps] @ rev [0..<length ps])))
           \<and> master (sch t') = master (sch t)"
  using assms
proof (induction c arbitrary: t)
  case 0
  then show ?case by (auto simp: sweeps_def elim: at_turn_cong)
next
  case (Suc c)
  let ?R = "sweeps (length ps) c"
  have n: "Suc (length ps - 1) = length ps" using Suc.prems by (auto simp: at_turn_def)
  have "at_turn ps 0 (\<lambda>j. if j < 0 then sweep_fro j @ ?R j else sweep_to (length ps) j @ sweep_fro j @ ?R j) t"
    by (rule at_turn_cong [OF Suc.prems]) (simp add: sweeps_def)
  from sweep_down [OF this] obtain u where u: "run_threads t = run_threads u" "at_turn ps (length ps - 1) (\<lambda>j. sweep_fro j @ ?R j) u"
    "out u = out t @ sweep_lines [0..<length ps]" "master (sch u) = master (sch t)" by blast
  have "at_turn ps (length ps - 1) (\<lambda>j. if j \<le> length ps - 1 then sweep_fro j @ ?R j else ?R j) u"
    by (rule at_turn_cong [OF u(2)]) auto
  from sweep_up [OF this] obtain v where v: "run_threads u = run_threads v" "at_turn ps 0 ?R v"
    "out v = out u @ sweep_lines (rev [0..<length ps])" "master (sch v) = master (sch u)" unfolding n by blast
  from Suc.IH [OF v(2)] obtain w where "run_threads v = run_threads w" "at_turn ps 0 (\<lambda>_. [Return 0]) w"
    "out w = out v @ concat (replicate c (sweep_lines ([0..<length ps] @ rev [0..<length ps])))"
    "master (sch w) = master (sch v)" by blast
  then show ?case using u v by (intro exI [of _ w]) (simp add: sweep_lines_def)
qed

section \<open>Everybody returns\<close>

lemma exit_unjoined:
  assumes inv: "sched_inv s" and m: "running s \<noteq> master s" and bl: "blocked_list s = []"
  obtains s' where "pet_thread_exit v s = Inr s'" and "sched_inv s'" and "blocked_list s' = []" and "master s' = master s"
    and "ready_list s' = tl (ready_list s)" and "running s' = (case ready_list s of [] \<Rightarrow> master s | p # _ \<Rightarrow> p)"
    and "stopped s' = running s" and "threads s' (running s) = None"
    and "\<And>p t. threads s' p = Some t \<Longrightarrow> \<exists>t0. threads s p = Some t0 \<and> t_id t = t_id t0"
proof -
  let ?q = "quarantined v s"
  define z where "z = switched (next_thread ?q) ?q"
  have w: "waiters s (running s) = []" using inv_waiters(2) [OF inv, of "running s"] bl by simp
  note ef = exit_effect [OF inv m, of v, folded z_def] and et = exit_threads [OF inv m, where v = v, folded z_def]
  obtain r where r: "threads s (running s) = Some r" using inv by (auto simp: leaving_def base_def)
  note qt = quarantined_threads [OF r inv_waiters(3) [OF inv], of v, unfolded w]
  have q: "threads ?q (running ?q) = Some (r\<lparr>t_waiting := Some [], t_state := PET_THREAD_STOPPED\<rparr>)" by (simp add: qt)
  then have "blocked_list z = []" by (simp add: z_def switched_def Let_def w bl)
  moreover have "can_switch (next_thread ?q) ?q"
    by (rule leaving_can_switch [OF quarantined_leaving [OF inv m]]) (auto simp: next_thread_def m w split: list.split)
  then obtain u where u: "threads ?q (next_thread ?q) = Some u" by (auto simp: can_switch_def)
  then have "\<exists>t0. threads s p = Some t0 \<and> t_id t = t_id t0" if "threads z p = Some t" for p t
    using that q r by (auto simp: z_def switched_def Let_def qt split: if_splits)
  moreover have "running z = (case ready_list s of [] \<Rightarrow> master s | p # _ \<Rightarrow> p)" "master z = master s"
    by (simp_all add: z_def switched_def Let_def next_thread_def w split: list.split)
  ultimately show ?thesis using that [of z] ef et(1,2,6) w by simp
qed

lemma all_return:
  assumes "sched_inv (sch t)" and "running (sch t) \<noteq> master (sch t)" and "blocked_list (sch t) = []"
    and "\<forall>p \<in> insert (running (sch t)) (set (ready_list (sch t))). code t p = [Return 0]"
  shows "\<exists>t'. run_threads t = ret t' \<and> sched_inv (sch t') \<and> running (sch t') = master (sch t) \<and> master (sch t') = master (sch t)
           \<and> ready_list (sch t') = [] \<and> blocked_list (sch t') = [] \<and> out t' = out t
           \<and> stopped (sch t') \<in> insert (running (sch t)) (set (ready_list (sch t)))"
  using assms
proof (induction "ready_list (sch t)" arbitrary: t)
  case Nil
  let ?p = "running (sch t)"
  obtain s' where s': "pet_thread_exit 0 (sch t) = Inr s'" "sched_inv s'" "blocked_list s' = []" "master s' = master (sch t)"
    "ready_list s' = []" "running s' = master (sch t)" "stopped s' = ?p"
    using exit_unjoined [OF Nil.prems(1-3), of 0] Nil.hyps by (metis list.simps(4) list.sel(2))
  have "code t ?p = [Return 0]" using Nil.prems(4) by simp
  then have "run_threads t = ret (t\<lparr>code := (code t)(?p := []), sch := s'\<rparr>)"
    using run_return [OF Nil.prems(2) _ s'(1)] s'(4,6) by (simp add: run_threads_done)
  then show ?case using s' by simp
next
  case (Cons p ps)
  let ?p = "running (sch t)"
  obtain s' where s': "pet_thread_exit 0 (sch t) = Inr s'" "sched_inv s'" "blocked_list s' = []" "master s' = master (sch t)"
    "ready_list s' = ps" "running s' = p"
    using exit_unjoined [OF Cons.prems(1-3), of 0] Cons.hyps(2) by (metis list.simps(5) list.sel(3))
  let ?t = "t\<lparr>code := (code t)(?p := []), sch := s'\<rparr>"
  have q: "?p \<notin> set (p # ps)" "p \<noteq> master (sch t)"
    using Cons.prems(1) unfolding leaving_def queues_ok_def Cons.hyps(2) [symmetric] by auto
  have "code t ?p = [Return 0]" using Cons.prems(4) by simp
  then have r: "run_threads t = run_threads ?t" by (rule run_return [OF Cons.prems(2) _ s'(1)])
  have "\<forall>x \<in> insert (running (sch ?t)) (set (ready_list (sch ?t))). code ?t x = [Return 0]"
    using Cons.prems(4) q(1) s'(5,6) unfolding Cons.hyps(2) [symmetric] by auto
  moreover have "ps = ready_list (sch ?t)" "sched_inv (sch ?t)" "running (sch ?t) \<noteq> master (sch ?t)" "blocked_list (sch ?t) = []"
    using s' q(2) by simp_all
  ultimately obtain t' where t': "run_threads ?t = ret t'" "sched_inv (sch t')" "running (sch t') = master (sch ?t)"
    "master (sch t') = master (sch ?t)" "ready_list (sch t') = []" "blocked_list (sch t') = []" "out t' = out ?t"
    "stopped (sch t') \<in> insert (running (sch ?t)) (set (ready_list (sch ?t)))" using Cons.hyps(1) [of ?t] by blast
  have "stopped (sch t') \<in> insert ?p (set (ready_list (sch t)))" using t'(8) s'(5,6) by (auto simp flip: Cons.hyps(2))
  then show ?case using t'(1-7) s'(4) r by (intro exI [of _ t']) simp
qed

section \<open>Programs of yielding threads\<close>

lemma main_at_turn:
  assumes "sch t = boot m" and "distinct (m # ps)" and "NULL \<notin> set (m # ps)" and "ps \<noteq> []" and "length ps < 0x7FFFFFFE"
    and "\<And>k. k < length ps \<Longrightarrow> B k \<noteq> NULL"
  obtains u where "main_program (map (\<lambda>k. (ps ! k, B k, F k, X k)) [0..<length ps]) t = run_threads u"
    and "at_turn ps 0 X u" and "master (sch u) = m" and "out u = out t"
proof -
  let ?cs = "map (\<lambda>k. (ps ! k, B k, F k, X k)) [0..<length ps]"
  have d: "distinct ps" using assms(2) by simp
  have fs: "map fst ?cs = ps" by (simp add: comp_def map_nth)
  have cs: "?cs \<noteq> []" "length ?cs < 0x7FFFFFFE" "\<forall>c \<in> set ?cs. fst (snd c) \<noteq> NULL" using assms(4-6) by auto
  obtain u where u: "main_program ?cs t = run_threads u" "down ps 0 (test_thread u) (sch u)" "master (sch u) = m" "out u = out t"
    "code u = (\<lambda>q. case map_of (map (\<lambda>(p, sb, f, x). (p, x)) ?cs) q of None \<Rightarrow> code t q | Some x \<Rightarrow> x)"
    by (rule main_starts [OF assms(1) _ _ cs, unfolded fs, OF assms(2,3)])
  have "code u (ps ! j) = X j" if "j < length ps" for j unfolding u(5) prog_of [OF d that] by simp
  then have "at_turn ps 0 X u" using d assms(4) down_crowd [OF u(2) d assms(4)] by (simp add: at_turn_def)
  then show ?thesis using that u by blast
qed

lemma test_yield_sweeps: "test_yield k = sweeps NUM_THREADS NUM_CYCLES k"
  by (simp add: test_yield_def sweeps_def sweep_to_def sweep_fro_def)

lemma yield_sweeps:
  assumes "sch t = boot m" and "distinct (m # ps)" and "NULL \<notin> set (m # ps)" and "ps \<noteq> []" and "length ps < 0x7FFFFFFE"
    and "\<And>k. k < length ps \<Longrightarrow> B k \<noteq> NULL"
  shows "\<exists>t'. main_program (map (\<lambda>k. (ps ! k, B k, F k, sweeps (length ps) c k)) [0..<length ps]) t = ret t'
           \<and> sched_inv (sch t') \<and> master (sch t') = m \<and> running (sch t') = m \<and> ready_list (sch t') = [] \<and> blocked_list (sch t') = []
           \<and> stopped (sch t') \<in> set ps \<and> (\<forall>p. threads (sch t') p \<noteq> None \<longleftrightarrow> p = m)
           \<and> out t' = out t @ concat (replicate c (sweep_lines ([0..<length ps] @ rev [0..<length ps])))"
proof -
  obtain u where u: "main_program (map (\<lambda>k. (ps ! k, B k, F k, sweeps (length ps) c k)) [0..<length ps]) t = run_threads u"
    "at_turn ps 0 (sweeps (length ps) c) u" "master (sch u) = m" "out u = out t" by (rule main_at_turn [OF assms])
  from sweep_cycles [OF u(2)] obtain v where v: "run_threads u = run_threads v" "at_turn ps 0 (\<lambda>_. [Return 0]) v"
    "out v = out u @ concat (replicate c (sweep_lines ([0..<length ps] @ rev [0..<length ps])))" "master (sch v) = m"
    unfolding u(3) by blast
  have cr: "crowd ps (test_thread v) 0 (sch v)" and cd: "\<forall>p \<in> set ps. code v p = [Return 0]" and "ps ! 0 \<in> set ps"
    using v(2) by (auto simp: at_turn_def in_set_conv_nth)
  then have "\<forall>p \<in> insert (running (sch v)) (set (ready_list (sch v))). code v p = [Return 0]" by (simp add: crowd_def)
  moreover have "sched_inv (sch v)" "blocked_list (sch v) = []" using cr by (simp_all add: crowd_def)
  ultimately obtain w where w: "run_threads v = ret w" "sched_inv (sch w)" "running (sch w) = m" "master (sch w) = m"
    "ready_list (sch w) = []" "blocked_list (sch w) = []" "out w = out v" "stopped (sch w) \<in> insert (running (sch v)) (set (ready_list (sch v)))"
    using all_return [OF _ at_turn_running(2) [OF v(2)]] v(4) by metis
  have "threads (sch w) p \<noteq> None \<longleftrightarrow> p = m" for p
    using w(2-6) unfolding leaving_def queues_ok_def base_def by auto
  moreover have "stopped (sch w) \<in> set ps" using w(8) cr \<open>ps ! 0 \<in> set ps\<close> by (auto simp: crowd_def)
  ultimately show ?thesis using u(1,4) v(1,3) w(1-7) by (intro exI [of _ w]) simp
qed

text \<open>
  The first part of \<open>test_many.c\<close> completes: with any number of threads (fewer than \<open>2 ^ 31 - 2\<close>) and
  of cycles in place of 20 and 4, control goes from the first thread to the last one and back, once
  per cycle, as the output shows, no call faults, and at the end the master runs and every thread is freed.
\<close>

theorem yield_sweeps_complete:
  assumes "sch t = boot m" and "distinct (m # ps)" and "NULL \<notin> set (m # ps)" and "ps \<noteq> []" and "length ps < 0x7FFFFFFE"
    and "\<And>k. k < length ps \<Longrightarrow> B k \<noteq> NULL"
  shows "\<exists>t'. main_program (map (\<lambda>k. (ps ! k, B k, F k, sweeps (length ps) c k)) [0..<length ps]) t = ret t'
           \<and> running (sch t') = m \<and> ready_list (sch t') = [] \<and> blocked_list (sch t') = []
           \<and> (\<forall>p. threads (sch t') p \<noteq> None \<longleftrightarrow> p = m)
           \<and> out t' = out t @ concat (replicate c (sweep_lines ([0..<length ps] @ rev [0..<length ps])))"
  using yield_sweeps [where B = B and F = F and c = c, OF assms(1-5)] assms(6) by blast

theorem yield_sweeps_complete_witness:
  "\<exists>t'. main_program (map (\<lambda>k. (0x1000 * (of_nat k + 1), 0x100000, 1, test_yield k)) [0..<NUM_THREADS]) start0 = ret t'
      \<and> out t' = concat (replicate NUM_CYCLES (sweep_lines ([0..<NUM_THREADS] @ rev [0..<NUM_THREADS])))"
proof -
  let ?ps = "map (\<lambda>k. 0x1000 * (of_nat k + 1)) [0..<20] :: u64 list"
  have "distinct (0x601000 # ?ps)" "NULL \<notin> set (0x601000 # ?ps)" by code_simp+
  moreover have "sch start0 = boot 0x601000" "?ps \<noteq> []" "length ?ps < 0x7FFFFFFE" by (simp_all add: start0_def)
  ultimately obtain t' where t': "main_program (map (\<lambda>k. (?ps ! k, 0x100000, 1, sweeps (length ?ps) NUM_CYCLES k)) [0..<length ?ps]) start0 = ret t'"
    "out t' = out start0 @ concat (replicate NUM_CYCLES (sweep_lines ([0..<length ?ps] @ rev [0..<length ?ps])))"
    using yield_sweeps_complete [of start0 "0x601000" ?ps "\<lambda>_. 0x100000" "\<lambda>_. 1" NUM_CYCLES] by auto
  have l: "length ?ps = NUM_THREADS" by (simp add: NUM_THREADS_def)
  have "map (\<lambda>k. (?ps ! k, 0x100000 :: u64, 1 :: u64, sweeps NUM_THREADS NUM_CYCLES k)) [0..<NUM_THREADS]
      = map (\<lambda>k. (0x1000 * (of_nat k + 1), 0x100000, 1, test_yield k)) [0..<NUM_THREADS]"
    by (simp add: NUM_THREADS_def test_yield_sweeps)
  moreover have "out start0 = []" by (simp add: start0_def)
  ultimately show ?thesis using t' unfolding l by (intro exI [of _ t']) (simp only: append_Nil)
qed

section \<open>The test of yielding\<close>

text \<open>Thread 1 of two returns: the other one goes on, and its next look at the list of threads reads freed memory.\<close>

definition turns :: "nat \<Rightarrow> nat \<Rightarrow> nat \<Rightarrow> nat \<Rightarrow> item list" where
  "turns k x j n = concat (map (\<lambda>i. [Print k i, YieldTo x]) [j..<n]) @ [Return 0]"

lemma turns_simps: "j < n \<Longrightarrow> turns k x j n = Print k j # YieldTo x # turns k x (Suc j) n" "turns k x n n = [Return 0]"
  by (simp_all add: turns_def upt_conv_Cons)

definition pair_turns :: "nat \<Rightarrow> nat \<Rightarrow> nat \<Rightarrow> nat \<Rightarrow> item list" where
  "pair_turns i n n' k = (if k = 0 then turns 1 1 i n' else turns 2 0 i n)"

lemma pair_rounds:
  assumes "at_turn ps 0 (pair_turns i n n') t" and "length ps = 2" and "i \<le> n" and "n \<le> n'"
  shows "\<exists>t'. run_threads t = run_threads t' \<and> at_turn ps 0 (pair_turns n n n') t'"
  using assms
proof (induction "n - i" arbitrary: i t)
  case 0
  then show ?case by auto
next
  case (Suc d)
  have i: "i < n" "i < n'" using Suc.hyps(2) Suc.prems(4) by simp_all
  have f: "pair_turns i n n' 0 = Print 1 i # YieldTo 1 # turns 1 1 (Suc i) n'"
    using i by (simp add: pair_turns_def turns_simps)
  obtain u where u: "run_threads t = run_threads u" "at_turn ps 1 ((pair_turns i n n')(0 := turns 1 1 (Suc i) n')) u"
    by (rule turn_print_yield [OF Suc.prems(1) f]) (simp_all add: Suc.prems(2))
  have g: "((pair_turns i n n')(0 := turns 1 1 (Suc i) n')) 1 = Print 2 i # YieldTo 0 # turns 2 0 (Suc i) n"
    using i by (simp add: pair_turns_def turns_simps)
  have z: "0 < length ps" "(0 :: nat) \<noteq> 1" using Suc.prems(2) by simp_all
  obtain w where w: "run_threads u = run_threads w"
    "at_turn ps 0 ((pair_turns i n n')(0 := turns 1 1 (Suc i) n', 1 := turns 2 0 (Suc i) n)) w"
    using turn_print_yield [OF u(2) g z] by blast
  have "at_turn ps 0 (pair_turns (Suc i) n n') w"
    by (rule at_turn_cong [OF w(2)]) (auto simp: pair_turns_def Suc.prems(2) less_2_cases_iff)
  from Suc.hyps(1) [OF _ this] show ?case using Suc.hyps(2) Suc.prems(2,4) u(1) w(1) by simp
qed

lemma distinct_singleton: "distinct xs \<Longrightarrow> set xs = {a} \<Longrightarrow> xs = [a]"
  by (cases xs; cases "tl xs") auto

lemma pair_ends:
  assumes a: "at_turn ps 0 (pair_turns n n n') t" and l: "length ps = 2" and n: "Suc n < n'"
  shows "run_threads t = fail (UseAfterFree (ps ! 1))"
proof -
  let ?xs = "Print 1 (Suc n) # YieldTo 1 # turns 1 1 (Suc (Suc n)) n'"
  have f: "pair_turns n n n' 0 = Print 1 n # YieldTo 1 # ?xs" using n by (simp add: pair_turns_def turns_simps)
  obtain u where u: "run_threads t = run_threads u" "at_turn ps 1 ((pair_turns n n n')(0 := ?xs)) u"
    by (rule turn_print_yield [OF a f]) (simp_all add: l)
  have c: "crowd ps (test_thread u) 1 (sch u)" and d: "distinct ps" and cd: "code u (ps ! 0) = ?xs" "code u (ps ! 1) = [Return 0]"
    using u(2) l by (simp_all add: at_turn_def pair_turns_def turns_simps)
  note r = at_turn_running [OF u(2)]
  have inv: "sched_inv (sch u)" and bl: "blocked_list (sch u) = []" and rl: "set (ready_list (sch u)) = set ps - {ps ! 1}"
    and ms: "master (sch u) \<notin> set ps" using c by (simp_all add: crowd_def)
  have ne: "ps ! 0 \<noteq> ps ! 1" using d l by (simp add: nth_eq_iff_index_eq)
  obtain p q where "ps = [p, q]" using l by (auto simp: numeral_2_eq_2 length_Suc_conv)
  then have "set (ready_list (sch u)) = {ps ! 0}" unfolding rl using ne by auto
  moreover have "distinct (ready_list (sch u))" using inv by (simp add: leaving_def base_def)
  ultimately have rl: "ready_list (sch u) = [ps ! 0]" by (intro distinct_singleton)
  obtain s' where s': "pet_thread_exit 0 (sch u) = Inr s'" "sched_inv s'" "master s' = master (sch u)"
    "running s' = ps ! 0" "stopped s' = ps ! 1" "threads s' (ps ! 1) = None"
    "\<And>p x. threads s' p = Some x \<Longrightarrow> \<exists>y. threads (sch u) p = Some y \<and> t_id x = t_id y"
    by (rule exit_unjoined [OF inv r(2) bl, of 0, unfolded rl r(1)]) simp
  obtain x where x: "threads s' (ps ! 0) = Some x" using s'(2,4) by (auto simp: leaving_def base_def)
  have ids: "t_id x = test_thread u 0" "test_thread u 0 \<noteq> test_thread u 1" "test_thread u 1 \<noteq> PET_MASTER_THREAD_ID" "ps ! 1 \<noteq> NULL"
    using crowd_ids [OF c d] s'(7) [OF x] l by auto
  then have y: "pet_thread_yield_to (test_thread u 1) s' = Inl (UseAfterFree (ps ! 1))"
    using x s'(4-6) by (simp add: pet_thread_yield_to_def get_thread_def thread_at_def)
  let ?w = "u\<lparr>code := (code u)(ps ! 1 := []), sch := s'\<rparr>"
  have m0: "ps ! 0 \<noteq> master (sch u)" using ms l by (metis nth_mem zero_less_numeral)
  have "run_threads u = run_threads ?w" using run_return [of u 0 "[]" s'] r(1,2) cd(2) s'(1) by simp
  moreover have "run_threads ?w = run_threads (?w\<lparr>code := (code ?w)(ps ! 0 := tl ?xs), out := out u @ [Line 1 (Suc n)]\<rparr>)"
    using run_prints [of ?w "[Print 1 (Suc n)]" "tl ?xs"] m0 s'(3,4) cd(1) ne by simp
  moreover have "\<dots> = fail (UseAfterFree (ps ! 1))"
    using m0 s'(3,4) y by (simp add: run_threads.simps thread_exec_def)
  ultimately show ?thesis using u(1) by simp
qed

text \<open>
  The test of \<open>pet_thread_yield_to\<close> in \<open>test.c\<close> reads freed memory: the second thread returns after ten turns,
  and when the first one then looks it up to yield to it, the library reads the structure of the
  thread that has exited.
\<close>

theorem yield_test_reads_freed_thread:
  assumes "sch t = boot m" and "distinct [m, p1, p2]" and "NULL \<notin> {m, p1, p2}" and "b1 \<noteq> NULL" and "b2 \<noteq> NULL"
  shows "yield_main (p1, b1, f1) (p2, b2, f2) t = fail (UseAfterFree p2)"
proof -
  let ?ps = "[p1, p2]" and ?X = "pair_turns 0 10 20"
  have pre: "distinct (m # ?ps)" "NULL \<notin> set (m # ?ps)" "?ps \<noteq> []" "length ?ps < 0x7FFFFFFE" using assms by auto
  have b: "[b1, b2] ! k \<noteq> NULL" if "k < length ?ps" for k using that assms(4,5) by (auto simp: less_Suc_eq)
  obtain u where u: "main_program (map (\<lambda>k. (?ps ! k, [b1, b2] ! k, [f1, f2] ! k, ?X k)) [0..<length ?ps]) t = run_threads u"
    "at_turn ?ps 0 ?X u"
    by (rule main_at_turn [OF assms(1) pre, where B = "\<lambda>k. [b1, b2] ! k" and F = "\<lambda>k. [f1, f2] ! k" and X = ?X, OF b])
  moreover have "map (\<lambda>k. (?ps ! k, [b1, b2] ! k, [f1, f2] ! k, ?X k)) [0..<length ?ps]
      = [(p1, b1, f1, yield_func1), (p2, b2, f2, yield_func2)]"
    by (simp add: upt_rec pair_turns_def turns_def yield_func1_def yield_func2_def)
  moreover obtain w where "run_threads u = run_threads w" "at_turn ?ps 0 (pair_turns 10 10 20) w"
    using pair_rounds [OF u(2)] by auto
  ultimately show ?thesis using pair_ends [of ?ps 10 20 w] by (simp add: yield_main_def)
qed

theorem yield_test_reads_freed_thread_witness:
  "yield_main (0x1000, 0x10000, 1) (0x2000, 0x40000, 2) start0 = fail (UseAfterFree 0x2000)"
  by (rule yield_test_reads_freed_thread [of _ "0x601000"]) (simp_all add: start0_def)

end
