(* ===== verification/ThreadMany.thy ===== *)
theory ThreadMany
  imports ThreadYield
begin

text \<open>
  The main function of \<open>src/Threads/tests/test_many.c\<close>: when the threads that yield are done, it creates threads that
  join each other and runs them, without initialising the library again.
\<close>

section \<open>The program\<close>

text \<open>The addresses that \<open>malloc\<close> and \<open>calloc\<close> return for each thread, and that of its function.\<close>

definition many_threads :: "(u64 \<times> u64 \<times> u64) list \<Rightarrow> (nat \<Rightarrow> item list) \<Rightarrow> new_thread list" where
  "many_threads as prog = map (\<lambda>k. case as ! k of (p, b, f) \<Rightarrow> (p, b, f, prog k)) [0..<NUM_THREADS]"

definition many_joins :: "(u64 \<times> u64 \<times> u64) list \<Rightarrow> tests \<Rightarrow> tests run" where
  "many_joins as t =
     pbind (Some (create_threads (many_threads as test_nested_join) 0 t)) (\<lambda>t.
     pbind (Some (pet_thread_run (sch t))) (\<lambda>s. run_threads (t\<lparr>sch := s\<rparr>)))"

definition many_main :: "(u64 \<times> u64 \<times> u64) list \<Rightarrow> (u64 \<times> u64 \<times> u64) list \<Rightarrow> tests \<Rightarrow> tests run" where
  "many_main as bs t = pbind (main_program (many_threads as test_yield) t) (many_joins bs)"

section \<open>The number of threads created\<close>

text \<open>Only \<open>pet_thread_create\<close> gives out identifiers.\<close>

lemma cleanup_count: "pet_thread_cleanup i j s = Inr s' \<Longrightarrow> thread_id_count s' = thread_id_count s"
  by (auto simp: pet_thread_cleanup_def split: if_splits)

lemma list_count:
  "thread_list_del p s = Inr s' \<Longrightarrow> thread_id_count s' = thread_id_count s"
  "ready_add_tail p s = Inr s' \<Longrightarrow> thread_id_count s' = thread_id_count s"
  "blocked_add_tail p s = Inr s' \<Longrightarrow> thread_id_count s' = thread_id_count s"
  by (auto simp: thread_list_del_def ready_add_tail_def blocked_add_tail_def split: if_splits)

lemma invoker_count: "thread_invoker p s = Inr s' \<Longrightarrow> thread_id_count s' = thread_id_count s"
  by (auto simp: thread_invoker_def Let_def set_state_def dest!: cleanup_count list_count split: thread_run_state.splits if_splits)
    (metis thread_run_state.exhaust)+

lemma schedule_count: "pet_thread_schedule s = Inr s' \<Longrightarrow> thread_id_count s' = thread_id_count s"
  by (auto simp: pet_thread_schedule_def dest: invoker_count split: if_splits list.splits)

lemma yield_to_count: "pet_thread_yield_to i s = Inr s' \<Longrightarrow> thread_id_count s' = thread_id_count s"
  by (auto simp: pet_thread_yield_to_def yield_to_thread_def dest: invoker_count schedule_count split: if_splits)

lemma join_count: "pet_thread_join i b s = Inr (rc, s') \<Longrightarrow> thread_id_count s' = thread_id_count s"
  by (auto simp: pet_thread_join_def Let_def set_state_def dest!: schedule_count split: if_splits option.splits)

lemma wake_count: "wake_waiter v w s = Inr s' \<Longrightarrow> thread_id_count s' = thread_id_count s"
  by (auto simp: wake_waiter_def dest!: list_count)

lemma wake_all_count: "rfold (wake_waiter v) ws s = Inr s' \<Longrightarrow> thread_id_count s' = thread_id_count s"
  by (induction ws arbitrary: s) (auto dest: wake_count)

lemma exit_count: "pet_thread_exit v s = Inr s' \<Longrightarrow> thread_id_count s' = thread_id_count s"
  by (auto simp: pet_thread_exit_def quarantine_def Let_def set_state_def dest!: schedule_count wake_all_count split: option.splits)

lemma exec_count: "thread_exec t = Inr t' \<Longrightarrow> thread_id_count (sch t') = thread_id_count (sch t)"
  by (auto simp: thread_exec_def Let_def dest: yield_to_count join_count exit_count split: list.splits item.splits if_splits)

lemma run_count: "run_threads t = ret t' \<Longrightarrow> thread_id_count (sch t') = thread_id_count (sch t)"
proof -
  have "run_threads t = Some r \<Longrightarrow> \<forall>t'. r = Inr t' \<longrightarrow> thread_id_count (sch t') = thread_id_count (sch t)" for r
  proof (erule run_threads.raw_induct [rotated])
    fix f t r
    assume IH: "\<And>t r. f t = Some r \<Longrightarrow> \<forall>t'. r = Inr t' \<longrightarrow> thread_id_count (sch t') = thread_id_count (sch t)"
      and e: "(if running (sch t) = master (sch t) then ret t else pbind (Some (thread_exec t)) f) = Some r"
    show "\<forall>t'. r = Inr t' \<longrightarrow> thread_id_count (sch t') = thread_id_count (sch t)"
      using e IH by (cases "thread_exec t") (auto dest: exec_count split: if_splits)
  qed
  then show "run_threads t = ret t' \<Longrightarrow> thread_id_count (sch t') = thread_id_count (sch t)" by simp
qed

lemma create_count: "create_threads cs k t = Inr t' \<Longrightarrow> thread_id_count (sch t') = thread_id_count (sch t) + of_nat (length cs)"
proof (induction cs arbitrary: k t)
  case (Cons c cs)
  then show ?case by (cases c) (auto dest!: Cons.IH create_fields(2))
qed simp

lemma main_count:
  assumes "main_program cs t = ret t'"
  shows "thread_id_count (sch t') = thread_id_count (sch t) + of_nat (length cs)"
proof -
  obtain u where u: "create_threads cs 0 (t\<lparr>sch := pet_thread_init (sch t)\<rparr>) = Inr u"
    "pbind (Some (pet_thread_run (sch u))) (\<lambda>s. run_threads (u\<lparr>sch := s\<rparr>)) = ret t'"
    using assms by (cases "create_threads cs 0 (t\<lparr>sch := pet_thread_init (sch t)\<rparr>)") (simp_all add: main_program_def)
  then obtain s where s: "pet_thread_run (sch u) = Inr s" "run_threads (u\<lparr>sch := s\<rparr>) = ret t'"
    by (cases "pet_thread_run (sch u)") simp_all
  then show ?thesis using create_count [OF u(1)] run_count [OF s(2)] schedule_count [of "sch u" s]
    by (simp add: pet_thread_run_def pet_thread_init_def)
qed

section \<open>A switch by the master\<close>

text \<open>The master can hand over to a thread also when \<open>stopped\<close> dangles, since its own lookup does not use \<open>stopped\<close>.\<close>

lemma master_switches:
  assumes inv: "sched_inv s" and r: "running s = master s" and rl: "ready_list s = p # ps"
  shows "pet_thread_run s = Inr (switched p s)"
proof -
  have c: "can_switch p s" by (rule leaving_can_switch [OF inv]) (simp_all add: rl)
  then obtain t where t: "threads s p = Some t" "t_state t = PET_THREAD_READY" by (auto simp: can_switch_def)
  obtain mt where mt: "threads s (running s) = Some mt" "t_state mt = PET_THREAD_RUNNING" "t_id mt = PET_MASTER_THREAD_ID"
    using inv r by (auto simp: leaving_def has_state_def base_def)
  have a: "about_to_switch p s = switched p s" using after_switch [OF c mt(1)] mt(2) by simp
  have ne: "p \<noteq> running s" using t mt by auto
  have "thread_invoker p s = Inr (switched p s)"
    using r mt switched_sel(1,2) [OF t(1) mt(1) ne]
    unfolding invoker_about_to_switch [OF c mt(1) t(1)] a by (simp add: pet_thread_cleanup_def get_thread_def)
  then show ?thesis using t by (simp add: pet_thread_run_def pet_thread_schedule_def rl)
qed

text \<open>The first of the new threads looks up the second one.\<close>

lemma dangling_lookup:
  assumes cr: "created_ok st c (p # q # ps) t" and st: "st \<noteq> NULL" "st \<notin> set (p # q # ps)" "st \<noteq> master (sch t)"
  shows "pet_thread_join (test_thread t 1) True (switched p (sch t)) = Inl (UseAfterFree st)"
proof -
  let ?s = "sch t" and ?z = "switched p (sch t)"
  have inv: "sched_inv ?s" and r: "running ?s = master ?s" and rl: "ready_list ?s = p # q # ps" and so: "stopped ?s = st"
    and bl: "blocked_list ?s = []" using cr by (simp_all add: created_ok_def Let_def)
  have th: "\<exists>th. threads ?s ((p # q # ps) ! j) = Some th \<and> t_id th = test_thread t j" if "j < length (p # q # ps)" for j
    using cr that unfolding created_ok_def Let_def by blast
  obtain a b where a: "threads ?s p = Some a" "t_id a = test_thread t 0" and b: "threads ?s q = Some b" "t_id b = test_thread t 1"
    using th [of 0] th [of 1] by auto
  obtain mt where mt: "threads ?s (running ?s) = Some mt" "t_state mt = PET_THREAD_RUNNING" "t_id mt = PET_MASTER_THREAD_ID"
    using inv r by (auto simp: leaving_def has_state_def base_def)
  have u: "ids_unique ?s" and d: "p \<noteq> q" and m: "p \<noteq> running ?s" "q \<noteq> running ?s"
    using inv unfolding leaving_def queues_ok_def base_def by (auto simp: rl)
  have i: "test_thread t 1 \<noteq> PET_MASTER_THREAD_ID" "test_thread t 0 \<noteq> test_thread t 1"
    using ids_uniqueD [OF u b(1) mt(1)] ids_uniqueD [OF u a(1) b(1)] a(2) b(2) mt(3) d m by auto
  have n: "threads ?s st = None"
  proof (rule ccontr)
    assume "threads ?s st \<noteq> None"
    then have "st = running ?s \<or> st = master ?s \<or> st \<in> set (ready_list ?s @ blocked_list ?s)"
      using inv unfolding leaving_def queues_ok_def by blast
    then show False using st(2,3) by (simp add: r rl bl)
  qed
  note sel = switched_sel [OF a(1) mt(1) m(1)]
  have "threads ?z p = Some (a\<lparr>t_state := PET_THREAD_RUNNING\<rparr>)" "running ?z = p" "stopped ?z = st" "threads ?z st = None"
    using m(1) mt(2) n so st by (simp_all add: sel r)
  then have "get_thread ?z (test_thread t 1) = Inl (UseAfterFree st)"
    using i a(2) st(1) by (simp add: get_thread_def thread_at_def)
  then show ?thesis by (simp add: pet_thread_join_def)
qed

section \<open>The second part\<close>

lemma many_threads_map:
  assumes "length as = NUM_THREADS"
  shows "many_threads as X = map (\<lambda>k. (map fst as ! k, fst (snd (as ! k)), snd (snd (as ! k)), X k)) [0..<length (map fst as)]"
  unfolding many_threads_def using assms by (intro map_cong) (auto split: prod.split)

lemma many_joins_fault:
  assumes inv: "sched_inv (sch t)" and m: "running (sch t) = master (sch t)" and l: "ready_list (sch t) = []" "blocked_list (sch t) = []"
    and th: "\<And>p. threads (sch t) p \<noteq> None \<longleftrightarrow> p = master (sch t)" and cnt: "thread_id_count (sch t) = 21"
    and st: "stopped (sch t) \<noteq> NULL" "stopped (sch t) \<notin> set (map fst bs)" "stopped (sch t) \<noteq> master (sch t)"
    and d: "distinct (master (sch t) # map fst bs)" and nz: "NULL \<notin> set (map fst bs)" and n: "length bs = NUM_THREADS"
    and sb: "\<forall>b \<in> set bs. fst (snd b) \<noteq> NULL"
  shows "many_joins bs t = fail (UseAfterFree (stopped (sch t)))"
proof -
  let ?cs = "many_threads bs test_nested_join" and ?st = "stopped (sch t)"
  have "map fst ?cs = map fst bs"
    unfolding many_threads_map [OF n] by (simp only: map_map comp_def fst_conv map_nth)
  then have fs: "map fst ?cs = map fst bs" "length ?cs = 20" by (simp_all add: many_threads_def NUM_THREADS_def)
  have c0: "created_ok ?st 20 [] t" using inv m l cnt by (simp add: created_ok_def Let_def)
  have new: "fst c \<noteq> NULL \<and> fst (snd c) \<noteq> NULL \<and> threads (sch t) (fst c) = None" if "c \<in> set ?cs" for c
  proof -
    from that obtain k where k: "k < length bs" "fst c = fst (bs ! k)" "fst (snd c) = fst (snd (bs ! k))"
      unfolding many_threads_map [OF n] by auto
    then have "bs ! k \<in> set bs" by simp
    then have "fst c \<in> set (map fst bs)" "fst (snd c) \<noteq> NULL" using k sb by auto
    moreover have "master (sch t) \<notin> set (map fst bs)" using d by (metis distinct.simps(2))
    ultimately show ?thesis using nz th [of "fst c"] by metis
  qed
  have pre: "0 = length ([] :: u64 list)" "20 + length ([] :: u64 list) + length ?cs < 0x7FFFFFFF" "distinct (map fst ?cs)"
    using d by (simp_all add: fs)
  obtain u where u: "create_threads ?cs 0 t = Inr u" "created_ok ?st 20 (map fst bs) u" "master (sch u) = master (sch t)"
    "code u = (\<lambda>q. case map_of (map (\<lambda>(p, sb, f, x). (p, x)) ?cs) q of None \<Rightarrow> code t q | Some x \<Rightarrow> x)"
    using create_threads_ok [OF c0 pre(1,2,3)] new by (auto simp: fs)
  obtain p q ps where bs: "map fst bs = p # q # ps" using n
    by (cases bs; cases "tl bs") (auto simp: NUM_THREADS_def)
  have cp: "code u p = [Print 1 0, Join 1, Print 1 0, Return 0]"
    using prog_of [of "map fst bs" 0 "\<lambda>k. fst (snd (bs ! k))" "\<lambda>k. snd (snd (bs ! k))" test_nested_join] d n
    unfolding u(4) many_threads_map [OF n] bs by (simp add: test_nested_join_def NUM_THREADS_def)
  have cu: "created_ok ?st 20 (p # q # ps) u" using u(2) by (simp only: bs)
  let ?s = "switched p (sch u)"
  have i: "sched_inv (sch u)" "running (sch u) = master (sch u)" "ready_list (sch u) = p # q # ps"
    using cu by (simp_all add: created_ok_def Let_def)
  have sw: "pet_thread_run (sch u) = Inr ?s" by (rule master_switches [OF i])
  have j: "pet_thread_join (test_thread u 1) True ?s = Inl (UseAfterFree ?st)"
    by (rule dangling_lookup [OF cu st(1)]) (use st(2,3) u(3) in \<open>simp_all add: bs\<close>)
  have pm: "p \<noteq> master (sch u)" using d u(3) by (auto simp: bs)
  have z: "running ?s = p" "master ?s = master (sch u)" by (simp_all add: switched_def Let_def)
  let ?u = "u\<lparr>sch := ?s\<rparr>"
  have "run_threads ?u = run_threads (?u\<lparr>code := (code u)(p := [Join 1, Print 1 0, Return 0]), out := out u @ [Line 1 0]\<rparr>)"
    using run_prints [of ?u "[Print 1 0]" "[Join 1, Print 1 0, Return 0]"] cp pm z by simp
  also have "\<dots> = fail (UseAfterFree ?st)"
    using j pm z by (simp add: run_threads.simps thread_exec_def Let_def)
  finally show ?thesis using u(1) sw by (simp add: many_joins_def)
qed

text \<open>The first part, up to the return of \<open>pet_thread_run\<close>.\<close>

lemma yields_part:
  assumes "sch t = boot m" and "length as = NUM_THREADS" and "distinct (m # map fst as)" and "NULL \<notin> set (m # map fst as)"
    and "\<forall>a \<in> set as. fst (snd a) \<noteq> NULL"
  shows "\<exists>t'. main_program (many_threads as test_yield) t = ret t' \<and> sched_inv (sch t') \<and> master (sch t') = m \<and> running (sch t') = m
           \<and> ready_list (sch t') = [] \<and> blocked_list (sch t') = [] \<and> stopped (sch t') \<in> set (map fst as)
           \<and> (\<forall>p. threads (sch t') p \<noteq> None \<longleftrightarrow> p = m)
           \<and> out t' = out t @ concat (replicate NUM_CYCLES (sweep_lines ([0..<NUM_THREADS] @ rev [0..<NUM_THREADS])))"
proof -
  let ?ps = "map fst as"
  have ps: "?ps \<noteq> []" "length ?ps < 0x7FFFFFFE" "length ?ps = NUM_THREADS" using assms(2) by (auto simp: NUM_THREADS_def)
  have B: "fst (snd (as ! k)) \<noteq> NULL" if "k < length ?ps" for k using that assms(5) by simp
  have "many_threads as test_yield
      = map (\<lambda>k. (?ps ! k, fst (snd (as ! k)), snd (snd (as ! k)), sweeps (length ?ps) NUM_CYCLES k)) [0..<length ?ps]"
    unfolding many_threads_map [OF assms(2)] ps(3) by (simp add: test_yield_sweeps)
  then show ?thesis
    using yield_sweeps [where B = "\<lambda>k. fst (snd (as ! k))" and F = "\<lambda>k. snd (snd (as ! k))" and c = NUM_CYCLES,
      OF assms(1,3,4) ps(1,2) B] unfolding ps(3) by simp
qed

text \<open>
  C13: the first part of the test with many threads completes.  Control goes from the first thread to the
  last one and back by calls of \<open>pet_thread_yield_to\<close>, once per cycle, as the output shows; no call faults,
  and at the end the master runs and every thread has been freed.  The hypotheses say that the library
  starts from its initial state and that \<open>malloc\<close> and \<open>calloc\<close> return different addresses, none of them null.
\<close>

theorem many_yields_complete:
  assumes "sch t = boot m" and "length as = NUM_THREADS" and "distinct (m # map fst as)" and "NULL \<notin> set (m # map fst as)"
    and "\<forall>a \<in> set as. fst (snd a) \<noteq> NULL"
  shows "\<exists>t'. main_program (many_threads as test_yield) t = ret t'
           \<and> running (sch t') = m \<and> ready_list (sch t') = [] \<and> blocked_list (sch t') = []
           \<and> (\<forall>p. threads (sch t') p \<noteq> None \<longleftrightarrow> p = m)
           \<and> out t' = out t @ concat (replicate NUM_CYCLES (map (\<lambda>k. Line (k + 1) 0) ([0..<NUM_THREADS] @ rev [0..<NUM_THREADS])))"
proof -
  obtain t' where "main_program (many_threads as test_yield) t = ret t' \<and> master (sch t') = m \<and> running (sch t') = m
      \<and> ready_list (sch t') = [] \<and> blocked_list (sch t') = [] \<and> (\<forall>p. threads (sch t') p \<noteq> None \<longleftrightarrow> p = m)
      \<and> out t' = out t @ concat (replicate NUM_CYCLES (sweep_lines ([0..<NUM_THREADS] @ rev [0..<NUM_THREADS])))"
    using yields_part [OF assms] by blast
  then show ?thesis unfolding sweep_lines_def by blast
qed

theorem many_yields_complete_witness:
  "\<exists>t'. main_program (many_threads (map (\<lambda>k. (0x1000 * (of_nat k + 1), 0x100000, 1)) [0..<20]) test_yield) start0 = ret t'
     \<and> length (out t') = 160"
proof -
  let ?as = "map (\<lambda>k. (0x1000 * (of_nat k + 1), 0x100000, 1)) [0..<20] :: (u64 \<times> u64 \<times> u64) list"
  have "distinct (0x601000 # map fst ?as)" "NULL \<notin> set (0x601000 # map fst ?as)" by code_simp+
  moreover have "length ?as = NUM_THREADS" "\<forall>a \<in> set ?as. fst (snd a) \<noteq> NULL" by (auto simp: NUM_THREADS_def)
  moreover have "sch start0 = boot 0x601000" "out start0 = []" by (simp_all add: start0_def)
  ultimately obtain t' where t': "main_program (many_threads ?as test_yield) start0 = ret t'"
    "out t' = concat (replicate NUM_CYCLES (map (\<lambda>k. Line (k + 1) 0) ([0..<NUM_THREADS] @ rev [0..<NUM_THREADS])))"
    using many_yields_complete [of start0 "0x601000" ?as] by auto
  have "length (out t') = 160" by (simp add: t'(2) length_concat NUM_THREADS_def NUM_CYCLES_def sum_list_replicate)
  then show ?thesis using t'(1) by blast
qed

text \<open>
  The test with many threads reads freed memory in its second part, unless \<open>malloc\<close> hands out the
  address of the last thread of the first part again.  The first part completes; the threads of the
  second part are created and the first one of them runs, but when it joins the next one, the lookup
  reads the structure of a thread of the first part, which has been freed.  The hypotheses say that the
  library starts from its initial state, that the addresses of the threads of each part are
  different from each other and from the master, and that none is used in both parts.
\<close>

theorem many_test_reads_freed_thread:
  assumes "sch t = boot m" and "m \<noteq> NULL" and "length as = NUM_THREADS" and "length bs = NUM_THREADS"
    and "distinct (m # map fst as @ map fst bs)" and "NULL \<notin> set (map fst (as @ bs))" and "\<forall>a \<in> set (as @ bs). fst (snd a) \<noteq> NULL"
  shows "\<exists>p \<in> set (map fst as). many_main as bs t = fail (UseAfterFree p)"
proof -
  let ?ps = "map fst as" and ?cs = "many_threads as test_yield"
  have ps: "distinct (m # ?ps)" "NULL \<notin> set (m # ?ps)" "\<forall>a \<in> set as. fst (snd a) \<noteq> NULL" using assms(2,5-7) by auto
  obtain u where u: "main_program ?cs t = ret u" "sched_inv (sch u)" "master (sch u) = m" "running (sch u) = m"
    "ready_list (sch u) = []" "blocked_list (sch u) = []" "stopped (sch u) \<in> set ?ps" "\<forall>p. threads (sch u) p \<noteq> None \<longleftrightarrow> p = m"
    using yields_part [OF assms(1,3) ps] by blast
  have "thread_id_count (sch u) = 21"
    using main_count [OF u(1)] by (simp add: many_threads_def assms(1) boot_def NUM_THREADS_def)
  moreover have "stopped (sch u) \<noteq> NULL" "stopped (sch u) \<notin> set (map fst bs)" "stopped (sch u) \<noteq> m"
    using u(7) ps(1,2) assms(5) by (metis list.set_intros(2), metis disjoint_iff distinct.simps(2) distinct_append, metis distinct.simps(2))
  ultimately have "many_joins bs u = fail (UseAfterFree (stopped (sch u)))"
    using u assms(4-7) by (intro many_joins_fault) auto
  then show ?thesis using u(1,7) by (auto simp: many_main_def)
qed

theorem many_test_reads_freed_thread_witness:
  "\<exists>p. many_main (map (\<lambda>k. (0x1000 * (of_nat k + 1), 0x100000, 1)) [0..<20]) (map (\<lambda>k. (0x1000 * (of_nat k + 21), 0x100000, 1)) [0..<20]) start0
     = fail (UseAfterFree p)"
proof -
  let ?as = "map (\<lambda>k. (0x1000 * (of_nat k + 1), 0x100000, 1)) [0..<20] :: (u64 \<times> u64 \<times> u64) list"
  let ?bs = "map (\<lambda>k. (0x1000 * (of_nat k + 21), 0x100000, 1)) [0..<20] :: (u64 \<times> u64 \<times> u64) list"
  have "distinct (0x601000 # map fst ?as @ map fst ?bs)" "NULL \<notin> set (map fst (?as @ ?bs))" by code_simp+
  moreover have "length ?as = NUM_THREADS" "length ?bs = NUM_THREADS" "\<forall>a \<in> set (?as @ ?bs). fst (snd a) \<noteq> NULL"
    by (auto simp: NUM_THREADS_def)
  moreover have "sch start0 = boot 0x601000" "(0x601000 :: u64) \<noteq> NULL" by (simp_all add: start0_def)
  ultimately show ?thesis using many_test_reads_freed_thread [of start0 "0x601000" ?as ?bs] by blast
qed

end
