(* ===== verification/ThreadDump.thy ===== *)
theory ThreadDump
  imports PetThreadProps
begin

text \<open>
  \<open>dump_list\<close> and \<open>dump_waiting_list\<close> of \<open>src/Threads/pet_thread.c\<close>: the identifiers they print, each with whether an arrow
  follows it.
\<close>

fun dump_ids :: "sched \<Rightarrow> u64 list \<Rightarrow> (int \<times> bool) list res" where
  "dump_ids s [] = Inr []"
| "dump_ids s (p # ps) =
     rbind (thread_at s p) (\<lambda>t. rbind (dump_ids s ps) (\<lambda>out. Inr ((sint (ucast (t_id t) :: u32), ps \<noteq> []) # out)))"

text \<open>The heading shows the number of threads created so far.\<close>

definition dump_list :: "sched \<Rightarrow> u64 list \<Rightarrow> (int \<times> (int \<times> bool) list) res" where
  "dump_list s ps = rbind (dump_ids s ps) (\<lambda>out. Inr (sint (thread_id_count s - 1), out))"

text \<open>The list of the threads that wait for the thread at \<open>p\<close>, headed by the identifier of that thread.\<close>

definition dump_waiting_list :: "sched \<Rightarrow> u64 \<Rightarrow> (int \<times> (int \<times> bool) list) res" where
  "dump_waiting_list s p =
     rbind (thread_at s p) (\<lambda>t.
     case t_waiting t of None \<Rightarrow> Inl (BadDeref NULL)
     | Some ws \<Rightarrow> rbind (dump_ids s ws) (\<lambda>out. Inr (sint (ucast (t_id t) :: u32), out)))"

lemma dump_ids_live:
  assumes "\<forall>p \<in> set ps. threads s p \<noteq> None"
  shows "\<exists>out. dump_ids s ps = Inr out \<and> map fst out = map (\<lambda>p. sint (ucast (t_id (the (threads s p))) :: u32)) ps
           \<and> map snd out = (if ps = [] then [] else replicate (length ps - 1) True @ [False])"
  using assms
proof (induction ps)
  case (Cons p ps)
  then obtain out t where o: "dump_ids s ps = Inr out" "map fst out = map (\<lambda>p. sint (ucast (t_id (the (threads s p))) :: u32)) ps"
    "map snd out = (if ps = [] then [] else replicate (length ps - 1) True @ [False])" "threads s p = Some t" by auto
  have "dump_ids s (p # ps) = Inr ((sint (ucast (t_id t) :: u32), ps \<noteq> []) # out)" using o(1,4) by (simp add: thread_at_def)
  moreover have "map snd ((sint (ucast (t_id t) :: u32), ps \<noteq> []) # out) = replicate (length (p # ps) - 1) True @ [False]"
    using o(3) by (cases ps) simp_all
  ultimately show ?case using o(2,4) by (intro exI [of _ "(sint (ucast (t_id t) :: u32), ps \<noteq> []) # out"]) simp
qed simp

text \<open>In a reachable state the lists of ready and of blocked threads can be printed.\<close>

lemma dump_lists_safe:
  assumes "sched_inv s"
  shows "\<exists>out. dump_list s (ready_list s) = Inr out" and "\<exists>out. dump_list s (blocked_list s) = Inr out"
  using assms dump_ids_live [of "ready_list s" s] dump_ids_live [of "blocked_list s" s]
  by (auto simp: dump_list_def leaving_def base_def)

end
