(* ===== verification/ModuleTest.thy ===== *)
theory ModuleTest
  imports Tlb
begin

text \<open>
  The program \<open>src/VMproject/user/test.c\<close>: it reserves 513 pages, writes to each of them, writes a string to
  the first one and prints it, and releases the memory.
\<close>

text \<open>The accesses of a program, in order, until it is killed.\<close>

fun accesses :: "kernel \<Rightarrow> u64 \<Rightarrow> u64 list \<Rightarrow> process \<Rightarrow> process run" where
  "accesses K buf [] p = ret p"
| "accesses K buf (x # xs) p = (if killed p then ret p else pbind (touch K buf x p) (accesses K buf xs))"

text \<open>\<open>pet_dump\<close> and \<open>print_pml_call\<close>, which print.\<close>

definition print_request :: "kernel \<Rightarrow> u32 \<Rightarrow> u64 \<Rightarrow> process \<Rightarrow> process run" where
  "print_request K cmd w p = pbind (ioctl K cmd (word_arg w) p) (\<lambda>(_, _, p). ret p)"

definition TEST_PAGES :: nat where "TEST_PAGES = 513"

definition page_writes :: "u64 \<Rightarrow> u64 list" where
  "page_writes b = map (\<lambda>i. b + of_nat i * 4096) [0..<TEST_PAGES]"

text \<open>The string with its final zero; \<open>printf\<close> reads the same bytes.\<close>

definition string_accesses :: "u64 \<Rightarrow> u64 list" where
  "string_accesses b = map (\<lambda>i. b + of_nat i) [50..<63]"

text \<open>The results of \<open>init_petmem\<close> and of \<open>pet_malloc\<close> are not tested.  \<open>w\<close> is what the kernel finds for the missing argument.\<close>

definition test_release :: "kernel \<Rightarrow> u64 \<Rightarrow> u64 \<Rightarrow> process \<Rightarrow> process run" where
  "test_release K b w p =
     (if killed p then ret p
      else pbind (pet_free K b p) (\<lambda>p. pbind (print_request K LAZY_DUMP_STATE NULL p) (print_request K PRINT_PML w)))"

definition test_main :: "kernel \<Rightarrow> bool \<Rightarrow> u64 \<Rightarrow> bool \<Rightarrow> u64 \<Rightarrow> u64 \<Rightarrow> u64 \<Rightarrow> process \<Rightarrow> process run" where
  "test_main K can_open node0 garbage buf node w p =
     pbind (pet_malloc K buf node (of_nat (4096 * TEST_PAGES)) (snd (init_petmem can_open node0 garbage p))) (\<lambda>(b, p).
     pbind (print_request K LAZY_DUMP_STATE NULL p) (\<lambda>p.
     pbind (accesses K buf (page_writes b) p) (\<lambda>p.
     pbind (accesses K buf (string_accesses b) p) (\<lambda>p.
     pbind (accesses K buf (string_accesses b) p) (test_release K b w)))))"

end
