(* ===== verification/FreeAcross.thy ===== *)
theory FreeAcross
  imports FreeWalkProps
begin

text \<open>
  The release of a range that crosses from one page table into the next.  The index into the page
  table is not reset at the boundary, so that the walk goes on behind the second table: the pages
  of the range there stay mapped, and words of whatever lies behind that table are taken for entries.
\<close>

section \<open>The words the walk visits\<close>

text \<open>The word that the walk visits in step \<open>k\<close>: \<open>t\<close> is the table of the first page, at index \<open>i\<close>, and \<open>t2\<close> the next one.\<close>

definition visited :: "u64 \<Rightarrow> u64 \<Rightarrow> u64 \<Rightarrow> nat \<Rightarrow> u64" where
  "visited t t2 i k = (if unat i + k < 512 then t else t2) + 8 * (i + of_nat k)"

definition wiped :: "(nat \<Rightarrow> u64) \<Rightarrow> nat \<Rightarrow> (u64 \<Rightarrow> u64) \<Rightarrow> u64 \<Rightarrow> u64" where
  "wiped w k m = (\<lambda>x. if x \<in> w ` {..<k} then set_field pte64 ''present'' 0 (m x) else m x)"

definition found :: "(nat \<Rightarrow> u64) \<Rightarrow> nat \<Rightarrow> (u64 \<Rightarrow> u64) \<Rightarrow> u64 list" where
  "found w k m = filter (\<lambda>x. ent_present (m x)) (map w [0..<k])"

lemma page_aligned_next: "page_aligned t \<Longrightarrow> page_aligned (t + 4096)"
  by (auto simp: page_aligned_def unat_word_ariths intro!: dvd_mod)

lemma visited_cases:
  assumes "unat i + k < 1024"
  obtains "unat i + k < 512" and "visited t t2 i k = t + 8 * (i + of_nat k)" and "i + of_nat k < 512"
  | j where "512 \<le> unat i + k" and "j < 512" and "visited t t2 i k = t2 + 4096 + 8 * j" and "unat j = unat i + k - 512"
proof (cases "unat i + k < 512")
  case True
  then show ?thesis using that(1) slot_index(1) [of i k k] by (simp add: visited_def)
next
  case False
  let ?j = "i + of_nat k - 512"
  have u: "unat (of_nat k :: u64) = k" using assms by (intro unat_of_nat_u64) simp
  then have s: "unat (i + of_nat k) = unat i + k" using assms by (simp add: add_no_wrap)
  then have "512 \<le> i + of_nat k" using False by (simp add: word_le_nat_alt)
  then have "unat ?j = unat i + k - 512" using s by (simp add: unat_sub)
  moreover from this have "?j < 512" using assms False by (simp add: word_less_nat_alt)
  moreover have "visited t t2 i k = t2 + 4096 + 8 * ?j" using False by (simp add: visited_def algebra_simps)
  ultimately show ?thesis using that(2) [of ?j] False by simp
qed

lemma visited_inj:
  assumes al: "page_aligned t" "page_aligned t2" and ne: "t2 + 4096 \<noteq> t"
    and k: "unat i + k < 1024" and j: "unat i + j < 1024" and e: "visited t t2 i k = visited t t2 i j"
  shows "k = j"
proof -
  note al2 = page_aligned_next [OF al(2)]
  show ?thesis
  proof (cases rule: visited_cases [OF k, of t t2])
    case k1: 1
    show ?thesis
    proof (cases rule: visited_cases [OF j, of t t2])
      case j1: 1
      have "i + of_nat k = i + of_nat j" using slot_inj [OF al(1) k1(3) al(1) j1(3)] e unfolding k1(2) j1(2) by blast
      then have "unat i + k = unat i + j"
        using slot_index(2) [OF k1(1) order.refl] slot_index(2) [OF j1(1) order.refl] by (simp only:)
      then show ?thesis by simp
    next
      case j2: (2 l)
      have "t = t2 + 4096" using slot_inj [OF al(1) k1(3) al2 j2(2)] e unfolding k1(2) j2(3) by blast
      then show ?thesis using ne by blast
    qed
  next
    case k2: (2 l)
    show ?thesis
    proof (cases rule: visited_cases [OF j, of t t2])
      case j1: 1
      have "t2 + 4096 = t" using slot_inj [OF al2 k2(2) al(1) j1(3)] e unfolding j1(2) k2(3) by blast
      then show ?thesis using ne by blast
    next
      case j2: (2 l')
      have "l = l'" using slot_inj [OF al2 k2(2) al2 j2(2)] e unfolding k2(3) j2(3) by blast
      then show ?thesis using k2(1,4) j2(1,4) by simp
    qed
  qed
qed

lemma wiped_Suc:
  assumes "\<And>j. j < k \<Longrightarrow> w j \<noteq> w k"
  shows "wiped w (Suc k) m = (wiped w k m)(w k := set_field pte64 ''present'' 0 (m (w k)))" and "wiped w k m (w k) = m (w k)"
  using assms by (force simp: wiped_def lessThan_Suc fun_eq_iff)+

section \<open>The walk across the boundary\<close>

text \<open>The two tables, next to each other in the tree, with no table in the page behind the second one.\<close>

definition across :: "(u64 \<Rightarrow> u64) \<Rightarrow> (u64 \<Rightarrow> u64) \<Rightarrow> u64 \<Rightarrow> u64 \<Rightarrow> u64 \<Rightarrow> u64 \<Rightarrow> bool" where
  "across va m root a t t2 \<longleftrightarrow>
     PML4E64_INDEX a = 0 \<and> PDE64_INDEX a < 511 \<and> tbl va m root (table_path a) = Some t
     \<and> tbl va m root [0, PDPE64_INDEX a, PDE64_INDEX a + 1] = Some t2
     \<and> (\<forall>q. valid_path q \<longrightarrow> tbl va m root q \<noteq> Some (t2 + 4096))"

lemma pd_next: "PDE64_INDEX a < 511 \<Longrightarrow> PDE64_INDEX a + 1 < 512 \<and> PDE64_INDEX a + 1 \<noteq> 0 \<and> PDE64_INDEX a + 1 \<noteq> PDE64_INDEX a"
  by (simp add: word_less_nat_alt word_unat_eq_iff add_no_wrap)

lemma across_aligned:
  assumes wf: "wf_tables va m root F" and ac: "across va m root a t t2"
  shows "page_aligned t" and "page_aligned t2" and "t2 + 4096 \<noteq> t" and "valid_path [0, PDPE64_INDEX a, PDE64_INDEX a + 1]"
proof -
  have t: "tbl va m root (table_path a) = Some t" "tbl va m root [0, PDPE64_INDEX a, PDE64_INDEX a + 1] = Some t2"
    "\<forall>q. valid_path q \<longrightarrow> tbl va m root q \<noteq> Some (t2 + 4096)" "PDE64_INDEX a < 511" using ac by (simp_all add: across_def)
  show "page_aligned t" by (rule wf_aligned [OF wf valid_table_path t(1)])
  show v: "valid_path [0, PDPE64_INDEX a, PDE64_INDEX a + 1]" using pte_index_less(3) pd_next [OF t(4)] by (simp add: valid_path_def)
  show "page_aligned t2" by (rule wf_aligned [OF wf v t(2)])
  show "t2 + 4096 \<noteq> t" using t(1,3) valid_table_path by auto
qed

text \<open>Entries of other tables are not visited.\<close>

lemma wiped_other:
  assumes wf: "wf_tables va m root F" and ac: "across va m root a t t2" and k: "unat i + k \<le> 1024"
    and q: "valid_path q" "tbl va m root q = Some u" "j < 512" "q \<noteq> table_path a"
  shows "wiped (visited t t2 i) k m (u + 8 * j) = m (u + 8 * j)"
proof -
  note al = across_aligned [OF wf ac] and au = wf_aligned [OF wf q(1,2)]
  have ut: "u \<noteq> t" "u \<noteq> t2 + 4096"
    using wf_inj [OF wf valid_table_path q(1)] q ac by (auto simp: across_def)
  have "u + 8 * j \<noteq> visited t t2 i l" if "l < k" for l
  proof -
    have l: "unat i + l < 1024" using that k by simp
    show ?thesis
    proof (cases rule: visited_cases [OF l, of t t2])
      case 1
      then show ?thesis using slot_inj [OF au q(3) al(1) 1(3)] ut(1) unfolding 1(2) by blast
    next
      case (2 l')
      then show ?thesis using slot_inj [OF au q(3) page_aligned_next [OF al(2)] 2(2)] ut(2) unfolding 2(3) by blast
    qed
  qed
  then show ?thesis by (auto simp: wiped_def)
qed

lemma wiped_tbl:
  assumes wf: "wf_tables va m root F" and ac: "across va m root a t t2" and k: "unat i + k \<le> 1024" and q: "valid_path q"
  shows "tbl va (wiped (visited t t2 i) k m) root q = tbl va m root q"
  using q
proof (induction q rule: rev_induct)
  case (snoc j q)
  have q: "valid_path q" "j < 512" using valid_snocD [OF snoc.prems] by blast+
  have "length q \<le> 2" using snoc.prems by (simp add: valid_path_def)
  then have "q \<noteq> table_path a" by (auto simp: table_path_def)
  then show ?case using snoc.IH [OF q(1)] wiped_other [OF wf ac k q(1) _ q(2)] by (simp add: tbl_snoc split: option.split)
qed simp

text \<open>The state of the loop after \<open>k\<close> steps.\<close>

definition at_visit :: "(u64 \<Rightarrow> u64) \<Rightarrow> u64 \<Rightarrow> u64 \<Rightarrow> u64 \<Rightarrow> u64 \<Rightarrow> kstate \<Rightarrow> nat \<Rightarrow> fwalk \<Rightarrow> bool" where
  "at_visit va root a t t2 s k f =
     (let i = PTE64_INDEX a; w = visited t t2 i in
      pdp_index f = PDPE64_INDEX a \<and> pd_index f = (if unat i + k < 512 then PDE64_INDEX a else PDE64_INDEX a + 1)
    \<and> pml_cur f = root \<and> pt_index f = i + of_nat k \<and> pages_covered f = of_nat k
    \<and> kst f = s\<lparr>kmem := wiped w k (kmem s)\<rparr> \<and> released f = map (\<lambda>x. va (ent_base (kmem s x))) (found w k (kmem s)))"

lemma next_path_entries:
  assumes "tbl va m root [0, x, y] = Some t"
  shows "ent_present (m root)" and "ent_present (m (va (ent_base (m root)) + 8 * x))"
    and "ent_present (m (va (ent_base (m (va (ent_base (m root)) + 8 * x))) + 8 * y))"
    and "t = va (ent_base (m (va (ent_base (m (va (ent_base (m root)) + 8 * x))) + 8 * y)))"
    and "tbl va m root [0] = Some (va (ent_base (m root)))"
    and "tbl va m root [0, x] = Some (va (ent_base (m (va (ent_base (m root)) + 8 * x))))"
  using assms by (auto split: if_splits)

lemma mod_carry:
  fixes i :: u64
  assumes "unat i + k < 1023"
  shows "(i + of_nat k + 1) mod 512 = 0 \<longleftrightarrow> unat i + k = 511"
proof -
  have "unat (of_nat (Suc k) :: u64) = Suc k" using assms by (intro unat_of_nat_u64) simp
  then have u: "unat (i + of_nat (Suc k)) = unat i + Suc k" using assms by (simp add: add_no_wrap del: of_nat_Suc)
  have z: "x mod 512 = 0 \<longleftrightarrow> x = 512" if "0 < x" "x < 1024" for x :: nat using that by presburger
  have e: "i + of_nat k + 1 = i + of_nat (Suc k)" by simp
  have "unat ((i + of_nat k + 1) mod 512) = (unat i + Suc k) mod 512" unfolding e unat_mod u by simp
  moreover have "(unat i + Suc k) mod 512 = 0 \<longleftrightarrow> unat i + k = 511" using z [of "unat i + Suc k"] assms by simp
  ultimately show ?thesis by (metis unat_eq_zero)
qed

lemma free_step_visit:
  assumes wf: "wf_tables va (kmem s) root F" and ac: "across va (kmem s) root a t t2"
    and k: "unat (PTE64_INDEX a) + k < 1023" and st: "at_visit va root a t t2 s k f"
  shows "\<exists>f'. free_step va f = Inr f' \<and> at_visit va root a t t2 s (Suc k) f'"
proof -
  let ?i = "PTE64_INDEX a" and ?m = "kmem s"
  let ?w = "visited t t2 ?i" let ?c = "wiped ?w k ?m" and ?x = "?w k"
  define d where "d = (if unat ?i + k < 512 then PDE64_INDEX a else PDE64_INDEX a + 1)"
  have pa: "PML4E64_INDEX a = 0" "PDE64_INDEX a < 511" using ac by (simp_all add: across_def)
  have d: "d < 512" "tbl va ?m root [0, PDPE64_INDEX a, d] = Some (if unat ?i + k < 512 then t else t2)"
    using ac pa(1) pte_index_less(2) [of a] pd_next [OF pa(2)]
    by (auto simp: d_def across_def table_path_def simp del: tbl.simps)
  note p = next_path_entries [OF d(2)]
  have kk: "unat ?i + k \<le> 1024" using k by simp
  have v: "valid_path []" "valid_path [0]" "valid_path [0, PDPE64_INDEX a]" using pte_index_less by (simp_all add: valid_path_def)
  have r0: "?c root = ?m root" using wiped_other [OF wf ac kk v(1), of root 0] by (simp add: table_path_def)
  have r1: "?c (va (ent_base (?m root)) + 8 * PDPE64_INDEX a) = ?m (va (ent_base (?m root)) + 8 * PDPE64_INDEX a)"
    using wiped_other [OF wf ac kk v(2) p(5) pte_index_less(3)] by (simp add: table_path_def)
  have r2: "?c (va (ent_base (?m (va (ent_base (?m root)) + 8 * PDPE64_INDEX a))) + 8 * d)
      = ?m (va (ent_base (?m (va (ent_base (?m root)) + 8 * PDPE64_INDEX a))) + 8 * d)"
    using wiped_other [OF wf ac kk v(3) p(6) d(1)] by (simp add: table_path_def)
  have f: "pdp_index f = PDPE64_INDEX a" "pd_index f = d" "pml_cur f = root" "pt_index f = ?i + of_nat k"
    "pages_covered f = of_nat k" "kst f = s\<lparr>kmem := ?c\<rparr>" "released f = map (\<lambda>x. va (ent_base (?m x))) (found ?w k ?m)"
    using st by (simp_all add: at_visit_def d_def Let_def)
  define g where "g = f\<lparr>pdp_cur := va (ent_base (?m root)) + 8 * PDPE64_INDEX a,
      pd_cur := va (ent_base (?m (va (ent_base (?m root)) + 8 * PDPE64_INDEX a))) + 8 * d,
      pt_cur := ?x, pt_index := ?i + of_nat k + 1, pages_covered := of_nat k + 1\<rparr>"
  have ds: "free_descend va f = free_user_page va g"
    using p(1-3) r0 r1 r2 f(1-6)
    by (simp add: free_descend_def present_field base_field scale g_def p(4) [symmetric] visited_def Let_def)
  have "?w j \<noteq> ?w k" if "j < k" for j using visited_inj [OF across_aligned(1-3) [OF wf ac], of ?i j k] that k by auto
  note ws = wiped_Suc [of k ?w, OF this, of ?m]
  have u: "kst (free_user_page va g) = s\<lparr>kmem := wiped ?w (Suc k) ?m\<rparr>"
    "released (free_user_page va g) = map (\<lambda>x. va (ent_base (?m x))) (found ?w (Suc k) ?m)"
    using f(6,7) ws clear_absent [of "?m ?x"]
    by (auto simp: free_user_page_def present_field base_field put_word_def found_def g_def Let_def fun_upd_idem)
  define h where "h = free_user_page va g"
  have h: "pdp_index h = PDPE64_INDEX a" "pd_index h = d" "pml_cur h = root" "pt_index h = ?i + of_nat k + 1" "pages_covered h = of_nat k + 1"
    using f by (simp_all add: h_def free_user_page_def g_def Let_def)
  have d1: "(d + 1) mod 512 \<noteq> 0" if "unat ?i + k = 511"
  proof -
    have "unat (d + 1) = unat (PDE64_INDEX a) + 1" "unat (PDE64_INDEX a) < 511"
      using that pa(2) by (simp_all add: d_def word_less_nat_alt add_no_wrap)
    then have "unat ((d + 1) mod 512) \<noteq> 0" by (simp add: unat_mod)
    then show ?thesis by (metis unat_0)
  qed
  let ?h = "if unat ?i + k = 511 then h\<lparr>pd_index := d + 1\<rparr> else h"
  have "free_cascade h = ?h" using d1 h mod_carry [OF k] by (simp add: free_cascade_def Let_def)
  then have "free_step va f = Inr ?h"
    using h f(1,2,4) by (simp add: free_step_def ds h_def [symmetric] moved_def)
  moreover have "at_visit va root a t t2 s (Suc k) ?h"
    using h u [folded h_def] by (auto simp: at_visit_def d_def Let_def ac_simps)
  ultimately show ?thesis by blast
qed

lemma free_walk_visits:
  assumes wf: "wf_tables va (kmem s) root F" and ac: "across va (kmem s) root a t t2"
    and n: "unat (PTE64_INDEX a) + unat n < 1023" and st: "at_visit va root a t t2 s k f" and k: "k \<le> Suc (unat n)"
  shows "\<exists>f'. free_walk va n f = ret f' \<and> at_visit va root a t t2 s (Suc (unat n)) f'"
  using st k
proof (induction "Suc (unat n) - k" arbitrary: k f)
  case 0
  then have k: "k = Suc (unat n)" by simp
  have "unat (of_nat k :: u64) = k" using k n by (intro unat_of_nat_u64) simp
  then have "\<not> pages_covered f \<le> n" using 0 k by (simp add: at_visit_def word_le_nat_alt Let_def)
  then show ?case using 0 k by (simp add: free_walk.simps)
next
  case (Suc d)
  then have k: "k \<le> unat n" by simp
  have "unat (of_nat k :: u64) = k" using k n by (intro unat_of_nat_u64) simp
  then have c: "pages_covered f \<le> n" using Suc.prems(1) k by (simp add: at_visit_def word_le_nat_alt Let_def)
  have "unat (PTE64_INDEX a) + k < 1023" using k n by simp
  from free_step_visit [OF wf ac this Suc.prems(1)] obtain f1
    where f1: "free_step va f = Inr f1" "at_visit va root a t t2 s (Suc k) f1" by blast
  have "d = Suc (unat n) - Suc k" using Suc.hyps(2) by simp
  from Suc.hyps(1) [OF this f1(2)] k obtain f' where
    "free_walk va n f1 = ret f'" "at_visit va root a t t2 s (Suc (unat n)) f'" by auto
  then show ?case using c f1(1) by (auto simp: free_walk.simps [of va n f])
qed

section \<open>What is left mapped\<close>

lemma visited_behind:
  assumes "j + 512 < 2 ^ 63" and "unat i \<le> 511"
  shows "t2 + 4096 + 8 * of_nat j = visited t t2 i (j + 512 - unat i)"
proof -
  have "of_nat (unat i) = i" by simp
  then have "i + of_nat (j + 512 - unat i) = of_nat (unat i + (j + 512 - unat i))" by (simp only: of_nat_add)
  also have "\<dots> = of_nat j + 512" using assms(2) by simp
  finally show ?thesis using assms(2) by (simp add: visited_def algebra_simps)
qed

lemma visited_table:
  assumes al: "page_aligned t" "page_aligned t2" and ne: "t2 + 4096 \<noteq> t" and k: "unat i + k \<le> 1024" "512 \<le> unat i + k" and j: "j < 512"
  shows "t + 8 * j \<in> visited t t2 i ` {..<k} \<longleftrightarrow> i \<le> j"
proof
  assume "t + 8 * j \<in> visited t t2 i ` {..<k}"
  then obtain l where l: "l < k" "t + 8 * j = visited t t2 i l" by auto
  then have lk: "unat i + l < 1024" using k by simp
  show "i \<le> j"
  proof (cases rule: visited_cases [OF lk, of t t2])
    case 1
    have "j = i + of_nat l" using slot_inj [OF al(1) j al(1) 1(3)] l(2) unfolding 1(2) by blast
    then show ?thesis using slot_index(2) [OF 1(1) order.refl] by (simp add: word_le_nat_alt)
  next
    case (2 l')
    have "t = t2 + 4096" using slot_inj [OF al(1) j page_aligned_next [OF al(2)] 2(2)] l(2) unfolding 2(3) by blast
    then show ?thesis using ne by blast
  qed
next
  assume ij: "i \<le> j"
  let ?l = "unat j - unat i"
  have u: "unat i \<le> unat j" "unat j < 512" using ij j by (simp_all add: word_le_nat_alt word_less_nat_alt)
  have "of_nat (unat i) = i" "of_nat (unat j) = j" by simp_all
  then have "i + of_nat ?l = j" using u(1) by (metis le_add_diff_inverse of_nat_add)
  then have "t + 8 * j = visited t t2 i ?l" using u by (simp add: visited_def)
  moreover have "?l < k" using u k by simp
  ultimately show "t + 8 * j \<in> visited t t2 i ` {..<k}" by blast
qed

lemma free_range_across:
  assumes c: "find (\<lambda>c. mm_start c = a \<and> mm_allocated c) (vs_nodes vs) = Some c" and root: "root = va (CR3_TO_PML4E64_PA cr3)"
    and wf: "wf_tables va (kmem s) root F" and ac: "across va (kmem s) root a t t2"
    and n: "n = num_pages_of (mm_size c)" and i: "i = unat (PTE64_INDEX a)" and lo: "512 \<le> i + unat n" and hi: "i + unat n < 1023"
  shows "\<exists>s' rel. petmem_free_range va cr3 vs a s = ret (petmem_free_vspace vs a, s', rel)
           \<and> (\<forall>y. translate va (kmem s') root y =
                (if table_path y = table_path a \<and> PTE64_INDEX a \<le> PTE64_INDEX y then None else translate va (kmem s) root y))
           \<and> (\<forall>j \<le> i + unat n - 512. let x = t2 + 4096 + 8 * of_nat j in
                kmem s' x = set_field pte64 ''present'' 0 (kmem s x)
              \<and> (ent_present (kmem s x) \<longrightarrow> va (ent_base (kmem s x)) \<in> set rel))"
proof -
  let ?i = "PTE64_INDEX a" and ?k = "Suc (unat n)"
  let ?w = "visited t t2 ?i" let ?m = "wiped ?w ?k (kmem s)" and ?rel = "map (\<lambda>x. va (ent_base (kmem s x))) (found ?w ?k (kmem s))"
  note al = across_aligned [OF wf ac]
  have t: "tbl va (kmem s) root (table_path a) = Some t" and pml: "PML4E64_INDEX a = 0" using ac by (simp_all add: across_def)
  have a: "mm_start c = a" using c by (auto simp: find_Some_iff)
  have "unat ?i < 512" using pte_index_less(1) [of a] by (simp add: word_less_nat_alt)
  then have "at_visit va root a t t2 s 0 (free_walk_init va cr3 a s)"
    by (simp add: at_visit_def free_walk_init_def root pml wiped_def found_def Let_def)
  from free_walk_visits [OF wf ac _ this] hi i obtain f where
    f: "free_walk va n (free_walk_init va cr3 a s) = ret f" "at_visit va root a t t2 s ?k f" by auto
  have r: "petmem_free_range va cr3 vs a s = ret (petmem_free_vspace vs a, s\<lparr>kmem := ?m\<rparr>, ?rel)"
    using c a n f by (simp add: petmem_free_range_def at_visit_def Let_def)
  have kk: "unat ?i + ?k \<le> 1024" using hi i by simp
  have tr: "translate va ?m root y =
      (if table_path y = table_path a \<and> ?i \<le> PTE64_INDEX y then None else translate va (kmem s) root y)" for y
  proof (cases "table_path y = table_path a")
    case False
    then show ?thesis
      using wiped_tbl [OF wf ac kk valid_table_path, of y] wiped_other [OF wf ac kk valid_table_path _ pte_index_less(1), of y _ y]
      by (simp add: translate_def split: option.split)
  next
    case True
    have "?m (t + 8 * PTE64_INDEX y) = (if ?i \<le> PTE64_INDEX y then set_field pte64 ''present'' 0 (kmem s (t + 8 * PTE64_INDEX y))
        else kmem s (t + 8 * PTE64_INDEX y))"
      using visited_table [OF al(1-3) kk _ pte_index_less(1) [of y]] lo i by (simp add: wiped_def)
    then show ?thesis using True t wiped_tbl [OF wf ac kk valid_table_path, of a] clear_present_bit
      by (simp add: translate_def)
  qed
  have "let x = t2 + 4096 + 8 * of_nat j in ?m x = set_field pte64 ''present'' 0 (kmem s x)
      \<and> (ent_present (kmem s x) \<longrightarrow> va (ent_base (kmem s x)) \<in> set ?rel)" if j: "j \<le> i + unat n - 512" for j
  proof -
    have "t2 + 4096 + 8 * of_nat j = ?w (j + 512 - i)" "j + 512 - i < ?k" using visited_behind [of j ?i t2 t] j lo hi i \<open>unat ?i < 512\<close> by auto
    then show ?thesis by (auto simp: wiped_def found_def Let_def simp del: upt_Suc)
  qed
  then show ?thesis using r tr by (intro exI [of _ "s\<lparr>kmem := ?m\<rparr>"] exI [of _ ?rel]) simp
qed

end
