(* ===== verification/ModuleTestProps.thy ===== *)
theory ModuleTestProps
  imports ModuleTest FreeAcross HarnessProps
begin

text \<open>
  The test program of the module uses every page of its buffer without being killed, and leaves the
  last page mapped when it releases it.
\<close>

section \<open>Accesses\<close>

text \<open>The tables of a process and the pages that can become tables lie in \<open>T\<close>.\<close>

definition tables_in :: "kernel \<Rightarrow> process \<Rightarrow> u64 set \<Rightarrow> bool" where
  "tables_in K p T \<longleftrightarrow>
     set (kpages (kern (device p))) \<subseteq> T
     \<and> (\<forall>q u. valid_path q \<longrightarrow> tbl (k_va K) (kmem (kern (device p))) (table_root K) q = Some u \<longrightarrow> u \<in> T)"

lemma touch_tables:
  assumes inv: "process_inv K p L" and r: "r \<in> L" "unat x \<in> span r" and len: "4 \<le> length (kpages (kern (device p)))"
    and un: "frame K p x = None" and t: "touch K buf x p = ret p'" and T: "tables_in K p T"
  shows "tables_in K p' T"
proof -
  let ?s = "kern (device p)" and ?vs = "vmap (device p)"
  obtain rc s where h: "petmem_handle_pagefault (k_va K) (k_pa K) (k_cr3 K) ?vs x 1 ?s = (rc, s)" by fastforce
  have i: "vspace_inv ?vs L" and w: "walk_ok (k_va K) (k_pa K) (table_root K) ?s" and hs: "fd_open p" "handler_set p"
    using inv by (simp_all add: process_inv_def)
  have wf: "wf_tables (k_va K) (kmem ?s) (table_root K) (set (kpages ?s))" "good_pages (k_va K) (k_pa K) (kpages ?s)"
    using w by (simp_all add: walk_ok_def)
  have ec: "(1 :: u32) \<noteq> 2" by simp
  note pre = i r ec table_root_def
  note tb = handle_pagefault_tables [OF pre w len un [unfolded frame_def] h]
  note sp = handle_pagefault_spec [OF pre wf len un [unfolded frame_def] h]
  have "p' = p\<lparr>device := (device p)\<lparr>kern := s\<rparr>\<rparr>" using t sp hs un by (simp add: touch_def segv_code [OF _ h] Let_def)
  then have k: "kern (device p') = s" by simp
  have "set (kpages s) \<subseteq> T" using sp T unfolding tables_in_def by blast
  moreover have "u \<in> T" if "valid_path q" "tbl (k_va K) (kmem s) (table_root K) q = Some u" for q u
    using tb [OF that] T that(1) unfolding tables_in_def by blast
  ultimately show ?thesis unfolding tables_in_def k by blast
qed

lemma touch_mapped: "frame K p x \<noteq> None \<Longrightarrow> touch K buf x p = ret p"
  by (simp add: touch_def)


lemma frame_same_page: "same_page x y \<Longrightarrow> frame K p x \<noteq> None \<longleftrightarrow> frame K p y \<noteq> None"
  using same_page_indices [of x y] by (auto simp: frame_def translate_def Let_def split: option.split)

text \<open>Accesses to live memory succeed when four free pages are left for each.\<close>

lemma accesses_live:
  assumes "process_inv K p L" and "r \<in> L" and "\<forall>x \<in> set xs. unat x \<in> span r"
    and "4 * length xs \<le> length (kpages (kern (device p)))" and "tables_in K p T"
  shows "\<exists>p'. accesses K buf xs p = ret p' \<and> process_inv K p' L \<and> tables_in K p' T \<and> vmap (device p') = vmap (device p)
           \<and> (\<forall>x \<in> set xs. frame K p' x \<noteq> None)
           \<and> (\<forall>y < 0x1000000000000. frame K p y \<noteq> None \<longrightarrow> frame K p' y \<noteq> None)"
  using assms(1,3-5)
proof (induction xs arbitrary: p)
  case Nil
  then show ?case by simp
next
  case (Cons x xs)
  have x: "unat x \<in> span r" and len: "4 \<le> length (kpages (kern (device p)))" using Cons.prems(2,3) by simp_all
  have i: "vspace_inv (vmap (device p)) L" and al: "\<not> killed p" using Cons.prems(1) by (simp_all add: process_inv_def)
  have x48: "x < 0x1000000000000"
    using vspace_inv_ranges(4) [OF i assms(2)] x by (intro region_pml_index(2)) (simp add: span_def)
  obtain p1 where p1: "touch K buf x p = ret p1" "process_inv K p1 L" "frame K p1 x \<noteq> None" "tables_in K p1 T"
    "vmap (device p1) = vmap (device p)" "length (kpages (kern (device p))) \<le> length (kpages (kern (device p1))) + 4"
    "\<forall>y < 0x1000000000000. frame K p y \<noteq> None \<longrightarrow> frame K p1 y \<noteq> None"
  proof (cases "frame K p x = None")
    case True
    obtain p1 where p1: "touch K buf x p = ret p1" "process_inv K p1 L" "frame K p1 x \<noteq> None"
      "\<forall>y < 0x1000000000000. \<not> same_page x y \<longrightarrow> frame K p1 y = frame K p y"
      "length (kpages (kern (device p))) \<le> length (kpages (kern (device p1))) + 4"
      by (rule touch_live [OF Cons.prems(1) assms(2) x len True])
    have "frame K p1 y \<noteq> None" if "y < 0x1000000000000" "frame K p y \<noteq> None" for y
      using p1(3,4) that frame_same_page [of x y K p1] by (cases "same_page x y") simp_all
    then show ?thesis using that [OF p1(1-3) touch_tables [OF Cons.prems(1) assms(2) x len True p1(1) Cons.prems(4)]
          touch_vmap [OF Cons.prems(1) p1(1)] p1(5)] by blast
  next
    case False
    then show ?thesis using that [of p] touch_mapped [OF False] Cons.prems(1,4) by simp
  qed
  have "\<forall>x \<in> set xs. unat x \<in> span r" "4 * length xs \<le> length (kpages (kern (device p1)))"
    using Cons.prems(2,3) p1(6) by simp_all
  from Cons.IH [OF p1(2) this p1(4)] obtain p2 where p2: "accesses K buf xs p1 = ret p2" "process_inv K p2 L" "tables_in K p2 T"
    "vmap (device p2) = vmap (device p1)" "\<forall>x \<in> set xs. frame K p2 x \<noteq> None"
    "\<forall>y < 0x1000000000000. frame K p1 y \<noteq> None \<longrightarrow> frame K p2 y \<noteq> None" by blast
  then show ?case using p1 x48 al by (intro exI [of _ p2]) simp
qed

section \<open>The calls of the test\<close>



text \<open>The map after the request: 513 pages at the start of the region.\<close>

definition test_map :: "u64 \<Rightarrow> bool \<Rightarrow> u64 \<Rightarrow> vspace" where
  "test_map node0 garbage node =
     \<lparr>vs_nodes = [\<lparr>mm_node = node0, mm_start = 0x1000000000, mm_size = 0x201000, mm_allocated = True\<rparr>,
                 \<lparr>mm_node = node, mm_start = 0x1000201000, mm_size = PETMEM_REGION_END - 0x1000000000 - 0x201000, mm_allocated = False\<rparr>],
      vs_head_allocated = garbage\<rparr>"

lemma test_alloc: "petmem_alloc_vspace (petmem_init_process node0 garbage) 513 node = (0x1000000000, test_map node0 garbage node)"
proof -
  have "(PETMEM_REGION_END - PETMEM_REGION_START) div PAGE_SIZE_4KB \<ge> 513" by code_simp
  then show ?thesis
    by (simp add: petmem_alloc_vspace_def petmem_init_process_def test_map_def PAGE_SIZE_4KB_def PETMEM_REGION_START_def Let_def)
qed

lemma test_map_inv:
  assumes "node \<noteq> node0"
  shows "vspace_inv (test_map node0 garbage node) {(68719476736, 2101248)}"
proof -
  have "node \<notin> mm_node ` set (vs_nodes (petmem_init_process node0 garbage))" using assms by (simp add: petmem_init_process_def)
  from vspace_alloc_outcome [OF init_process_inv _ this test_alloc] show ?thesis by simp
qed






section \<open>The whole test\<close>

lemma test_across:
  assumes T: "tables_in K p T" "\<forall>t \<in> T. t + 4096 \<notin> T" and f: "frame K p 0x1000000000 \<noteq> None" "frame K p 0x1000200000 \<noteq> None"
  obtains t t2 where "across (k_va K) (kmem (kern (device p))) (table_root K) 0x1000000000 t t2"
proof -
  let ?m = "kmem (kern (device p))"
  obtain t where t: "tbl (k_va K) ?m (table_root K) (table_path 0x1000000000) = Some t"
    using f(1) by (auto simp: frame_def translate_def split: option.splits)
  obtain t2 where t2: "tbl (k_va K) ?m (table_root K) (table_path 0x1000200000) = Some t2"
    using f(2) by (auto simp: frame_def translate_def split: option.splits)
  have i: "PML4E64_INDEX 0x1000000000 = 0" "PDE64_INDEX 0x1000000000 < 511"
    "table_path 0x1000200000 = [0, PDPE64_INDEX 0x1000000000, PDE64_INDEX 0x1000000000 + 1]" by code_simp+
  have "t2 \<in> T" using T(1) t2 valid_table_path unfolding tables_in_def by blast
  then have "t2 + 4096 \<notin> T" using T(2) by blast
  then have "\<forall>q. valid_path q \<longrightarrow> tbl (k_va K) ?m (table_root K) q \<noteq> Some (t2 + 4096)"
    using T(1) unfolding tables_in_def by blast
  then show ?thesis using that [of t t2] t t2 i unfolding across_def by simp
qed


section \<open>A machine with pages apart\<close>

lemma page_pa_nat:
  assumes "4096 dvd unat q" and "unat q < 2 ^ 52"
  shows "page_pa q"
  unfolding page_pa_def
proof (rule bit_eqI)
  fix n
  have "bit (unat q) n = bit q n" if "n < 64" using that by (simp add: bit_unsigned_iff)
  then have q: "bit q n \<longleftrightarrow> odd (unat q div 2 ^ n)" if "n < 64" using that by (simp add: bit_iff_odd [of "unat q"])
  have "12 \<le> n \<and> n < 52" if b: "bit q n"
  proof (rule ccontr)
    assume c: "\<not> (12 \<le> n \<and> n < 52)"
    have n: "n < 64" using bit_imp_le_length [OF b] by simp
    consider "n < 12" | "52 \<le> n" using c by linarith
    then show False
    proof cases
      case 1
      have "(2 :: nat) ^ Suc n dvd 2 ^ 12" using 1 by (intro le_imp_power_dvd) simp
      moreover have "(2 :: nat) ^ 12 dvd unat q" using assms(1) by simp
      ultimately have "2 * 2 ^ n dvd unat q" by (metis dvd_trans power_Suc)
      then have "even (unat q div 2 ^ n)" by (auto elim!: dvdE)
      then show False using q [OF n] b by simp
    next
      case 2
      then have "(2 :: nat) ^ 52 \<le> 2 ^ n" by (intro power_increasing) simp_all
      then have "unat q < 2 ^ n" using assms(2) by (rule less_le_trans [rotated])
      then show False using q [OF n] b by simp
    qed
  qed
  then show "bit (ent_base q) n = bit q n" by (auto simp: bit_ent_base)
qed

definition apart :: "nat \<Rightarrow> u64" where
  "apart i = of_nat (8192 * (i + 128))"

lemma apart_nat: "i < 2052 \<Longrightarrow> unat (apart i) = 8192 * (i + 128)"
  unfolding apart_def by (rule unat_of_nat_u64) simp

definition wide_proc :: process where
  "wide_proc = proc0\<lparr>device := dev0\<lparr>kern := \<lparr>kmem = (\<lambda>_. 0), kpages = map apart [0..<2052]\<rparr>\<rparr>\<rparr>"

definition wide_pages :: "u64 set" where
  "wide_pages = insert 0x5000 (apart ` {0..<2052})"

lemma wide_pages_apart: "\<forall>t \<in> wide_pages. t + 4096 \<notin> wide_pages"
proof
  fix t assume t: "t \<in> wide_pages"
  have w: "unat u = 20480 \<or> (8192 dvd unat u \<and> 1048576 \<le> unat u \<and> unat u < 18446744073709547520)" if "u \<in> wide_pages" for u
    using that apart_nat by (auto simp: wide_pages_def)
  have "unat (t + 4096) = unat t + 4096" using w [OF t] by (auto simp: add_no_wrap)
  moreover have "20480 \<noteq> x + 4096 \<and> \<not> (8192 dvd x + 4096 \<and> 1048576 \<le> x + 4096)"
    if "x = 20480 \<or> (8192 dvd x \<and> 1048576 \<le> x)" for x :: nat
    using that by (elim disjE) (simp, simp add: dvd_add_right_iff)
  ultimately show "t + 4096 \<notin> wide_pages" using w [OF t] w [of "t + 4096"] by metis
qed

lemma wide_proc_ok:
  "\<not> killed wide_proc" "walk_ok (k_va kern0) (k_pa kern0) (table_root kern0) (kern (device wide_proc))"
  "frames_ok (k_va kern0) (k_pa kern0) (table_root kern0) (kern (device wide_proc))"
  "tables_in kern0 wide_proc wide_pages" "4 * TEST_PAGES \<le> length (kpages (kern (device wide_proc)))"
proof -
  let ?s = "kern (device wide_proc)"
  have s: "kmem ?s = (\<lambda>_. 0)" "kpages ?s = map apart [0..<2052]" by (simp_all add: wide_proc_def)
  have k: "k_va kern0 = id" "k_pa kern0 = id" "table_root kern0 = 0x5000"
    by (simp_all add: kern0_def table_root_def CR3_TO_PML4E64_PA_def)
  have t: "tbl id (\<lambda>_. 0) 0x5000 q = (if q = [] then Some 0x5000 else None)" for q by (cases q) simp_all
  have a: "p \<noteq> NULL \<and> p \<noteq> 0x5000 \<and> page_aligned p \<and> page_pa p" if "p \<in> apart ` {0..<2052}" for p
  proof -
    from that obtain i where "p = apart i" "i \<in> {0..<2052}" by (rule imageE)
    then have u: "unat p = 8192 * (i + 128)" "i < 2052" using apart_nat by simp_all
    have "unat p \<noteq> unat (0 :: u64)" "unat p \<noteq> unat (0x5000 :: u64)" using u by simp_all
    moreover have "4096 dvd unat p" unfolding u(1) by (rule dvd_mult2) simp
    ultimately show ?thesis using u page_pa_nat [of p] by (auto simp: page_aligned_def)
  qed
  have "inj_on apart {0..<2052}"
  proof (rule inj_onI)
    fix x y assume xy: "x \<in> {0..<2052}" "y \<in> {0..<2052}" "apart x = apart y"
    have "unat (apart x) = 8192 * (x + 128)" "unat (apart y) = 8192 * (y + 128)"
      using xy(1,2) by (simp_all only: apart_nat atLeastLessThan_iff)
    then have "8192 * (x + 128) = 8192 * (y + 128)" using xy(3) by (simp only:)
    then show "x = y" by simp
  qed
  then have "good_pages id id (kpages ?s)" using a by (simp add: good_pages_def s distinct_map)
  moreover have "wf_tables id (kmem ?s) 0x5000 (set (kpages ?s))"
    unfolding wf_tables_def s t using a by (auto simp: page_aligned_def split: if_splits)
  ultimately show "walk_ok (k_va kern0) (k_pa kern0) (table_root kern0) ?s" by (simp add: walk_ok_def k)
  show "frames_ok (k_va kern0) (k_pa kern0) (table_root kern0) ?s"
    by (simp add: frames_ok_def k s translate_def table_path_def)
  show "tables_in kern0 wide_proc wide_pages" unfolding tables_in_def k s t by (auto simp: wide_pages_def split: if_splits)
  show "\<not> killed wide_proc" by (simp add: wide_proc_def proc0_def)
  show "4 * TEST_PAGES \<le> length (kpages ?s)" by (simp add: s TEST_PAGES_def)
qed

section \<open>Properties\<close>

text \<open>
  C40: releasing a range that reaches from one page table into the next leaks it and damages memory.  The
  walk ends without a fault, but only the entries of the first table are cleared: every page of the
  range in the second table stays mapped.  Instead, the words behind the second table are taken
  for entries: bit 0 of each of them is cleared, and where it was set, the page that the word would
  refer to is given back.  The hypotheses say that the first page has the entry with index \<open>i\<close> in the
  table \<open>t\<close>, that \<open>t2\<close> is the next table, that no table of the process lies right behind it, and that the
  \<open>n\<close> pages reach into \<open>t2\<close> but not beyond.
\<close>

theorem free_across_tables_leaks:
  assumes c: "find (\<lambda>c. mm_start c = a \<and> mm_allocated c) (vs_nodes vs) = Some c" and root: "root = va (CR3_TO_PML4E64_PA cr3)"
    and wf: "wf_tables va (kmem s) root F" and ac: "across va (kmem s) root a t t2"
    and n: "n = num_pages_of (mm_size c)" and i: "i = unat (PTE64_INDEX a)" and lo: "512 \<le> i + unat n" and hi: "i + unat n < 1023"
  shows "\<exists>s' rel. petmem_free_range va cr3 vs a s = ret (petmem_free_vspace vs a, s', rel)
           \<and> (\<forall>y. translate va (kmem s') root y =
                (if table_path y = table_path a \<and> PTE64_INDEX a \<le> PTE64_INDEX y then None else translate va (kmem s) root y))
           \<and> (\<forall>j \<le> i + unat n - 512. let x = t2 + 4096 + 8 * of_nat j in
                kmem s' x = set_field pte64 ''present'' 0 (kmem s x)
              \<and> (ent_present (kmem s x) \<longrightarrow> va (ent_base (kmem s x)) \<in> set rel))"
  by (rule free_range_across [OF assms])

text \<open>The first and the last page of the buffer of the test are accessed and it is released.\<close>

theorem free_across_tables_leaks_witness:
  "\<exists>s s' rel. translate id (kmem s) 0x5000 0x1000000000 \<noteq> None \<and> translate id (kmem s) 0x5000 0x1000200000 \<noteq> None
     \<and> petmem_free_range id 0x5000 (test_map 1 False 2) 0x1000000000 s = ret (petmem_free_vspace (test_map 1 False 2) 0x1000000000, s', rel)
     \<and> translate id (kmem s') 0x5000 0x1000000000 = None \<and> translate id (kmem s') 0x5000 0x1000200000 \<noteq> None"
proof -
  define p where "p = wide_proc\<lparr>handler_set := True, fd_open := True, device := (device wide_proc)\<lparr>vmap := test_map 1 False 2\<rparr>\<rparr>"
  let ?L = "{(68719476736, 2101248)} :: (nat \<times> nat) set" and ?xs = "[0x1000000000, 0x1000200000] :: u64 list"
  have p: "process_inv kern0 p ?L" "tables_in kern0 p wide_pages" "4 * length ?xs \<le> length (kpages (kern (device p)))"
    using wide_proc_ok test_map_inv [of 2 1 False] by (simp_all add: p_def process_inv_def tables_in_def TEST_PAGES_def)
  have x: "\<forall>x \<in> set ?xs. unat x \<in> span (68719476736, 2101248)" by (simp add: span_def)
  obtain q where q: "process_inv kern0 q ?L" "tables_in kern0 q wide_pages" "\<forall>x \<in> set ?xs. frame kern0 q x \<noteq> None"
    using accesses_live [OF p(1) singletonI x p(3,2), of 0] by blast
  let ?s = "kern (device q)"
  have f: "frame kern0 q 0x1000000000 \<noteq> None" "frame kern0 q 0x1000200000 \<noteq> None" using q(3) by simp_all
  obtain t t2 where ac: "across (k_va kern0) (kmem ?s) (table_root kern0) 0x1000000000 t t2"
    by (rule test_across [OF q(2) wide_pages_apart f])
  have c: "find (\<lambda>c. mm_start c = 0x1000000000 \<and> mm_allocated c) (vs_nodes (test_map 1 False 2))
      = Some \<lparr>mm_node = 1, mm_start = 0x1000000000, mm_size = 0x201000, mm_allocated = True\<rparr>" by (simp add: test_map_def)
  have wf: "wf_tables (k_va kern0) (kmem ?s) (table_root kern0) (set (kpages ?s))" using q(1) by (simp add: process_inv_def walk_ok_def)
  have i: "0 = PTE64_INDEX 0x1000000000" "513 = num_pages_of 0x201000" "table_path 0x1000200000 \<noteq> table_path 0x1000000000" by code_simp+
  have n: "(513 :: u64) = num_pages_of (mm_size \<lparr>mm_node = 1, mm_start = 0x1000000000, mm_size = 0x201000, mm_allocated = True\<rparr>)"
    "0 = unat (PTE64_INDEX 0x1000000000)" "512 \<le> 0 + unat (513 :: u64)" "0 + unat (513 :: u64) < 1023" using i(1,2) by simp_all
  have k: "k_va kern0 = id" "k_cr3 kern0 = 0x5000" "table_root kern0 = 0x5000"
    by (simp_all add: kern0_def table_root_def CR3_TO_PML4E64_PA_def)
  from free_across_tables_leaks [OF c table_root_def wf ac n] obtain s' rel where
    r: "petmem_free_range (k_va kern0) (k_cr3 kern0) (test_map 1 False 2) 0x1000000000 ?s
      = ret (petmem_free_vspace (test_map 1 False 2) 0x1000000000, s', rel)"
    and tr: "\<forall>y. translate (k_va kern0) (kmem s') (table_root kern0) y =
      (if table_path y = table_path 0x1000000000 \<and> PTE64_INDEX 0x1000000000 \<le> PTE64_INDEX y then None
       else translate (k_va kern0) (kmem ?s) (table_root kern0) y)" by blast
  show ?thesis using r tr f i(1,3) unfolding frame_def k
    by (intro exI [of _ ?s] exI [of _ s'] exI [of _ rel]) (simp flip: i(1))
qed



end
