(* ===== verification/RwDriver.thy ===== *)
theory RwDriver
  imports RwLock SyncDriver
begin

text \<open>
  The test of the reader-writer lock in \<open>src/SyncProject/driver.c\<close>: all threads but one run \<open>ex4_read_fn\<close>, the
  last one runs \<open>ex4_write_fn\<close>.  Every access to shared memory is one step.
\<close>

section \<open>The threads\<close>

text \<open>
  Where a thread is.  A reader: before the assignment of \<open>prev_value\<close>, in the first \<open>rw_read_lock\<close>, at the first
  barrier, before the first \<open>rw_read_unlock\<close>, at the second barrier, at the head of the loop, in
  \<open>rw_read_lock\<close>, at the comparison and at the assignment of the inner loop, and before \<open>rw_read_unlock\<close>.  The
  writer: at the barriers, at the head of its loop, in \<open>rw_write_lock\<close>, before the accesses to \<open>global_value\<close>,
  and before \<open>rw_write_unlock\<close>.
\<close>

datatype ex4_pc =
    ReadStart | ReadLock1 | ReadBarrier1 | ReadUnlock1 | ReadBarrier2
  | ReadLoop | ReadLock | ReadTest | ReadSave | ReadUnlock
  | WriteBarrier1 | WriteBarrier2 | WriteLoop | WriteLock | WriteZero | WriteLoad | WriteStore u32 | WriteUnlock

text \<open>
  \<open>waits\<close> counts the calls of \<open>pthread_barrier_wait\<close> that a thread has made.  Of a thread's local variables there
  are \<open>prev_value\<close>, \<open>i\<close>, \<open>j\<close> and whether it is to return an error.
\<close>

record ex4_sys =
  ex4_lock :: rw_sys
  ex4_value :: u32
  ex4_pc :: "nat \<Rightarrow> ex4_pc"
  ex4_waits :: "nat \<Rightarrow> nat"
  ex4_prev :: "nat \<Rightarrow> u32"
  ex4_i :: "nat \<Rightarrow> nat"
  ex4_j :: "nat \<Rightarrow> nat"
  ex4_error :: "nat \<Rightarrow> bool"

definition to_pc :: "nat \<Rightarrow> ex4_pc \<Rightarrow> ex4_sys \<Rightarrow> ex4_sys" where
  "to_pc x pc s = s\<lparr>ex4_pc := (ex4_pc s)(x := pc)\<rparr>"

text \<open>The \<open>k\<close>-th call of \<open>pthread_barrier_wait\<close>: it returns when all threads have made as many calls.\<close>

definition at_barrier :: "nat \<Rightarrow> nat \<Rightarrow> nat \<Rightarrow> ex4_pc \<Rightarrow> ex4_sys \<Rightarrow> ex4_sys" where
  "at_barrier num_threads k x nxt s =
     (if ex4_waits s x < k then s\<lparr>ex4_waits := (ex4_waits s)(x := k)\<rparr>
      else if list_all (\<lambda>y. k \<le> ex4_waits s y) [0..<num_threads] then to_pc x nxt s else s)"

text \<open>A step of a call on the lock; the thread goes on to \<open>nxt\<close> when its place in the lock is \<open>goal\<close>.\<close>

definition lock_call :: "bool \<Rightarrow> nat \<Rightarrow> rw_pc \<Rightarrow> ex4_pc \<Rightarrow> ex4_sys \<Rightarrow> ex4_sys res" where
  "lock_call write x goal nxt s =
     rbind (rw_step write x (ex4_lock s)) (\<lambda>l.
     Inr (if rw_pc l x = goal then to_pc x nxt (s\<lparr>ex4_lock := l\<rparr>) else s\<lparr>ex4_lock := l\<rparr>))"

definition ex4_read_fn :: "nat \<Rightarrow> nat \<Rightarrow> ex4_sys \<Rightarrow> ex4_sys res" where
  "ex4_read_fn num_threads x s =
     (case ex4_pc s x of
        ReadStart \<Rightarrow> Inr (to_pc x ReadLock1 (s\<lparr>ex4_prev := (ex4_prev s)(x := ex4_value s)\<rparr>))
      | ReadLock1 \<Rightarrow> lock_call False x Reading ReadBarrier1 s
      | ReadBarrier1 \<Rightarrow> Inr (at_barrier num_threads 1 x ReadUnlock1 s)
      | ReadUnlock1 \<Rightarrow> lock_call False x Idle ReadBarrier2 s
      | ReadBarrier2 \<Rightarrow> Inr (at_barrier num_threads 2 x ReadLoop s)
      | ReadLoop \<Rightarrow> Inr (if ex4_i s x < ITERATIONS div 10 then to_pc x ReadLock s else s)
      | ReadLock \<Rightarrow> lock_call False x Reading ReadTest (s\<lparr>ex4_j := (ex4_j s)(x := 0)\<rparr>)
      | ReadTest \<Rightarrow>
          Inr (if ex4_j s x < ITERATIONS div 10
               then to_pc x ReadSave
                 (if ex4_value s <s ex4_prev s x then s\<lparr>ex4_error := (ex4_error s)(x := True)\<rparr> else s)
               else to_pc x ReadUnlock s)
      | ReadSave \<Rightarrow>
          Inr (to_pc x ReadTest
            (s\<lparr>ex4_prev := (ex4_prev s)(x := ex4_value s), ex4_j := (ex4_j s)(x := ex4_j s x + 1)\<rparr>))
      | ReadUnlock \<Rightarrow> lock_call False x Idle ReadLoop (s\<lparr>ex4_i := (ex4_i s)(x := ex4_i s x + 1)\<rparr>)
      | _ \<Rightarrow> Inr s)"

definition ex4_write_fn :: "nat \<Rightarrow> nat \<Rightarrow> ex4_sys \<Rightarrow> ex4_sys res" where
  "ex4_write_fn num_threads x s =
     (case ex4_pc s x of
        WriteBarrier1 \<Rightarrow> Inr (at_barrier num_threads 1 x WriteBarrier2 s)
      | WriteBarrier2 \<Rightarrow> Inr (at_barrier num_threads 2 x WriteLoop s)
      | WriteLoop \<Rightarrow> Inr (if ex4_i s x < ITERATIONS div 10 then to_pc x WriteLock s else s)
      | WriteLock \<Rightarrow> lock_call True x Writing WriteZero s
      | WriteZero \<Rightarrow> Inr (to_pc x WriteLoad (s\<lparr>ex4_value := 0\<rparr>))
      | WriteLoad \<Rightarrow> Inr (to_pc x (WriteStore (ex4_value s)) s)
      | WriteStore v \<Rightarrow> Inr (to_pc x WriteUnlock (s\<lparr>ex4_value := v + of_nat (ex4_i s x)\<rparr>))
      | WriteUnlock \<Rightarrow> lock_call True x Idle WriteLoop (s\<lparr>ex4_i := (ex4_i s)(x := ex4_i s x + 1)\<rparr>)
      | _ \<Rightarrow> Inr s)"

section \<open>The run of the test\<close>

definition ex4_start :: "nat \<Rightarrow> u64 \<Rightarrow> u64 \<Rightarrow> ex4_sys" where
  "ex4_start num_threads sl0 sl1 =
     (let (l, st) = rw_lock_init sl0 sl1 Map.empty in
      \<lparr>ex4_lock = \<lparr>rw = l, locks = st, rw_pc = (\<lambda>_. Idle)\<rparr>, ex4_value = 0,
       ex4_pc = (\<lambda>x. if x < num_threads - 1 then ReadStart else WriteBarrier1), ex4_waits = (\<lambda>_. 0),
       ex4_prev = (\<lambda>_. 0), ex4_i = (\<lambda>_. 0), ex4_j = (\<lambda>_. 0), ex4_error = (\<lambda>_. False)\<rparr>)"

definition ex4_step :: "nat \<Rightarrow> nat \<Rightarrow> ex4_sys \<Rightarrow> ex4_sys res" where
  "ex4_step num_threads x s = (if x < num_threads - 1 then ex4_read_fn num_threads x s else ex4_write_fn num_threads x s)"

inductive ex4_run :: "nat \<Rightarrow> u64 \<Rightarrow> u64 \<Rightarrow> ex4_sys \<Rightarrow> bool" for num_threads sl0 sl1 where
  start: "ex4_run num_threads sl0 sl1 (ex4_start num_threads sl0 sl1)"
| step: "ex4_run num_threads sl0 sl1 s \<Longrightarrow> x < num_threads \<Longrightarrow> ex4_step num_threads x s = Inr s' \<Longrightarrow>
    ex4_run num_threads sl0 sl1 s'"

end
