(* ===== verification/RwDriverProps.thy ===== *)
theory RwDriverProps
  imports RwDriver RwLockProps
begin

text \<open>
  The test of the reader-writer lock cannot pass: all readers hold the lock when the first barrier
  opens, and when they have released it none of the threads can take it again.
\<close>

section \<open>Steps of the lock\<close>

fun acquiring :: "rw_pc \<Rightarrow> bool" where
  "acquiring Idle = True" | "acquiring RSpin = True" | "acquiring RWait = True" | "acquiring RLoad = True"
| "acquiring (RStore v) = True" | "acquiring RUnlock = True" | "acquiring _ = False"

lemmas rw_step_defs = rw_step_def rw_read_lock_step_def rw_write_lock_step_def mutex_try_def mutex_release_def goto_def

lemma rw_step_local:
  assumes "rw_step w i s = Inr s'"
  shows "j \<noteq> i \<Longrightarrow> rw_pc s' j = rw_pc s j" and "dom (locks s') = dom (locks s)"
    and "rw_pc s i \<noteq> Reading \<Longrightarrow> mutex (rw s') = mutex (rw s)"
  using assms by (auto simp: rw_step_defs rw_write_unlock_def Let_def split: rw_pc.splits option.splits prod.splits if_splits)

lemma rw_step_acquiring:
  assumes "rw_step False i s = Inr s'" and "acquiring (rw_pc s i)"
  shows "acquiring (rw_pc s' i) \<or> rw_pc s' i = Reading"
  using assms by (auto simp: rw_step_defs Let_def split: rw_pc.splits option.splits prod.splits if_splits)

lemma rw_step_Reading:
  "rw_pc s i = Reading \<Longrightarrow> rw_step w i s = Inr (goto i Idle (s\<lparr>rw := (rw s)\<lparr>mutex := sub_low (mutex (rw s)) 1\<rparr>\<rparr>))"
  by (simp add: rw_step_def rw_read_unlock_def)

text \<open>The pointer after several releases.\<close>

lemma sub_low_sub_low: "sub_low (sub_low p d) e = sub_low p (d + e)"
proof -
  have m: "(0xffffffff :: u64) = mask 32" by (simp add: mask_eq_exp_minus_1)
  have "sub_low p d AND NOT 0xffffffff = p AND NOT 0xffffffff"
    unfolding sub_low_def m by (rule bit_word_eqI) (auto simp: bit_simps dest: bit_imp_le_length)
  then show ?thesis
    unfolding sub_low_def [of "sub_low p d" e] sub_low_def [of p "d + e"] atomic_sub_def low_sub_low by (simp only: diff_diff_eq)
qed

lemma sub_low_0: "sub_low p 0 = p"
proof (rule bit_word_eqI)
  fix k assume k: "k < LENGTH(64)"
  have m: "(0xffffffff :: u64) = mask 32" by (simp add: mask_eq_exp_minus_1)
  show "bit (sub_low p 0) k = bit p k" unfolding sub_low_def atomic_sub_def m using k by (auto simp: bit_simps)
qed

lemma sub_low_neq: "d \<noteq> 0 \<Longrightarrow> sub_low p d \<noteq> p"
  using low_sub_low [of p d] by auto

section \<open>The invariant of the test\<close>

definition released :: "ex4_pc \<Rightarrow> bool" where
  "released pc \<longleftrightarrow> pc \<in> {ReadBarrier2, ReadLoop, ReadLock}"

text \<open>What is known of a thread at each place, up to the first lock call behind the barriers.\<close>

fun place_ok :: "ex4_pc \<Rightarrow> rw_pc \<Rightarrow> nat \<Rightarrow> bool" where
  "place_ok ReadStart l k = (l = Idle \<and> k = 0)"
| "place_ok ReadLock1 l k = (acquiring l \<and> k = 0)"
| "place_ok ReadBarrier1 l k = (l = Reading \<and> k \<le> 1)"
| "place_ok ReadUnlock1 l k = (l = Reading \<and> k = 1)"
| "place_ok ReadBarrier2 l k = (l = Idle \<and> (k = 1 \<or> k = 2))"
| "place_ok ReadLoop l k = (l = Idle \<and> k = 2)"
| "place_ok ReadLock l k = ((l = Idle \<or> l = RSpin) \<and> k = 2)"
| "place_ok WriteBarrier1 l k = (l = Idle \<and> k \<le> 1)"
| "place_ok WriteBarrier2 l k = (l = Idle \<and> (k = 1 \<or> k = 2))"
| "place_ok WriteLoop l k = (l = Idle \<and> k = 2)"
| "place_ok WriteLock l k = ((l = Idle \<or> l = WSpin) \<and> k = 2)"
| "place_ok _ l k = False"

fun is_reader :: "ex4_pc \<Rightarrow> bool" where
  "is_reader WriteBarrier1 = False" | "is_reader WriteBarrier2 = False" | "is_reader WriteLoop = False"
| "is_reader WriteLock = False" | "is_reader _ = True"

definition ex4_inv :: "nat \<Rightarrow> u64 \<Rightarrow> u64 \<Rightarrow> ex4_sys \<Rightarrow> bool" where
  "ex4_inv n sl0 sl1 s \<longleftrightarrow>
     (\<forall>x < n. place_ok (ex4_pc s x) (rw_pc (ex4_lock s) x) (ex4_waits s x) \<and> (is_reader (ex4_pc s x) \<longleftrightarrow> x < n - 1))
     \<and> (\<forall>x < n. ex4_pc s x \<in> {ReadLoop, ReadLock, WriteLoop, WriteLock} \<longrightarrow> (\<forall>y < n. 2 \<le> ex4_waits s y))
     \<and> mutex (rw (ex4_lock s)) = sub_low sl0 (of_nat (card {x. x < n - 1 \<and> released (ex4_pc s x)}))
     \<and> dom (locks (ex4_lock s)) = {sl0, sl1}
     \<and> ex4_value s = 0 \<and> (\<forall>x. ex4_i s x = 0 \<and> \<not> ex4_error s x)"

text \<open>Behind the second barrier the pointer to the mutex is wrong.\<close>

lemma mutex_lost:
  assumes inv: "ex4_inv n sl0 sl1 s" and n: "2 \<le> n" "n - 1 < 2 ^ 32" and sl: "sub_low sl0 (of_nat (n - 1)) \<noteq> sl1"
    and x: "x < n" "ex4_pc s x \<in> {ReadLoop, ReadLock, WriteLoop, WriteLock}"
  shows "locks (ex4_lock s) (mutex (rw (ex4_lock s))) = None" and "mutex (rw (ex4_lock s)) = sub_low sl0 (of_nat (n - 1))"
proof -
  have "released (ex4_pc s y)" if y: "y < n - 1" for y
  proof -
    have yn: "y < n" using y by simp
    have "place_ok (ex4_pc s y) (rw_pc (ex4_lock s) y) (ex4_waits s y)" "is_reader (ex4_pc s y)" "2 \<le> ex4_waits s y"
      using inv x yn y unfolding ex4_inv_def by blast+
    then show ?thesis by (cases "ex4_pc s y") (auto simp: released_def)
  qed
  then have "{x. x < n - 1 \<and> released (ex4_pc s x)} = {..<n - 1}" by auto
  then show m: "mutex (rw (ex4_lock s)) = sub_low sl0 (of_nat (n - 1))" using inv by (simp add: ex4_inv_def)
  have "(of_nat (n - 1) :: u32) \<noteq> 0"
  proof
    assume "(of_nat (n - 1) :: u32) = 0"
    then have "unat (of_nat (n - 1) :: u32) = 0" by simp
    then show False using n unat_of_nat_u32 [OF n(2)] by simp
  qed
  then have "mutex (rw (ex4_lock s)) \<notin> dom (locks (ex4_lock s))"
    unfolding m using inv sub_low_neq [of "of_nat (n - 1)" sl0] sl by (simp add: ex4_inv_def)
  then show "locks (ex4_lock s) (mutex (rw (ex4_lock s))) = None" by blast
qed

text \<open>A step of thread \<open>x\<close> that leaves the other threads alone.\<close>

lemma ex4_inv_step:
  assumes inv: "ex4_inv n sl0 sl1 s" and x: "x < n"
    and same: "\<And>y. y \<noteq> x \<Longrightarrow> ex4_pc s' y = ex4_pc s y \<and> rw_pc (ex4_lock s') y = rw_pc (ex4_lock s) y \<and> ex4_waits s' y = ex4_waits s y"
    and w: "ex4_waits s x \<le> ex4_waits s' x"
    and place: "place_ok (ex4_pc s' x) (rw_pc (ex4_lock s') x) (ex4_waits s' x)" "is_reader (ex4_pc s' x) = is_reader (ex4_pc s x)"
    and past: "ex4_pc s' x \<in> {ReadLoop, ReadLock, WriteLoop, WriteLock} \<Longrightarrow> \<forall>y < n. 2 \<le> ex4_waits s y"
    and m: "mutex (rw (ex4_lock s')) = (if released (ex4_pc s' x) \<and> \<not> released (ex4_pc s x)
              then sub_low (mutex (rw (ex4_lock s))) 1 else mutex (rw (ex4_lock s)))"
    and rel: "released (ex4_pc s x) \<longrightarrow> released (ex4_pc s' x)"
    and d: "dom (locks (ex4_lock s')) = dom (locks (ex4_lock s))"
    and v: "ex4_value s' = ex4_value s" "ex4_i s' = ex4_i s" "ex4_error s' = ex4_error s"
  shows "ex4_inv n sl0 sl1 s'"
proof -
  let ?R = "\<lambda>s. {x. x < n - 1 \<and> released (ex4_pc s x)}"
  have waits: "ex4_waits s y \<le> ex4_waits s' y" for y using same w by (cases "y = x") auto
  have "place_ok (ex4_pc s' y) (rw_pc (ex4_lock s') y) (ex4_waits s' y) \<and> (is_reader (ex4_pc s' y) \<longleftrightarrow> y < n - 1)" if y: "y < n" for y
    using inv y place same unfolding ex4_inv_def by (cases "y = x") auto
  moreover have "2 \<le> ex4_waits s' z"
    if y: "y < n" "ex4_pc s' y \<in> {ReadLoop, ReadLock, WriteLoop, WriteLock}" and z: "z < n" for y z
  proof -
    have "2 \<le> ex4_waits s z"
    proof (cases "y = x")
      case True
      then show ?thesis using past y(2) z by blast
    next
      case False
      then show ?thesis using inv y z same unfolding ex4_inv_def by metis
    qed
    then show ?thesis using waits [of z] by simp
  qed
  moreover have "mutex (rw (ex4_lock s')) = sub_low sl0 (of_nat (card (?R s')))"
  proof (cases "released (ex4_pc s' x) \<and> \<not> released (ex4_pc s x)")
    case True
    have "is_reader (ex4_pc s' x)" using True by (auto simp: released_def)
    then have "x < n - 1" using inv x place(2) unfolding ex4_inv_def by blast
    then have "?R s' = insert x (?R s)" "x \<notin> ?R s" using True same by (auto, metis)
    then have "card (?R s') = Suc (card (?R s))" by simp
    then show ?thesis using m True inv by (simp add: ex4_inv_def sub_low_sub_low add.commute)
  next
    case False
    then have "released (ex4_pc s' y) = released (ex4_pc s y)" for y using rel same by (cases "y = x") auto
    then show ?thesis using m False inv by (simp add: ex4_inv_def)
  qed
  ultimately show ?thesis using inv d v unfolding ex4_inv_def by simp
qed

lemma to_pc_sel [simp]:
  "ex4_lock (to_pc x pc s) = ex4_lock s" "ex4_value (to_pc x pc s) = ex4_value s" "ex4_pc (to_pc x pc s) = (ex4_pc s)(x := pc)"
  "ex4_waits (to_pc x pc s) = ex4_waits s" "ex4_i (to_pc x pc s) = ex4_i s" "ex4_error (to_pc x pc s) = ex4_error s"
  by (simp_all add: to_pc_def)

text \<open>A wait at a barrier, and a step of a call on the lock that does not release it for reading.\<close>

lemma at_barrier_inv:
  assumes inv: "ex4_inv n sl0 sl1 s" and x: "x < n"
    and arrive: "ex4_waits s x < k \<Longrightarrow> place_ok (ex4_pc s x) (rw_pc (ex4_lock s) x) k"
    and pass: "k \<le> ex4_waits s x \<Longrightarrow> place_ok nxt (rw_pc (ex4_lock s) x) (ex4_waits s x)" "is_reader nxt = is_reader (ex4_pc s x)"
    and kind: "ex4_pc s x \<notin> {ReadLoop, ReadLock, WriteLoop, WriteLock}" "\<not> released nxt \<and> \<not> released (ex4_pc s x) \<or> released nxt \<and> released (ex4_pc s x)"
    and past: "nxt \<in> {ReadLoop, ReadLock, WriteLoop, WriteLock} \<Longrightarrow> k = 2"
  shows "ex4_inv n sl0 sl1 (at_barrier n k x nxt s)"
proof -
  consider "ex4_waits s x < k" | "k \<le> ex4_waits s x" "\<forall>y < n. k \<le> ex4_waits s y" | "k \<le> ex4_waits s x" "\<not> (\<forall>y < n. k \<le> ex4_waits s y)"
    using not_le_imp_less by blast
  then show ?thesis
  proof cases
    case 1
    then have e: "at_barrier n k x nxt s = s\<lparr>ex4_waits := (ex4_waits s)(x := k)\<rparr>" by (simp add: at_barrier_def)
    show ?thesis unfolding e by (rule ex4_inv_step [OF inv x]) (use 1 arrive kind in auto)
  next
    case 2
    then have e: "at_barrier n k x nxt s = to_pc x nxt s" by (simp add: at_barrier_def list_all_iff)
    show ?thesis unfolding e by (rule ex4_inv_step [OF inv x]) (use 2 pass kind past in auto)
  next
    case 3
    then have "at_barrier n k x nxt s = s" by (auto simp: at_barrier_def list_all_iff)
    then show ?thesis using inv by simp
  qed
qed

text \<open>Behind the barriers a call on the lock gets as far as the attempt on the mutex, which faults.\<close>

lemma lost_lock_call:
  assumes "locks (ex4_lock s) (mutex (rw (ex4_lock s))) = None" and "rw_pc (ex4_lock s) x = (if w then WSpin else RSpin)"
  shows "lock_call w x g nxt s = Inl (BadDeref (mutex (rw (ex4_lock s))))"
  using assms by (auto simp: lock_call_def rw_step_def rw_read_lock_step_def rw_write_lock_step_def mutex_try_def rbind_eq_Inl)

lemma first_lock_inv:
  assumes inv: "ex4_inv n sl0 sl1 s" and x: "x < n" "ex4_pc s x = ReadLock1" and e: "lock_call False x Reading ReadBarrier1 s = Inr s'"
  shows "ex4_inv n sl0 sl1 s'"
proof -
  obtain l where l: "rw_step False x (ex4_lock s) = Inr l"
    and s': "s' = (if rw_pc l x = Reading then to_pc x ReadBarrier1 (s\<lparr>ex4_lock := l\<rparr>) else s\<lparr>ex4_lock := l\<rparr>)"
    using e by (auto simp: lock_call_def)
  have "place_ok (ex4_pc s x) (rw_pc (ex4_lock s) x) (ex4_waits s x)" using inv x(1) by (simp add: ex4_inv_def)
  then have a: "acquiring (rw_pc (ex4_lock s) x)" "ex4_waits s x = 0" using x(2) by simp_all
  then have nr: "rw_pc (ex4_lock s) x \<noteq> Reading" by auto
  note k = rw_step_local(1,2) [OF l] rw_step_local(3) [OF l nr]
  show ?thesis
  proof (cases "rw_pc l x = Reading")
    case True
    have "s' = to_pc x ReadBarrier1 (s\<lparr>ex4_lock := l\<rparr>)" using s' True by simp
    then show ?thesis using k x(2) a(2) True by (intro ex4_inv_step [OF inv x(1)]) (auto simp: released_def)
  next
    case False
    have "s' = s\<lparr>ex4_lock := l\<rparr>" using s' False by simp
    moreover have "acquiring (rw_pc l x)" using rw_step_acquiring [OF l a(1)] False by blast
    ultimately show ?thesis using k x(2) a(2) by (intro ex4_inv_step [OF inv x(1)]) (auto simp: released_def)
  qed
qed

lemma ex4_read_inv:
  assumes inv: "ex4_inv n sl0 sl1 s" and n: "2 \<le> n" "n - 1 < 2 ^ 32" and sl: "sub_low sl0 (of_nat (n - 1)) \<noteq> sl1"
    and x: "x < n - 1" and e: "ex4_read_fn n x s = Inr s'"
  shows "ex4_inv n sl0 sl1 s'"
proof -
  have xn: "x < n" using x by simp
  have pl: "place_ok (ex4_pc s x) (rw_pc (ex4_lock s) x) (ex4_waits s x)" and rd: "is_reader (ex4_pc s x)"
    using inv xn x by (auto simp: ex4_inv_def)
  show ?thesis
  proof (cases "ex4_pc s x")
    case ReadStart
    then have s': "s' = to_pc x ReadLock1 (s\<lparr>ex4_prev := (ex4_prev s)(x := ex4_value s)\<rparr>)" using e by (simp add: ex4_read_fn_def)
    show ?thesis unfolding s' by (rule ex4_inv_step [OF inv xn]) (use ReadStart pl in \<open>auto simp: released_def\<close>)
  next
    case ReadLock1
    then show ?thesis using first_lock_inv [OF inv xn] e by (simp add: ex4_read_fn_def)
  next
    case ReadBarrier1
    then show ?thesis using e pl at_barrier_inv [OF inv xn, of 1 ReadUnlock1] by (auto simp: ex4_read_fn_def released_def)
  next
    case ReadUnlock1
    then have "rw_pc (ex4_lock s) x = Reading" using pl by simp
    from rw_step_Reading [OF this, of False] have
      s': "s' = to_pc x ReadBarrier2 (s\<lparr>ex4_lock := goto x Idle ((ex4_lock s)\<lparr>rw := (rw (ex4_lock s))\<lparr>mutex := sub_low (mutex (rw (ex4_lock s))) 1\<rparr>\<rparr>)\<rparr>)"
      using e ReadUnlock1 by (simp add: ex4_read_fn_def lock_call_def goto_def)
    show ?thesis unfolding s' by (rule ex4_inv_step [OF inv xn]) (use ReadUnlock1 pl in \<open>auto simp: released_def goto_def\<close>)
  next
    case ReadBarrier2
    then show ?thesis using e pl at_barrier_inv [OF inv xn, of 2 ReadLoop] by (auto simp: ex4_read_fn_def released_def)
  next
    case ReadLoop
    then have "s' = s \<or> s' = to_pc x ReadLock s" using e by (auto simp: ex4_read_fn_def split: if_splits)
    moreover have "ex4_inv n sl0 sl1 (to_pc x ReadLock s)"
      by (rule ex4_inv_step [OF inv xn]) (use ReadLoop pl inv xn in \<open>auto simp: released_def ex4_inv_def\<close>)
    ultimately show ?thesis using inv by auto
  next
    case ReadLock
    then have none: "locks (ex4_lock s) (mutex (rw (ex4_lock s))) = None" using mutex_lost [OF inv n sl xn] by simp
    let ?s = "s\<lparr>ex4_j := (ex4_j s)(x := 0)\<rparr>"
    have e': "lock_call False x Reading ReadTest ?s = Inr s'" using e ReadLock by (simp add: ex4_read_fn_def)
    then have "rw_pc (ex4_lock s) x \<noteq> RSpin" using lost_lock_call [of ?s x False] none by auto
    then have "rw_pc (ex4_lock s) x = Idle" using pl ReadLock by simp
    then have s': "s' = ?s\<lparr>ex4_lock := goto x RSpin (ex4_lock s)\<rparr>" using e' by (simp add: lock_call_def rw_step_def goto_def)
    show ?thesis unfolding s'
      by (rule ex4_inv_step [OF inv xn]) (use ReadLock pl inv xn in \<open>auto simp: released_def goto_def ex4_inv_def\<close>)
  qed (use pl rd in auto)
qed

lemma ex4_write_inv:
  assumes inv: "ex4_inv n sl0 sl1 s" and n: "2 \<le> n" "n - 1 < 2 ^ 32" and sl: "sub_low sl0 (of_nat (n - 1)) \<noteq> sl1"
    and x: "x < n" "\<not> x < n - 1" and e: "ex4_write_fn n x s = Inr s'"
  shows "ex4_inv n sl0 sl1 s'"
proof -
  have pl: "place_ok (ex4_pc s x) (rw_pc (ex4_lock s) x) (ex4_waits s x)" and rd: "\<not> is_reader (ex4_pc s x)"
    using inv x by (auto simp: ex4_inv_def)
  show ?thesis
  proof (cases "ex4_pc s x")
    case WriteBarrier1
    then show ?thesis using e pl at_barrier_inv [OF inv x(1), of 1 WriteBarrier2] by (auto simp: ex4_write_fn_def released_def)
  next
    case WriteBarrier2
    then show ?thesis using e pl at_barrier_inv [OF inv x(1), of 2 WriteLoop] by (auto simp: ex4_write_fn_def released_def)
  next
    case WriteLoop
    then have "s' = s \<or> s' = to_pc x WriteLock s" using e by (auto simp: ex4_write_fn_def split: if_splits)
    moreover have "ex4_inv n sl0 sl1 (to_pc x WriteLock s)"
      by (rule ex4_inv_step [OF inv x(1)]) (use WriteLoop pl inv x in \<open>auto simp: released_def ex4_inv_def\<close>)
    ultimately show ?thesis using inv by auto
  next
    case WriteLock
    then have none: "locks (ex4_lock s) (mutex (rw (ex4_lock s))) = None" using mutex_lost [OF inv n sl x(1)] by simp
    have e': "lock_call True x Writing WriteZero s = Inr s'" using e WriteLock by (simp add: ex4_write_fn_def)
    then have "rw_pc (ex4_lock s) x \<noteq> WSpin" using lost_lock_call [of s x True] none by auto
    then have "rw_pc (ex4_lock s) x = Idle" using pl WriteLock by simp
    then have s': "s' = s\<lparr>ex4_lock := goto x WSpin (ex4_lock s)\<rparr>" using e' by (simp add: lock_call_def rw_step_def goto_def)
    show ?thesis unfolding s'
      by (rule ex4_inv_step [OF inv x(1)]) (use WriteLock pl inv x in \<open>auto simp: released_def goto_def ex4_inv_def\<close>)
  qed (use rd in auto)
qed

lemma ex4_run_inv:
  assumes "ex4_run n sl0 sl1 s" and n: "2 \<le> n" "n - 1 < 2 ^ 32" and sl: "sub_low sl0 (of_nat (n - 1)) \<noteq> sl1"
  shows "ex4_inv n sl0 sl1 s"
  using assms(1)
proof induction
  case start
  have "{x. x < n - 1 \<and> released (ex4_pc (ex4_start n sl0 sl1) x)} = {}"
    by (auto simp: ex4_start_def rw_lock_init_def released_def)
  then show ?case by (auto simp: ex4_inv_def ex4_start_def rw_lock_init_def sub_low_0)
next
  case (step s x s')
  then show ?case
    using ex4_read_inv [OF step.IH n sl] ex4_write_inv [OF step.IH n sl step.hyps(2)] by (auto simp: ex4_step_def split: if_splits)
qed

section \<open>Property\<close>

text \<open>
  The test of the reader-writer lock never gets beyond its second barrier, whatever the interleaving:
  the readers have all released the lock by then, and the next attempt of any thread to take it,
  for reading or for writing, dereferences a pointer to no lock.  So no thread ever completes an
  iteration and the writer never writes.  The hypotheses bound the number of threads and exclude
  that the second spin lock happens to lie where the corrupted pointer points.
\<close>

theorem rw_test_never_completes:
  assumes "ex4_run n sl0 sl1 s" and "2 \<le> n" and "n - 1 < 2 ^ 32" and "sub_low sl0 (of_nat (n - 1)) \<noteq> sl1" and "x < n"
  shows "ex4_i s x = 0 \<and> ex4_value s = 0
       \<and> (ex4_pc s x \<in> {ReadLock, WriteLock} \<and> rw_pc (ex4_lock s) x \<noteq> Idle \<longrightarrow>
            ex4_step n x s = Inl (BadDeref (sub_low sl0 (of_nat (n - 1)))))"
proof -
  have inv: "ex4_inv n sl0 sl1 s" by (rule ex4_run_inv [OF assms(1-4)])
  then have pl: "place_ok (ex4_pc s x) (rw_pc (ex4_lock s) x) (ex4_waits s x)" "is_reader (ex4_pc s x) \<longleftrightarrow> x < n - 1"
    using assms(5) by (auto simp: ex4_inv_def)
  have "ex4_step n x s = Inl (BadDeref (sub_low sl0 (of_nat (n - 1))))"
    if p: "ex4_pc s x \<in> {ReadLock, WriteLock}" "rw_pc (ex4_lock s) x \<noteq> Idle"
  proof -
    have "locks (ex4_lock s) (mutex (rw (ex4_lock s))) = None" "mutex (rw (ex4_lock s)) = sub_low sl0 (of_nat (n - 1))"
      using mutex_lost [OF inv assms(2-5)] p(1) by auto
    then show ?thesis
      using p pl lost_lock_call [of "s\<lparr>ex4_j := (ex4_j s)(x := 0)\<rparr>" x False] lost_lock_call [of s x True]
      by (auto simp: ex4_step_def ex4_read_fn_def ex4_write_fn_def)
  qed
  then show ?thesis using inv by (simp add: ex4_inv_def)
qed

lemma rfold_ex4_run:
  "ex4_run n sl0 sl1 s \<Longrightarrow> rfold (ex4_step n) xs s = Inr s' \<Longrightarrow> list_all (\<lambda>x. x < n) xs \<Longrightarrow> ex4_run n sl0 sl1 s'"
  by (induction xs arbitrary: s) (auto intro: ex4_run.step)

text \<open>One reader and one writer that reach the loop of the reader.\<close>

theorem rw_test_never_completes_witness:
  "\<exists>s. rfold (ex4_step 2) [0, 0, 0, 0, 0, 0, 0, 0, 1, 1, 0, 0, 0, 1, 1, 0, 0, 0] (ex4_start 2 0x100 0x200) = Inr s
     \<and> ex4_step 2 0 s = Inl (BadDeref 0xff)"
proof -
  let ?xs = "[0, 0, 0, 0, 0, 0, 0, 0, 1, 1, 0, 0, 0, 1, 1, 0, 0, 0] :: nat list"
  have "rbind (rfold (ex4_step 2) ?xs (ex4_start 2 0x100 0x200)) (\<lambda>s. Inr (ex4_pc s 0, rw_pc (ex4_lock s) 0)) = Inr (ReadLock, RSpin)"
    by code_simp
  then obtain s where s: "rfold (ex4_step 2) ?xs (ex4_start 2 0x100 0x200) = Inr s" "ex4_pc s 0 = ReadLock" "rw_pc (ex4_lock s) 0 = RSpin"
    by auto
  have r: "ex4_run 2 0x100 0x200 s" by (rule rfold_ex4_run [OF ex4_run.start s(1)]) simp
  have "sub_low 0x100 1 = 0xff" by code_simp
  then show ?thesis using rw_test_never_completes [OF r, of 0] s by auto
qed

end
