(* ===== verification/QueueDriver.thy ===== *)
theory QueueDriver
  imports LfConc SyncDriver
begin

text \<open>
  The test of the lock-free queue in \<open>src/SyncProject/driver.c\<close>: all threads but one enqueue, the last one
  dequeues.  Every access to shared memory is one step, as in \<open>LfConc\<close>.
\<close>

section \<open>The threads\<close>

text \<open>The queue, and the value of the loop variable \<open>i\<close> of each thread.\<close>

record q_sys =
  q_lf :: lf_sys
  q_iter :: "nat \<Rightarrow> nat"

text \<open>
  A step of \<open>enqueue_fn\<close> in thread \<open>x\<close>.  When it calls \<open>lf_enqueue\<close>, \<open>q\<close> is the node that \<open>malloc\<close> returns.
\<close>

definition enqueue_fn :: "nat \<Rightarrow> u64 \<Rightarrow> q_sys \<Rightarrow> q_sys res" where
  "enqueue_fn x q s =
     (let l = q_lf s; i = q_iter s x in
      if lpc l x = Idle then
        Inr (if i < ITERATIONS
             then s\<lparr>q_lf := lgoto x (ELoad q) (l\<lparr>lst := (lst l)(q \<mapsto> \<lparr>nd_value = of_nat i, nd_next = NULL\<rparr>)\<rparr>)\<rparr>
             else s)
      else rbind (lf_exec x l) (\<lambda>l.
           Inr (s\<lparr>q_lf := l, q_iter := (if lpc l x = Idle then (q_iter s)(x := i + 1) else q_iter s)\<rparr>)))"

text \<open>
  A step of \<open>dequeue_fn\<close>.  A call that returns 1 has added to \<open>returned\<close>; the inner loop then calls \<open>lf_dequeue\<close>
  again, and it ends when a call returns 0.
\<close>

definition dequeue_fn :: "nat \<Rightarrow> nat \<Rightarrow> q_sys \<Rightarrow> q_sys res" where
  "dequeue_fn num_threads x s =
     (let l = q_lf s; i = q_iter s x in
      if lpc l x = Idle then
        Inr (if i < ITERATIONS * (num_threads - 1) then s\<lparr>q_lf := lgoto x DLoad l\<rparr> else s)
      else rbind (lf_exec x l) (\<lambda>l.
           Inr (s\<lparr>q_lf := l,
                  q_iter := (if lpc l x = Idle \<and> returned l x = returned (q_lf s) x then (q_iter s)(x := i + 1)
                             else q_iter s)\<rparr>)))"

section \<open>The run of the test\<close>

text \<open>
  \<open>main\<close> initialises the queue, with the nodes \<open>a\<close> and \<open>b\<close>, starts the threads \<open>0\<close> to \<open>num_threads - 2\<close> with \<open>enqueue_fn\<close> and
  the last one with \<open>dequeue_fn\<close>.  A new node is an address that is not in use.
\<close>

definition queue_start :: "u64 \<Rightarrow> u64 \<Rightarrow> u32 \<Rightarrow> u32 \<Rightarrow> q_sys" where
  "queue_start a b v w =
     (let (Q, st) = lf_queue_init a b v w Map.empty in
      \<lparr>q_lf = \<lparr>lq = Q, lst = st, lpc = (\<lambda>_. Idle), enq_log = [], deq_log = [], returned = (\<lambda>_. [])\<rparr>, q_iter = (\<lambda>_. 0)\<rparr>)"

inductive queue_run :: "nat \<Rightarrow> q_sys \<Rightarrow> q_sys \<Rightarrow> bool" for num_threads s0 where
  start: "queue_run num_threads s0 s0"
| producer: "queue_run num_threads s0 s \<Longrightarrow> x < num_threads - 1 \<Longrightarrow> lst (q_lf s) q = None \<Longrightarrow> q \<noteq> NULL \<Longrightarrow>
    enqueue_fn x q s = Inr s' \<Longrightarrow> queue_run num_threads s0 s'"
| consumer: "queue_run num_threads s0 s \<Longrightarrow> dequeue_fn num_threads (num_threads - 1) s = Inr s' \<Longrightarrow>
    queue_run num_threads s0 s'"

text \<open>
  All threads have returned; every thread function returns 0, so that \<open>main\<close> prints \<open>SUCCESS\<close>.
\<close>

definition queue_finished :: "nat \<Rightarrow> q_sys \<Rightarrow> bool" where
  "queue_finished num_threads s \<longleftrightarrow>
     (\<forall>x < num_threads. lpc (q_lf s) x = Idle
        \<and> (if x < num_threads - 1 then q_iter s x = ITERATIONS else q_iter s x = ITERATIONS * (num_threads - 1)))"

end
