(* ===== verification/QueueDriverProps.thy ===== *)
theory QueueDriverProps
  imports QueueDriver LfConcProps
begin

text \<open>
  What the test of the queue does with the queue that \<open>lf_queue_init\<close> sets up: the producers append to the
  node of the tail, the consumer looks at the node of the head, which is another one.  Seen without
  the consumer and its node, the queue is the one of \<open>LfConcProps\<close>, whose invariant applies.
\<close>

section \<open>The view of the producers\<close>

definition producers_view :: "u64 \<Rightarrow> u64 \<Rightarrow> nat \<Rightarrow> lf_sys \<Rightarrow> lf_sys" where
  "producers_view a b c l = l\<lparr>lq := (lq l)\<lparr>head := b\<rparr>, lst := (lst l)(a := None), lpc := (lpc l)(c := Idle)\<rparr>"

lemma producers_view_sel [simp]:
  "tail (lq (producers_view a b c l)) = tail (lq l)" "lst (producers_view a b c l) = (lst l)(a := None)"
  "lpc (producers_view a b c l) = (lpc l)(c := Idle)" "enq_log (producers_view a b c l) = enq_log l"
  "deq_log (producers_view a b c l) = deq_log l" "returned (producers_view a b c l) = returned l"
  "lq (producers_view a b c l) = (lq l)\<lparr>head := b\<rparr>"
  by (simp_all add: producers_view_def)

lemma producers_view_consumer [simp]: "producers_view a b c (lgoto c pc l) = producers_view a b c l"
  by (simp add: producers_view_def lgoto_def)

text \<open>The nodes that a step of \<open>lf_enqueue\<close> accesses.\<close>

fun enq_nodes :: "lf_pc \<Rightarrow> u64 set" where
  "enq_nodes (ECas q p) = {q, p}"
| "enq_nodes (ETest q p) = {p}"
| "enq_nodes (EHelp q p) = {p}"
| "enq_nodes _ = {}"

lemma load_node_other [simp]: "p \<noteq> a \<Longrightarrow> load_node (st(a := None)) p = load_node st p"
  by (simp add: load_node_def)

lemma enq_step_view:
  assumes "x \<noteq> c" and "a \<notin> enq_nodes pc"
  shows "enq_step x pc (producers_view a b c l) = map_sum id (producers_view a b c) (enq_step x pc l)"
proof (cases pc)
  case (ECas q p)
  then have "p \<noteq> a" "q \<noteq> a" using assms(2) by auto
  then show ?thesis using assms(1) ECas
    by (cases "load_node (lst l) p"; cases "load_node (lst l) q")
       (auto simp: enq_step_def cas_next_def producers_view_def lgoto_def fun_upd_twist)
next
  case (ETest q p)
  then show ?thesis using assms
    by (cases "load_node (lst l) p") (auto simp: enq_step_def producers_view_def lgoto_def fun_upd_twist)
next
  case (EHelp q p)
  then show ?thesis using assms
    by (cases "load_node (lst l) p") (auto simp: enq_step_def producers_view_def lgoto_def fun_upd_twist)
qed (use assms in \<open>auto simp: enq_step_def producers_view_def lgoto_def cas_tail_def fun_upd_twist\<close>)

lemma enq_step_keeps:
  assumes "enq_step x pc l = Inr l'" and "a \<notin> enq_nodes pc"
  shows "head (lq l') = head (lq l) \<and> lst l' a = lst l a \<and> (\<forall>j. j \<noteq> x \<longrightarrow> lpc l' j = lpc l j)
       \<and> returned l' = returned l \<and> deq_log l' = deq_log l
       \<and> (own_node pc \<noteq> None \<longrightarrow> lpc l' x = Idle \<or> own_node (lpc l' x) \<noteq> None)"
  using assms by (cases pc) (auto simp: enq_step_def cas_next_def cas_tail_def lgoto_def split: if_splits)

section \<open>Counting the values\<close>

text \<open>Whether a call of \<open>lf_enqueue\<close> that has not returned has linked its node already.\<close>

definition has_linked :: "node_store \<Rightarrow> lf_pc \<Rightarrow> nat" where
  "has_linked st pc = (case pc of ETest q p \<Rightarrow> if q = nxt st p then 1 else 0 | ESwing q p \<Rightarrow> 1 | _ \<Rightarrow> 0)"

lemma has_linked_simps [simp]:
  "has_linked st Idle = 0" "has_linked st (ELoad q) = 0" "has_linked st (ECas q p) = 0"
  "has_linked st (ETest q p) = (if q = nxt st p then 1 else 0)" "has_linked st (EHelp q p) = 0"
  "has_linked st (EHelpCas q p x) = 0" "has_linked st (ESwing q p) = 1"
  by (simp_all add: has_linked_def)

lemma has_linked_grown:
  assumes "grown st ns st' ns'" and "pc_ok st ns h pc"
  shows "has_linked st' pc = has_linked st pc"
  using assms by (cases pc) (auto simp: has_linked_def grown_def)

text \<open>A step of a producer changes the number of linked values as its program counter says.\<close>

lemma enq_step_count:
  assumes inv: "lf_inv s ns" and pc: "own_node (lpc s x) \<noteq> None" and e: "enq_step x (lpc s x) s = Inr s'"
  shows "length (enq_log s') + has_linked (lst s) (lpc s x)
           = length (enq_log s) + has_linked (lst s') (lpc s' x) + (if lpc s' x = Idle then 1 else 0)"
    and "j \<noteq> x \<Longrightarrow> has_linked (lst s') (lpc s j) = has_linked (lst s) (lpc s j)"
proof -
  note l = inv_parts(1) [OF inv] and ok = inv_parts(2) [OF inv, of x]
  have ld: "\<exists>n. load_node (lst s) p = Inr n \<and> lst s p = Some n \<and> nd_next n = nxt (lst s) p" if "p \<in> set ns" for p
    using linked_load [OF l that] by blast
  have "length (enq_log s') + has_linked (lst s) (lpc s x)
           = length (enq_log s) + has_linked (lst s') (lpc s' x) + (if lpc s' x = Idle then 1 else 0)
         \<and> (lst s' = lst s \<or> (\<exists>ns'. grown (lst s) ns (lst s') ns'))"
  proof (cases "lpc s x")
    case (ECas q p)
    show ?thesis
    proof (rule ecas_effect [OF inv ECas])
      fix m t assume a: "p = last ns" "lst s p = Some m" "q \<notin> set ns" "q \<noteq> NULL" "lst s q = Some t" "nd_next t = NULL"
      assume "enq_step x (ECas q p) s =
        Inr (lgoto x (ETest q p) (s\<lparr>lst := (lst s)(p \<mapsto> m\<lparr>nd_next := q\<rparr>), enq_log := enq_log s @ [nd_value t]\<rparr>))"
      then show ?thesis using e ECas linked_append(2,4) [OF l a] by auto
    qed (use e ECas in auto)
  next
    case (ETest q p)
    then obtain m where "load_node (lst s) p = Inr m" "nd_next m = nxt (lst s) p" using ok ld by auto
    then show ?thesis using e ETest by (auto simp: enq_step_def)
  next
    case (EHelp q p)
    then obtain m where "load_node (lst s) p = Inr m" using ok ld by auto
    then show ?thesis using e EHelp by (auto simp: enq_step_def)
  qed (use e pc in \<open>auto simp: enq_step_def\<close>)
  then show "length (enq_log s') + has_linked (lst s) (lpc s x)
           = length (enq_log s) + has_linked (lst s') (lpc s' x) + (if lpc s' x = Idle then 1 else 0)"
    "j \<noteq> x \<Longrightarrow> has_linked (lst s') (lpc s j) = has_linked (lst s) (lpc s j)"
    using has_linked_grown [OF _ inv_parts(2) [OF inv, of j]] by auto
qed

section \<open>The invariant of the test\<close>

text \<open>
  \<open>a\<close> and \<open>b\<close> are the nodes of \<open>lf_queue_init\<close>.  No node is ever linked behind \<open>a\<close>, at which the head stays.
\<close>

definition q_inv :: "nat \<Rightarrow> u64 \<Rightarrow> u64 \<Rightarrow> q_sys \<Rightarrow> bool" where
  "q_inv n a b s \<longleftrightarrow>
     head (lq (q_lf s)) = a \<and> (\<exists>m. lst (q_lf s) a = Some m \<and> nd_next m = NULL)
     \<and> lpc (q_lf s) (n - 1) \<in> {Idle, DLoad, DTest a}
     \<and> (\<forall>x. x \<noteq> n - 1 \<longrightarrow> lpc (q_lf s) x = Idle \<or> own_node (lpc (q_lf s) x) \<noteq> None)
     \<and> deq_log (q_lf s) = []
     \<and> (\<exists>ns. lf_inv (producers_view a b (n - 1) (q_lf s)) ns)
     \<and> length (enq_log (q_lf s)) = (\<Sum>x<n - 1. q_iter s x + has_linked ((lst (q_lf s))(a := None)) (lpc (q_lf s) x))"

lemma enq_nodes_other:
  assumes inv: "lf_inv s ns" and "lst s a = None" and pc: "own_node (lpc s x) \<noteq> None"
  shows "a \<notin> enq_nodes (lpc s x)"
proof -
  have p: "a \<noteq> p" if "p \<in> set ns" for p using linked_load [OF inv_parts(1) [OF inv] that] assms(2) by auto
  have q: "a \<noteq> q" if "own_node (lpc s x) = Some q" for q using inv_parts(4) [OF inv, of x] that assms(2) by (auto simp: thread_ok_def)
  show ?thesis using inv_parts(2) [OF inv, of x] p q by (cases "lpc s x") auto
qed

text \<open>A sum that changes in one place.\<close>

lemma sum_one_more:
  fixes f g :: "nat \<Rightarrow> nat"
  assumes "x < n" and "\<And>y. y \<noteq> x \<Longrightarrow> g y = f y"
  shows "(\<Sum>y<n. g y) + f x = (\<Sum>y<n. f y) + g x"
proof -
  have "(\<Sum>y<n. g y) = g x + (\<Sum>y\<in>{..<n} - {x}. g y)" "(\<Sum>y<n. f y) = f x + (\<Sum>y\<in>{..<n} - {x}. f y)"
    using assms(1) by (simp_all add: sum.remove)
  moreover have "(\<Sum>y\<in>{..<n} - {x}. g y) = (\<Sum>y\<in>{..<n} - {x}. f y)" using assms(2) by (intro sum.cong) auto
  ultimately show ?thesis by simp
qed

lemma producer_call_inv:
  assumes inv: "q_inv n a b s" and x: "x < n - 1" and pc: "lpc (q_lf s) x = Idle" and q: "lst (q_lf s) q = None" "q \<noteq> NULL"
  shows "q_inv n a b (s\<lparr>q_lf := lgoto x (ELoad q) ((q_lf s)\<lparr>lst := (lst (q_lf s))(q \<mapsto> \<lparr>nd_value = v, nd_next = NULL\<rparr>)\<rparr>)\<rparr>)"
proof -
  let ?n = "\<lparr>nd_value = v, nd_next = NULL\<rparr>"
  let ?l = "lgoto x (ELoad q) ((q_lf s)\<lparr>lst := (lst (q_lf s))(q \<mapsto> ?n)\<rparr>)"
  let ?v = "producers_view a b (n - 1) (q_lf s)"
  obtain ns where ns: "lf_inv ?v ns" using inv by (auto simp: q_inv_def)
  have qa: "q \<noteq> a" using inv q(1) by (auto simp: q_inv_def)
  have xc: "x \<noteq> n - 1" using x by simp
  have "producers_view a b (n - 1) ?l = lgoto x (ELoad q) (?v\<lparr>lst := (lst ?v)(q \<mapsto> ?n)\<rparr>)"
    using qa xc by (simp add: producers_view_def lgoto_def fun_upd_twist)
  moreover have "lf_inv \<dots> ns" using alloc_inv [OF ns, of x q v] pc xc q qa by simp
  ultimately have "\<exists>ns. lf_inv (producers_view a b (n - 1) ?l) ns" by metis
  moreover have "has_linked ((lst ?l)(a := None)) (lpc (q_lf s) y) = has_linked ((lst (q_lf s))(a := None)) (lpc (q_lf s) y)"
    if "y < n - 1" for y
  proof -
    have "grown (lst ?v) ns ((lst ?v)(q \<mapsto> ?n)) ns" using linked_alloc(2) [OF inv_parts(1) [OF ns]] q(1) qa by simp
    then have "has_linked ((lst ?v)(q \<mapsto> ?n)) (lpc ?v y) = has_linked (lst ?v) (lpc ?v y)"
      using has_linked_grown [OF _ inv_parts(2) [OF ns, of y]] by blast
    then show ?thesis using that qa by (simp add: fun_upd_twist)
  qed
  ultimately show ?thesis using inv qa xc pc by (auto simp: q_inv_def intro!: sum.cong)
qed

lemma producer_exec_inv:
  assumes inv: "q_inv n a b s" and x: "x < n - 1" and pc: "lpc (q_lf s) x \<noteq> Idle"
  obtains l where "lf_exec x (q_lf s) = Inr l"
    and "q_inv n a b (s\<lparr>q_lf := l, q_iter := (if lpc l x = Idle then (q_iter s)(x := q_iter s x + 1) else q_iter s)\<rparr>)"
proof -
  let ?l = "q_lf s" and ?v = "producers_view a b (n - 1) (q_lf s)"
  obtain ns where ns: "lf_inv ?v ns" using inv by (auto simp: q_inv_def)
  have xc: "x \<noteq> n - 1" using x by simp
  have own: "own_node (lpc ?l x) \<noteq> None" using inv pc xc by (auto simp: q_inv_def)
  have pv: "lpc ?v x = lpc ?l x" using xc by simp
  have out: "a \<notin> enq_nodes (lpc ?l x)" using enq_nodes_other [OF ns, of a x] own pv by simp
  obtain v ns' where v: "enq_step x (lpc ?v x) ?v = Inr v" "lf_inv v ns'" using enq_step_inv [OF ns, of x] own pv by auto
  obtain l where l: "enq_step x (lpc ?l x) ?l = Inr l" "producers_view a b (n - 1) l = v"
    using v(1) enq_step_view [OF xc out, of b ?l] unfolding pv by (cases "enq_step x (lpc ?l x) ?l") auto
  note k = enq_step_keeps [OF l(1) out]
  note cnt = enq_step_count [OF ns _ v(1)]
  let ?s = "s\<lparr>q_lf := l, q_iter := (if lpc l x = Idle then (q_iter s)(x := q_iter s x + 1) else q_iter s)\<rparr>"
  let ?f = "\<lambda>y. q_iter s y + has_linked (lst ?v) (lpc ?v y)" and ?g = "\<lambda>y. q_iter ?s y + has_linked (lst v) (lpc v y)"
  have "?g y = ?f y" if "y \<noteq> x" for y
  proof -
    have "lpc v y = lpc ?v y" using l(2) k that by auto
    then show ?thesis using cnt(2) [OF _ that] own pv that by simp
  qed
  from sum_one_more [OF x this] have "(\<Sum>y<n - 1. ?g y) + ?f x = (\<Sum>y<n - 1. ?f y) + ?g x" .
  moreover have "(\<Sum>y<n - 1. ?f y) = length (enq_log ?l)" using inv by (auto simp: q_inv_def intro!: sum.cong)
  moreover have lx: "lpc v x = lpc l x" "enq_log v = enq_log l" using l(2) xc by auto
  moreover have "length (enq_log v) + has_linked (lst ?v) (lpc ?v x)
      = length (enq_log ?v) + has_linked (lst v) (lpc v x) + (if lpc v x = Idle then 1 else 0)" using cnt(1) own pv by simp
  ultimately have "(\<Sum>y<n - 1. ?g y) = length (enq_log l)" by (simp split: if_splits)
  moreover have "(\<Sum>y<n - 1. ?g y) = (\<Sum>y<n - 1. q_iter ?s y + has_linked ((lst l)(a := None)) (lpc l y))"
    unfolding l(2) [symmetric] by (rule sum.cong) auto
  ultimately have sum: "length (enq_log l) = (\<Sum>y<n - 1. q_iter ?s y + has_linked ((lst l)(a := None)) (lpc l y))" by simp
  have "lpc l y = Idle \<or> own_node (lpc l y) \<noteq> None" if "y \<noteq> n - 1" for y
    using k own inv that by (cases "y = x") (auto simp: q_inv_def)
  moreover have "\<exists>ns. lf_inv (producers_view a b (n - 1) l) ns" unfolding l(2) using v(2) by blast
  moreover have "lpc l (n - 1) = lpc ?l (n - 1)" using k xc by metis
  ultimately have "q_inv n a b ?s" using inv k sum unfolding q_inv_def by simp
  moreover have "lf_exec x ?l = Inr l" using l(1) own by (simp add: lf_exec_cases)
  ultimately show ?thesis using that by blast
qed

lemma consumer_inv:
  assumes inv: "q_inv n a b s"
  obtains s' where "dequeue_fn n (n - 1) s = Inr s'" and "q_inv n a b s'"
proof -
  let ?l = "q_lf s" and ?c = "n - 1"
  obtain m where m: "lst ?l a = Some m" "nd_next m = NULL" and h: "head (lq ?l) = a"
    and pc: "lpc ?l ?c \<in> {Idle, DLoad, DTest a}" using inv by (auto simp: q_inv_def)
  have keep: "q_inv n a b (s\<lparr>q_lf := lgoto ?c pc ?l, q_iter := f\<rparr>)"
    if "pc \<in> {Idle, DLoad, DTest a}" "\<And>x. x < ?c \<Longrightarrow> f x = q_iter s x" for pc f
    using inv that by (auto simp: q_inv_def)
  have keep0: "q_inv n a b (s\<lparr>q_lf := lgoto ?c pc ?l\<rparr>)" if "pc \<in> {Idle, DLoad, DTest a}" for pc
    using keep [OF that, of "q_iter s"] by simp
  consider "lpc ?l ?c = Idle" | "lpc ?l ?c = DLoad" | "lpc ?l ?c = DTest a" using pc by blast
  then show ?thesis
  proof cases
    case 1
    then show ?thesis using that inv keep0 by (auto simp: dequeue_fn_def Let_def)
  next
    case 2
    then show ?thesis using that h keep0 [of "DTest a"] by (simp add: dequeue_fn_def lf_exec_def deq_step_def Let_def)
  next
    case 3
    then show ?thesis using that m keep [of Idle "(q_iter s)(?c := Suc (q_iter s ?c))"]
      by (simp add: dequeue_fn_def lf_exec_def deq_step_def load_node_def Let_def)
  qed
qed

lemma producer_inv:
  assumes inv: "q_inv n a b s" and x: "x < n - 1" and q: "lst (q_lf s) q = None" "q \<noteq> NULL"
  obtains s' where "enqueue_fn x q s = Inr s'" and "q_inv n a b s'"
proof (cases "lpc (q_lf s) x = Idle")
  case True
  then show ?thesis using that producer_call_inv [OF inv x True q] inv by (auto simp: enqueue_fn_def Let_def)
next
  case False
  obtain l where "lf_exec x (q_lf s) = Inr l"
    "q_inv n a b (s\<lparr>q_lf := l, q_iter := (if lpc l x = Idle then (q_iter s)(x := q_iter s x + 1) else q_iter s)\<rparr>)"
    by (rule producer_exec_inv [OF inv x False])
  then show ?thesis using that False by (simp add: enqueue_fn_def Let_def)
qed

lemma queue_run_inv:
  assumes "queue_run n (queue_start a b v w) s" and "a \<noteq> b" and "b \<noteq> NULL"
  shows "q_inv n a b s"
  using assms(1)
proof induction
  case start
  let ?s = "producers_view a b (n - 1) (q_lf (queue_start a b v w))"
  have "lf_inv ?s [b]" using assms(2,3)
    by (simp add: lf_inv_def shared_ok_def thread_ok_def linked_def queue_start_def lf_queue_init_def granted_def)
  then show ?case using assms(2) unfolding q_inv_def by (auto simp: queue_start_def lf_queue_init_def)
next
  case (producer s x q s')
  then show ?case using producer_inv by (metis sum.inject(2))
next
  case (consumer s s')
  then show ?case using consumer_inv by (metis sum.inject(2))
qed

section \<open>Property\<close>

text \<open>
  The test of the lock-free queue prints \<open>SUCCESS\<close> although the queue does not work: under every
  interleaving no step faults and the consumer never gets a value, each of its calls reporting an
  empty queue, which is what ends its inner loop; when all threads have finished, all the values
  that the producers have enqueued are still in the queue.
\<close>

theorem queue_test_dequeues_nothing:
  assumes "queue_run n (queue_start a b v w) s" and "a \<noteq> b" and "b \<noteq> NULL" and "x < n - 1"
    and "lst (q_lf s) q = None" and "q \<noteq> NULL"
  shows "ok (enqueue_fn x q s) \<and> ok (dequeue_fn n (n - 1) s) \<and> returned (q_lf s) (n - 1) = []
       \<and> (queue_finished n s \<longrightarrow> length (enq_log (q_lf s)) = ITERATIONS * (n - 1))"
proof -
  have i: "q_inv n a b s" by (rule queue_run_inv [OF assms(1-3)])
  have "ok (enqueue_fn x q s)" by (rule producer_inv [OF i assms(4-6)]) simp
  moreover have "ok (dequeue_fn n (n - 1) s)" by (rule consumer_inv [OF i]) simp
  moreover have "returned (q_lf s) (n - 1) = []"
  proof -
    obtain ns where ns: "lf_inv (producers_view a b (n - 1) (q_lf s)) ns" "deq_log (q_lf s) = []" using i by (auto simp: q_inv_def)
    show ?thesis using inv_parts(4) [OF ns(1), of "n - 1"] ns(2) by (simp add: thread_ok_def granted_def)
  qed
  moreover have "length (enq_log (q_lf s)) = ITERATIONS * (n - 1)" if "queue_finished n s"
  proof -
    have "q_iter s y + has_linked ((lst (q_lf s))(a := None)) (lpc (q_lf s) y) = ITERATIONS" if "y < n - 1" for y
      using \<open>queue_finished n s\<close> that by (auto simp: queue_finished_def)
    then show ?thesis using i by (simp add: q_inv_def)
  qed
  ultimately show ?thesis by blast
qed

theorem queue_test_dequeues_nothing_witness:
  "ok (enqueue_fn 0 0x30 (queue_start 0x10 0x20 0 0)) \<and> ok (dequeue_fn 2 1 (queue_start 0x10 0x20 0 0))"
  using queue_test_dequeues_nothing [OF queue_run.start, of "0x10" "0x20" 0 2 0 0 "0x30"]
  by (simp add: queue_start_def lf_queue_init_def)

end
