(* ===== verification/DriverMain.thy ===== *)
theory DriverMain
  imports SyncDriverProps RwDriverProps QueueDriverProps
begin

text \<open>
  The function \<open>main\<close> of \<open>src/SyncProject/driver.c\<close>: it runs the tests one after the other, waits for all threads of
  a test and prints its verdict.
\<close>

section \<open>The program\<close>

datatype verdict = SUCCESS | ERROR

datatype stage = Atomics ex1_sys | Barriers ex2_sys | Spinlocks ex3_sys | RwLocks ex4_sys | Queues q_sys | Exited

record driver =
  stage :: stage
  report :: "verdict list"

definition print_verdict :: "bool \<Rightarrow> verdict" where
  "print_verdict passed = (if passed then SUCCESS else ERROR)"

text \<open>\<open>pthread_join\<close> of all threads of a test returns: every one of them has left its loop.\<close>

definition ex1_joined :: "nat \<Rightarrow> ex1_sys \<Rightarrow> bool" where
  "ex1_joined n s = list_all (\<lambda>x. ex1_iter s x = ITERATIONS) [0..<n]"

definition ex2_joined :: "nat \<Rightarrow> ex2_sys \<Rightarrow> bool" where
  "ex2_joined n s = list_all (\<lambda>x. ex2_iter s x = ITERATIONS \<and> ex2_pc s x = AtCheck) [0..<n]"

definition ex3_joined :: "nat \<Rightarrow> ex3_sys \<Rightarrow> bool" where
  "ex3_joined n s = list_all (\<lambda>x. ex3_iter s x = ITERATIONS \<and> ex3_pc s x = AtLock) [0..<n]"

definition ex4_joined :: "nat \<Rightarrow> ex4_sys \<Rightarrow> bool" where
  "ex4_joined n s = list_all (\<lambda>x. ex4_i s x = ITERATIONS div 10 \<and> ex4_pc s x \<in> {ReadLoop, WriteLoop}) [0..<n]"

text \<open>
  \<open>l\<close> is what the variable \<open>lock\<close> of the test of spin locks holds before its initialisation; \<open>sl0\<close> and \<open>sl1\<close>, and
  \<open>a\<close>, \<open>b\<close>, \<open>v\<close> and \<open>w\<close>, are what \<open>malloc\<close> returns in \<open>rw_lock_init\<close> and in \<open>lf_queue_init\<close>, and the values found there.
\<close>

record driver_env =
  e_lock :: spinlock
  e_sl0 :: u64
  e_sl1 :: u64
  e_a :: u64
  e_b :: u64
  e_v :: u32
  e_w :: u32

definition next_stage :: "driver \<Rightarrow> bool \<Rightarrow> stage \<Rightarrow> driver" where
  "next_stage d passed st = d\<lparr>stage := st, report := report d @ [print_verdict passed]\<rparr>"

inductive driver_run :: "nat \<Rightarrow> driver_env \<Rightarrow> driver \<Rightarrow> bool" for n E where
  start: "driver_run n E \<lparr>stage = Atomics (ex1_start n), report = []\<rparr>"
| sub: "driver_run n E d \<Longrightarrow> stage d = Atomics s \<Longrightarrow> x < n \<Longrightarrow> driver_run n E (d\<lparr>stage := Atomics (ex1_sub_fn x s)\<rparr>)"
| subs_done: "driver_run n E d \<Longrightarrow> stage d = Atomics s \<Longrightarrow> ex1_joined n s \<Longrightarrow>
    driver_run n E (next_stage d (ex1_success s) (Barriers (ex2_start n)))"
| barrier: "driver_run n E d \<Longrightarrow> stage d = Barriers s \<Longrightarrow> x < n \<Longrightarrow> driver_run n E (d\<lparr>stage := Barriers (ex2_fn n x s)\<rparr>)"
| barriers_done: "driver_run n E d \<Longrightarrow> stage d = Barriers s \<Longrightarrow> ex2_joined n s \<Longrightarrow>
    driver_run n E (next_stage d (list_all (\<lambda>x. \<not> ex2_error s x) [0..<n]) (Spinlocks (ex3_start (e_lock E))))"
| spin: "driver_run n E d \<Longrightarrow> stage d = Spinlocks s \<Longrightarrow> x < n \<Longrightarrow> driver_run n E (d\<lparr>stage := Spinlocks (ex3_fn x s)\<rparr>)"
| spins_done: "driver_run n E d \<Longrightarrow> stage d = Spinlocks s \<Longrightarrow> ex3_joined n s \<Longrightarrow>
    driver_run n E (next_stage d (ex3_success n s) (RwLocks (ex4_start n (e_sl0 E) (e_sl1 E))))"
| rw: "driver_run n E d \<Longrightarrow> stage d = RwLocks s \<Longrightarrow> x < n \<Longrightarrow> ex4_step n x s = Inr s' \<Longrightarrow>
    driver_run n E (d\<lparr>stage := RwLocks s'\<rparr>)"
| rws_done: "driver_run n E d \<Longrightarrow> stage d = RwLocks s \<Longrightarrow> ex4_joined n s \<Longrightarrow>
    driver_run n E (next_stage d (list_all (\<lambda>x. \<not> ex4_error s x) [0..<n]) (Queues (queue_start (e_a E) (e_b E) (e_v E) (e_w E))))"
| enqueue: "driver_run n E d \<Longrightarrow> stage d = Queues s \<Longrightarrow> x < n - 1 \<Longrightarrow> lst (q_lf s) q = None \<Longrightarrow> q \<noteq> NULL \<Longrightarrow>
    enqueue_fn x q s = Inr s' \<Longrightarrow> driver_run n E (d\<lparr>stage := Queues s'\<rparr>)"
| dequeue: "driver_run n E d \<Longrightarrow> stage d = Queues s \<Longrightarrow> dequeue_fn n (n - 1) s = Inr s' \<Longrightarrow>
    driver_run n E (d\<lparr>stage := Queues s'\<rparr>)"
| queues_done: "driver_run n E d \<Longrightarrow> stage d = Queues s \<Longrightarrow> queue_finished n s \<Longrightarrow>
    driver_run n E (next_stage d True Exited)"

section \<open>How far it gets\<close>

text \<open>The test that runs is in a state it can reach by itself, and the tests before it were passed.\<close>

definition driver_inv :: "nat \<Rightarrow> driver_env \<Rightarrow> driver \<Rightarrow> bool" where
  "driver_inv n E d =
     (case stage d of
        Atomics s \<Rightarrow> ex1_run n s \<and> report d = []
      | Barriers s \<Rightarrow> ex2_run n s \<and> report d = [SUCCESS]
      | Spinlocks s \<Rightarrow> ex3_run n (e_lock E) s \<and> report d = [SUCCESS, SUCCESS]
      | RwLocks s \<Rightarrow> ex4_run n (e_sl0 E) (e_sl1 E) s \<and> report d = [SUCCESS, SUCCESS, SUCCESS]
      | _ \<Rightarrow> False)"

lemma joined_iff:
  "ex1_joined n s \<Longrightarrow> \<forall>x < n. ex1_iter s x = ITERATIONS"
  "ex3_joined n t \<Longrightarrow> \<forall>x < n. ex3_iter t x = ITERATIONS"
  by (simp_all add: ex1_joined_def ex3_joined_def list_all_iff)

lemma driver_run_inv:
  assumes "driver_run n E d" and n: "2 \<le> n" "n < 2 ^ 32" and sl: "sub_low (e_sl0 E) (of_nat (n - 1)) \<noteq> e_sl1 E"
  shows "driver_inv n E d"
  using assms(1)
proof induction
  case start
  show ?case by (simp add: driver_inv_def ex1_run.start)
next
  case (sub d s x)
  then show ?case by (simp add: driver_inv_def ex1_run.step)
next
  case (subs_done d s)
  then have "ex1_success s" using ex1_exact [OF _ joined_iff(1) [of n s]] by (simp add: driver_inv_def)
  then show ?case using subs_done by (simp add: driver_inv_def next_stage_def print_verdict_def ex2_run.start)
next
  case (barrier d s x)
  then show ?case by (simp add: driver_inv_def ex2_run.step)
next
  case (barriers_done d s)
  then have "ex2_inv n s" using ex2_run_inv n(2) by (simp add: driver_inv_def)
  then have "list_all (\<lambda>x. \<not> ex2_error s x) [0..<n]" by (simp add: ex2_inv_def list_all_iff)
  then show ?case using barriers_done by (simp add: driver_inv_def next_stage_def print_verdict_def ex3_run.start)
next
  case (spin d s x)
  then show ?case by (simp add: driver_inv_def ex3_run.step)
next
  case (spins_done d s)
  then have "ex3_success n s" by (intro ex3_exact [OF _ joined_iff(2), of n "e_lock E"]) (simp_all add: driver_inv_def)
  then show ?case using spins_done by (simp add: driver_inv_def next_stage_def print_verdict_def ex4_run.start)
next
  case (rw d s x s')
  then show ?case using ex4_run.step by (fastforce simp: driver_inv_def)
next
  case (rws_done d s)
  have "ex4_inv n (e_sl0 E) (e_sl1 E) s" using rws_done ex4_run_inv [OF _ n(1) _ sl] n(2) by (simp add: driver_inv_def)
  then have "ex4_i s 0 = 0" by (simp add: ex4_inv_def)
  moreover have "ex4_i s 0 = ITERATIONS div 10" using rws_done(3) n(1) by (simp add: ex4_joined_def list_all_iff)
  ultimately show ?case by (simp add: ITERATIONS_def)
qed (simp_all add: driver_inv_def)

text \<open>The state of a test is one that the test reaches by itself.\<close>

definition stage_ok :: "nat \<Rightarrow> driver_env \<Rightarrow> driver \<Rightarrow> bool" where
  "stage_ok n E d =
     (case stage d of Atomics s \<Rightarrow> ex1_run n s | Barriers s \<Rightarrow> ex2_run n s | Spinlocks s \<Rightarrow> ex3_run n (e_lock E) s | _ \<Rightarrow> True)"

lemma stage_ok_run: "driver_run n E d \<Longrightarrow> stage_ok n E d"
  by (induction rule: driver_run.induct)
    (simp_all add: stage_ok_def next_stage_def ex1_run.intros ex2_run.intros ex3_run.intros)

lemma stage_run:
  "driver_run n E \<lparr>stage = Atomics s1, report = r\<rparr> \<Longrightarrow> ex1_run n s1"
  "driver_run n E \<lparr>stage = Barriers s2, report = r\<rparr> \<Longrightarrow> ex2_run n s2"
  "driver_run n E \<lparr>stage = Spinlocks s3, report = r\<rparr> \<Longrightarrow> ex3_run n (e_lock E) s3"
  using stage_ok_run by (fastforce simp: stage_ok_def)+

section \<open>A run with two threads\<close>

text \<open>The steps of the threads in the order of a list.\<close>

lemma subs_run: "driver_run n E \<lparr>stage = Atomics s, report = r\<rparr> \<Longrightarrow> list_all (\<lambda>x. x < n) xs \<Longrightarrow>
    driver_run n E \<lparr>stage = Atomics (fold ex1_sub_fn xs s), report = r\<rparr>"
proof (induction xs arbitrary: s)
  case (Cons x xs)
  then have "driver_run n E \<lparr>stage = Atomics (ex1_sub_fn x s), report = r\<rparr>" using driver_run.sub [of n E _ s x] by fastforce
  then show ?case using Cons.IH Cons.prems(2) by simp
qed simp

lemma barriers_run: "driver_run n E \<lparr>stage = Barriers s, report = r\<rparr> \<Longrightarrow> list_all (\<lambda>x. x < n) xs \<Longrightarrow>
    driver_run n E \<lparr>stage = Barriers (fold (ex2_fn n) xs s), report = r\<rparr>"
proof (induction xs arbitrary: s)
  case (Cons x xs)
  then have "driver_run n E \<lparr>stage = Barriers (ex2_fn n x s), report = r\<rparr>" using driver_run.barrier [of n E _ s x] by fastforce
  then show ?case using Cons.IH Cons.prems(2) by simp
qed simp

lemma spins_run: "driver_run n E \<lparr>stage = Spinlocks s, report = r\<rparr> \<Longrightarrow> list_all (\<lambda>x. x < n) xs \<Longrightarrow>
    driver_run n E \<lparr>stage = Spinlocks (fold ex3_fn xs s), report = r\<rparr>"
proof (induction xs arbitrary: s)
  case (Cons x xs)
  then have "driver_run n E \<lparr>stage = Spinlocks (ex3_fn x s), report = r\<rparr>" using driver_run.spin [of n E _ s x] by fastforce
  then show ?case using Cons.IH Cons.prems(2) by simp
qed simp

text \<open>One iteration of both threads in each of the first three tests.\<close>

lemma ex1_round:
  assumes "ex1_iter s 0 = k" and "ex1_iter s 1 = k" and "k < ITERATIONS"
  shows "ex1_iter (fold ex1_sub_fn [0, 1] s) 0 = Suc k" and "ex1_iter (fold ex1_sub_fn [0, 1] s) 1 = Suc k"
  using assms by (simp_all add: ex1_sub_fn_def)

text \<open>Where a thread is in the test of barriers, and the counters of the barrier for two threads.\<close>

definition place :: "ex2_sys \<Rightarrow> nat \<Rightarrow> ex2_pc \<Rightarrow> nat \<Rightarrow> barrier_pc \<Rightarrow> bool" where
  "place s x pc k b \<longleftrightarrow> ex2_pc s x = pc \<and> ex2_iter s x = k \<and> br_pc (ex2_barrier s) x = b"

definition counters :: "ex2_sys \<Rightarrow> u32 \<Rightarrow> u32 \<Rightarrow> bool" where
  "counters s cc it \<longleftrightarrow>
     cur_count (br_bar (ex2_barrier s)) = cc \<and> iterations (br_bar (ex2_barrier s)) = it \<and> init_count (br_bar (ex2_barrier s)) = 2"

definition after_wait :: "ex2_pc \<Rightarrow> nat \<Rightarrow> ex2_pc \<times> nat" where
  "after_wait pc k = (if pc = InFirst then (AtAdd, k) else (AtCheck, Suc k))"

lemmas wait_defs = place_def counters_def after_wait_def ex2_fn_def ex2_wait_def barrier_step_def atomic_add_ret_prev_def Let_def

lemma place_other: "place s y pc k b \<Longrightarrow> y \<noteq> x \<Longrightarrow> place (ex2_fn n x s) y pc k b"
  by (cases "ex2_pc s x"; cases "br_pc (ex2_barrier s) x") (simp_all add: wait_defs)

lemma wait_steps:
  assumes "pc = InFirst \<or> pc = InSecond"
  shows "place s x pc k Outside \<Longrightarrow> counters s cc it \<Longrightarrow>
      place (ex2_fn n x s) x pc k (Arriving it) \<and> counters (ex2_fn n x s) cc it"
    and "place s x pc k (Arriving i) \<Longrightarrow> counters s cc it \<Longrightarrow>
      place (ex2_fn n x s) x pc k (if cc = 1 then Resetting else Waiting i) \<and> counters (ex2_fn n x s) (cc + 1) it"
    and "place s x pc k Resetting \<Longrightarrow> counters s cc it \<Longrightarrow>
      place (ex2_fn n x s) x pc k Advancing \<and> counters (ex2_fn n x s) 0 it"
    and "place s x pc k Advancing \<Longrightarrow> counters s cc it \<Longrightarrow>
      place (ex2_fn n x s) x (fst (after_wait pc k)) (snd (after_wait pc k)) Outside \<and> counters (ex2_fn n x s) cc (it + 1)"
    and "place s x pc k (Waiting i) \<Longrightarrow> counters s cc (i + 1) \<Longrightarrow>
      place (ex2_fn n x s) x (fst (after_wait pc k)) (snd (after_wait pc k)) Outside \<and> counters (ex2_fn n x s) cc (i + 1)"
  using assms by (elim disjE; simp add: wait_defs)+

text \<open>Both threads are at the same place, outside the barrier.\<close>

definition ex2_between :: "nat \<Rightarrow> ex2_pc \<Rightarrow> ex2_sys \<Rightarrow> bool" where
  "ex2_between k pc s \<longleftrightarrow> place s 0 pc k Outside \<and> place s 1 pc k Outside \<and> (\<exists>it. counters s 0 it)"

lemma ex2_barrier_round:
  assumes b: "ex2_between k pc s" and pc: "pc = InFirst \<or> pc = InSecond"
  shows "ex2_between (snd (after_wait pc k)) (fst (after_wait pc k)) (fold (ex2_fn 2) [0, 0, 1, 1, 1, 1, 0] s)"
proof -
  let ?f = "ex2_fn 2" and ?pc = "fst (after_wait pc k)" and ?k = "snd (after_wait pc k)"
  obtain it where s: "place s 0 pc k Outside" "place s 1 pc k Outside" "counters s 0 it" using b by (auto simp: ex2_between_def)
  note st = wait_steps [OF pc]
  have 1: "place (?f 0 s) 0 pc k (Arriving it)" "counters (?f 0 s) 0 it" "place (?f 0 s) 1 pc k Outside"
    using st(1) [OF s(1,3)] place_other [OF s(2)] by simp_all
  let ?s2 = "?f 0 (?f 0 s)"
  have 2: "place ?s2 0 pc k (Waiting it)" "counters ?s2 1 it" "place ?s2 1 pc k Outside"
    using st(2) [OF 1(1,2)] place_other [OF 1(3)] by simp_all
  let ?s3 = "?f 1 ?s2"
  have 3: "place ?s3 1 pc k (Arriving it)" "counters ?s3 1 it" "place ?s3 0 pc k (Waiting it)"
    using st(1) [OF 2(3,2)] place_other [OF 2(1)] by simp_all
  let ?s4 = "?f 1 ?s3"
  have 4: "place ?s4 1 pc k Resetting" "counters ?s4 2 it" "place ?s4 0 pc k (Waiting it)"
    using st(2) [OF 3(1,2)] place_other [OF 3(3)] by simp_all
  let ?s5 = "?f 1 ?s4"
  have 5: "place ?s5 1 pc k Advancing" "counters ?s5 0 it" "place ?s5 0 pc k (Waiting it)"
    using st(3) [OF 4(1,2)] place_other [OF 4(3)] by simp_all
  let ?s6 = "?f 1 ?s5"
  have 6: "place ?s6 1 ?pc ?k Outside" "counters ?s6 0 (it + 1)" "place ?s6 0 pc k (Waiting it)"
    using st(4) [OF 5(1,2)] place_other [OF 5(3)] by simp_all
  let ?s7 = "?f 0 ?s6"
  have 7: "place ?s7 0 ?pc ?k Outside" "counters ?s7 0 (it + 1)" "place ?s7 1 ?pc ?k Outside"
    using st(5) [OF 6(3,2)] place_other [OF 6(1)] by simp_all
  have "fold ?f [0, 0, 1, 1, 1, 1, 0] s = ?s7" by (simp only: fold_simps)
  then show ?thesis using 7 unfolding ex2_between_def by auto
qed

lemma ex2_check: "ex2_between k AtCheck s \<Longrightarrow> k < ITERATIONS \<Longrightarrow> ex2_between k InFirst (fold (ex2_fn 2) [0, 1] s)"
  by (simp add: ex2_between_def place_def counters_def ex2_fn_def)

lemma ex2_add: "ex2_between k AtAdd s \<Longrightarrow> ex2_between k InSecond (fold (ex2_fn 2) [0, 1] s)"
  by (simp add: ex2_between_def place_def counters_def ex2_fn_def)

definition ex2_schedule :: "nat list" where
  "ex2_schedule = [0, 1] @ [0, 0, 1, 1, 1, 1, 0] @ [0, 1] @ [0, 0, 1, 1, 1, 1, 0]"

lemma ex2_round:
  assumes "ex2_between k AtCheck s" and "k < ITERATIONS"
  shows "ex2_between (Suc k) AtCheck (fold (ex2_fn 2) ex2_schedule s)"
proof -
  have "ex2_between k AtAdd (fold (ex2_fn 2) [0, 0, 1, 1, 1, 1, 0] (fold (ex2_fn 2) [0, 1] s))"
    using ex2_barrier_round [OF ex2_check [OF assms]] by (simp only: after_wait_def fst_conv snd_conv simp_thms if_True)
  from ex2_barrier_round [OF ex2_add [OF this]] show ?thesis
    by (simp only: ex2_schedule_def fold_append comp_def after_wait_def fst_conv snd_conv simp_thms ex2_pc.distinct if_False)
qed

lemma ex3_round:
  assumes "ex3_pc s 0 = AtLock" "ex3_pc s 1 = AtLock" "sl_free (ex3_lock s) = 1" "ex3_iter s 0 = k" "ex3_iter s 1 = k" and "k < ITERATIONS"
  defines "s' \<equiv> fold ex3_fn [0, 0, 0, 0, 1, 1, 1, 1] s"
  shows "ex3_pc s' 0 = AtLock" "ex3_pc s' 1 = AtLock" "sl_free (ex3_lock s') = 1" "ex3_iter s' 0 = Suc k" "ex3_iter s' 1 = Suc k"
  unfolding s'_def using assms(1-6)
  by (simp_all add: ex3_fn_def spinlock_try_def spinlock_unlock_def compare_and_swap_def)

lemma two_threads: "[0..<2] = [0, 1 :: nat]"
  by (simp add: upt_rec)

lemma atomics_reached: "k \<le> ITERATIONS \<Longrightarrow>
    \<exists>s. driver_run 2 E \<lparr>stage = Atomics s, report = []\<rparr> \<and> ex1_iter s 0 = k \<and> ex1_iter s 1 = k"
proof (induction k)
  case 0
  show ?case using driver_run.start [of 2 E] by (intro exI [of _ "ex1_start 2"]) (simp add: ex1_start_def)
next
  case (Suc k)
  then obtain s where s: "driver_run 2 E \<lparr>stage = Atomics s, report = []\<rparr>" "ex1_iter s 0 = k" "ex1_iter s 1 = k" by auto
  show ?case using subs_run [OF s(1), of "[0, 1]"] ex1_round [OF s(2,3)] Suc.prems by (intro exI [of _ "fold ex1_sub_fn [0, 1] s"]) simp
qed

lemma barriers_reached: "k \<le> ITERATIONS \<Longrightarrow>
    \<exists>s. driver_run 2 E \<lparr>stage = Barriers s, report = [SUCCESS]\<rparr> \<and> ex2_between k AtCheck s"
proof (induction k)
  case 0
  obtain s where s: "driver_run 2 E \<lparr>stage = Atomics s, report = []\<rparr>" "ex1_iter s 0 = ITERATIONS" "ex1_iter s 1 = ITERATIONS"
    using atomics_reached by blast
  have j: "ex1_joined 2 s" using s(2,3) by (simp add: ex1_joined_def two_threads)
  note inv = driver_run.subs_done [OF s(1) _ j]
  have "ex1_success s" by (rule ex1_exact [OF stage_run(1) [OF s(1)] joined_iff(1) [OF j]])
  then have "driver_run 2 E \<lparr>stage = Barriers (ex2_start 2), report = [SUCCESS]\<rparr>"
    using inv by (simp add: next_stage_def print_verdict_def)
  then show ?case
    by (intro exI [of _ "ex2_start 2"]) (simp add: ex2_between_def place_def counters_def ex2_start_def barrier_init_def)
next
  case (Suc k)
  then obtain s where s: "driver_run 2 E \<lparr>stage = Barriers s, report = [SUCCESS]\<rparr>" "ex2_between k AtCheck s" by auto
  have "list_all (\<lambda>x. x < 2) ex2_schedule" by (simp add: ex2_schedule_def)
  then show ?case using barriers_run [OF s(1)] ex2_round [OF s(2)] Suc.prems by auto
qed

lemma spins_reached: "k \<le> ITERATIONS \<Longrightarrow>
    \<exists>s. driver_run 2 E \<lparr>stage = Spinlocks s, report = [SUCCESS, SUCCESS]\<rparr> \<and> ex3_pc s 0 = AtLock \<and> ex3_pc s 1 = AtLock
      \<and> sl_free (ex3_lock s) = 1 \<and> ex3_iter s 0 = k \<and> ex3_iter s 1 = k"
proof (induction k)
  case 0
  obtain s where s: "driver_run 2 E \<lparr>stage = Barriers s, report = [SUCCESS]\<rparr>" "ex2_between ITERATIONS AtCheck s"
    using barriers_reached by blast
  have j: "ex2_joined 2 s" using s(2) by (simp add: ex2_joined_def two_threads ex2_between_def place_def)
  have "ex2_inv 2 s" by (rule ex2_run_inv [OF stage_run(2) [OF s(1)]]) simp
  then have "list_all (\<lambda>x. \<not> ex2_error s x) [0..<2]" by (simp add: ex2_inv_def list_all_iff)
  then have "driver_run 2 E \<lparr>stage = Spinlocks (ex3_start (e_lock E)), report = [SUCCESS, SUCCESS]\<rparr>"
    using driver_run.barriers_done [OF s(1) _ j] by (simp add: next_stage_def print_verdict_def)
  then show ?case by (intro exI [of _ "ex3_start (e_lock E)"]) (simp add: ex3_start_def spinlock_init_def)
next
  case (Suc k)
  then obtain s where s: "driver_run 2 E \<lparr>stage = Spinlocks s, report = [SUCCESS, SUCCESS]\<rparr>"
    "ex3_pc s 0 = AtLock" "ex3_pc s 1 = AtLock" "sl_free (ex3_lock s) = 1" "ex3_iter s 0 = k" "ex3_iter s 1 = k" by auto
  have "list_all (\<lambda>x. x < 2) [0, 0, 0, 0, 1, 1, 1, 1 :: nat]" by simp
  then show ?case using spins_run [OF s(1)] ex3_round [OF s(2-6)] Suc.prems by (metis Suc_le_lessD)
qed

lemma rw_reached: "driver_run 2 E \<lparr>stage = RwLocks (ex4_start 2 (e_sl0 E) (e_sl1 E)), report = [SUCCESS, SUCCESS, SUCCESS]\<rparr>"
proof -
  obtain s where s: "driver_run 2 E \<lparr>stage = Spinlocks s, report = [SUCCESS, SUCCESS]\<rparr>"
    "ex3_pc s 0 = AtLock" "ex3_pc s 1 = AtLock" "ex3_iter s 0 = ITERATIONS" "ex3_iter s 1 = ITERATIONS" using spins_reached by blast
  have j: "ex3_joined 2 s" using s(2-5) by (simp add: ex3_joined_def two_threads)
  have "ex3_success 2 s" by (rule ex3_exact [OF stage_run(3) [OF s(1)] joined_iff(2) [OF j]])
  then show ?thesis using driver_run.spins_done [OF s(1) _ j] by (simp add: next_stage_def print_verdict_def)
qed

section \<open>Property\<close>

text \<open>
  C15: the driver never finishes.  With two or more threads and under every interleaving, a test that the
  driver reports on before that of the reader-writer locks is a success, and the test of the
  reader-writer locks is the last one it starts: neither its verdict nor the test of the queue is ever
  reached.  The hypotheses are those under which the barrier counts the threads and the corrupted
  pointer of the lock does not happen to be the address of the other spin lock.
\<close>

theorem driver_stuck_in_rw_test:
  assumes "driver_run n E d" and "2 \<le> n" and "n < 2 ^ 32" and "sub_low (e_sl0 E) (of_nat (n - 1)) \<noteq> e_sl1 E"
  shows "(case stage d of Atomics _ \<Rightarrow> report d = [] | Barriers _ \<Rightarrow> report d = [SUCCESS] | Spinlocks _ \<Rightarrow> report d = [SUCCESS, SUCCESS]
            | RwLocks _ \<Rightarrow> report d = [SUCCESS, SUCCESS, SUCCESS] | Queues _ \<Rightarrow> False | Exited \<Rightarrow> False)"
  using driver_run_inv [OF assms] by (auto simp: driver_inv_def split: stage.splits)

text \<open>Two threads that pass the first three tests.\<close>

theorem driver_stuck_in_rw_test_witness:
  "\<exists>d s. driver_run 2 \<lparr>e_lock = \<lparr>sl_free = 7\<rparr>, e_sl0 = 0x100, e_sl1 = 0x200, e_a = 0x300, e_b = 0x400, e_v = 0, e_w = 0\<rparr> d
     \<and> stage d = RwLocks s \<and> report d = [SUCCESS, SUCCESS, SUCCESS]"
proof -
  let ?E = "\<lparr>e_lock = \<lparr>sl_free = 7\<rparr>, e_sl0 = 0x100, e_sl1 = 0x200, e_a = 0x300, e_b = 0x400, e_v = 0, e_w = 0\<rparr>"
  let ?d = "\<lparr>stage = RwLocks (ex4_start 2 (e_sl0 ?E) (e_sl1 ?E)), report = [SUCCESS, SUCCESS, SUCCESS]\<rparr>"
  have "sub_low 0x100 1 = 0xff" by code_simp
  then have "sub_low (e_sl0 ?E) (of_nat (2 - 1)) \<noteq> e_sl1 ?E" by simp
  from driver_stuck_in_rw_test [OF rw_reached [of ?E] _ _ this] have "report ?d = [SUCCESS, SUCCESS, SUCCESS]" by simp
  then show ?thesis using rw_reached [of ?E] by (intro exI [of _ ?d]) simp
qed

end
