(* ===== verification/AtomicTest.thy ===== *)
theory AtomicTest
  imports Locking
begin

text \<open>
  The program \<open>src/SyncProject/mytest.c\<close>, which prints what the atomic operations do to its variables.  The values
  are those that \<open>printf\<close> shows, in order.  The two loops over an array that is never read have no effect.
\<close>

text \<open>Addition and subtraction, with \<open>i\<close> and \<open>j\<close>.\<close>

definition mytest_add_sub :: "u32 \<Rightarrow> u32 \<Rightarrow> int list" where
  "mytest_add_sub i j = (let i = atomic_add i j; j = atomic_sub j i in [sint i, sint j])"

text \<open>Successive exchanges of one variable: the old value and the new one of each.\<close>

fun mytest_cas :: "u32 \<Rightarrow> (u32 \<times> u32) list \<Rightarrow> int list" where
  "mytest_cas a [] = []"
| "mytest_cas a ((expected, new) # xs) =
     (let (original, a) = compare_and_swap a expected new in sint original # sint a # mytest_cas a xs)"

definition mytest_cas_ptr :: "u64 \<Rightarrow> u64 \<Rightarrow> u64 \<Rightarrow> int list" where
  "mytest_cas_ptr u expected new = (let (original, u) = compare_and_swap_ptr u expected new in [sint original, sint u])"

definition mytest_add_ret_prev :: "u32 \<Rightarrow> u32 \<Rightarrow> int list" where
  "mytest_add_ret_prev x d = (let (prev, x) = atomic_add_ret_prev x d in [sint prev, sint x])"

definition mytest_main :: "int list" where
  "mytest_main = mytest_add_sub 7 10 @ mytest_cas 9 [(10, 17), (9, 17), (17, 23)] @ mytest_cas 1 [(1, 0), (1, 0)]
     @ mytest_cas_ptr 8 9 171 @ mytest_cas_ptr 9 9 171 @ mytest_add_ret_prev 10 1"

lemma mytest_output: "mytest_main = [17, - 7, 9, 9, 9, 17, 17, 23, 1, 0, 0, 0, 8, 8, 9, 171, 10, 11]"
  by code_simp

text \<open>
  An exchange happens exactly once however often it is tried, unless it restores the expected value:
  this is what makes the spin lock exclusive.
\<close>

lemma cas_once:
  assumes "new \<noteq> expected" and "compare_and_swap a expected new = (original, b)"
  shows "compare_and_swap b expected new = (b, b)"
  using assms by (auto simp: compare_and_swap_def split: if_splits)

end
