(* ===== verification/Spec2Isabelle.thy ===== *)
theory Spec2Isabelle
  imports PetListIter PetHlist PetHashIter PetThreadProps SchedLists ContextSwitchProps HarnessProps TlbProps
    PetmemModule PgMacros Donation FileIo SyncDriverProps RwLockProps LfQueueProps LfConcProps LfProgress
    ThreadMany ThreadDump ModuleTestProps DriverMain AtomicTest
begin

text \<open>
  A verification of the three C projects of the repository.

  \<^bold>\<open>The program.\<close>  \<open>src/Threads\<close> is a cooperative user-level thread library: a scheduler with ready and
  blocked lists, over an intrusive doubly linked list and a chained hash table.  \<open>src/VMproject\<close> is a
  kernel module: a buddy allocator for donated physical memory, a per-process map of virtual
  memory, and page tables that are filled by page faults and emptied on release, behind one
  device with ioctl requests, with a user library that reserves memory and answers segmentation faults, and
  a tool that takes memory blocks offline and donates them.  \<open>src/SyncProject\<close> has synchronisation primitives: atomic operations, a
  spin lock, a barrier, a reader-writer lock and a linked queue with compare-and-swap.

  \<^bold>\<open>Conventions (\<open>Prelude\<close>).\<close>  Machine integers are words of the width of the C type.  Memory that is
  aliased is a store from 64-bit addresses to optional cells.  \<open>'a res\<close> is \<open>fault + 'a\<close>: a bad
  dereference, a use after free, a failed assertion, a \<open>BUG_ON\<close> and an access out of bounds are values.
  \<open>'a run\<close> is \<open>'a res option\<close>, for loops that the types do not bound; \<open>None\<close> means that the loop does
  not end, and theorems about such loops state that the result is a proper one.  No fuel is used.
  The results of \<open>malloc\<close>, \<open>kmalloc\<close>, \<open>copy_from_user\<close> and the like are arguments, and so are \<open>__va\<close>,
  \<open>__pa\<close>, \<open>fls\<close>, \<open>get_order\<close> and the register CR3, with their documented meaning as hypotheses.

  \<^bold>\<open>Thread library.\<close>
  \<^item> \<open>PetList\<close> (\<open>pet_list.h\<close>): every operation on circular lists and both traversals, on the store of nodes.
    \<open>dlist s h xs\<close> says that the list at \<open>h\<close> has the nodes \<open>xs\<close>; each operation is characterised on \<open>xs\<close>, with
    what it leaves alone.  The locale \<open>intrusive_list\<close> is the queue interface, interpreted on the
    operations.  \<open>PetListIter\<close> has the iteration macros, over entries and safe against removal, with
    loop bodies as arguments; \<open>PetHlist\<close> the lists with a single head pointer, whose nodes point back at
    the cell that points at them, over a store of words.
  \<^item> \<open>PetHash\<close>, \<open>PetHashtable\<close>, \<open>PetHashInv\<close>, \<open>PetHashIter\<close> (\<open>pet_hashtable.c\<close>): hash functions, table, its
    invariant (\<open>htable_ok\<close>: each chain is acyclic, holds the entries of its bucket, the count is right)
    and the iterator.  The locale \<open>keyed_table\<close> is the contract of a finite map, interpreted on insert,
    remove and search.  Insertion covers the rehash, also when memory is not granted.
  \<^item> \<open>PetThread\<close>, \<open>PetThreadInv\<close>, \<open>PetThreadProps\<close> (\<open>pet_thread.c\<close>): the static variables as a record, one
    function per library call; \<open>thread_step\<close> is any call by the running thread.  \<open>sched_inv\<close> holds in every
    reachable state; scheduling is round robin; an exit releases the threads that joined.  A switch
    of context is the change of the running thread.
    \<open>ThreadDump\<close> has the functions that print the lists of threads.
  \<^item> \<open>SchedLists\<close>: the sequences of threads that this model keeps are implemented by the lists of \<open>PetList\<close> that
    go through the thread structures.
  \<^item> \<open>ContextSwitch\<close>, \<open>ContextSwitchProps\<close> (\<open>pet_thread_hw.S\<close>, the stack of \<open>pet_thread_create\<close>, \<open>__dump_stack\<close>): the assembly
    on registers, stack pointer and memory.  \<open>tstep\<close> is a thread that runs, switches, exits or creates
    another; a thread that is switched to goes on where it stopped, and a new one starts in its
    function.  The call of \<open>pet_thread_cleanup\<close> is an argument that keeps what the calling convention says.
  \<^item> \<open>ThreadTests\<close>, \<open>ThreadTestsProps\<close>, \<open>ThreadYield\<close>, \<open>ThreadMany\<close> (\<open>driver.c\<close>, \<open>tests/*.c\<close>): the programs of the library, each thread function
    a list of its calls and prints.  Threads that join each other in a chain, and threads that pass
    control up and down by yielding, complete with known output; \<open>test.c\<close> and \<open>test_many.c\<close> read a freed thread.

  \<^bold>\<open>Virtual memory.\<close>
  \<^item> \<open>Buddy\<close>, \<open>BuddyInv\<close>, \<open>BuddyProps\<close> (\<open>buddy.c\<close>): pools with free lists and tag bits.  \<open>buddy_inv mp L\<close> says that
    free blocks and the blocks \<open>L\<close> in use partition the pool, with no two free buddies left apart.
  \<^item> \<open>MemMap\<close>, \<open>MemMapInv\<close>, \<open>MemMapProps\<close> (the list part of \<open>on_demand.c\<close>): first fit allocation, release with
    merging, lookup, set-up and destruction of a process.
  \<^item> \<open>Allocator\<close>: the locale \<open>block_allocator\<close>, the contract that both allocators meet; histories of calls
    keep blocks disjoint.  It is interpreted on the buddy allocator and on the map of virtual memory.
  \<^item> \<open>PgTables\<close> (\<open>pgtables.h\<close>): index macros and the bit fields of every entry structure as layouts; \<open>PgMacros\<close>
    has the macros of the 32-bit modes and of large pages.
  \<^item> \<open>PageWalk\<close>, \<open>PageWalkInv\<close>, \<open>PageWalkProps\<close>: \<open>petmem_handle_pagefault\<close> and the walk that creates missing
    tables.  \<open>translate\<close> is the address translation of the processor and \<open>wf_tables\<close> says that the tables
    are a tree; a fault adds exactly one page to the translation.
  \<^item> \<open>FreeWalk\<close>, \<open>FreeWalkProps\<close>: the loop of \<open>petmem_free_vspace\<close> over the page tables, for a range inside one
    page table; \<open>FreeAcross\<close>: for a range that reaches into the next one.
  \<^item> \<open>PetmemMain\<close>, \<open>PetmemMainProps\<close> (\<open>main.c\<close>): pools of donated memory, requests for pages, and the ioctl
    dispatch that composes the components.  \<open>PetmemModule\<close>: loading and unloading the module, with the
    registrations of the kernel as sets; the memory of a pool (\<open>buddy_deinit\<close>); the stubs of \<open>swap.c\<close>.
  \<^item> \<open>Harness\<close>, \<open>HarnessProps\<close> (\<open>user/harness.c\<close>): \<open>pet_malloc\<close>, \<open>pet_free\<close> and the handler of segmentation
    faults on top of the device.  \<open>touch\<close> is an access of the process: the processor translates, and on a
    miss the handler runs.  The properties of the whole module below are about \<open>process_run\<close>, any
    sequence of reservations and accesses.
  \<^item> \<open>Tlb\<close>, \<open>TlbProps\<close> (\<open>invlpg\<close>, \<open>flush_tlb\<close> of \<open>petmem.h\<close> and their callers): the same process with the translation
    cache of the processor, which may load and drop entries at any time.  It is invisible as long as
    no memory is released; a released page stays accessible through it.
  \<^item> \<open>ModuleTest\<close>, \<open>ModuleTestProps\<close> (\<open>user/test.c\<close>): the test program of the module, on top of the user
    library, and what is left mapped at its end.
  \<^item> \<open>MemTool\<close>, \<open>MemToolProps\<close> (\<open>user/petmem.c\<close>): the search for a run of removable memory blocks, taking them
    offline and the range that is donated.  The files of \<open>/sys\<close> are arguments; a write to a state file is a
    function on the state of the kernel.  \<open>Donation\<close>: the tool and the module together, from the blocks that
    go offline to the pools of the allocator.
  \<^item> \<open>FileIo\<close> (\<open>file_io.c\<close>): recursive creation of directories and the file calls, over the operations of
    the kernel as a record of functions.

  \<^bold>\<open>Synchronisation\<close> (\<open>locking.c\<close>, \<open>driver.c\<close>).
  \<^item> \<open>Locking\<close>, \<open>LockProps\<close>: atomic operations, spin lock and barrier.  An access to shared memory is one
    step; any number of threads interleave.  The locale \<open>trylock\<close> is the contract of the lock.
  \<^item> \<open>RwLock\<close>, \<open>RwLockProps\<close>: the reader-writer lock, with its two locks in a store so that a corrupted
    pointer is visible.
  \<^item> \<open>LfQueue\<close>, \<open>LfQueueProps\<close>: the linked queue, each call running alone; the locale \<open>fifo\<close> is its contract.
  \<^item> \<open>LfConc\<close>, \<open>LfConcProps\<close>: the same calls by any number of threads, one access to shared memory per step.
    Every value that is dequeued was enqueued, in the order of the successful compare-and-swaps.
    \<open>LfProgress\<close>: the number of steps without progress is bounded by a potential, so that the queue is
    lock-free.
  \<^item> \<open>SyncDriver\<close>, \<open>SyncDriverProps\<close>: the first three exercises of the driver, threads that count with the
    atomic operations, between barriers, and under the spin lock.  \<open>RwDriver\<close>, \<open>QueueDriver\<close> and their
    properties: the tests of the reader-writer lock and of the queue, as clients of these components.
    \<open>DriverMain\<close>: the main function, which runs the five tests in turn and prints their verdicts.
  \<^item> \<open>AtomicTest\<close> (\<open>mytest.c\<close>): what the program prints that tries the atomic operations.

  \<^bold>\<open>Bounds.\<close>  The barrier is for fewer than \<open>2 ^ 32\<close> threads and the reader-writer lock for fewer than
  \<open>2 ^ 31\<close>, so that the 32-bit counters do not confuse threads; the round counter of the barrier may
  wrap.  Pools end below \<open>2 ^ 64\<close>; \<open>ADD_MEMORY\<close> is for fewer than \<open>2 ^ 31\<close> pages, where its \<open>int\<close> shifts are
  defined.  A page fault needs at most four new pages.

  \<^bold>\<open>What goes wrong in the code\<close> is stated as theorems too: \<open>stopped\<close> dangles after an exit, which \<open>test.c\<close> and \<open>test_many.c\<close> of the
  threads run into; a join by the master breaks the scheduler; the fallback of the rehash writes
  through garbage; destruction of a process with live memory deletes a node twice; a release
  unmaps one page too many, faults on memory never touched, and does not unmap what lies in a
  second page table, so that the test of the module leaves a page behind; a huge request is
  granted with no pages; a request larger than the smallest pool hits \<open>BUG_ON\<close>; a reader's release
  corrupts the lock, so that the driver never completes; a freshly initialised queue loses its
  values, which its test does not notice; released memory stays accessible through the translation
  cache; \<open>pet_thread_cleanup\<close> is called on a misaligned stack; \<open>__dump_stack\<close> reads behind the stack; a
  module whose device could not be added loads.

  \<^bold>\<open>Not modelled.\<close>  Logging, which has no effect on the state (\<open>pet_log.c\<close>); the branches of \<open>file_io.c\<close> for
  older kernels; the pinning of threads to processors; the caches of the processor other than that of translations.
\<close>

section \<open>Properties of the whole module\<close>

text \<open>
  C2: every byte of every buffer that \<open>pet_malloc\<close> has returned is usable: an access to it, whether its page
  is present already or is filled in by the handler of page faults, leaves the process alive with
  the byte mapped, and changes no other page.  The hypotheses say that the process starts with
  well-formed page tables and that the kernel has four free pages.
\<close>

theorem malloced_memory_usable:
  assumes "process_run K p0 p G" and "\<not> killed p0"
    and "walk_ok (k_va K) (k_pa K) (table_root K) (kern (device p0))"
    and "frames_ok (k_va K) (k_pa K) (table_root K) (kern (device p0))"
    and "(v, n) \<in> G" and "v \<le> unat x" and "unat x < v + n" and "4 \<le> length (kpages (kern (device p)))"
  shows "\<exists>p'. touch K buf x p = ret p' \<and> \<not> killed p' \<and> frame K p' x \<noteq> None
           \<and> (\<forall>y < 0x1000000000000. \<not> same_page x y \<longrightarrow> frame K p' y = frame K p y)"
proof -
  from process_run_inv [OF assms(1-4)] obtain L where L: "process_inv K p L" "buffers_ok L G" by blast
  from buffer_span [OF L(2) assms(5)] obtain r where r: "r \<in> L" "span (v, n) \<subseteq> span r" by blast
  then have x: "unat x \<in> span r" using assms(6,7) by (auto simp: span_def)
  show ?thesis
  proof (cases "frame K p x = None")
    case True
    show ?thesis using touch_live [OF L(1) r(1) x assms(8) True, of buf] by (metis process_inv_def)
  next
    case False
    then show ?thesis using L(1) by (simp add: touch_def process_inv_def)
  qed
qed

theorem malloced_memory_usable_witness:
  "\<exists>p'. touch kern0 0 0x1000001387 proc2 = ret p' \<and> \<not> killed p' \<and> frame kern0 p' 0x1000001387 \<noteq> None"
proof -
  have "4 \<le> length (kpages (kern (device proc2)))" by (simp add: proc2_empty)
  from malloced_memory_usable [OF proc2_run proc0_ok, of 68719476736 5000 "0x1000001387" 0] this show ?thesis by auto
qed





end
